(* ===== verification/Prelude.thy ===== *)
theory Prelude
  imports Main "HOL-Library.Word" "HOL-Library.Monad_Syntax"
begin

unbundle bit_operations_syntax

text \<open>
  Shared vocabulary of the development: the C++ scalar types the controller is written with, the
  meaning of \<open>assert\<close>, and the facts about lists, options and 64-bit addresses that the component
  theories use.

  Conventions. A C++ function that may stop at an \<open>assert\<close>, at a \<open>panic\<close> or at a read outside a
  vector is a HOL function into \<open>option\<close>; \<open>None\<close> is that abort. C++ \<open>uint64_t\<close> (and \<open>int64_t\<close>, read
  with signed comparison) is \<open>64 word\<close>. C++ \<open>int\<close> is \<open>int\<close>; where the source shifts or multiplies
  \<open>int\<close> values into an address the 32-bit wrap-around is written out with \<open>int32\<close>.
\<close>

section \<open>Scalar types\<close>

type_synonym Addr = "64 word"
type_synonym Tag = "64 word"
type_synonym byte = "8 word"

definition EINVAL :: int where
  "EINVAL = 22"

text \<open>The value a 32-bit \<open>int\<close> expression has when its exact result is \<open>x\<close>.\<close>

definition int32 :: "int \<Rightarrow> int" where
  "int32 x = signed_take_bit 31 x"

text \<open>The constant \<open>INVAL_ADDR\<close>: the largest \<open>uint64_t\<close>.\<close>

definition INVAL_ADDR :: Addr where
  "INVAL_ADDR = - 1"

section \<open>Assertions\<close>

definition cassert :: "bool \<Rightarrow> unit option" where
  "cassert P = (if P then Some () else None)"

named_theorems run_simps \<open>equations that execute a C++ function once its guards are known\<close>

lemma cassert_True [simp]: "cassert True = Some ()"
  by (simp add: cassert_def)

lemma cassert_False [simp]: "cassert False = None"
  by (simp add: cassert_def)

lemma cassert_eq_Some [simp]: "cassert P = Some u \<longleftrightarrow> P"
  by (simp add: cassert_def)

lemma cassert_holds [run_simps]: "P \<Longrightarrow> cassert P = Some ()"
  by simp

lemma EINVAL_neg [simp]: "- EINVAL < 0"
  by (simp add: EINVAL_def)

lemma nonneg_not_EINVAL [simp]: "0 \<le> i \<Longrightarrow> i \<noteq> - EINVAL"
  by (auto simp: EINVAL_def)

lemma int32_id: "- (2 ^ 31) \<le> x \<Longrightarrow> x < 2 ^ 31 \<Longrightarrow> int32 x = x"
  unfolding int32_def by (rule signed_take_bit_int_eq_self) simp_all

section \<open>Lists\<close>

definition hd_or :: "'a \<Rightarrow> 'a list \<Rightarrow> 'a" where
  "hd_or d xs = (case xs of [] \<Rightarrow> d | x # _ \<Rightarrow> x)"

definition last_or :: "'a \<Rightarrow> 'a list \<Rightarrow> 'a" where
  "last_or d xs = (if xs = [] then d else last xs)"

lemma hd_or_simps [simp]: "hd_or d [] = d" "hd_or d (x # xs) = x"
  by (simp_all add: hd_or_def)

lemma last_or_simps [simp]:
  "last_or d [] = d" "last_or d (xs @ [x]) = x" "last_or d (x # xs) = last_or x xs"
  by (simp_all add: last_or_def)

lemma last_or_append [simp]: "last_or d (xs @ ys) = last_or (last_or d xs) ys"
  by (simp add: last_or_def)

lemma hd_or_append [simp]: "hd_or d (xs @ ys) = hd_or (hd_or d ys) xs"
  by (cases xs) simp_all

lemma hd_or_in_set: "xs \<noteq> [] \<Longrightarrow> hd_or d xs \<in> set xs"
  by (cases xs) simp_all

lemma last_or_in_set: "xs \<noteq> [] \<Longrightarrow> last_or d xs \<in> set xs"
  by (simp add: last_or_def)

section \<open>Words\<close>

lemma unat_drop: "unat (drop_bit n (x :: 64 word)) = unat x div 2 ^ n"
proof -
  have "unat (drop_bit n x) = drop_bit n (take_bit LENGTH(64) (unat x))" by (rule unsigned_drop_bit_eq)
  also have "take_bit LENGTH(64) (unat x) = unat x" by (rule take_bit_nat_eq_self [OF unsigned_less])
  also have "drop_bit n (unat x) = unat x div 2 ^ n" by (rule drop_bit_eq_div)
  finally show ?thesis .
qed

lemma unat_of_nat_small: "n < 2 ^ LENGTH('a) \<Longrightarrow> unat (of_nat n :: 'a::len word) = n"
  by (simp add: unsigned_of_nat take_bit_nat_eq_self)

lemma unat_pow2: "k < LENGTH('a) \<Longrightarrow> unat ((2 :: 'a::len word) ^ k) = 2 ^ k"
  using unat_of_nat_small [of "2 ^ k", where 'a = 'a] by simp

end
