(* ===== verification/Requests.thy ===== *)
theory Requests
  imports Prelude
begin

text \<open>
  Requests, \<open>src/gem5-stable/src/mem/request.hh\<close>, and the flag sets of \<open>src/gem5-stable/src/base/flags.hh\<close>. The members a
  constructor leaves uninitialised are those of an arbitrary record \<open>raw\<close>; an accessor whose validity assertion fails is
  \<open>None\<close>. \<open>curTick()\<close> is the argument \<open>now\<close>.
\<close>

section \<open>Flag sets\<close>

definition flags_isSet :: "'a::len word \<Rightarrow> 'a word \<Rightarrow> bool" where
  "flags_isSet f m \<longleftrightarrow> f AND m \<noteq> 0"

definition flags_allSet :: "'a::len word \<Rightarrow> 'a word \<Rightarrow> bool" where
  "flags_allSet f m \<longleftrightarrow> f AND m = m"

definition flags_noneSet :: "'a::len word \<Rightarrow> 'a word \<Rightarrow> bool" where
  "flags_noneSet f m \<longleftrightarrow> f AND m = 0"

definition flags_clear :: "'a::len word \<Rightarrow> 'a word \<Rightarrow> 'a word" where
  "flags_clear m f = f AND NOT m"

definition flags_set :: "'a::len word \<Rightarrow> 'a word \<Rightarrow> 'a word" where
  "flags_set m f = f OR m"

definition flags_set_to :: "'a::len word \<Rightarrow> bool \<Rightarrow> 'a word \<Rightarrow> 'a word" where
  "flags_set_to m val f = (f AND NOT m) OR (if val then m else 0)"

definition flags_update :: "'a::len word \<Rightarrow> 'a word \<Rightarrow> 'a word \<Rightarrow> 'a word" where
  "flags_update v m f = (f AND NOT m) OR (v AND m)"

lemma isSet_set: "flags_isSet (flags_set m f) n \<longleftrightarrow> flags_isSet f n \<or> flags_isSet m n"
  by (simp add: flags_isSet_def flags_set_def bit.conj_disj_distrib2 or_eq_0_iff)

lemma isSet_clear: "flags_isSet (flags_clear m f) n \<longleftrightarrow> flags_isSet f (n AND NOT m)"
  by (simp add: flags_isSet_def flags_clear_def ac_simps)

lemma noneSet_iff: "flags_noneSet f m \<longleftrightarrow> \<not> flags_isSet f m"
  by (simp add: flags_isSet_def flags_noneSet_def)

lemma allSet_isSet: "flags_allSet f m \<Longrightarrow> m \<noteq> 0 \<Longrightarrow> flags_isSet f m"
  by (simp add: flags_isSet_def flags_allSet_def)

text \<open>\<open>update\<close> changes exactly the bits of the mask.\<close>

lemma bit_flags_update: "bit (flags_update v m f) i \<longleftrightarrow> (if bit m i then bit v i else bit f i)"
proof -
  have "i < LENGTH('a)" if "bit f i" using that by (rule bit_imp_le_length)
  then show ?thesis by (auto simp: flags_update_def bit_simps)
qed

lemma set_to_update: "flags_set_to m val f = flags_update (if val then m else 0) m f"
  by (simp add: flags_set_to_def flags_update_def)

section \<open>Requests\<close>

type_synonym MasterID = "16 word"
type_synonym Tick = "64 word"

record Request =
  rq_paddr :: Addr
  rq_size :: int
  rq_masterId :: MasterID
  rq_flags :: "32 word"
  rq_private :: "8 word"
  rq_time :: Tick
  rq_asid :: int
  rq_vaddr :: Addr
  rq_extraData :: "64 word"
  rq_contextId :: int
  rq_threadId :: int
  rq_pc :: Addr

named_theorems request_flags \<open>values of the flag constants\<close>

definition INST_FETCH :: "32 word" where [request_flags]: "INST_FETCH = 0x100"
definition UNCACHEABLE :: "32 word" where [request_flags]: "UNCACHEABLE = 0x1000"
definition MMAPPED_IPR :: "32 word" where [request_flags]: "MMAPPED_IPR = 0x2000"
definition CLEAR_LL :: "32 word" where [request_flags]: "CLEAR_LL = 0x4000"
definition PRIVILEGED :: "32 word" where [request_flags]: "PRIVILEGED = 0x8000"
definition LOCKED :: "32 word" where [request_flags]: "LOCKED = 0x100000"
definition LLSC :: "32 word" where [request_flags]: "LLSC = 0x200000"
definition MEM_SWAP :: "32 word" where [request_flags]: "MEM_SWAP = 0x400000"
definition MEM_SWAP_COND :: "32 word" where [request_flags]: "MEM_SWAP_COND = 0x800000"
definition PREFETCH :: "32 word" where [request_flags]: "PREFETCH = 0x1000000"
definition ARCH_BITS :: "32 word" where [request_flags]: "ARCH_BITS = 0xff"
definition STICKY_FLAGS :: "32 word" where [request_flags]: "STICKY_FLAGS = INST_FETCH"

definition RQ_VALID_SIZE :: "8 word" where [request_flags]: "RQ_VALID_SIZE = 1"
definition VALID_PADDR :: "8 word" where [request_flags]: "VALID_PADDR = 2"
definition VALID_VADDR :: "8 word" where [request_flags]: "VALID_VADDR = 4"
definition VALID_PC :: "8 word" where [request_flags]: "VALID_PC = 0x10"
definition VALID_CONTEXT_ID :: "8 word" where [request_flags]: "VALID_CONTEXT_ID = 0x20"
definition VALID_THREAD_ID :: "8 word" where [request_flags]: "VALID_THREAD_ID = 0x40"
definition VALID_EXTRA_DATA :: "8 word" where [request_flags]: "VALID_EXTRA_DATA = 0x80"
definition STICKY_PRIVATE_FLAGS :: "8 word" where [request_flags]: "STICKY_PRIVATE_FLAGS = VALID_CONTEXT_ID OR VALID_THREAD_ID"

definition Request_init :: "Request \<Rightarrow> Request" where
  "Request_init raw = raw\<lparr>rq_flags := 0, rq_private := 0\<rparr>"

definition setThreadContext :: "int \<Rightarrow> int \<Rightarrow> Request \<Rightarrow> Request" where
  "setThreadContext context_id tid r = r\<lparr>rq_contextId := context_id, rq_threadId := tid,
     rq_private := flags_set (VALID_CONTEXT_ID OR VALID_THREAD_ID) (rq_private r)\<rparr>"

definition setPhys :: "Addr \<Rightarrow> int \<Rightarrow> 32 word \<Rightarrow> MasterID \<Rightarrow> Tick \<Rightarrow> Request \<Rightarrow> Request option" where
  "setPhys paddr sz flags mid time r = do {
     cassert (0 \<le> sz);
     Some (r\<lparr>rq_paddr := paddr, rq_size := sz, rq_time := time, rq_masterId := mid,
       rq_flags := flags_set flags (flags_clear (NOT STICKY_FLAGS) (rq_flags r)),
       rq_private := flags_set (VALID_PADDR OR RQ_VALID_SIZE) (flags_clear (NOT STICKY_PRIVATE_FLAGS) (rq_private r))\<rparr>) }"

definition setVirt :: "int \<Rightarrow> Addr \<Rightarrow> int \<Rightarrow> 32 word \<Rightarrow> MasterID \<Rightarrow> Addr \<Rightarrow> Tick \<Rightarrow> Request \<Rightarrow> Request option" where
  "setVirt asid vaddr sz flags mid pc now r = do {
     cassert (0 \<le> sz);
     Some (r\<lparr>rq_asid := asid, rq_vaddr := vaddr, rq_size := sz, rq_masterId := mid, rq_pc := pc, rq_time := now,
       rq_flags := flags_set flags (flags_clear (NOT STICKY_FLAGS) (rq_flags r)),
       rq_private := flags_set (VALID_VADDR OR RQ_VALID_SIZE OR VALID_PC)
                       (flags_clear (NOT STICKY_PRIVATE_FLAGS) (rq_private r))\<rparr>) }"

definition Request_phys :: "Request \<Rightarrow> Addr \<Rightarrow> int \<Rightarrow> 32 word \<Rightarrow> MasterID \<Rightarrow> Tick \<Rightarrow> Request option" where
  "Request_phys raw paddr sz flags mid time = setPhys paddr sz flags mid time (Request_init raw)"

definition Request_phys_pc :: "Request \<Rightarrow> Addr \<Rightarrow> int \<Rightarrow> 32 word \<Rightarrow> MasterID \<Rightarrow> Tick \<Rightarrow> Addr \<Rightarrow> Request option" where
  "Request_phys_pc raw paddr sz flags mid time pc = do {
     r \<leftarrow> setPhys paddr sz flags mid time (Request_init raw);
     Some (r\<lparr>rq_private := flags_set VALID_PC (rq_private r), rq_pc := pc\<rparr>) }"

definition Request_virt ::
  "Request \<Rightarrow> int \<Rightarrow> Addr \<Rightarrow> int \<Rightarrow> 32 word \<Rightarrow> MasterID \<Rightarrow> Addr \<Rightarrow> int \<Rightarrow> int \<Rightarrow> Tick \<Rightarrow> Request option" where
  "Request_virt raw asid vaddr sz flags mid pc cid tid now = do {
     r \<leftarrow> setVirt asid vaddr sz flags mid pc now (Request_init raw);
     Some (setThreadContext cid tid r) }"

definition setPaddr :: "Addr \<Rightarrow> Request \<Rightarrow> Request" where
  "setPaddr paddr r = r\<lparr>rq_paddr := paddr, rq_private := flags_set VALID_PADDR (rq_private r)\<rparr>"

text \<open>The sizes of the two pieces are narrowed to \<open>int\<close>.\<close>

definition splitOnVaddr :: "Addr \<Rightarrow> Request \<Rightarrow> (Request \<times> Request) option" where
  "splitOnVaddr split_addr r = do {
     cassert (flags_isSet (rq_private r) VALID_VADDR);
     cassert (flags_noneSet (rq_private r) VALID_PADDR);
     cassert (rq_vaddr r < split_addr \<and> split_addr < rq_vaddr r + word_of_int (rq_size r));
     let size1 = int32 (uint (split_addr - rq_vaddr r));
     Some (r\<lparr>rq_size := size1\<rparr>, r\<lparr>rq_vaddr := split_addr, rq_size := int32 (rq_size r - size1)\<rparr>) }"

section \<open>Accessors\<close>

definition hasPaddr :: "Request \<Rightarrow> bool" where
  "hasPaddr r \<longleftrightarrow> flags_isSet (rq_private r) VALID_PADDR"

definition getPaddr :: "Request \<Rightarrow> Addr option" where
  "getPaddr r = do { cassert (flags_isSet (rq_private r) VALID_PADDR); Some (rq_paddr r) }"

definition hasSize :: "Request \<Rightarrow> bool" where
  "hasSize r \<longleftrightarrow> flags_isSet (rq_private r) RQ_VALID_SIZE"

definition rq_getSize :: "Request \<Rightarrow> int option" where
  "rq_getSize r = do { cassert (flags_isSet (rq_private r) RQ_VALID_SIZE); Some (rq_size r) }"

definition rq_get_time :: "Request \<Rightarrow> Tick option" where
  "rq_get_time r = do { cassert (flags_isSet (rq_private r) (VALID_PADDR OR VALID_VADDR)); Some (rq_time r) }"

definition rq_set_time :: "Tick \<Rightarrow> Request \<Rightarrow> Request option" where
  "rq_set_time t r = do { cassert (flags_isSet (rq_private r) (VALID_PADDR OR VALID_VADDR)); Some (r\<lparr>rq_time := t\<rparr>) }"

definition getFlags :: "Request \<Rightarrow> 32 word option" where
  "getFlags r = do { cassert (flags_isSet (rq_private r) (VALID_PADDR OR VALID_VADDR)); Some (rq_flags r) }"

definition setFlags :: "32 word \<Rightarrow> Request \<Rightarrow> Request option" where
  "setFlags flags r = do {
     cassert (flags_isSet (rq_private r) (VALID_PADDR OR VALID_VADDR));
     Some (r\<lparr>rq_flags := flags_set flags (rq_flags r)\<rparr>) }"

definition setArchFlags :: "32 word \<Rightarrow> Request \<Rightarrow> Request option" where
  "setArchFlags flags r = do {
     cassert (flags_isSet (rq_private r) (VALID_PADDR OR VALID_VADDR));
     Some (r\<lparr>rq_flags := flags_set (flags AND ARCH_BITS) (rq_flags r)\<rparr>) }"

definition getVaddr :: "Request \<Rightarrow> Addr option" where
  "getVaddr r = do { cassert (flags_isSet (rq_private r) VALID_VADDR); Some (rq_vaddr r) }"

definition getAsid :: "Request \<Rightarrow> int option" where
  "getAsid r = do { cassert (flags_isSet (rq_private r) VALID_VADDR); Some (rq_asid r) }"

definition getArchFlags :: "Request \<Rightarrow> 8 word option" where
  "getArchFlags r = do {
     cassert (flags_isSet (rq_private r) (VALID_PADDR OR VALID_VADDR));
     Some (ucast (rq_flags r AND ARCH_BITS)) }"

definition extraDataValid :: "Request \<Rightarrow> bool" where
  "extraDataValid r \<longleftrightarrow> flags_isSet (rq_private r) VALID_EXTRA_DATA"

definition getExtraData :: "Request \<Rightarrow> 64 word option" where
  "getExtraData r = do { cassert (flags_isSet (rq_private r) VALID_EXTRA_DATA); Some (rq_extraData r) }"

definition setExtraData :: "64 word \<Rightarrow> Request \<Rightarrow> Request" where
  "setExtraData x r = r\<lparr>rq_extraData := x, rq_private := flags_set VALID_EXTRA_DATA (rq_private r)\<rparr>"

definition contextId :: "Request \<Rightarrow> int option" where
  "contextId r = do { cassert (flags_isSet (rq_private r) VALID_CONTEXT_ID); Some (rq_contextId r) }"

definition threadId :: "Request \<Rightarrow> int option" where
  "threadId r = do { cassert (flags_isSet (rq_private r) VALID_THREAD_ID); Some (rq_threadId r) }"

definition getPC :: "Request \<Rightarrow> Addr option" where
  "getPC r = do { cassert (flags_isSet (rq_private r) VALID_PC); Some (rq_pc r) }"

definition isUncacheable :: "Request \<Rightarrow> bool" where "isUncacheable r \<longleftrightarrow> flags_isSet (rq_flags r) UNCACHEABLE"
definition isInstFetch :: "Request \<Rightarrow> bool" where "isInstFetch r \<longleftrightarrow> flags_isSet (rq_flags r) INST_FETCH"
definition isPrefetch :: "Request \<Rightarrow> bool" where "isPrefetch r \<longleftrightarrow> flags_isSet (rq_flags r) PREFETCH"
definition rq_isLLSC :: "Request \<Rightarrow> bool" where "rq_isLLSC r \<longleftrightarrow> flags_isSet (rq_flags r) LLSC"
definition isPriv :: "Request \<Rightarrow> bool" where "isPriv r \<longleftrightarrow> flags_isSet (rq_flags r) PRIVILEGED"
definition isLocked :: "Request \<Rightarrow> bool" where "isLocked r \<longleftrightarrow> flags_isSet (rq_flags r) LOCKED"
definition isSwap :: "Request \<Rightarrow> bool" where "isSwap r \<longleftrightarrow> flags_isSet (rq_flags r) (MEM_SWAP OR MEM_SWAP_COND)"
definition isCondSwap :: "Request \<Rightarrow> bool" where "isCondSwap r \<longleftrightarrow> flags_isSet (rq_flags r) MEM_SWAP_COND"
definition isMmappedIpr :: "Request \<Rightarrow> bool" where "isMmappedIpr r \<longleftrightarrow> flags_isSet (rq_flags r) MMAPPED_IPR"
definition isClearLL :: "Request \<Rightarrow> bool" where "isClearLL r \<longleftrightarrow> flags_isSet (rq_flags r) CLEAR_LL"

lemmas request_get_defs = hasPaddr_def getPaddr_def hasSize_def rq_getSize_def rq_get_time_def getFlags_def getVaddr_def
  getAsid_def getArchFlags_def extraDataValid_def getExtraData_def contextId_def threadId_def getPC_def

section \<open>Which accessors answer\<close>

lemma isSet_zero [simp]: "\<not> flags_isSet 0 m" "\<not> flags_isSet f 0"
  by (simp_all add: flags_isSet_def)

lemma sticky_fetch: "flags_set fl (flags_clear (- 257) f) = fl OR (f AND 0x100)"
  by (simp add: flags_set_def flags_clear_def or.commute)

lemma isSet_numeral: "flags_isSet (numeral m) (numeral n :: 'a::len word) \<longleftrightarrow> (numeral m AND numeral n :: 'a word) \<noteq> 0"
  "flags_isSet (numeral m) (1 :: 'a::len word) \<longleftrightarrow> (numeral m AND 1 :: 'a word) \<noteq> 0"
  by (simp_all add: flags_isSet_def)

lemmas validity = request_get_defs isSet_set isSet_clear sticky_fetch request_flags isSet_numeral

text \<open>
  A request object that is set up again answers for its new address and for nothing that belonged to the old one: only
  the context, the thread and the instruction-fetch flag stay.
\<close>

lemma setPhys_ok:
  assumes "0 \<le> sz"
  shows "\<exists>r'. setPhys a sz fl mid t r = Some r' \<and> getPaddr r' = Some a \<and> rq_getSize r' = Some sz \<and> rq_get_time r' = Some t \<and>
    rq_masterId r' = mid \<and> getVaddr r' = None \<and> getExtraData r' = None \<and> getPC r' = None \<and> contextId r' = contextId r \<and>
    threadId r' = threadId r \<and> getFlags r' = Some (fl OR (rq_flags r AND INST_FETCH))"
  using assms by (simp add: setPhys_def validity)

lemma setVirt_ok:
  assumes "0 \<le> sz"
  shows "\<exists>r'. setVirt asid a sz fl mid pc now r = Some r' \<and> getVaddr r' = Some a \<and> getAsid r' = Some asid \<and> rq_getSize r' = Some sz \<and>
    rq_get_time r' = Some now \<and> rq_masterId r' = mid \<and> getPC r' = Some pc \<and> getPaddr r' = None \<and> getExtraData r' = None \<and>
    contextId r' = contextId r \<and> threadId r' = threadId r \<and> getFlags r' = Some (fl OR (rq_flags r AND INST_FETCH))"
  using assms by (simp add: setVirt_def validity)

section \<open>Splitting\<close>

text \<open>The virtual addresses of a request whose range does not wrap around the address space.\<close>

definition vcovers :: "Request \<Rightarrow> Addr \<Rightarrow> bool" where
  "vcovers r a \<longleftrightarrow> uint (rq_vaddr r) \<le> uint a \<and> uint a < uint (rq_vaddr r) + rq_size r"

lemma split_runs:
  assumes v: "getVaddr r = Some a" "getPaddr r = None" and sz: "0 \<le> rq_size r" "rq_size r < 2 ^ 31" "uint a + rq_size r < 2 ^ 64"
    and b: "uint a < uint x" "uint x < uint a + rq_size r"
  shows "splitOnVaddr x r = Some (r\<lparr>rq_size := uint x - uint a\<rparr>, r\<lparr>rq_vaddr := x, rq_size := uint a + rq_size r - uint x\<rparr>)"
proof -
  have f: "flags_isSet (rq_private r) VALID_VADDR" "rq_vaddr r = a" "flags_noneSet (rq_private r) VALID_PADDR"
    using v by (auto simp: getVaddr_def getPaddr_def noneSet_iff cassert_def split: if_splits)
  have s: "uint (word_of_int (rq_size r) :: Addr) = rq_size r" using sz by (simp add: uint_word_of_int)
  then have e: "uint (a + word_of_int (rq_size r)) = uint a + rq_size r" using sz by (simp add: uint_add_lem [THEN iffD1])
  have d: "uint (x - a) = uint x - uint a" using b(1) by (simp add: uint_sub_lem [THEN iffD1] less_imp_le)
  have "int32 (uint x - uint a) = uint x - uint a" "int32 (rq_size r - (uint x - uint a)) = uint a + rq_size r - uint x"
    using b sz by (simp_all add: int32_id)
  moreover have "a < x" "x < a + word_of_int (rq_size r)" using b e by (simp_all add: word_less_def)
  ultimately show ?thesis by (simp add: splitOnVaddr_def f d)
qed

lemma split_partition:
  assumes v: "getVaddr r = Some a" "getPaddr r = None" and sz: "0 \<le> rq_size r" "rq_size r < 2 ^ 31" "uint a + rq_size r < 2 ^ 64"
    and b: "uint a < uint x" "uint x < uint a + rq_size r"
  shows "\<exists>r1 r2. splitOnVaddr x r = Some (r1, r2) \<and> (\<forall>y. vcovers r y \<longleftrightarrow> vcovers r1 y \<noteq> vcovers r2 y) \<and>
    0 < rq_size r1 \<and> 0 < rq_size r2 \<and> rq_size r1 + rq_size r2 = rq_size r"
proof -
  have "rq_vaddr r = a" using v by (simp add: getVaddr_def cassert_def split: if_splits)
  then show ?thesis using split_runs [OF assms] b by (auto simp: vcovers_def)
qed

end
