(* ===== verification/Mem_Cmds.thy ===== *)
theory Mem_Cmds
  imports Prelude
begin

text \<open>
  The memory commands: \<open>MemCmd\<close> of \<open>src/gem5-stable/src/mem/packet.hh\<close> and its table in \<open>packet.cc\<close>, with the laws the
  memory system relies on when it turns a request into a response.
\<close>

section \<open>Definitions\<close>

datatype MemCmd =
    InvalidCmd | ReadReq | ReadResp | ReadRespWithInvalidate | WriteReq | WriteResp
  | Writeback | SoftPFReq | HardPFReq | SoftPFResp | HardPFResp | WriteInvalidateReq
  | WriteInvalidateResp | UpgradeReq | SCUpgradeReq | UpgradeResp | SCUpgradeFailReq | UpgradeFailResp
  | ReadExReq | ReadExResp | LoadLockedReq | StoreCondReq | StoreCondFailReq | StoreCondResp
  | SwapReq | SwapResp | MessageReq | MessageResp | InvalidDestError | BadAddressError
  | FunctionalReadError | FunctionalWriteError | PrintReq | FlushReq | InvalidationReq

datatype Attribute =
    IsRead | IsWrite | IsUpgrade | IsInvalidate | NeedsExclusive | IsRequest
  | IsResponse | NeedsResponse | IsSWPrefetch | IsHWPrefetch | IsLlsc | HasData
  | IsError | IsPrint | IsFlush

record CommandInfo =
  attributes :: "Attribute list"
  response :: MemCmd
  str :: string

text \<open>The table of commands. A bitset of attributes is the list of its members.\<close>

primrec commandInfo :: "MemCmd \<Rightarrow> CommandInfo" where
  "commandInfo InvalidCmd = \<lparr>attributes = [], response = InvalidCmd, str = ''InvalidCmd''\<rparr>"
| "commandInfo ReadReq = \<lparr>attributes = [IsRead, IsRequest, NeedsResponse], response = ReadResp, str = ''ReadReq''\<rparr>"
| "commandInfo ReadResp = \<lparr>attributes = [IsRead, IsResponse, HasData], response = InvalidCmd, str = ''ReadResp''\<rparr>"
| "commandInfo ReadRespWithInvalidate = \<lparr>attributes = [IsRead, IsResponse, HasData, IsInvalidate], response = InvalidCmd, str = ''ReadRespWithInvalidate''\<rparr>"
| "commandInfo WriteReq = \<lparr>attributes = [IsWrite, NeedsExclusive, IsRequest, NeedsResponse, HasData], response = WriteResp, str = ''WriteReq''\<rparr>"
| "commandInfo WriteResp = \<lparr>attributes = [IsWrite, NeedsExclusive, IsResponse], response = InvalidCmd, str = ''WriteResp''\<rparr>"
| "commandInfo Writeback = \<lparr>attributes = [IsWrite, NeedsExclusive, IsRequest, HasData], response = InvalidCmd, str = ''Writeback''\<rparr>"
| "commandInfo SoftPFReq = \<lparr>attributes = [IsRead, IsRequest, IsSWPrefetch, NeedsResponse], response = SoftPFResp, str = ''SoftPFReq''\<rparr>"
| "commandInfo HardPFReq = \<lparr>attributes = [IsRead, IsRequest, IsHWPrefetch, NeedsResponse], response = HardPFResp, str = ''HardPFReq''\<rparr>"
| "commandInfo SoftPFResp = \<lparr>attributes = [IsRead, IsResponse, IsSWPrefetch, HasData], response = InvalidCmd, str = ''SoftPFResp''\<rparr>"
| "commandInfo HardPFResp = \<lparr>attributes = [IsRead, IsResponse, IsHWPrefetch, HasData], response = InvalidCmd, str = ''HardPFResp''\<rparr>"
| "commandInfo WriteInvalidateReq = \<lparr>attributes = [IsWrite, NeedsExclusive, IsInvalidate, IsRequest, HasData, NeedsResponse], response = WriteInvalidateResp, str = ''WriteInvalidateReq''\<rparr>"
| "commandInfo WriteInvalidateResp = \<lparr>attributes = [IsWrite, NeedsExclusive, IsResponse], response = InvalidCmd, str = ''WriteInvalidateResp''\<rparr>"
| "commandInfo UpgradeReq = \<lparr>attributes = [IsInvalidate, NeedsExclusive, IsUpgrade, IsRequest, NeedsResponse], response = UpgradeResp, str = ''UpgradeReq''\<rparr>"
| "commandInfo SCUpgradeReq = \<lparr>attributes = [IsInvalidate, NeedsExclusive, IsUpgrade, IsLlsc, IsRequest, NeedsResponse], response = UpgradeResp, str = ''SCUpgradeReq''\<rparr>"
| "commandInfo UpgradeResp = \<lparr>attributes = [NeedsExclusive, IsUpgrade, IsResponse], response = InvalidCmd, str = ''UpgradeResp''\<rparr>"
| "commandInfo SCUpgradeFailReq = \<lparr>attributes = [IsInvalidate, NeedsExclusive, IsLlsc, IsRequest, NeedsResponse], response = UpgradeFailResp, str = ''SCUpgradeFailReq''\<rparr>"
| "commandInfo UpgradeFailResp = \<lparr>attributes = [NeedsExclusive, IsResponse], response = InvalidCmd, str = ''UpgradeFailResp''\<rparr>"
| "commandInfo ReadExReq = \<lparr>attributes = [IsRead, NeedsExclusive, IsInvalidate, IsRequest, NeedsResponse], response = ReadExResp, str = ''ReadExReq''\<rparr>"
| "commandInfo ReadExResp = \<lparr>attributes = [IsRead, NeedsExclusive, IsResponse, HasData], response = InvalidCmd, str = ''ReadExResp''\<rparr>"
| "commandInfo LoadLockedReq = \<lparr>attributes = [IsRead, IsLlsc, IsRequest, NeedsResponse], response = ReadResp, str = ''LoadLockedReq''\<rparr>"
| "commandInfo StoreCondReq = \<lparr>attributes = [IsWrite, NeedsExclusive, IsLlsc, IsRequest, NeedsResponse, HasData], response = StoreCondResp, str = ''StoreCondReq''\<rparr>"
| "commandInfo StoreCondFailReq = \<lparr>attributes = [IsWrite, NeedsExclusive, IsLlsc, IsRequest, NeedsResponse, HasData], response = StoreCondResp, str = ''StoreCondFailReq''\<rparr>"
| "commandInfo StoreCondResp = \<lparr>attributes = [IsWrite, NeedsExclusive, IsLlsc, IsResponse], response = InvalidCmd, str = ''StoreCondResp''\<rparr>"
| "commandInfo SwapReq = \<lparr>attributes = [IsRead, IsWrite, NeedsExclusive, IsRequest, HasData, NeedsResponse], response = SwapResp, str = ''SwapReq''\<rparr>"
| "commandInfo SwapResp = \<lparr>attributes = [IsRead, IsWrite, NeedsExclusive, IsResponse, HasData], response = InvalidCmd, str = ''SwapResp''\<rparr>"
| "commandInfo MessageReq = \<lparr>attributes = [IsWrite, IsRequest, NeedsResponse, HasData], response = MessageResp, str = ''MessageReq''\<rparr>"
| "commandInfo MessageResp = \<lparr>attributes = [IsWrite, IsResponse], response = InvalidCmd, str = ''MessageResp''\<rparr>"
| "commandInfo InvalidDestError = \<lparr>attributes = [IsResponse, IsError], response = InvalidCmd, str = ''InvalidDestError''\<rparr>"
| "commandInfo BadAddressError = \<lparr>attributes = [IsResponse, IsError], response = InvalidCmd, str = ''BadAddressError''\<rparr>"
| "commandInfo FunctionalReadError = \<lparr>attributes = [IsRead, IsResponse, IsError], response = InvalidCmd, str = ''FunctionalReadError''\<rparr>"
| "commandInfo FunctionalWriteError = \<lparr>attributes = [IsWrite, IsResponse, IsError], response = InvalidCmd, str = ''FunctionalWriteError''\<rparr>"
| "commandInfo PrintReq = \<lparr>attributes = [IsRequest, IsPrint], response = InvalidCmd, str = ''PrintReq''\<rparr>"
| "commandInfo FlushReq = \<lparr>attributes = [IsRequest, IsFlush, NeedsExclusive], response = InvalidCmd, str = ''FlushReq''\<rparr>"
| "commandInfo InvalidationReq = \<lparr>attributes = [NeedsExclusive, IsInvalidate, IsRequest], response = InvalidCmd, str = ''InvalidationReq''\<rparr>"

text \<open>The numbers of the enumeration, in order.\<close>

definition mem_cmds :: "MemCmd list" where
  "mem_cmds = [InvalidCmd, ReadReq, ReadResp, ReadRespWithInvalidate, WriteReq, WriteResp,
     Writeback, SoftPFReq, HardPFReq, SoftPFResp, HardPFResp, WriteInvalidateReq,
     WriteInvalidateResp, UpgradeReq, SCUpgradeReq, UpgradeResp, SCUpgradeFailReq, UpgradeFailResp,
     ReadExReq, ReadExResp, LoadLockedReq, StoreCondReq, StoreCondFailReq, StoreCondResp,
     SwapReq, SwapResp, MessageReq, MessageResp, InvalidDestError, BadAddressError,
     FunctionalReadError, FunctionalWriteError, PrintReq, FlushReq, InvalidationReq]"

definition cmd_toInt :: "MemCmd \<Rightarrow> int" where
  "cmd_toInt c = int (length (takeWhile (\<lambda>d. d \<noteq> c) mem_cmds))"

definition cmd_of_int :: "int \<Rightarrow> MemCmd option" where
  "cmd_of_int i = (if 0 \<le> i \<and> i < int (length mem_cmds) then Some (mem_cmds ! nat i) else None)"

definition testCmdAttrib :: "Attribute \<Rightarrow> MemCmd \<Rightarrow> bool" where
  "testCmdAttrib a c \<longleftrightarrow> a \<in> set (attributes (commandInfo c))"

definition cmd_isRead :: "MemCmd \<Rightarrow> bool" where "cmd_isRead = testCmdAttrib IsRead"
definition cmd_isWrite :: "MemCmd \<Rightarrow> bool" where "cmd_isWrite = testCmdAttrib IsWrite"
definition cmd_isUpgrade :: "MemCmd \<Rightarrow> bool" where "cmd_isUpgrade = testCmdAttrib IsUpgrade"
definition cmd_isRequest :: "MemCmd \<Rightarrow> bool" where "cmd_isRequest = testCmdAttrib IsRequest"
definition cmd_isResponse :: "MemCmd \<Rightarrow> bool" where "cmd_isResponse = testCmdAttrib IsResponse"
definition cmd_needsExclusive :: "MemCmd \<Rightarrow> bool" where "cmd_needsExclusive = testCmdAttrib NeedsExclusive"
definition cmd_needsResponse :: "MemCmd \<Rightarrow> bool" where "cmd_needsResponse = testCmdAttrib NeedsResponse"
definition cmd_isInvalidate :: "MemCmd \<Rightarrow> bool" where "cmd_isInvalidate = testCmdAttrib IsInvalidate"
definition cmd_hasData :: "MemCmd \<Rightarrow> bool" where "cmd_hasData = testCmdAttrib HasData"
definition cmd_isLLSC :: "MemCmd \<Rightarrow> bool" where "cmd_isLLSC = testCmdAttrib IsLlsc"
definition cmd_isError :: "MemCmd \<Rightarrow> bool" where "cmd_isError = testCmdAttrib IsError"
definition cmd_isPrint :: "MemCmd \<Rightarrow> bool" where "cmd_isPrint = testCmdAttrib IsPrint"
definition cmd_isFlush :: "MemCmd \<Rightarrow> bool" where "cmd_isFlush = testCmdAttrib IsFlush"

definition cmd_isReadWrite :: "MemCmd \<Rightarrow> bool" where
  "cmd_isReadWrite c \<longleftrightarrow> cmd_isRead c \<and> cmd_isWrite c"

definition responseCommand :: "MemCmd \<Rightarrow> MemCmd" where
  "responseCommand c = response (commandInfo c)"

definition cmd_toString :: "MemCmd \<Rightarrow> string" where
  "cmd_toString c = str (commandInfo c)"

lemmas cmd_defs = testCmdAttrib_def cmd_isRead_def cmd_isWrite_def cmd_isUpgrade_def cmd_isRequest_def cmd_isResponse_def
  cmd_needsExclusive_def cmd_needsResponse_def cmd_isInvalidate_def cmd_hasData_def cmd_isLLSC_def cmd_isError_def
  cmd_isPrint_def cmd_isFlush_def responseCommand_def

section \<open>The table\<close>

text \<open>A response is due exactly where the table names one, only requests ask for one, and it asks for nothing itself.\<close>

lemma response_named: "cmd_needsResponse c \<longleftrightarrow> responseCommand c \<noteq> InvalidCmd"
  by (cases c) (simp_all add: cmd_defs)

lemma response_wf:
  assumes "cmd_needsResponse c"
  shows "cmd_isRequest c" "cmd_isResponse (responseCommand c)" "\<not> cmd_isRequest (responseCommand c)"
    "\<not> cmd_needsResponse (responseCommand c)" "\<not> cmd_isError (responseCommand c)"
  using assms by (cases c; simp add: cmd_defs)+

lemma request_or_response: "c \<noteq> InvalidCmd \<Longrightarrow> cmd_isRequest c \<noteq> cmd_isResponse c"
  by (cases c) (simp_all add: cmd_defs)

text \<open>
  A response reads and writes as its request does. The payload of a write travels with the request, the payload of a read
  with the response.
\<close>

lemma response_kind:
  assumes "cmd_needsResponse c"
  shows "cmd_isRead (responseCommand c) = cmd_isRead c" "cmd_isWrite (responseCommand c) = cmd_isWrite c"
    "cmd_hasData c = cmd_isWrite c" "cmd_hasData (responseCommand c) = cmd_isRead c"
  using assms by (cases c; simp add: cmd_defs)+

lemma read_write_swap: "cmd_isRead c \<and> cmd_isWrite c \<longleftrightarrow> c = SwapReq \<or> c = SwapResp"
  by (cases c) (simp_all add: cmd_defs)

section \<open>Numbers and names\<close>

lemma mem_cmds_all: "set mem_cmds = UNIV" "distinct mem_cmds"
proof -
  have "c \<in> set mem_cmds" for c by (cases c) (simp_all add: mem_cmds_def)
  then show "set mem_cmds = UNIV" by blast
  show "distinct mem_cmds" by (simp add: mem_cmds_def)
qed

lemma cmd_roundtrip: "cmd_of_int (cmd_toInt c) = Some c"
proof -
  have c: "c \<in> set mem_cmds" by (simp add: mem_cmds_all)
  then have "length (takeWhile (\<lambda>d. d \<noteq> c) mem_cmds) < length mem_cmds"
    by (metis (mono_tags, lifting) length_takeWhile_le le_neq_implies_less takeWhile_eq_all_conv takeWhile_eq_take take_all_iff order_refl)
  then show ?thesis using nth_length_takeWhile [of "\<lambda>d. d \<noteq> c" mem_cmds] by (simp add: cmd_of_int_def cmd_toInt_def)
qed

lemma cmd_toString_inj: "cmd_toString c = cmd_toString d \<longleftrightarrow> c = d"
proof -
  have "distinct (map cmd_toString mem_cmds)" by (simp add: mem_cmds_def cmd_toString_def)
  then show ?thesis using mem_cmds_all(1) by (auto simp: distinct_map inj_on_def)
qed

end
