(* ===== verification/Packets.thy ===== *)
theory Packets
  imports Requests Mem_Cmds
begin

text \<open>
  Packets, \<open>src/gem5-stable/src/mem/packet.hh\<close> and \<open>packet.cc\<close>. The data of a packet is the list of bytes its pointer
  points to, \<open>None\<close> for a null pointer; the request it carries is part of the packet. The stack of sender states is
  a list of their identities. Printing (\<open>print\<close>, \<open>PrintReqState\<close>) is output only. Members a constructor leaves
  uninitialised, and fresh storage, are those of an arbitrary \<open>raw\<close>.
\<close>

section \<open>Definitions\<close>

type_synonym PortID = "16 word"

definition InvalidPortID :: PortID where
  "InvalidPortID = - 1"

record Packet =
  pk_flags :: "32 word"
  pk_cmd :: MemCmd
  pk_req :: Request
  pk_data :: "byte list option"
  pk_addr :: Addr
  pk_size :: "32 word"
  pk_src :: PortID
  pk_dest :: PortID
  pk_origCmd :: MemCmd
  bytesValidStart :: "16 word"
  bytesValidEnd :: "16 word"
  busFirstWordDelay :: "32 word"
  busLastWordDelay :: "32 word"
  senderState :: "nat list"

named_theorems packet_flags \<open>values of the flag constants\<close>

definition COPY_FLAGS :: "32 word" where [packet_flags]: "COPY_FLAGS = 0xf"
definition SHARED :: "32 word" where [packet_flags]: "SHARED = 1"
definition EXPRESS_SNOOP :: "32 word" where [packet_flags]: "EXPRESS_SNOOP = 2"
definition SUPPLY_EXCLUSIVE :: "32 word" where [packet_flags]: "SUPPLY_EXCLUSIVE = 4"
definition MEM_INHIBIT :: "32 word" where [packet_flags]: "MEM_INHIBIT = 8"
definition VALID_ADDR :: "32 word" where [packet_flags]: "VALID_ADDR = 0x100"
definition VALID_SIZE :: "32 word" where [packet_flags]: "VALID_SIZE = 0x200"
definition STATIC_DATA :: "32 word" where [packet_flags]: "STATIC_DATA = 0x1000"
definition DYNAMIC_DATA :: "32 word" where [packet_flags]: "DYNAMIC_DATA = 0x2000"
definition ARRAY_DATA :: "32 word" where [packet_flags]: "ARRAY_DATA = 0x4000"
definition SUPPRESS_FUNC_ERROR :: "32 word" where [packet_flags]: "SUPPRESS_FUNC_ERROR = 0x8000"

subsection \<open>Sender states\<close>

definition pushSenderState :: "nat \<Rightarrow> Packet \<Rightarrow> Packet" where
  "pushSenderState s p = p\<lparr>senderState := s # senderState p\<rparr>"

definition popSenderState :: "Packet \<Rightarrow> (nat \<times> Packet) option" where
  "popSenderState p = (case senderState p of [] \<Rightarrow> None | s # ss \<Rightarrow> Some (s, p\<lparr>senderState := ss\<rparr>))"

definition findNextSenderState :: "(nat \<Rightarrow> bool) \<Rightarrow> Packet \<Rightarrow> nat option" where
  "findNextSenderState is_T p = find is_T (senderState p)"

subsection \<open>Flags and accessors\<close>

definition assertMemInhibit :: "Packet \<Rightarrow> Packet" where
  "assertMemInhibit p = p\<lparr>pk_flags := flags_set MEM_INHIBIT (pk_flags p)\<rparr>"

definition memInhibitAsserted :: "Packet \<Rightarrow> bool" where
  "memInhibitAsserted p \<longleftrightarrow> flags_isSet (pk_flags p) MEM_INHIBIT"

definition assertShared :: "Packet \<Rightarrow> Packet" where
  "assertShared p = p\<lparr>pk_flags := flags_set SHARED (pk_flags p)\<rparr>"

definition sharedAsserted :: "Packet \<Rightarrow> bool" where
  "sharedAsserted p \<longleftrightarrow> flags_isSet (pk_flags p) SHARED"

definition setExpressSnoop :: "Packet \<Rightarrow> Packet" where
  "setExpressSnoop p = p\<lparr>pk_flags := flags_set EXPRESS_SNOOP (pk_flags p)\<rparr>"

definition isExpressSnoop :: "Packet \<Rightarrow> bool" where
  "isExpressSnoop p \<longleftrightarrow> flags_isSet (pk_flags p) EXPRESS_SNOOP"

definition setSupplyExclusive :: "Packet \<Rightarrow> Packet" where
  "setSupplyExclusive p = p\<lparr>pk_flags := flags_set SUPPLY_EXCLUSIVE (pk_flags p)\<rparr>"

definition clearSupplyExclusive :: "Packet \<Rightarrow> Packet" where
  "clearSupplyExclusive p = p\<lparr>pk_flags := flags_clear SUPPLY_EXCLUSIVE (pk_flags p)\<rparr>"

definition isSupplyExclusive :: "Packet \<Rightarrow> bool" where
  "isSupplyExclusive p \<longleftrightarrow> flags_isSet (pk_flags p) SUPPLY_EXCLUSIVE"

definition setSuppressFuncError :: "Packet \<Rightarrow> Packet" where
  "setSuppressFuncError p = p\<lparr>pk_flags := flags_set SUPPRESS_FUNC_ERROR (pk_flags p)\<rparr>"

definition suppressFuncError :: "Packet \<Rightarrow> bool" where
  "suppressFuncError p \<longleftrightarrow> flags_isSet (pk_flags p) SUPPRESS_FUNC_ERROR"

definition setBadAddress :: "Packet \<Rightarrow> Packet option" where
  "setBadAddress p = do { cassert (cmd_isResponse (pk_cmd p)); Some (p\<lparr>pk_cmd := BadAddressError\<rparr>) }"

definition hadBadAddress :: "Packet \<Rightarrow> bool" where
  "hadBadAddress p \<longleftrightarrow> pk_cmd p = BadAddressError"

definition copyError :: "Packet \<Rightarrow> Packet \<Rightarrow> Packet option" where
  "copyError pkt p = do { cassert (cmd_isError (pk_cmd pkt)); Some (p\<lparr>pk_cmd := pk_cmd pkt\<rparr>) }"

definition isSrcValid :: "Packet \<Rightarrow> bool" where
  "isSrcValid p \<longleftrightarrow> pk_src p \<noteq> InvalidPortID"

definition getSrc :: "Packet \<Rightarrow> PortID option" where
  "getSrc p = do { cassert (isSrcValid p); Some (pk_src p) }"

definition setSrc :: "PortID \<Rightarrow> Packet \<Rightarrow> Packet" where
  "setSrc src p = p\<lparr>pk_src := src\<rparr>"

definition clearSrc :: "Packet \<Rightarrow> Packet" where
  "clearSrc p = p\<lparr>pk_src := InvalidPortID\<rparr>"

definition isDestValid :: "Packet \<Rightarrow> bool" where
  "isDestValid p \<longleftrightarrow> pk_dest p \<noteq> InvalidPortID"

definition getDest :: "Packet \<Rightarrow> PortID option" where
  "getDest p = do { cassert (isDestValid p); Some (pk_dest p) }"

definition setDest :: "PortID \<Rightarrow> Packet \<Rightarrow> Packet" where
  "setDest dest p = p\<lparr>pk_dest := dest\<rparr>"

definition clearDest :: "Packet \<Rightarrow> Packet" where
  "clearDest p = p\<lparr>pk_dest := InvalidPortID\<rparr>"

definition getAddr :: "Packet \<Rightarrow> Addr option" where
  "getAddr p = do { cassert (flags_isSet (pk_flags p) VALID_ADDR); Some (pk_addr p) }"

definition setAddr :: "Addr \<Rightarrow> Packet \<Rightarrow> Packet option" where
  "setAddr a p = do { cassert (flags_isSet (pk_flags p) VALID_ADDR); Some (p\<lparr>pk_addr := a\<rparr>) }"

definition getSize :: "Packet \<Rightarrow> 32 word option" where
  "getSize p = do { cassert (flags_isSet (pk_flags p) VALID_SIZE); Some (pk_size p) }"

definition getOffset :: "int \<Rightarrow> Packet \<Rightarrow> Addr option" where
  "getOffset blkSize p = do { a \<leftarrow> getAddr p; Some (a AND word_of_int (blkSize - 1)) }"

definition setSize :: "32 word \<Rightarrow> Packet \<Rightarrow> Packet option" where
  "setSize sz p = do {
     cassert (\<not> flags_isSet (pk_flags p) VALID_SIZE);
     Some (p\<lparr>pk_size := sz, pk_flags := flags_set VALID_SIZE (pk_flags p)\<rparr>) }"

definition convertScToWrite :: "Packet \<Rightarrow> Packet option" where
  "convertScToWrite p = do {
     cassert (cmd_isLLSC (pk_cmd p));
     cassert (cmd_isWrite (pk_cmd p));
     Some (p\<lparr>pk_cmd := WriteReq\<rparr>) }"

definition convertLlToRead :: "Packet \<Rightarrow> Packet option" where
  "convertLlToRead p = do {
     cassert (cmd_isLLSC (pk_cmd p));
     cassert (cmd_isRead (pk_cmd p));
     Some (p\<lparr>pk_cmd := ReadReq\<rparr>) }"

subsection \<open>Constructors and responses\<close>

text \<open>The part of an initialiser list that the two constructors from a request share.\<close>

definition packet_blank :: "Packet \<Rightarrow> Request \<Rightarrow> MemCmd \<Rightarrow> Packet" where
  "packet_blank raw req cmd = raw\<lparr>pk_flags := 0, pk_cmd := cmd, pk_req := req, pk_data := None, pk_src := InvalidPortID,
     pk_dest := InvalidPortID, pk_origCmd := InvalidCmd, bytesValidStart := 0, bytesValidEnd := 0, busFirstWordDelay := 0,
     busLastWordDelay := 0, senderState := []\<rparr>"

definition Packet_of_request :: "Packet \<Rightarrow> Request \<Rightarrow> MemCmd \<Rightarrow> Packet" where
  "Packet_of_request raw req cmd =
     (let p = packet_blank raw req cmd;
          p = (if hasPaddr req then p\<lparr>pk_addr := rq_paddr req, pk_flags := flags_set VALID_ADDR (pk_flags p)\<rparr> else p)
      in if hasSize req then p\<lparr>pk_size := word_of_int (rq_size req), pk_flags := flags_set VALID_SIZE (pk_flags p)\<rparr> else p)"

definition Packet_of_block :: "Packet \<Rightarrow> Request \<Rightarrow> MemCmd \<Rightarrow> int \<Rightarrow> Packet" where
  "Packet_of_block raw req cmd blkSize =
     (let p = packet_blank raw req cmd;
          p = (if hasPaddr req
               then p\<lparr>pk_addr := rq_paddr req AND word_of_int (NOT (blkSize - 1)), pk_flags := flags_set VALID_ADDR (pk_flags p)\<rparr> else p)
      in p\<lparr>pk_size := word_of_int blkSize, pk_flags := flags_set VALID_SIZE (pk_flags p)\<rparr>)"

definition Packet_copy :: "Packet \<Rightarrow> bool \<Rightarrow> Packet" where
  "Packet_copy pkt clearFlags = pkt\<lparr>
     pk_data := (if flags_isSet (pk_flags pkt) STATIC_DATA then pk_data pkt else None), pk_origCmd := InvalidCmd,
     pk_flags := flags_set (pk_flags pkt AND STATIC_DATA) (flags_set (pk_flags pkt AND (VALID_ADDR OR VALID_SIZE))
                   (if clearFlags then 0 else flags_set (pk_flags pkt AND COPY_FLAGS) 0))\<rparr>"

definition deleteData :: "Packet \<Rightarrow> Packet" where
  "deleteData p = p\<lparr>pk_flags := flags_clear (STATIC_DATA OR DYNAMIC_DATA OR ARRAY_DATA) (pk_flags p), pk_data := None\<rparr>"

text \<open>\<open>flags = 0\<close> comes before \<open>deleteData\<close>, which then frees nothing.\<close>

definition reinitFromRequest :: "Packet \<Rightarrow> Packet option" where
  "reinitFromRequest p = do {
     cassert (hasPaddr (pk_req p));
     a \<leftarrow> getPaddr (pk_req p);
     sz \<leftarrow> rq_getSize (pk_req p);
     Some (deleteData (p\<lparr>pk_addr := a, pk_size := word_of_int sz, pk_src := InvalidPortID, pk_dest := InvalidPortID,
       bytesValidStart := 0, bytesValidEnd := 0, busFirstWordDelay := 0, busLastWordDelay := 0,
       pk_flags := flags_set (VALID_ADDR OR VALID_SIZE) 0\<rparr>)) }"

definition makeResponse :: "Packet \<Rightarrow> Packet option" where
  "makeResponse p = do {
     cassert (cmd_needsResponse (pk_cmd p));
     cassert (cmd_isRequest (pk_cmd p));
     Some (clearSrc (p\<lparr>pk_origCmd := pk_cmd p, pk_cmd := responseCommand (pk_cmd p),
       pk_flags := flags_clear EXPRESS_SNOOP (pk_flags p), pk_dest := pk_src p\<rparr>)) }"

definition setFunctionalResponseStatus :: "bool \<Rightarrow> Packet \<Rightarrow> Packet" where
  "setFunctionalResponseStatus success p =
     (if success then p
      else if cmd_isWrite (pk_cmd p) then p\<lparr>pk_cmd := FunctionalWriteError\<rparr>
      else p\<lparr>pk_cmd := FunctionalReadError\<rparr>)"

subsection \<open>Data\<close>

definition dataStatic :: "byte list \<Rightarrow> Packet \<Rightarrow> Packet option" where
  "dataStatic d p = do {
     cassert (flags_noneSet (pk_flags p) (STATIC_DATA OR DYNAMIC_DATA OR ARRAY_DATA));
     Some (p\<lparr>pk_data := Some d, pk_flags := flags_set STATIC_DATA (pk_flags p)\<rparr>) }"

definition dataDynamicArray :: "byte list \<Rightarrow> Packet \<Rightarrow> Packet option" where
  "dataDynamicArray d p = do {
     cassert (flags_noneSet (pk_flags p) (STATIC_DATA OR DYNAMIC_DATA OR ARRAY_DATA));
     Some (p\<lparr>pk_data := Some d, pk_flags := flags_set (DYNAMIC_DATA OR ARRAY_DATA) (pk_flags p)\<rparr>) }"

definition dataDynamic :: "byte list \<Rightarrow> Packet \<Rightarrow> Packet option" where
  "dataDynamic d p = do {
     cassert (flags_noneSet (pk_flags p) (STATIC_DATA OR DYNAMIC_DATA OR ARRAY_DATA));
     Some (p\<lparr>pk_data := Some d, pk_flags := flags_set DYNAMIC_DATA (pk_flags p)\<rparr>) }"

text \<open>The bytes behind the pointer; reading through a null pointer is an abort.\<close>

definition getPtr :: "Packet \<Rightarrow> byte list option" where
  "getPtr p = do { cassert (flags_isSet (pk_flags p) (STATIC_DATA OR DYNAMIC_DATA)); pk_data p }"

definition allocate :: "(nat \<Rightarrow> byte) \<Rightarrow> Packet \<Rightarrow> Packet option" where
  "allocate raw p = (case pk_data p of
     Some d \<Rightarrow> do {
       cassert (flags_isSet (pk_flags p) (STATIC_DATA OR DYNAMIC_DATA));
       Some p }
   | None \<Rightarrow> do {
       cassert (flags_noneSet (pk_flags p) (STATIC_DATA OR DYNAMIC_DATA));
       let p = p\<lparr>pk_flags := flags_set (DYNAMIC_DATA OR ARRAY_DATA) (pk_flags p)\<rparr>;
       sz \<leftarrow> getSize p;
       Some (p\<lparr>pk_data := Some (map raw [0 ..< unat sz])\<rparr>) })"

text \<open>\<open>memcpy (dst + i, src + j, n)\<close> between two buffers; outside of them is an abort.\<close>

definition blit :: "byte list \<Rightarrow> int \<Rightarrow> byte list \<Rightarrow> int \<Rightarrow> int \<Rightarrow> byte list option" where
  "blit dst i src j n =
     (if 0 \<le> i \<and> 0 \<le> j \<and> 0 \<le> n \<and> i + n \<le> int (length dst) \<and> j + n \<le> int (length src)
      then Some (take (nat i) dst @ take (nat n) (drop (nat j) src) @ drop (nat (i + n)) dst) else None)"

definition setData :: "byte list \<Rightarrow> Packet \<Rightarrow> Packet option" where
  "setData src p = do {
     d \<leftarrow> getPtr p;
     sz \<leftarrow> getSize p;
     d \<leftarrow> blit d 0 src 0 (uint sz);
     Some (p\<lparr>pk_data := Some d\<rparr>) }"

definition setDataFromBlock :: "byte list \<Rightarrow> int \<Rightarrow> Packet \<Rightarrow> Packet option" where
  "setDataFromBlock blk_data blkSize p = do {
     off \<leftarrow> getOffset blkSize p;
     setData (drop (unat off) blk_data) p }"

definition writeData :: "byte list \<Rightarrow> int \<Rightarrow> Packet \<Rightarrow> byte list option" where
  "writeData dst i p = do {
     d \<leftarrow> getPtr p;
     sz \<leftarrow> getSize p;
     blit dst i d 0 (uint sz) }"

definition writeDataToBlock :: "byte list \<Rightarrow> int \<Rightarrow> Packet \<Rightarrow> byte list option" where
  "writeDataToBlock blk_data blkSize p = do {
     off \<leftarrow> getOffset blkSize p;
     writeData blk_data (uint off) p }"

end
