(* ===== verification/Packet_Functional.thy ===== *)
theory Packet_Functional
  imports Packets
begin

text \<open>
  \<open>Packet::checkFunctional\<close> (\<open>src/gem5-stable/src/mem/packet.cc\<close>): a functional request meets a value on its way through
  the memory system. A write must update the value, a read may be answered by it.
\<close>

section \<open>Definitions\<close>

text \<open>The offsets and the number of bytes of a partial overlap: into the value, into the packet, count.\<close>

definition cf_overlap :: "Addr \<Rightarrow> Addr \<Rightarrow> Addr \<Rightarrow> Addr \<Rightarrow> int \<Rightarrow> (int \<times> int \<times> int) option" where
  "cf_overlap func_start func_end val_start val_end sz =
     (if val_start < func_start \<and> val_end \<le> func_end
      then Some (int32 (uint (func_start - val_start)), 0, int32 (uint (val_end - func_start)))
      else if val_start \<ge> func_start \<and> val_end > func_end
      then Some (0, int32 (uint (val_start - func_start)), int32 (uint (func_end - val_start)))
      else if val_start \<ge> func_start \<and> val_end \<le> func_end
      then Some (0, int32 (uint (val_start - func_start)), sz)
      else None)"

text \<open>Which of these bytes the packet does not have yet; a superset copies its first part at once.\<close>

definition cf_merge :: "int \<Rightarrow> int \<Rightarrow> int \<Rightarrow> byte list \<Rightarrow> Packet \<Rightarrow> (int \<times> int \<times> int \<times> Packet) option" where
  "cf_merge val_offset func_offset overlap_size data p =
     (if bytesValidStart p = 0 \<and> bytesValidEnd p = 0
      then Some (val_offset, func_offset, overlap_size,
        p\<lparr>bytesValidStart := word_of_int func_offset, bytesValidEnd := word_of_int (func_offset + overlap_size)\<rparr>)
      else
        (let vs = uint (bytesValidStart p); ve = uint (bytesValidEnd p);
             a = func_offset - vs; b = (func_offset + overlap_size) - ve;
             c = func_offset - ve; d = (func_offset + overlap_size) - vs
         in if a \<ge> 0 \<and> b \<le> 0 then Some (val_offset, func_offset, 0, p)
            else if a < 0 \<and> d \<ge> 0 \<and> b \<le> 0
            then Some (val_offset, func_offset, vs - func_offset, p\<lparr>bytesValidStart := word_of_int func_offset\<rparr>)
            else if b > 0 \<and> c \<le> 0 \<and> a \<ge> 0
            then Some (val_offset + (ve - func_offset), ve, func_offset + overlap_size - ve,
              p\<lparr>bytesValidEnd := bytesValidEnd p + word_of_int (func_offset + overlap_size - ve)\<rparr>)
            else if a < 0 \<and> b > 0
            then do {
              dest \<leftarrow> getPtr p;
              dest \<leftarrow> blit dest func_offset data val_offset (vs - func_offset);
              Some (val_offset + (ve - func_offset), ve, func_offset + overlap_size - ve,
                p\<lparr>pk_data := Some dest, bytesValidStart := word_of_int func_offset,
                  bytesValidEnd := bytesValidEnd p + word_of_int (func_offset + overlap_size - ve)\<rparr>) }
            else None))"

text \<open>The whole function: its answer, the value and the packet.\<close>

definition checkFunctional ::
  "(nat \<Rightarrow> byte) \<Rightarrow> Addr \<Rightarrow> int \<Rightarrow> byte list option \<Rightarrow> Packet \<Rightarrow> (bool \<times> byte list option \<times> Packet) option" where
  "checkFunctional raw addr sz data p = do {
     func_start \<leftarrow> getAddr p;
     fsz \<leftarrow> getSize p;
     let func_end = func_start + ucast fsz - 1;
     let val_start = addr;
     let val_end = val_start + word_of_int sz - 1;
     if func_start > val_end \<or> val_start > func_end then Some (False, data, p)
     else if cmd_isPrint (pk_cmd p) then Some (False, data, p)
     else (case data of
       None \<Rightarrow> Some (False, data, p)
     | Some d \<Rightarrow> do {
         let offset = int32 (uint (func_start - val_start));
         if cmd_isRead (pk_cmd p) then
           if func_start \<ge> val_start \<and> func_end \<le> val_end then do {
             p \<leftarrow> allocate raw p;
             dest \<leftarrow> getPtr p;
             dest \<leftarrow> blit dest 0 d offset (uint fsz);
             Some (True, data, p\<lparr>pk_data := Some dest\<rparr>) }
           else do {
             (val_offset, func_offset, overlap_size) \<leftarrow> cf_overlap func_start func_end val_start val_end sz;
             (val_offset, func_offset, overlap_size, p) \<leftarrow> cf_merge val_offset func_offset overlap_size d p;
             cassert (uint (bytesValidEnd p) \<le> uint fsz);
             dest \<leftarrow> getPtr p;
             dest \<leftarrow> blit dest func_offset d val_offset overlap_size;
             Some (bytesValidStart p = 0 \<and> uint (bytesValidEnd p) = uint fsz, data, p\<lparr>pk_data := Some dest\<rparr>) }
         else if cmd_isWrite (pk_cmd p) then do {
           src \<leftarrow> getPtr p;
           d \<leftarrow> (if offset \<ge> 0 then blit d offset src 0 (uint (min func_end val_end - func_start + 1))
                 else blit d 0 src (- offset) (uint (min func_end val_end - val_start + 1)));
           Some (False, Some d, p) }
         else None }) }"

text \<open>Against the packet of another transaction.\<close>

definition checkFunctional_packet :: "(nat \<Rightarrow> byte) \<Rightarrow> Packet \<Rightarrow> Packet \<Rightarrow> (bool \<times> Packet \<times> Packet) option" where
  "checkFunctional_packet raw other p = do {
     data \<leftarrow> (if cmd_hasData (pk_cmd other) then map_option Some (getPtr other) else Some None);
     a \<leftarrow> getAddr other;
     sz \<leftarrow> getSize other;
     (done, data, p) \<leftarrow> checkFunctional raw a (int32 (uint sz)) data p;
     Some (done, (if cmd_hasData (pk_cmd other) then other\<lparr>pk_data := data\<rparr> else other), p) }"

section \<open>Copying\<close>

lemma blit_length: "blit dst i src j n = Some d \<Longrightarrow> length d = length dst"
  by (auto simp: blit_def split: if_splits)

lemma blit_nth:
  assumes "0 \<le> i" "0 \<le> j" "0 \<le> n" "i + n \<le> int (length dst)" "j + n \<le> int (length src)"
  shows "\<exists>d. blit dst i src j n = Some d \<and> length d = length dst \<and>
    (\<forall>k < length dst. d ! k = (if i \<le> int k \<and> int k < i + n then src ! nat (j + int k - i) else dst ! k))"
proof -
  let ?d = "take (nat i) dst @ take (nat n) (drop (nat j) src) @ drop (nat (i + n)) dst"
  have l: "length (take (nat i) dst) = nat i" "length (take (nat n) (drop (nat j) src)) = nat n" using assms by auto
  have "?d ! k = (if i \<le> int k \<and> int k < i + n then src ! nat (j + int k - i) else dst ! k)" if k: "k < length dst" for k
  proof (cases "int k < i")
    case True
    then show ?thesis using l assms by (auto simp: nth_append)
  next
    case ge: False
    show ?thesis
    proof (cases "int k < i + n")
      case True
      have "nat j + (k - nat i) = nat (j + int k - i)" using ge assms by simp
      moreover have "k - nat i < nat n" "\<not> k < nat i" using True ge assms by linarith+
      moreover have "drop (nat j) src ! (k - nat i) = src ! (nat j + (k - nat i))" using assms by (intro nth_drop) linarith
      ultimately show ?thesis using l assms ge True by (simp add: nth_append)
    next
      case False
      have "nat (i + n) + (k - nat i - nat n) = k" using False ge assms by linarith
      moreover have "\<not> k < nat i" "\<not> k - nat i < nat n" using False ge assms by linarith+
      moreover have "drop (nat (i + n)) dst ! (k - nat i - nat n) = dst ! (nat (i + n) + (k - nat i - nat n))"
        using assms by (intro nth_drop) linarith
      ultimately show ?thesis using l assms False by (simp add: nth_append)
    qed
  qed
  then show ?thesis using assms l by (auto simp: blit_def)
qed

section \<open>Ranges\<close>

lemma uint_of_int_small: "0 \<le> k \<Longrightarrow> k < 2 ^ 64 \<Longrightarrow> uint (word_of_int k :: Addr) = k"
  by (simp add: uint_word_of_int)

lemma uint16_of_int: "0 \<le> k \<Longrightarrow> k < 2 ^ 16 \<Longrightarrow> uint (word_of_int k :: 16 word) = k"
  by (simp add: uint_word_of_int)

lemma range_end:
  fixes a :: Addr
  assumes "0 < n" "uint a + n \<le> 2 ^ 64"
  shows "uint (a + word_of_int n - 1) = uint a + n - 1"
proof -
  have eq: "a + word_of_int n - 1 = word_of_int (uint a + n - 1)" by simp
  have "0 \<le> uint a" by simp
  then show ?thesis unfolding eq using assms by (intro uint_of_int_small) linarith+
qed

lemma int32_diff:
  fixes a v :: Addr
  assumes "uint v - uint a < 2 ^ 31" "uint a - uint v < 2 ^ 31"
  shows "int32 (uint (a - v)) = uint a - uint v"
proof -
  have "uint (a - v) = (uint a - uint v) mod 2 ^ 64" by (simp add: uint_word_ariths)
  moreover have "signed_take_bit 31 ((uint a - uint v) mod 2 ^ 64) = signed_take_bit 31 (uint a - uint v)"
    unfolding take_bit_eq_mod [symmetric] by (simp add: signed_take_bit_take_bit)
  moreover have "signed_take_bit 31 (uint a - uint v) = uint a - uint v"
    using assms by (intro signed_take_bit_int_eq_self) simp_all
  ultimately show ?thesis by (simp add: int32_def)
qed

lemma span:
  fixes a x :: Addr
  assumes "uint x = e - 1" "uint a < e" "e - uint a < 2 ^ 64"
  shows "uint (x - a + 1) = e - uint a"
proof -
  have "word_of_int (uint x) - word_of_int (uint a) + 1 = (word_of_int (e - uint a) :: Addr)" unfolding assms(1) by simp
  then have eq: "x - a + 1 = word_of_int (e - uint a)" by (simp only: word_of_int_uint)
  show ?thesis unfolding eq using assms(2,3) by (intro uint_of_int_small) linarith+
qed

text \<open>A packet of \<open>sz\<close> bytes at \<open>a\<close> that holds \<open>src\<close>, and a value of \<open>m\<close> bytes at \<open>v\<close>; neither wraps around.\<close>

definition packet_at :: "Packet \<Rightarrow> Addr \<Rightarrow> int \<Rightarrow> bool" where
  "packet_at p a sz \<longleftrightarrow> getAddr p = Some a \<and> (\<exists>w. getSize p = Some w \<and> uint w = sz) \<and> 0 < sz \<and> sz < 2 ^ 31 \<and> uint a + sz \<le> 2 ^ 64"

definition value_at :: "Addr \<Rightarrow> int \<Rightarrow> byte list \<Rightarrow> bool" where
  "value_at v m d \<longleftrightarrow> int (length d) = m \<and> 0 < m \<and> m < 2 ^ 31 \<and> uint v + m \<le> 2 ^ 64"

definition overlaps :: "Addr \<Rightarrow> int \<Rightarrow> Addr \<Rightarrow> int \<Rightarrow> bool" where
  "overlaps a n v m \<longleftrightarrow> uint a < uint v + m \<and> uint v < uint a + n"

lemma cf_prelude:
  assumes "packet_at p a n" "value_at v m d"
  shows "checkFunctional raw v m (Some d) p =
     (if \<not> overlaps a n v m \<or> cmd_isPrint (pk_cmd p) then Some (False, Some d, p)
      else if cmd_isRead (pk_cmd p) then
        if uint v \<le> uint a \<and> uint a + n \<le> uint v + m then do {
          p \<leftarrow> allocate raw p;
          dest \<leftarrow> getPtr p;
          dest \<leftarrow> blit dest 0 d (uint a - uint v) n;
          Some (True, Some d, p\<lparr>pk_data := Some dest\<rparr>) }
        else do {
          (val_offset, func_offset, overlap_size) \<leftarrow>
            cf_overlap a (a + word_of_int n - 1) v (v + word_of_int m - 1) m;
          (val_offset, func_offset, overlap_size, p) \<leftarrow> cf_merge val_offset func_offset overlap_size d p;
          cassert (uint (bytesValidEnd p) \<le> n);
          dest \<leftarrow> getPtr p;
          dest \<leftarrow> blit dest func_offset d val_offset overlap_size;
          Some (bytesValidStart p = 0 \<and> uint (bytesValidEnd p) = n, Some d, p\<lparr>pk_data := Some dest\<rparr>) }
      else if cmd_isWrite (pk_cmd p) then do {
        src \<leftarrow> getPtr p;
        d \<leftarrow> (if uint v \<le> uint a then blit d (uint a - uint v) src 0 (min (uint a + n) (uint v + m) - uint a)
              else blit d 0 src (uint v - uint a) (min (uint a + n) (uint v + m) - uint v));
        Some (False, Some d, p) }
      else None)"
proof -
  obtain w where p: "getAddr p = Some a" "getSize p = Some w" "uint w = n" "0 < n" "n < 2 ^ 31" "uint a + n \<le> 2 ^ 64"
    using assms(1) by (auto simp: packet_at_def)
  have v: "0 < m" "m < 2 ^ 31" "uint v + m \<le> 2 ^ 64" using assms(2) by (simp_all add: value_at_def)
  let ?fe = "a + ucast w - 1" and ?ve = "v + word_of_int m - 1"
  have fe: "?fe = a + word_of_int n - 1" using p(3) by (simp add: ucast_eq)
  have e: "uint ?fe = uint a + n - 1" "uint ?ve = uint v + m - 1" using range_end p v unfolding fe by blast+
  have dis: "(?ve < a \<or> ?fe < v) \<longleftrightarrow> \<not> overlaps a n v m" by (auto simp: word_less_def e overlaps_def)
  have con: "v \<le> a \<and> ?fe \<le> ?ve \<longleftrightarrow> uint v \<le> uint a \<and> uint a + n \<le> uint v + m" by (auto simp: word_le_def e)
  have mi: "uint (min ?fe ?ve) = min (uint a + n) (uint v + m) - 1" by (auto simp: min_def word_le_def e)
  show ?thesis
  proof (cases "overlaps a n v m")
    case False
    then show ?thesis using p dis by (simp add: checkFunctional_def)
  next
    case True
    have off: "int32 (uint (a - v)) = uint a - uint v" using True p v by (intro int32_diff) (auto simp: overlaps_def)
    have up: "uint (min ?fe ?ve - a + 1) = min (uint a + n) (uint v + m) - uint a" if "uint v \<le> uint a"
      using that True p v by (intro span [OF mi]) (auto simp: overlaps_def min_def)
    have lo: "uint (min ?fe ?ve - v + 1) = min (uint a + n) (uint v + m) - uint v" if "uint a < uint v"
      using that True p v by (intro span [OF mi]) (auto simp: overlaps_def min_def)
    show ?thesis
    proof (cases "cmd_isPrint (pk_cmd p)")
      case True
      then show ?thesis using p dis by (simp add: checkFunctional_def Let_def)
    next
      case False
      have "checkFunctional raw v m (Some d) p =
        (if cmd_isRead (pk_cmd p) then
          if v \<le> a \<and> ?fe \<le> ?ve then do {
            p \<leftarrow> allocate raw p;
            dest \<leftarrow> getPtr p;
            dest \<leftarrow> blit dest 0 d (uint a - uint v) n;
            Some (True, Some d, p\<lparr>pk_data := Some dest\<rparr>) }
          else do {
            (val_offset, func_offset, overlap_size) \<leftarrow> cf_overlap a ?fe v ?ve m;
            (val_offset, func_offset, overlap_size, p) \<leftarrow> cf_merge val_offset func_offset overlap_size d p;
            cassert (uint (bytesValidEnd p) \<le> n);
            dest \<leftarrow> getPtr p;
            dest \<leftarrow> blit dest func_offset d val_offset overlap_size;
            Some (bytesValidStart p = 0 \<and> uint (bytesValidEnd p) = n, Some d, p\<lparr>pk_data := Some dest\<rparr>) }
        else if cmd_isWrite (pk_cmd p) then do {
          src \<leftarrow> getPtr p;
          d \<leftarrow> (if uint v \<le> uint a then blit d (uint a - uint v) src 0 (uint (min ?fe ?ve - a + 1))
                else blit d 0 src (uint v - uint a) (uint (min ?fe ?ve - v + 1)));
          Some (False, Some d, p) }
        else None)"
        using False True dis p off by (simp add: checkFunctional_def Let_def split del: if_split cong: if_cong)
      then show ?thesis using False True con up lo fe by (simp split del: if_split cong: if_cong)
    qed
  qed
qed

section \<open>Behaviour\<close>

lemma functional_write_ok:
  assumes p: "packet_at p a n" and v: "value_at v m d" and c: "cmd_isWrite (pk_cmd p)" "\<not> cmd_isRead (pk_cmd p)"
    and src: "getPtr p = Some src" "int (length src) = n"
  shows "\<exists>d'. checkFunctional raw v m (Some d) p = Some (False, Some d', p) \<and> length d' = length d \<and>
    (\<forall>k < length d. d' ! k = (if uint a \<le> uint v + int k \<and> uint v + int k < uint a + n then src ! nat (uint v + int k - uint a) else d ! k))"
proof -
  have np: "\<not> cmd_isPrint (pk_cmd p)" using c by (cases "pk_cmd p") (simp_all add: cmd_defs)
  have pn: "0 < n" using p by (simp add: packet_at_def)
  have vm: "int (length d) = m" "0 < m" using v by (simp_all add: value_at_def)
  have run: "checkFunctional raw v m (Some d) p = (if \<not> overlaps a n v m then Some (False, Some d, p) else do {
      d \<leftarrow> (if uint v \<le> uint a then blit d (uint a - uint v) src 0 (min (uint a + n) (uint v + m) - uint a)
            else blit d 0 src (uint v - uint a) (min (uint a + n) (uint v + m) - uint v));
      Some (False, Some d, p) })"
    using c np src by (simp add: cf_prelude [OF p v])
  show ?thesis
  proof (cases "overlaps a n v m")
    case False
    then show ?thesis using vm by (auto simp: run overlaps_def)
  next
    case True
    then have o: "uint a < uint v + m" "uint v < uint a + n" by (simp_all add: overlaps_def)
    show ?thesis
    proof (cases "uint v \<le> uint a")
      case True
      define l where "l = min (uint a + n) (uint v + m) - uint a"
      have "0 \<le> l" "l \<le> n" "uint a - uint v + l \<le> m" using o pn by (auto simp: l_def)
      then obtain d' where d': "blit d (uint a - uint v) src 0 l = Some d'" "length d' = length d"
          "\<forall>k < length d. d' ! k = (if uint a - uint v \<le> int k \<and> int k < uint a - uint v + l then src ! nat (0 + int k - (uint a - uint v)) else d ! k)"
        using blit_nth [of "uint a - uint v" 0 l d src] True vm src(2) by auto
      moreover have "uint a - uint v \<le> int k \<and> int k < uint a - uint v + l \<longleftrightarrow> uint a \<le> uint v + int k \<and> uint v + int k < uint a + n"
        if "k < length d" for k using that vm by (auto simp: l_def)
      ultimately show ?thesis using \<open>overlaps a n v m\<close> True by (auto simp: run l_def algebra_simps)
    next
      case False
      define l where "l = min (uint a + n) (uint v + m) - uint v"
      have "0 \<le> l" "l \<le> m" "uint v - uint a + l \<le> n" using o pn vm False by (auto simp: l_def)
      then obtain d' where d': "blit d 0 src (uint v - uint a) l = Some d'" "length d' = length d"
          "\<forall>k < length d. d' ! k = (if 0 \<le> int k \<and> int k < 0 + l then src ! nat (uint v - uint a + int k - 0) else d ! k)"
        using blit_nth [of 0 "uint v - uint a" l d src] False vm src(2) by auto
      moreover have "int k < l \<longleftrightarrow> uint a \<le> uint v + int k \<and> uint v + int k < uint a + n"
        if "k < length d" for k using that vm False by (auto simp: l_def)
      ultimately show ?thesis using \<open>overlaps a n v m\<close> False by (auto simp: run l_def algebra_simps)
    qed
  qed
qed

text \<open>A read inside the value is answered by it. The packet has storage of its size, or none and gets it.\<close>

definition readable :: "Packet \<Rightarrow> int \<Rightarrow> bool" where
  "readable p n \<longleftrightarrow> (case pk_data p of
     Some d \<Rightarrow> flags_isSet (pk_flags p) (STATIC_DATA OR DYNAMIC_DATA) \<and> int (length d) = n
   | None \<Rightarrow> flags_noneSet (pk_flags p) (STATIC_DATA OR DYNAMIC_DATA))"

lemma allocate_ok:
  assumes "packet_at p a n" "readable p n"
  shows "\<exists>p' d. allocate raw p = Some p' \<and> getPtr p' = Some d \<and> int (length d) = n"
proof (cases "pk_data p")
  case None
  obtain w where w: "getSize p = Some w" "uint w = n" using assms(1) by (auto simp: packet_at_def)
  let ?p = "p\<lparr>pk_flags := flags_set (DYNAMIC_DATA OR ARRAY_DATA) (pk_flags p)\<rparr>"
  have "flags_isSet (pk_flags p) VALID_SIZE" "pk_size p = w" using w(1) by (auto simp: getSize_def cassert_def split: if_splits)
  then have s: "getSize ?p = Some w" by (simp add: getSize_def isSet_set)
  have f: "flags_isSet (pk_flags ?p) (STATIC_DATA OR DYNAMIC_DATA)" by (simp add: isSet_set packet_flags isSet_numeral)
  have n: "flags_noneSet (pk_flags p) (STATIC_DATA OR DYNAMIC_DATA)" using assms(2) None by (simp add: readable_def)
  show ?thesis using w(2) None s f n by (simp add: allocate_def getPtr_def Let_def flip: w(2))
next
  case (Some d)
  then show ?thesis using assms(2) by (simp add: readable_def allocate_def getPtr_def)
qed

lemma functional_read_ok:
  assumes p: "packet_at p a n" and v: "value_at v m d" and c: "cmd_isRead (pk_cmd p)" and st: "readable p n"
    and sub: "uint v \<le> uint a" "uint a + n \<le> uint v + m"
  shows "\<exists>p'. checkFunctional raw v m (Some d) p = Some (True, Some d, p') \<and>
    pk_data p' = Some (take (nat n) (drop (nat (uint a - uint v)) d))"
proof -
  have np: "\<not> cmd_isPrint (pk_cmd p)" using c by (cases "pk_cmd p") (simp_all add: cmd_defs)
  have pn: "0 < n" and vm: "int (length d) = m" using p v by (simp_all add: packet_at_def value_at_def)
  obtain p1 d1 where a1: "allocate raw p = Some p1" "getPtr p1 = Some d1" "int (length d1) = n" using allocate_ok [OF p st] by blast
  have "blit d1 0 d (uint a - uint v) n = Some (take (nat n) (drop (nat (uint a - uint v)) d))"
    using sub pn vm a1(3) by (auto simp: blit_def)
  moreover have "overlaps a n v m" using sub pn by (simp add: overlaps_def)
  ultimately show ?thesis using c np sub a1 by (simp add: cf_prelude [OF p v])
qed

text \<open>
  A value that covers the end of a read answers all of its part but the last byte: the length of the overlap is taken as
  the difference of two addresses that are both inclusive.
\<close>

lemma functional_read_tail:
  assumes p: "packet_at p a n" and v: "value_at v m d" and c: "cmd_isRead (pk_cmd p)" and n: "n < 2 ^ 16"
    and dst: "getPtr p = Some dst" "int (length dst) = n" and fresh: "bytesValidStart p = 0" "bytesValidEnd p = 0"
    and over: "uint a < uint v" "uint v < uint a + n" "uint a + n < uint v + m"
  shows "\<exists>p' dst'. checkFunctional raw v m (Some d) p = Some (False, Some d, p') \<and> pk_data p' = Some dst' \<and>
    uint (bytesValidEnd p') = n - 1 \<and> last dst' = last dst"
proof -
  have np: "\<not> cmd_isPrint (pk_cmd p)" using c by (cases "pk_cmd p") (simp_all add: cmd_defs)
  have pn: "0 < n" "n < 2 ^ 31" "uint a + n \<le> 2 ^ 64" using p by (simp_all add: packet_at_def)
  have vm: "int (length d) = m" "0 < m" "m < 2 ^ 31" "uint v + m \<le> 2 ^ 64" using v by (simp_all add: value_at_def)
  let ?fe = "a + word_of_int n - 1" and ?ve = "v + word_of_int m - 1"
  have e: "uint ?fe = uint a + n - 1" "uint ?ve = uint v + m - 1" using range_end pn vm by blast+
  define f where "f = uint v - uint a"
  define l where "l = uint a + n - 1 - uint v"
  have "int32 (uint (v - a)) = f" "int32 (uint (?fe - v)) = l"
    using over pn e(1) by (simp_all add: f_def l_def int32_diff)
  then have o: "cf_overlap a ?fe v ?ve m = Some (0, f, l)" using over e by (simp add: cf_overlap_def word_less_def word_le_def)
  have fl: "0 < f" "0 \<le> l" "f + l = n - 1" "l \<le> m" using over by (simp_all add: f_def l_def)
  define p1 where "p1 = p\<lparr>bytesValidStart := word_of_int f, bytesValidEnd := word_of_int (f + l)\<rparr>"
  have m: "cf_merge 0 f l d p = Some (0, f, l, p1)" using fresh by (simp add: cf_merge_def p1_def)
  have "uint (word_of_int f :: 16 word) = f" "uint (word_of_int (f + l) :: 16 word) = f + l"
    using fl n by (intro uint16_of_int; linarith)+
  then have "uint (bytesValidStart p1) = f" "uint (bytesValidEnd p1) = f + l" by (simp_all add: p1_def)
  then have b: "uint (bytesValidEnd p1) = n - 1" "bytesValidStart p1 \<noteq> 0" using fl by auto
  have g: "getPtr p1 = Some dst" using dst(1) by (simp add: p1_def getPtr_def)
  obtain dst' where d': "blit dst f d 0 l = Some dst'" "length dst' = length dst"
      "\<forall>k < length dst. dst' ! k = (if f \<le> int k \<and> int k < f + l then d ! nat (0 + int k - f) else dst ! k)"
    using blit_nth [of f 0 l dst d] fl dst(2) vm by auto
  have ne: "dst \<noteq> []" "dst' \<noteq> []" "\<not> int (length dst - 1) < f + l" using d'(2) fl dst(2) pn by auto
  then have "dst' ! (length dst - 1) = dst ! (length dst - 1)" using d'(3) by auto
  then have "last dst' = last dst" using ne d'(2) by (simp add: last_conv_nth)
  moreover have "overlaps a n v m" using over by (simp add: overlaps_def)
  ultimately show ?thesis using c np over o m b g d' by (simp add: cf_prelude [OF p v])
qed

end
