(* ===== verification/Addr_Ranges.thy ===== *)
theory Addr_Ranges
  imports Prelude
begin

text \<open>
  Address ranges, \<open>src/gem5-stable/src/base/addr_range.hh\<close>: a start, an inclusive end, and optionally a slice of the
  address bits that must have a given value (interleaving). A memory is given one such range; the packets it accepts
  lie inside it.
\<close>

section \<open>Definitions\<close>

record AddrRange =
  ar_start :: Addr
  ar_end :: Addr
  intlvHighBit :: "8 word"
  intlvBits :: "8 word"
  intlvMatch :: "8 word"

definition AddrRange_empty :: AddrRange where
  "AddrRange_empty = \<lparr>ar_start = 1, ar_end = 0, intlvHighBit = 0, intlvBits = 0, intlvMatch = 0\<rparr>"

definition AddrRange_of :: "Addr \<Rightarrow> Addr \<Rightarrow> AddrRange" where
  "AddrRange_of s e = \<lparr>ar_start = s, ar_end = e, intlvHighBit = 0, intlvBits = 0, intlvMatch = 0\<rparr>"

definition ar_interleaved :: "AddrRange \<Rightarrow> bool" where
  "ar_interleaved r \<longleftrightarrow> intlvBits r \<noteq> 0"

text \<open>\<open>mask\<close> and \<open>bits\<close> of \<open>bitfield.hh\<close>, from bit \<open>hi\<close> down to bit \<open>lo\<close>, \<open>0 \<le> lo\<close>.\<close>

definition bf_mask :: "int \<Rightarrow> 64 word" where
  "bf_mask nbits = (if nbits = 64 then - 1 else push_bit (nat nbits) 1 - 1)"

definition bf_bits :: "64 word \<Rightarrow> int \<Rightarrow> int \<Rightarrow> 64 word" where
  "bf_bits val hi lo = drop_bit (nat lo) val AND bf_mask (hi - lo + 1)"

definition ar_granularity :: "AddrRange \<Rightarrow> 64 word" where
  "ar_granularity r = push_bit (nat (uint (intlvHighBit r) - uint (intlvBits r) + 1)) 1"

definition ar_stripes :: "AddrRange \<Rightarrow> 32 word" where
  "ar_stripes r = ucast (push_bit (unat (intlvBits r)) (1 :: 64 word))"

definition ar_size :: "AddrRange \<Rightarrow> Addr" where
  "ar_size r = drop_bit (unat (intlvBits r)) (ar_end r - ar_start r + 1)"

definition ar_valid :: "AddrRange \<Rightarrow> bool" where
  "ar_valid r \<longleftrightarrow> ar_start r < ar_end r"

definition ar_mergesWith :: "AddrRange \<Rightarrow> AddrRange \<Rightarrow> bool" where
  "ar_mergesWith r t \<longleftrightarrow> ar_start t = ar_start r \<and> ar_end t = ar_end r \<and>
     intlvHighBit t = intlvHighBit r \<and> intlvBits t = intlvBits r"

definition ar_contains :: "Addr \<Rightarrow> AddrRange \<Rightarrow> bool" where
  "ar_contains a r \<longleftrightarrow> ar_start r \<le> a \<and> a \<le> ar_end r \<and>
     (\<not> ar_interleaved r \<or>
      bf_bits a (uint (intlvHighBit r)) (uint (intlvHighBit r) - uint (intlvBits r) + 1) = ucast (intlvMatch r))"

text \<open>\<open>intersects\<close> and \<open>isSubset\<close> panic on interleaved ranges they cannot decide.\<close>

definition ar_intersects :: "AddrRange \<Rightarrow> AddrRange \<Rightarrow> bool option" where
  "ar_intersects r t =
     (if \<not> ar_interleaved r then Some (ar_start r \<le> ar_end t \<and> ar_start t \<le> ar_end r)
      else if ar_size t = 1 then Some (ar_contains (ar_start t) r)
      else if \<not> ar_interleaved t then Some (ar_start r \<le> ar_end t \<and> ar_start t \<le> ar_end r)
      else if ar_mergesWith r t then Some (intlvMatch r = intlvMatch t)
      else None)"

definition ar_isSubset :: "AddrRange \<Rightarrow> AddrRange \<Rightarrow> bool option" where
  "ar_isSubset r t = (if ar_interleaved r then None else Some (ar_start t \<le> ar_start r \<and> ar_end r \<le> ar_end t))"

definition ar_less :: "AddrRange \<Rightarrow> AddrRange \<Rightarrow> bool" where
  "ar_less r t = (if ar_start r \<noteq> ar_start t then ar_start r < ar_start t else intlvMatch r < intlvMatch t)"

text \<open>The constructor that merges interleaved ranges: the checks of its loop, with the running \<open>uint8_t match\<close>.\<close>

primrec ar_merge_check :: "AddrRange \<Rightarrow> 8 word \<Rightarrow> AddrRange list \<Rightarrow> bool" where
  "ar_merge_check first match [] = True"
| "ar_merge_check first match (r # rs) =
     (ar_mergesWith first r \<and> intlvMatch r = match \<and> ar_merge_check first (match + 1) rs)"

definition ar_merge :: "AddrRange list \<Rightarrow> AddrRange option" where
  "ar_merge rs =
     (case rs of
        [] \<Rightarrow> Some AddrRange_empty
      | first # _ \<Rightarrow>
          if length rs \<noteq> unat (push_bit (unat (intlvBits first)) (1 :: 64 word)) then None
          else if \<not> ar_merge_check first 0 rs then None
          else Some (AddrRange_of (ar_start first) (ar_end first)))"

definition RangeEx :: "Addr \<Rightarrow> Addr \<Rightarrow> AddrRange" where
  "RangeEx s e = AddrRange_of s (e - 1)"

definition RangeIn :: "Addr \<Rightarrow> Addr \<Rightarrow> AddrRange" where
  "RangeIn s e = AddrRange_of s e"

definition RangeSize :: "Addr \<Rightarrow> Addr \<Rightarrow> AddrRange" where
  "RangeSize s n = AddrRange_of s (s + n - 1)"

section \<open>Plain ranges\<close>

lemma AddrRange_of_fields [simp]:
  "ar_start (AddrRange_of s e) = s" "ar_end (AddrRange_of s e) = e" "\<not> ar_interleaved (AddrRange_of s e)"
  by (simp_all add: AddrRange_of_def ar_interleaved_def)

lemma contains_plain: "\<not> ar_interleaved r \<Longrightarrow> ar_contains a r \<longleftrightarrow> ar_start r \<le> a \<and> a \<le> ar_end r"
  by (simp add: ar_contains_def)

lemma isSubset_iff:
  assumes "\<not> ar_interleaved r" "\<not> ar_interleaved t" "ar_start r \<le> ar_end r"
  shows "ar_isSubset r t = Some (\<forall>a. ar_contains a r \<longrightarrow> ar_contains a t)"
  using assms by (auto simp: ar_isSubset_def contains_plain intro: order_trans)

lemma intersects_iff:
  assumes "\<not> ar_interleaved r" "\<not> ar_interleaved t" "ar_start r \<le> ar_end r" "ar_start t \<le> ar_end t"
  shows "ar_intersects r t = Some (\<exists>a. ar_contains a r \<and> ar_contains a t)"
proof -
  have m: "ar_start r \<le> ar_end t \<and> ar_start t \<le> ar_end r \<Longrightarrow> ar_contains (max (ar_start r) (ar_start t)) r \<and> ar_contains (max (ar_start r) (ar_start t)) t"
    using assms by (auto simp: contains_plain)
  have c: "ar_contains a r \<Longrightarrow> ar_contains a t \<Longrightarrow> ar_start r \<le> ar_end t \<and> ar_start t \<le> ar_end r" for a
    using assms by (auto simp: contains_plain intro: order_trans)
  have "ar_start r \<le> ar_end t \<and> ar_start t \<le> ar_end r \<longleftrightarrow> (\<exists>a. ar_contains a r \<and> ar_contains a t)" using m c by blast
  then show ?thesis using assms(1) by (simp add: ar_intersects_def)
qed

lemma RangeSize_contains:
  assumes "0 < n" "unat s + unat n \<le> 2 ^ 64"
  shows "ar_contains a (RangeSize s n) \<longleftrightarrow> unat s \<le> unat a \<and> unat a < unat s + unat n"
    and "ar_size (RangeSize s n) = n"
proof -
  have n: "0 < unat n" using assms(1) by (simp add: unat_gt_0)
  have "unat (n - 1) = unat n - 1" using assms(1) by (intro unat_minus_one) auto
  then have "unat s + unat (n - 1) < 2 ^ LENGTH(64)" using assms(2) n by simp
  then have "unat (s + (n - 1)) = unat s + unat n - 1" using \<open>unat (n - 1) = _\<close> n iffD1 [OF unat_add_lem] by fastforce
  then have "unat (s + n - 1) = unat s + unat n - 1" by (simp add: add_diff_eq)
  then show "ar_contains a (RangeSize s n) \<longleftrightarrow> unat s \<le> unat a \<and> unat a < unat s + unat n"
    using n by (auto simp: RangeSize_def contains_plain word_le_nat_alt)
  show "ar_size (RangeSize s n) = n" by (simp add: ar_size_def RangeSize_def AddrRange_of_def)
qed

section \<open>Interleaving\<close>

lemma merge_check_nth:
  "ar_merge_check f m rs \<longleftrightarrow> (\<forall>i < length rs. ar_mergesWith f (rs ! i) \<and> intlvMatch (rs ! i) = m + of_nat i)"
proof (induction rs arbitrary: m)
  case (Cons r rs)
  have "(\<forall>i < length (r # rs). P i) \<longleftrightarrow> P 0 \<and> (\<forall>i < length rs. P (Suc i))" for P by (auto simp: less_Suc_eq_0_disj)
  then show ?case using Cons by (simp add: add.assoc)
qed simp

text \<open>The slice of the address is a number below the number of parts.\<close>

lemma slice_less:
  assumes "unat n \<le> 8"
  shows "unat (bf_bits a h (h - uint (n :: 8 word) + 1)) < 2 ^ unat n"
proof -
  have m: "bf_mask (int k) = mask k" if "k \<le> 8" for k
    using that by (simp add: bf_mask_def mask_eq_exp_minus_1 push_bit_eq_mult)
  have "uint n = int (unat n)" by simp
  then have "bf_mask (uint n) = mask (unat n)" using m [OF assms] by metis
  then have "bf_bits a h (h - uint n + 1) = take_bit (unat n) (drop_bit (nat (h - uint n + 1)) a)"
    by (simp add: bf_bits_def take_bit_eq_mask)
  then show ?thesis by (simp add: unsigned_take_bit_eq)
qed

text \<open>The parts of a merged range partition it.\<close>

lemma merge_partition:
  assumes m: "ar_merge rs = Some r" and ne: "rs \<noteq> []" and b: "unat (intlvBits (hd rs)) \<le> 8"
  shows "ar_contains a r \<longleftrightarrow> (\<exists>!i. i < length rs \<and> ar_contains a (rs ! i))"
proof -
  obtain f fs where rs: "rs = f # fs" using ne by (cases rs) auto
  let ?n = "unat (intlvBits f)"
  let ?s = "bf_bits a (uint (intlvHighBit f)) (uint (intlvHighBit f) - uint (intlvBits f) + 1)"
  have len0: "length rs = unat (push_bit ?n (1 :: 64 word))" and chk: "ar_merge_check f 0 rs"
    and r: "r = AddrRange_of (ar_start f) (ar_end f)"
    using m by (simp_all add: ar_merge_def rs split: if_splits)
  have n8: "?n \<le> 8" using b by (simp add: rs)
  then have p256: "(2 :: nat) ^ ?n \<le> 2 ^ 8" by (intro power_increasing) simp_all
  have pw: "unat ((2 :: 64 word) ^ ?n) = 2 ^ ?n" using n8 by (intro unat_pow2) simp
  then have len: "length rs = 2 ^ ?n" using len0 by (simp add: push_bit_eq_mult)
  have part: "ar_contains a (rs ! i) \<longleftrightarrow> ar_contains a r \<and> (?n = 0 \<or> unat ?s = i)" if i: "i < length rs" for i
  proof -
    have e: "ar_mergesWith f (rs ! i)" "intlvMatch (rs ! i) = of_nat i" using chk i by (auto simp: merge_check_nth)
    have "i < 2 ^ 8" using i len p256 by linarith
    then have "unat (of_nat i :: 8 word) = i" by (intro unat_of_nat_small) simp
    then have "unat (ucast (of_nat i :: 8 word) :: 64 word) = i" using \<open>i < 2 ^ 8\<close> by (simp add: unsigned_ucast_eq take_bit_nat_eq_self)
    then have "?s = ucast (of_nat i :: 8 word) \<longleftrightarrow> unat ?s = i" by (metis word_unat_eq_iff)
    moreover have "ar_interleaved (rs ! i) \<longleftrightarrow> ?n \<noteq> 0" using e(1) by (simp add: ar_mergesWith_def ar_interleaved_def unat_eq_zero)
    ultimately show ?thesis using e unfolding ar_contains_def by (auto simp: ar_mergesWith_def r)
  qed
  show ?thesis
  proof (cases "?n = 0")
    case True
    then show ?thesis using part len by (auto simp: Ex1_def)
  next
    case False
    have "unat ?s < length rs" unfolding len by (rule slice_less [OF n8])
    then show ?thesis using part False by (auto intro!: ex1I [of _ "unat ?s"])
  qed
qed

end
