(* ===== verification/Dram_Banks.thy ===== *)
theory Dram_Banks
  imports Prelude
begin

text \<open>
  The bank model, \<open>src/dram_banks.h\<close>: ranks of banks with an open row each, which tells row-buffer hits from misses,
  and a queue of pending writes per bank, which the checkpointing traffic drains. A \<open>Bank*\<close> is the pair of indices of
  the bank; the vectors' \<open>operator[]\<close> outside the vector and \<open>back\<close> of an empty vector are \<open>None\<close>.
\<close>

section \<open>Definitions\<close>

record BankAddress =
  rank_ID :: int
  bank_ID :: int
  row_ID :: int

record Bank =
  open_row :: "32 word"
  busy_time :: "64 word"
  write_queue :: "BankAddress list"

definition Bank_init :: Bank where
  "Bank_init = \<lparr>open_row = word_of_int (- EINVAL), busy_time = 0, write_queue = []\<rparr>"

definition Bank_Access :: "int \<Rightarrow> Bank \<Rightarrow> bool \<times> Bank" where
  "Bank_Access row b =
     (if open_row b = word_of_int row then (True, b) else (False, b\<lparr>open_row := word_of_int row\<rparr>))"

definition Bank_HasPendingWrite :: "Bank \<Rightarrow> bool" where
  "Bank_HasPendingWrite b \<longleftrightarrow> write_queue b \<noteq> []"

definition Bank_PushWrite :: "BankAddress \<Rightarrow> Bank \<Rightarrow> Bank option" where
  "Bank_PushWrite addr b = do {
     cassert (write_queue b = [] \<or> bank_ID (last (write_queue b)) = bank_ID addr);
     Some (b\<lparr>write_queue := write_queue b @ [addr]\<rparr>) }"

definition Bank_PopWrite :: "Bank \<Rightarrow> (BankAddress \<times> Bank) option" where
  "Bank_PopWrite b =
     (if write_queue b = [] then None else Some (last (write_queue b), b\<lparr>write_queue := butlast (write_queue b)\<rparr>))"

record DRAMBanks =
  db_burst_size :: int
  db_row_buffer_size :: int
  db_ranks_per_channel :: int
  db_banks_per_rank :: int
  db_capacity :: "64 word"
  db_columns_per_row_buffer :: int
  db_rows_per_bank :: int
  db_banks :: "Bank list list"

definition DRAMBanks_init :: "64 word \<Rightarrow> int \<Rightarrow> int \<Rightarrow> int \<Rightarrow> int \<Rightarrow> DRAMBanks" where
  "DRAMBanks_init cap burst row ranks nbanks = \<lparr>
     db_burst_size = burst, db_row_buffer_size = row, db_ranks_per_channel = ranks, db_banks_per_rank = nbanks,
     db_capacity = cap, db_columns_per_row_buffer = row div burst,
     db_rows_per_bank = int32 (uint (cap div word_of_int (int32 (row * nbanks * ranks)))),
     db_banks = replicate (nat ranks) (replicate (nat nbanks) Bank_init)\<rparr>"

definition DDR3Banks :: "64 word \<Rightarrow> DRAMBanks" where
  "DDR3Banks cap = DRAMBanks_init cap 64 8192 2 8"

text \<open>\<open>%\<close> and \<open>/\<close> of an address by an \<open>int\<close> member, which is converted to \<open>uint64_t\<close>; by zero they abort.\<close>

definition addr_div :: "64 word \<Rightarrow> int \<Rightarrow> 64 word option" where
  "addr_div a n = (if (word_of_int n :: 64 word) = 0 then None else Some (a div word_of_int n))"

definition addr_mod :: "64 word \<Rightarrow> int \<Rightarrow> int option" where
  "addr_mod a n = (if (word_of_int n :: 64 word) = 0 then None else Some (int32 (uint (a mod word_of_int n))))"

definition db_ParseAddr :: "64 word \<Rightarrow> DRAMBanks \<Rightarrow> BankAddress option" where
  "db_ParseAddr addr db = do {
     addr \<leftarrow> addr_div addr (db_burst_size db);
     addr \<leftarrow> addr_div addr (db_columns_per_row_buffer db);
     bank \<leftarrow> addr_mod addr (db_banks_per_rank db);
     addr \<leftarrow> addr_div addr (db_banks_per_rank db);
     cassert (0 \<le> bank \<and> bank < db_banks_per_rank db);
     rank \<leftarrow> addr_mod addr (db_ranks_per_channel db);
     addr \<leftarrow> addr_div addr (db_ranks_per_channel db);
     cassert (0 \<le> rank \<and> rank < db_ranks_per_channel db);
     row \<leftarrow> addr_mod addr (db_rows_per_bank db);
     cassert (0 \<le> row \<and> row < db_rows_per_bank db);
     Some \<lparr>rank_ID = rank, bank_ID = bank, row_ID = row\<rparr> }"

definition db_in :: "int \<Rightarrow> int \<Rightarrow> DRAMBanks \<Rightarrow> bool" where
  "db_in i j db \<longleftrightarrow> 0 \<le> i \<and> nat i < length (db_banks db) \<and> 0 \<le> j \<and> nat j < length (db_banks db ! nat i)"

definition db_get :: "int \<Rightarrow> int \<Rightarrow> DRAMBanks \<Rightarrow> Bank option" where
  "db_get i j db = (if db_in i j db then Some (db_banks db ! nat i ! nat j) else None)"

definition db_set :: "int \<Rightarrow> int \<Rightarrow> Bank \<Rightarrow> DRAMBanks \<Rightarrow> DRAMBanks" where
  "db_set i j b db = db\<lparr>db_banks := (db_banks db)[nat i := (db_banks db ! nat i)[nat j := b]]\<rparr>"

definition db_PushWrite :: "64 word \<Rightarrow> DRAMBanks \<Rightarrow> DRAMBanks option" where
  "db_PushWrite addr db = do {
     a \<leftarrow> db_ParseAddr addr db;
     b \<leftarrow> db_get (rank_ID a) (bank_ID a) db;
     b \<leftarrow> Bank_PushWrite a b;
     Some (db_set (rank_ID a) (bank_ID a) b db) }"

definition db_HasPendingWrite :: "DRAMBanks \<Rightarrow> bool" where
  "db_HasPendingWrite db \<longleftrightarrow> list_ex (list_ex Bank_HasPendingWrite) (db_banks db)"

text \<open>\<open>Access(Address, hit)\<close> and \<open>Access(uint64_t, hit)\<close>: the bank, whether the row was open, and the banks after.\<close>

definition db_Access_at :: "BankAddress \<Rightarrow> DRAMBanks \<Rightarrow> ((int \<times> int) \<times> bool \<times> DRAMBanks) option" where
  "db_Access_at a db = do {
     b \<leftarrow> db_get (rank_ID a) (bank_ID a) db;
     let (hit, b) = Bank_Access (row_ID a) b;
     Some ((rank_ID a, bank_ID a), hit, db_set (rank_ID a) (bank_ID a) b db) }"

definition db_Access :: "64 word \<Rightarrow> DRAMBanks \<Rightarrow> ((int \<times> int) \<times> bool \<times> DRAMBanks) option" where
  "db_Access addr db = do {
     a \<leftarrow> db_ParseAddr addr db;
     db_Access_at a db }"

text \<open>\<open>Access(Time, flushed)\<close>: the body of the two loops for one bank, and the loops over all of them in order.\<close>

type_synonym FlushState = "((int \<times> int) \<times> bool) list \<times> int \<times> DRAMBanks"

definition db_flush_bank :: "64 word \<Rightarrow> int \<times> int \<Rightarrow> FlushState \<Rightarrow> FlushState option" where
  "db_flush_bank t ij st = do {
     let (ret, flushed, db) = st;
     b \<leftarrow> db_get (fst ij) (snd ij) db;
     let flushed = (if busy_time b = t then flushed + 1 else flushed);
     if busy_time b \<le> t \<and> Bank_HasPendingWrite b
     then do {
       (a, b) \<leftarrow> Bank_PopWrite b;
       (bank, hit, db) \<leftarrow> db_Access_at a (db_set (fst ij) (snd ij) b db);
       Some (ret @ [(bank, hit)], flushed, db) }
     else Some (ret, flushed, db) }"

primrec db_flush_loop :: "64 word \<Rightarrow> (int \<times> int) list \<Rightarrow> FlushState \<Rightarrow> FlushState option" where
  "db_flush_loop t [] st = Some st"
| "db_flush_loop t (ij # ijs) st = do {
     st \<leftarrow> db_flush_bank t ij st;
     db_flush_loop t ijs st }"

definition db_indices :: "DRAMBanks \<Rightarrow> (int \<times> int) list" where
  "db_indices db = concat (map (\<lambda>i. map (\<lambda>j. (int i, int j)) [0 ..< length (db_banks db ! i)]) [0 ..< length (db_banks db)])"

definition db_Access_time :: "64 word \<Rightarrow> DRAMBanks \<Rightarrow> FlushState option" where
  "db_Access_time t db = db_flush_loop t (db_indices db) ([], 0, db)"

text \<open>\<open>set_busy_time\<close> through the returned pointers.\<close>

definition db_set_busy_time :: "64 word \<Rightarrow> int \<times> int \<Rightarrow> DRAMBanks \<Rightarrow> DRAMBanks option" where
  "db_set_busy_time t ij db = do {
     b \<leftarrow> db_get (fst ij) (snd ij) db;
     Some (db_set (fst ij) (snd ij) (b\<lparr>busy_time := t\<rparr>) db) }"

definition db_next_step :: "64 word \<Rightarrow> 64 word \<Rightarrow> Bank \<Rightarrow> 64 word" where
  "db_next_step now nxt b = (if busy_time b > now \<and> busy_time b < nxt then busy_time b else nxt)"

definition db_NextTime :: "64 word \<Rightarrow> DRAMBanks \<Rightarrow> 64 word" where
  "db_NextTime now db =
     (let nxt = foldl (db_next_step now) (- 1) (concat (db_banks db)) in if nxt = - 1 then 0 else nxt)"

section \<open>Well-formed banks\<close>

definition db_cfg :: "DRAMBanks \<Rightarrow> bool" where
  "db_cfg db \<longleftrightarrow>
     0 < db_burst_size db \<and> db_burst_size db < 2 ^ 31 \<and> 0 < db_columns_per_row_buffer db \<and> db_columns_per_row_buffer db < 2 ^ 31 \<and>
     0 < db_banks_per_rank db \<and> db_banks_per_rank db < 2 ^ 31 \<and> 0 < db_ranks_per_channel db \<and> db_ranks_per_channel db < 2 ^ 31 \<and>
     0 < db_rows_per_bank db \<and> db_rows_per_bank db < 2 ^ 31 \<and>
     length (db_banks db) = nat (db_ranks_per_channel db) \<and>
     (\<forall>r \<in> set (db_banks db). length r = nat (db_banks_per_rank db))"

text \<open>Every queued write is queued at its own bank.\<close>

definition db_ok :: "DRAMBanks \<Rightarrow> bool" where
  "db_ok db \<longleftrightarrow> db_cfg db \<and>
     (\<forall>i j b. db_get i j db = Some b \<longrightarrow> (\<forall>a \<in> set (write_queue b). rank_ID a = i \<and> bank_ID a = j))"

lemma uint_small: "0 \<le> n \<Longrightarrow> n < 2 ^ 31 \<Longrightarrow> uint (word_of_int n :: 64 word) = n"
  by (simp add: uint_word_of_int take_bit_int_eq_self)

lemma addr_div_ok:
  assumes "0 < n" "n < 2 ^ 31"
  shows "\<exists>q. addr_div a n = Some q \<and> uint q = uint a div n"
proof -
  have n: "uint (word_of_int n :: 64 word) = n" using assms by (intro uint_small) simp_all
  then have "(word_of_int n :: 64 word) \<noteq> 0" using assms(1) by auto
  then show ?thesis using n by (simp add: addr_div_def uint_div_distrib)
qed

lemma addr_mod_ok:
  assumes "0 < n" "n < 2 ^ 31"
  shows "addr_mod a n = Some (uint a mod n)"
proof -
  have n: "uint (word_of_int n :: 64 word) = n" using assms by (intro uint_small) simp_all
  then have "(word_of_int n :: 64 word) \<noteq> 0" using assms(1) by auto
  moreover have "0 \<le> uint a mod n" "uint a mod n < 2 ^ 31"
    using assms pos_mod_sign [of n "uint a"] pos_mod_bound [of n "uint a"] by linarith+
  ultimately show ?thesis using n by (simp add: addr_mod_def uint_mod_distrib int32_id)
qed

text \<open>The decomposition of an address: the row buffer, then the bank, then the rank, then the row.\<close>

definition row_index :: "64 word \<Rightarrow> DRAMBanks \<Rightarrow> int" where
  "row_index a db = uint a div db_burst_size db div db_columns_per_row_buffer db"

definition parsed :: "64 word \<Rightarrow> DRAMBanks \<Rightarrow> BankAddress" where
  "parsed a db = (let x = row_index a db; y = x div db_banks_per_rank db; z = y div db_ranks_per_channel db in
     \<lparr>rank_ID = y mod db_ranks_per_channel db, bank_ID = x mod db_banks_per_rank db, row_ID = z mod db_rows_per_bank db\<rparr>)"

lemma ParseAddr_eq:
  assumes "db_cfg db"
  shows "db_ParseAddr a db = Some (parsed a db)"
proof -
  have c: "0 < db_burst_size db" "db_burst_size db < 2 ^ 31" "0 < db_columns_per_row_buffer db" "db_columns_per_row_buffer db < 2 ^ 31"
     "0 < db_banks_per_rank db" "db_banks_per_rank db < 2 ^ 31" "0 < db_ranks_per_channel db" "db_ranks_per_channel db < 2 ^ 31"
     "0 < db_rows_per_bank db" "db_rows_per_bank db < 2 ^ 31"
    using assms unfolding db_cfg_def by simp_all
  obtain q1 where q1: "addr_div a (db_burst_size db) = Some q1" "uint q1 = uint a div db_burst_size db"
    using addr_div_ok [OF c(1,2)] by blast
  obtain q2 where q2: "addr_div q1 (db_columns_per_row_buffer db) = Some q2" "uint q2 = row_index a db"
    using addr_div_ok [OF c(3,4), of q1] q1(2) by (auto simp: row_index_def)
  obtain q3 where q3: "addr_div q2 (db_banks_per_rank db) = Some q3" "uint q3 = row_index a db div db_banks_per_rank db"
    using addr_div_ok [OF c(5,6), of q2] q2(2) by auto
  obtain q4 where q4: "addr_div q3 (db_ranks_per_channel db) = Some q4" "uint q4 = row_index a db div db_banks_per_rank db div db_ranks_per_channel db"
    using addr_div_ok [OF c(7,8), of q3] q3(2) by auto
  show ?thesis
    unfolding db_ParseAddr_def parsed_def
    using c q1(1) q2 q3 q4 addr_mod_ok [OF c(5,6), of q2] addr_mod_ok [OF c(7,8), of q3] addr_mod_ok [OF c(9,10), of q4] by (simp add: Let_def)
qed

lemma db_in_cfg: "db_cfg db \<Longrightarrow> db_in i j db \<longleftrightarrow> 0 \<le> i \<and> i < db_ranks_per_channel db \<and> 0 \<le> j \<and> j < db_banks_per_rank db"
  unfolding db_cfg_def db_in_def by (auto simp: nat_less_iff dest: nth_mem)

lemma parsed_in: "db_cfg db \<Longrightarrow> db_in (rank_ID (parsed a db)) (bank_ID (parsed a db)) db"
  by (simp add: db_in_cfg) (simp add: db_cfg_def parsed_def Let_def)

text \<open>The row, the rank and the bank give back the row buffer the address is in, for addresses inside the capacity.\<close>

lemma parsed_inverse:
  assumes "db_cfg db" "row_index a db < db_rows_per_bank db * db_ranks_per_channel db * db_banks_per_rank db"
  shows "(row_ID (parsed a db) * db_ranks_per_channel db + rank_ID (parsed a db)) * db_banks_per_rank db + bank_ID (parsed a db) =
    row_index a db"
proof -
  let ?x = "row_index a db" and ?nb = "db_banks_per_rank db" and ?nr = "db_ranks_per_channel db"
  have p: "0 < ?nb" "0 < ?nr" using assms(1) by (simp_all add: db_cfg_def)
  have x: "0 \<le> ?x" using assms(1) by (simp add: row_index_def db_cfg_def pos_imp_zdiv_nonneg_iff)
  have "?x div ?nb div ?nr < db_rows_per_bank db"
  proof (rule ccontr)
    assume "\<not> ?x div ?nb div ?nr < db_rows_per_bank db"
    then have "db_rows_per_bank db * (?nb * ?nr) \<le> ?x div (?nb * ?nr) * (?nb * ?nr)"
      using p by (intro mult_right_mono) (simp_all add: zdiv_zmult2_eq)
    also have "\<dots> \<le> ?x" using div_mult_mod_eq [of ?x "?nb * ?nr"] pos_mod_sign [of "?nb * ?nr" ?x] p by (smt (verit) mult_pos_pos)
    finally show False using assms(2) by (simp add: ac_simps)
  qed
  then have "?x div ?nb div ?nr mod db_rows_per_bank db = ?x div ?nb div ?nr"
    using x p by (intro mod_pos_pos_trivial) (simp_all add: pos_imp_zdiv_nonneg_iff)
  then show ?thesis by (simp add: parsed_def Let_def)
qed

section \<open>Reading and updating one bank\<close>

lemma db_get_cfg: "db_cfg db \<Longrightarrow> db_in i j db \<Longrightarrow> \<exists>b. db_get i j db = Some b"
  by (simp add: db_get_def)

lemma db_get_in: "db_get i j db = Some b \<Longrightarrow> db_in i j db"
  by (simp add: db_get_def split: if_splits)

lemma db_set_lengths [simp]:
  "length (db_banks (db_set i j b db)) = length (db_banks db)"
  "length (db_banks (db_set i j b db) ! k) = length (db_banks db ! k)"
proof -
  show "length (db_banks (db_set i j b db)) = length (db_banks db)" by (simp add: db_set_def)
  show "length (db_banks (db_set i j b db) ! k) = length (db_banks db ! k)"
    by (cases "nat i < length (db_banks db)"; cases "k = nat i") (simp_all add: db_set_def list_update_beyond)
qed

lemma db_in_set [simp]: "db_in i j (db_set i' j' b db) = db_in i j db"
  by (simp add: db_in_def)

lemma db_get_set:
  assumes "db_in i j db"
  shows "db_get i' j' (db_set i j b db) = (if i' = i \<and> j' = j then Some b else db_get i' j' db)"
proof -
  have n: "nat i < length (db_banks db)" "nat j < length (db_banks db ! nat i)" "0 \<le> i" "0 \<le> j" using assms by (simp_all add: db_in_def)
  show ?thesis
  proof (cases "db_in i' j' db")
    case True
    then have "0 \<le> i'" "0 \<le> j'" by (simp_all add: db_in_def)
    then have "i' = i \<longleftrightarrow> nat i' = nat i" "j' = j \<longleftrightarrow> nat j' = nat j" using n(3,4) by auto
    then show ?thesis using True n(1,2)
      by (cases "nat i' = nat i"; cases "nat j' = nat j") (simp_all add: db_get_def, simp_all add: db_set_def)
  next
    case False
    then show ?thesis using assms by (auto simp: db_get_def)
  qed
qed

lemma db_cfg_set [simp]: "db_cfg db \<Longrightarrow> db_in i j db \<Longrightarrow> db_cfg (db_set i j b db)"
  unfolding db_cfg_def db_set_def db_in_def by (auto dest!: set_update_subset_insert [THEN subsetD])

lemma db_indices_set [simp]: "db_indices (db_set i j b db) = db_indices db"
  by (simp add: db_indices_def)

lemma set_db_indices: "(i, j) \<in> set (db_indices db) \<longleftrightarrow> db_in i j db"
proof
  assume "(i, j) \<in> set (db_indices db)"
  then show "db_in i j db" by (auto simp: db_indices_def db_in_def)
next
  assume a: "db_in i j db"
  then have "i = int (nat i)" "j = int (nat j)" by (simp_all add: db_in_def)
  then show "(i, j) \<in> set (db_indices db)" using a unfolding db_indices_def db_in_def by force
qed

lemma distinct_db_indices: "distinct (db_indices db)"
proof -
  have "distinct (concat (map (\<lambda>i. map (\<lambda>j. (int i, int j)) [0 ..< f i]) [0 ..< n]))" for f n
    by (induction n) (auto simp: distinct_map inj_on_def)
  then show ?thesis by (simp add: db_indices_def)
qed

section \<open>Accesses\<close>

lemma db_okD: "db_ok db \<Longrightarrow> db_cfg db" "db_ok db \<Longrightarrow> db_get i j db = Some b \<Longrightarrow> a \<in> set (write_queue b) \<Longrightarrow> rank_ID a = i \<and> bank_ID a = j"
  by (auto simp: db_ok_def)

lemma db_ok_set:
  assumes "db_ok db" "db_in i j db" "\<And>a. a \<in> set (write_queue b) \<Longrightarrow> rank_ID a = i \<and> bank_ID a = j"
  shows "db_ok (db_set i j b db)"
  using assms by (auto simp: db_ok_def db_get_set split: if_splits)

text \<open>An access opens its row; the hit flag says whether the row was open.\<close>

lemma db_Access_ok:
  assumes "db_ok db"
  shows "\<exists>db'. db_Access a db = Some ((rank_ID (parsed a db), bank_ID (parsed a db)),
      map_option open_row (db_get (rank_ID (parsed a db)) (bank_ID (parsed a db)) db) = Some (word_of_int (row_ID (parsed a db))), db') \<and>
    db_ok db' \<and> db_indices db' = db_indices db \<and> db_row_buffer_size db' = db_row_buffer_size db \<and> row_index x db' = row_index x db \<and> parsed x db' = parsed x db \<and>
    (\<forall>i j. db_get i j db' = map_option (\<lambda>b. if i = rank_ID (parsed a db) \<and> j = bank_ID (parsed a db)
       then b\<lparr>open_row := word_of_int (row_ID (parsed a db))\<rparr> else b) (db_get i j db))"
proof -
  let ?i = "rank_ID (parsed a db)" and ?j = "bank_ID (parsed a db)" and ?r = "row_ID (parsed a db)"
  note c = db_okD(1) [OF assms]
  note i = parsed_in [OF c, of a]
  obtain b where b: "db_get ?i ?j db = Some b" using db_get_cfg [OF c i] by blast
  define b' where "b' = b\<lparr>open_row := word_of_int ?r\<rparr>"
  have s: "b' = b" if "open_row b = word_of_int ?r" using that by (simp add: b'_def)
  have "db_ok (db_set ?i ?j b' db)" using db_okD(2) [OF assms b] by (intro db_ok_set [OF assms i]) (simp add: b'_def)
  moreover have "db_Access a db = Some ((?i, ?j), open_row b = word_of_int ?r, db_set ?i ?j b' db)"
    using ParseAddr_eq [OF c] b s by (cases "open_row b = word_of_int ?r") (simp_all add: db_Access_def db_Access_at_def Bank_Access_def, simp add: b'_def)
  moreover have "row_index x (db_set ?i ?j b' db) = row_index x db" "parsed x (db_set ?i ?j b' db) = parsed x db"
    "db_row_buffer_size (db_set ?i ?j b' db) = db_row_buffer_size db"
    by (simp_all add: row_index_def parsed_def db_set_def)
  ultimately show ?thesis using b i by (auto simp: db_get_set b'_def option.map_ident)
qed

lemma db_PushWrite_ok:
  assumes "db_ok db"
  shows "\<exists>db'. db_PushWrite a db = Some db' \<and> db_ok db' \<and> db_indices db' = db_indices db \<and>
    (\<forall>i j. db_get i j db' = map_option (\<lambda>b. if i = rank_ID (parsed a db) \<and> j = bank_ID (parsed a db)
       then b\<lparr>write_queue := write_queue b @ [parsed a db]\<rparr> else b) (db_get i j db))"
proof -
  let ?i = "rank_ID (parsed a db)" and ?j = "bank_ID (parsed a db)"
  note c = db_okD(1) [OF assms]
  note i = parsed_in [OF c, of a]
  obtain b where b: "db_get ?i ?j db = Some b" using db_get_cfg [OF c i] by blast
  define b' where "b' = b\<lparr>write_queue := write_queue b @ [parsed a db]\<rparr>"
  have "write_queue b = [] \<or> bank_ID (last (write_queue b)) = ?j" using db_okD(2) [OF assms b last_in_set] by auto
  then have "db_PushWrite a db = Some (db_set ?i ?j b' db)"
    using ParseAddr_eq [OF c] b by (simp add: db_PushWrite_def Bank_PushWrite_def b'_def)
  moreover have "db_ok (db_set ?i ?j b' db)" using db_okD(2) [OF assms b] by (intro db_ok_set [OF assms i]) (auto simp: b'_def)
  ultimately show ?thesis using b i by (auto simp: db_get_set b'_def option.map_ident)
qed

section \<open>Draining the write queues\<close>

text \<open>What one pass does to one bank: a bank that is free and has a write queued performs the newest one.\<close>

definition bank_due :: "64 word \<Rightarrow> Bank \<Rightarrow> bool" where
  "bank_due t b \<longleftrightarrow> busy_time b \<le> t \<and> write_queue b \<noteq> []"

definition bank_step :: "64 word \<Rightarrow> Bank \<Rightarrow> Bank" where
  "bank_step t b = (if bank_due t b
     then b\<lparr>write_queue := butlast (write_queue b), open_row := word_of_int (row_ID (last (write_queue b)))\<rparr> else b)"

definition bank_of :: "DRAMBanks \<Rightarrow> int \<times> int \<Rightarrow> Bank" where
  "bank_of db ij = the (db_get (fst ij) (snd ij) db)"

lemma flush_bank_ok:
  assumes ok: "db_ok db" and b: "db_get i j db = Some b"
  shows "\<exists>h db'. db_flush_bank t (i, j) (ret, f, db) =
      Some (ret @ (if bank_due t b then [((i, j), h)] else []), f + (if busy_time b = t then 1 else 0), db') \<and>
    db_ok db' \<and> db_indices db' = db_indices db \<and>
    (\<forall>i' j'. db_get i' j' db' = (if i' = i \<and> j' = j then Some (bank_step t b) else db_get i' j' db))"
proof (cases "bank_due t b")
  case True
  note i = db_get_in [OF b]
  let ?a = "last (write_queue b)" and ?b1 = "b\<lparr>write_queue := butlast (write_queue b)\<rparr>"
  have q: "busy_time b \<le> t" "write_queue b \<noteq> []" using True by (simp_all add: bank_due_def)
  have a: "rank_ID ?a = i" "bank_ID ?a = j" using db_okD(2) [OF ok b] q(2) by simp_all
  have ok1: "db_ok (db_set i j ?b1 db)" using db_okD(2) [OF ok b] by (intro db_ok_set [OF ok i]) (auto dest: in_set_butlastD)
  have g1: "db_get i j (db_set i j ?b1 db) = Some ?b1" by (simp add: db_get_set [OF i])
  obtain h b2 where acc: "Bank_Access (row_ID ?a) ?b1 = (h, b2)" by fastforce
  then have b2: "b2 = bank_step t b" using True by (auto simp: Bank_Access_def bank_step_def split: if_splits)
  have "db_ok (db_set i j b2 (db_set i j ?b1 db))"
    using db_okD(2) [OF ok b] True by (intro db_ok_set [OF ok1]) (auto simp: i b2 bank_step_def dest: in_set_butlastD)
  moreover have "db_flush_bank t (i, j) (ret, f, db) = Some (ret @ [((i, j), h)], f + (if busy_time b = t then 1 else 0), db_set i j b2 (db_set i j ?b1 db))"
    using b q a g1 acc by (simp add: db_flush_bank_def Bank_HasPendingWrite_def Bank_PopWrite_def db_Access_at_def)
  ultimately show ?thesis using True b2 i by (simp add: db_get_set)
next
  case False
  then show ?thesis using ok b by (auto simp: db_flush_bank_def Bank_HasPendingWrite_def bank_due_def bank_step_def)
qed

lemma flush_loop_ok:
  assumes "db_ok db" "distinct ijs" "\<And>i j. (i, j) \<in> set ijs \<Longrightarrow> db_in i j db"
  shows "\<exists>ret' db'. db_flush_loop t ijs (ret, f, db) = Some (ret', f + int (length (filter (\<lambda>ij. busy_time (bank_of db ij) = t) ijs)), db') \<and>
    map fst ret' = map fst ret @ filter (\<lambda>ij. bank_due t (bank_of db ij)) ijs \<and> db_ok db' \<and> db_indices db' = db_indices db \<and>
    (\<forall>i j. db_get i j db' = map_option (\<lambda>b. if (i, j) \<in> set ijs then bank_step t b else b) (db_get i j db))"
  using assms
proof (induction ijs arbitrary: ret f db)
  case Nil
  then show ?case by (simp add: option.map_ident)
next
  case (Cons ij ijs)
  obtain i j where ij: "ij = (i, j)" by (cases ij)
  note c = db_okD(1) [OF Cons.prems(1)]
  obtain b where b: "db_get i j db = Some b" using db_get_cfg [OF c] Cons.prems(3) [of i j] ij by auto
  obtain h db1 where s: "db_flush_bank t (i, j) (ret, f, db) =
      Some (ret @ (if bank_due t b then [((i, j), h)] else []), f + (if busy_time b = t then 1 else 0), db1)"
    "db_ok db1" "db_indices db1 = db_indices db" "\<And>i' j'. db_get i' j' db1 = (if i' = i \<and> j' = j then Some (bank_step t b) else db_get i' j' db)"
    using flush_bank_ok [OF Cons.prems(1) b] by blast
  have in1: "db_in i' j' db1" if "(i', j') \<in> set ijs" for i' j'
    using Cons.prems(3) [of i' j'] that s(3) set_db_indices [of i' j' db] set_db_indices [of i' j' db1] by simp
  have same: "bank_of db1 x = bank_of db x" if "x \<in> set ijs" for x
  proof -
    have "x \<noteq> (i, j)" using that Cons.prems(2) ij by auto
    then show ?thesis by (cases x) (auto simp: bank_of_def s(4))
  qed
  let ?r = "ret @ (if bank_due t b then [((i, j), h)] else [])" and ?f = "f + (if busy_time b = t then 1 else 0 :: int)"
  obtain ret' db' where r: "db_flush_loop t ijs (?r, ?f, db1) = Some (ret', ?f + int (length (filter (\<lambda>ij. busy_time (bank_of db1 ij) = t) ijs)), db')"
    "map fst ret' = map fst ?r @ filter (\<lambda>ij. bank_due t (bank_of db1 ij)) ijs" "db_ok db'" "db_indices db' = db_indices db1"
    "\<And>i j. db_get i j db' = map_option (\<lambda>b. if (i, j) \<in> set ijs then bank_step t b else b) (db_get i j db1)"
    using Cons.IH [OF s(2) _ in1, of ?r ?f] Cons.prems(2) by auto
  have f: "filter (\<lambda>ij. P (bank_of db1 ij)) ijs = filter (\<lambda>ij. P (bank_of db ij)) ijs" for P using same by (intro filter_cong) simp_all
  have bo: "bank_of db (i, j) = b" using b by (simp add: bank_of_def)
  have nin: "(i, j) \<notin> set ijs" using Cons.prems(2) ij by simp
  have g: "db_get i' j' db' = map_option (\<lambda>b. if (i', j') \<in> set (ij # ijs) then bank_step t b else b) (db_get i' j' db)" for i' j'
    using r(5) [of i' j'] s(4) [of i' j'] nin b by (cases "i' = i \<and> j' = j") (auto simp: ij)
  have "db_flush_loop t (ij # ijs) (ret, f, db) = Some (ret', f + int (length (filter (\<lambda>ij. busy_time (bank_of db ij) = t) (ij # ijs))), db')"
    using s(1) r(1) f [of "\<lambda>b. busy_time b = t"] bo by (simp add: ij)
  moreover have "map fst ret' = map fst ret @ filter (\<lambda>ij. bank_due t (bank_of db ij)) (ij # ijs)"
    using r(2) f [of "bank_due t"] bo by (simp add: ij)
  ultimately show ?case using r(3,4) s(3) g by (intro exI [of _ ret'] exI [of _ db'] conjI allI) simp_all
qed

lemma Access_time_ok:
  assumes ok: "db_ok db"
  shows "\<exists>ret db'. db_Access_time t db = Some (ret, int (length (filter (\<lambda>ij. busy_time (bank_of db ij) = t) (db_indices db))), db') \<and>
    map fst ret = filter (\<lambda>ij. bank_due t (bank_of db ij)) (db_indices db) \<and> db_ok db' \<and> db_indices db' = db_indices db \<and>
    (\<forall>i j. db_get i j db' = map_option (bank_step t) (db_get i j db))"
proof -
  note l = flush_loop_ok [OF ok distinct_db_indices [of db] iffD1 [OF set_db_indices], where t = t and ret = "[]" and f = 0]
  obtain ret db' where r: "db_flush_loop t (db_indices db) ([], 0, db) = Some (ret, int (length (filter (\<lambda>ij. busy_time (bank_of db ij) = t) (db_indices db))), db')"
    "map fst ret = filter (\<lambda>ij. bank_due t (bank_of db ij)) (db_indices db)" "db_ok db'" "db_indices db' = db_indices db"
    "\<And>i j. db_get i j db' = map_option (\<lambda>b. if (i, j) \<in> set (db_indices db) then bank_step t b else b) (db_get i j db)"
    using l by auto
  have "db_get i j db' = map_option (bank_step t) (db_get i j db)" for i j
    using r(5) [of i j] by (cases "db_in i j db") (simp_all add: set_db_indices db_get_def)
  then show ?thesis using r(1-4) by (simp add: db_Access_time_def)
qed

section \<open>One round of checkpoint writes\<close>

text \<open>
  The pass over the banks followed by the new busy times, as \<open>freeze\<close> and \<open>unfreeze\<close> of \<open>SimpleMemory\<close> do it.
\<close>

primrec db_mark_busy :: "64 word \<Rightarrow> ((int \<times> int) \<times> bool) list \<Rightarrow> DRAMBanks \<Rightarrow> DRAMBanks option" where
  "db_mark_busy t [] db = Some db"
| "db_mark_busy t (b # bs) db = do {
     db \<leftarrow> db_set_busy_time t (fst b) db;
     db_mark_busy t bs db }"

lemma mark_busy_ok:
  assumes "db_ok db" "\<And>x. x \<in> set ret \<Longrightarrow> fst x \<in> set (db_indices db)"
  shows "\<exists>db'. db_mark_busy t ret db = Some db' \<and> db_ok db' \<and> db_indices db' = db_indices db \<and>
    (\<forall>i j. db_get i j db' = map_option (\<lambda>b. if (i, j) \<in> fst ` set ret then b\<lparr>busy_time := t\<rparr> else b) (db_get i j db))"
  using assms
proof (induction ret arbitrary: db)
  case (Cons x ret)
  obtain i j h where x: "x = ((i, j), h)" by (metis surj_pair)
  have i: "db_in i j db" using Cons.prems(2) [of x] x set_db_indices by force
  obtain b where b: "db_get i j db = Some b" using i by (simp add: db_get_def)
  define db1 where "db1 = db_set i j (b\<lparr>busy_time := t\<rparr>) db"
  have run: "db_set_busy_time t (i, j) db = Some db1" using b by (simp add: db_set_busy_time_def db1_def)
  have ok1: "db_ok db1" unfolding db1_def using db_okD(2) [OF Cons.prems(1) b] by (intro db_ok_set [OF Cons.prems(1) i]) simp
  have ix: "db_indices db1 = db_indices db" by (simp add: db1_def)
  obtain db' where r: "db_mark_busy t ret db1 = Some db'" "db_ok db'" "db_indices db' = db_indices db1"
    "\<And>i j. db_get i j db' = map_option (\<lambda>b. if (i, j) \<in> fst ` set ret then b\<lparr>busy_time := t\<rparr> else b) (db_get i j db1)"
    using Cons.IH [OF ok1] Cons.prems(2) ix by auto
  have "db_get i' j' db' = map_option (\<lambda>b. if (i', j') \<in> fst ` set (x # ret) then b\<lparr>busy_time := t\<rparr> else b) (db_get i' j' db)" for i' j'
    using r(4) [of i' j'] b i unfolding db1_def by (cases "i' = i \<and> j' = j") (auto simp: x db_get_set)
  then show ?case using run r(1-3) ix by (simp add: x)
qed (simp add: option.map_ident)

definition bank_round :: "64 word \<Rightarrow> 64 word \<Rightarrow> Bank \<Rightarrow> Bank" where
  "bank_round t t' b = (if bank_due t b then (bank_step t b)\<lparr>busy_time := t'\<rparr> else b)"

lemma round_ok:
  assumes ok: "db_ok db"
  shows "\<exists>ret db1 db'. db_Access_time t db = Some (ret, int (length (filter (\<lambda>ij. busy_time (bank_of db ij) = t) (db_indices db))), db1) \<and>
    db_mark_busy t' ret db1 = Some db' \<and> db_ok db' \<and> db_indices db' = db_indices db \<and>
    (\<forall>i j. db_get i j db' = map_option (bank_round t t') (db_get i j db))"
proof -
  obtain ret db1 where a: "db_Access_time t db = Some (ret, int (length (filter (\<lambda>ij. busy_time (bank_of db ij) = t) (db_indices db))), db1)"
    "map fst ret = filter (\<lambda>ij. bank_due t (bank_of db ij)) (db_indices db)" "db_ok db1" "db_indices db1 = db_indices db"
    "\<And>i j. db_get i j db1 = map_option (bank_step t) (db_get i j db)"
    using Access_time_ok [OF ok] by blast
  have due: "fst ` set ret = {ij \<in> set (db_indices db). bank_due t (bank_of db ij)}" using arg_cong [OF a(2), of set] by simp
  then have "\<And>x. x \<in> set ret \<Longrightarrow> fst x \<in> set (db_indices db1)" using a(4) by auto
  from mark_busy_ok [OF a(3) this] obtain db' where m: "db_mark_busy t' ret db1 = Some db'" "db_ok db'" "db_indices db' = db_indices db1"
    "\<And>i j. db_get i j db' = map_option (\<lambda>b. if (i, j) \<in> fst ` set ret then b\<lparr>busy_time := t'\<rparr> else b) (db_get i j db1)"
    by blast
  have "db_get i j db' = map_option (bank_round t t') (db_get i j db)" for i j
  proof (cases "db_get i j db")
    case (Some b)
    then have "(i, j) \<in> fst ` set ret \<longleftrightarrow> bank_due t b" using due db_get_in [OF Some] by (simp add: set_db_indices bank_of_def)
    then show ?thesis using m(4) a(5) Some by (simp add: bank_round_def bank_step_def)
  qed (use m(4) a(5) in simp)
  then show ?thesis using a(1,4) m(1-3) by (intro exI [of _ ret] exI [of _ db1] exI [of _ db']) simp
qed

text \<open>The number of writes that are still queued.\<close>

definition db_pending :: "DRAMBanks \<Rightarrow> nat" where
  "db_pending db = sum_list (map (\<lambda>ij. length (write_queue (bank_of db ij))) (db_indices db))"

lemma bank_of_get: "ij \<in> set (db_indices db) \<Longrightarrow> db_get (fst ij) (snd ij) db = Some (bank_of db ij)"
  using set_db_indices [of "fst ij" "snd ij" db] by (simp add: bank_of_def db_get_def)

lemma pending_round:
  assumes "db_indices db' = db_indices db" "\<And>i j. db_get i j db' = map_option (bank_round t t') (db_get i j db)"
  shows "db_pending db = db_pending db' + length (filter (\<lambda>ij. bank_due t (bank_of db ij)) (db_indices db))"
proof -
  have b: "bank_of db' ij = bank_round t t' (bank_of db ij)" if "ij \<in> set (db_indices db)" for ij
  proof -
    have "db_get (fst ij) (snd ij) db' = Some (bank_round t t' (bank_of db ij))"
      by (simp only: assms(2) bank_of_get [OF that] option.map)
    then show ?thesis by (simp add: bank_of_def [of db'])
  qed
  have "sum_list (map (\<lambda>ij. length (write_queue (bank_of db ij))) l) =
      sum_list (map (\<lambda>ij. length (write_queue (bank_of db' ij))) l) + length (filter (\<lambda>ij. bank_due t (bank_of db ij)) l)"
    if "set l \<subseteq> set (db_indices db)" for l
    using that
  proof (induction l)
    case (Cons ij l)
    have "length (write_queue (bank_of db ij)) = length (write_queue (bank_of db' ij)) + (if bank_due t (bank_of db ij) then 1 else 0)"
      using b [of ij] Cons.prems by (auto simp: bank_round_def bank_step_def bank_due_def)
    then show ?case using Cons by simp
  qed simp
  from this [OF order_refl] show ?thesis by (simp add: db_pending_def assms(1))
qed

section \<open>The next time a bank is free\<close>

lemma next_fold:
  "let r = foldl (db_next_step now) m bs in r \<le> m \<and> (r = m \<or> (\<exists>b \<in> set bs. busy_time b = r \<and> now < r)) \<and>
     (\<forall>b \<in> set bs. now < busy_time b \<longrightarrow> r \<le> busy_time b)"
proof (induction bs arbitrary: m)
  case (Cons b bs)
  let ?m = "db_next_step now m b"
  have "?m \<le> m" "?m = m \<or> ?m = busy_time b \<and> now < ?m" "now < busy_time b \<longrightarrow> ?m \<le> busy_time b"
    by (auto simp: db_next_step_def)
  then show ?case using Cons [of ?m] by (auto simp: Let_def intro: order_trans)
qed simp

lemma banks_get: "b \<in> set (concat (db_banks db)) \<longleftrightarrow> (\<exists>i j. db_get i j db = Some b)"
proof
  assume "b \<in> set (concat (db_banks db))"
  then obtain r where "r \<in> set (db_banks db)" "b \<in> set r" by auto
  then obtain i j where "i < length (db_banks db)" "db_banks db ! i = r" "j < length r" "r ! j = b" by (auto simp: in_set_conv_nth)
  then have "db_get (int i) (int j) db = Some b" by (simp add: db_get_def db_in_def)
  then show "\<exists>i j. db_get i j db = Some b" by blast
qed (auto simp: db_get_def db_in_def split: if_splits intro: bexI [rotated] nth_mem)

text \<open>\<open>NextTime\<close> is the least busy time after \<open>now\<close>, and \<open>0\<close> when every bank is free.\<close>

lemma NextTime_ok:
  assumes "\<And>i j b. db_get i j db = Some b \<Longrightarrow> busy_time b \<noteq> - 1"
  shows "db_NextTime now db = 0 \<and> (\<forall>i j b. db_get i j db = Some b \<longrightarrow> busy_time b \<le> now) \<or>
    (\<exists>i j b. db_get i j db = Some b \<and> busy_time b = db_NextTime now db \<and> now < busy_time b \<and>
       (\<forall>i j b. db_get i j db = Some b \<and> now < busy_time b \<longrightarrow> db_NextTime now db \<le> busy_time b))"
proof -
  define r where "r = foldl (db_next_step now) (- 1) (concat (db_banks db))"
  have f: "r = - 1 \<or> (\<exists>i j b. db_get i j db = Some b \<and> busy_time b = r \<and> now < r)"
    "\<And>i j b. db_get i j db = Some b \<Longrightarrow> now < busy_time b \<Longrightarrow> r \<le> busy_time b"
    using next_fold [where bs = "concat (db_banks db)" and m = "- 1" and now = now] banks_get [of _ db] unfolding r_def [symmetric] Let_def by metis+
  show ?thesis
  proof (cases "r = - 1")
    case True
    have "\<not> now < busy_time b" if "db_get i j db = Some b" for i j b
      using f(2) [OF that] True assms [OF that] by (metis word_order.extremum_uniqueI)
    then show ?thesis using True by (auto simp: db_NextTime_def r_def [symmetric] not_less)
  next
    case False
    then have e: "db_NextTime now db = r" by (simp add: db_NextTime_def r_def [symmetric])
    obtain i j b where "db_get i j db = Some b" "busy_time b = r" "now < busy_time b" using f(1) False by auto
    then show ?thesis unfolding e using f(2) by blast
  qed
qed

section \<open>The DDR3 configuration\<close>

lemma DDR3Banks_ok:
  assumes "2 ^ 17 \<le> cap" "cap < 2 ^ 47"
  shows "db_ok (DDR3Banks cap)" "db_pending (DDR3Banks cap) = 0" "db_row_buffer_size (DDR3Banks cap) = 8192"
    "db_get i j (DDR3Banks cap) = Some b \<Longrightarrow> b = Bank_init"
proof -
  have u: "uint (cap div 131072) = uint cap div 131072" by (simp add: uint_div_distrib)
  have "2 ^ 17 \<le> uint cap" "uint cap < 2 ^ 47" using assms by (simp_all add: word_le_def word_less_def)
  then have r: "0 < uint cap div 131072" "uint cap div 131072 < 2 ^ 31" by simp_all
  then have rows: "db_rows_per_bank (DDR3Banks cap) = uint cap div 131072"
    by (simp add: DDR3Banks_def DRAMBanks_init_def u int32_id)
  show g: "b = Bank_init" if "db_get i j (DDR3Banks cap) = Some b" for i j b
    using that by (auto simp: db_get_def db_in_def DDR3Banks_def DRAMBanks_init_def split: if_splits)
  have "db_cfg (DDR3Banks cap)" unfolding db_cfg_def rows using r by (simp add: DDR3Banks_def DRAMBanks_init_def)
  moreover have "write_queue b = []" if "db_get i j (DDR3Banks cap) = Some b" for i j b using g [OF that] by (simp add: Bank_init_def)
  ultimately show "db_ok (DDR3Banks cap)" by (simp add: db_ok_def)
  have "write_queue (bank_of (DDR3Banks cap) ij) = []" if "ij \<in> set (db_indices (DDR3Banks cap))" for ij
    using g [OF bank_of_get [OF that]] by (simp add: Bank_init_def)
  then have "map (\<lambda>ij. length (write_queue (bank_of (DDR3Banks cap) ij))) (db_indices (DDR3Banks cap)) = map (\<lambda>_. 0) (db_indices (DDR3Banks cap))"
    by (intro map_cong) simp_all
  then show "db_pending (DDR3Banks cap) = 0" unfolding db_pending_def by simp
  show "db_row_buffer_size (DDR3Banks cap) = 8192" by (simp add: DDR3Banks_def DRAMBanks_init_def)
qed

end
