(* ===== verification/Index_Queue.thy ===== *)
theory Index_Queue
  imports Prelude
begin

text \<open>
  The intrusive doubly linked queue of \<open>src/index_queue.h\<close> and \<open>src/index_queue.cc\<close>. The links of
  all queues live in one array that the class \<open>IndexArray\<close> gives access to; a queue itself is only a
  head node (front and back index) and a length. The abstract class is the record \<open>IndexArray\<close> of its
  two uses (read a node, write a node), and the locale \<open>index_array\<close> states what an implementation
  owes: a write is seen by later reads of that index only. Inside the locale the queue operations are
  shown to implement the operations of an abstract list of distinct indices (append, remove, head and
  tail), touching no node outside the queue.
\<close>

section \<open>The data and the operations\<close>

record IndexNode =
  nprev :: int
  nnext :: int

definition IndexNode_init :: IndexNode where
  "IndexNode_init = \<lparr>nprev = - EINVAL, nnext = - EINVAL\<rparr>"

text \<open>\<open>class IndexArray\<close>: its virtual \<open>operator[]\<close> returns a reference, used to read and to write.\<close>

record 'a IndexArray =
  arr_at :: "'a \<Rightarrow> int \<Rightarrow> IndexNode option"
  arr_set :: "'a \<Rightarrow> int \<Rightarrow> IndexNode \<Rightarrow> 'a"

record IndexQueue =
  iq_head :: IndexNode
  iq_length :: int

definition iq_Front :: "IndexQueue \<Rightarrow> int" where
  "iq_Front q = nprev (iq_head q)"

definition iq_Back :: "IndexQueue \<Rightarrow> int" where
  "iq_Back q = nnext (iq_head q)"

definition iq_SetFront :: "int \<Rightarrow> IndexQueue \<Rightarrow> IndexQueue" where
  "iq_SetFront i q = q\<lparr>iq_head := (iq_head q)\<lparr>nprev := i\<rparr>\<rparr>"

definition iq_SetBack :: "int \<Rightarrow> IndexQueue \<Rightarrow> IndexQueue" where
  "iq_SetBack i q = q\<lparr>iq_head := (iq_head q)\<lparr>nnext := i\<rparr>\<rparr>"

text \<open>The constructor: the head node starts as \<open>IndexNode()\<close> and both ends are set again.\<close>

definition IndexQueue_init :: IndexQueue where
  "IndexQueue_init =
     iq_SetBack (- EINVAL) (iq_SetFront (- EINVAL) \<lparr>iq_head = IndexNode_init, iq_length = 0\<rparr>)"

definition iq_Empty :: "IndexQueue \<Rightarrow> bool option" where
  "iq_Empty q = do {
     cassert ((iq_Front q = - EINVAL) = (iq_Back q = - EINVAL));
     cassert ((iq_length q = 0) = (iq_Front q = - EINVAL));
     Some (iq_Front q = - EINVAL) }"

definition iq_Remove ::
  "'a IndexArray \<Rightarrow> int \<Rightarrow> 'a \<Rightarrow> IndexQueue \<Rightarrow> ('a \<times> IndexQueue) option" where
  "iq_Remove A i arr q = do {
     cassert (0 \<le> i);
     node \<leftarrow> arr_at A arr i;
     let prev = nprev node;
     let next = nnext node;
     (arr, q) \<leftarrow>
       (if prev = - EINVAL then do {
          cassert (iq_Front q = i);
          Some (arr, iq_SetFront next q) }
        else do {
          p \<leftarrow> arr_at A arr prev;
          Some (arr_set A arr prev (p\<lparr>nnext := next\<rparr>), q) });
     (arr, q) \<leftarrow>
       (if next = - EINVAL then do {
          cassert (iq_Back q = i);
          Some (arr, iq_SetBack prev q) }
        else do {
          n \<leftarrow> arr_at A arr next;
          Some (arr_set A arr next (n\<lparr>nprev := prev\<rparr>), q) });
     node \<leftarrow> arr_at A arr i;
     Some (arr_set A arr i (node\<lparr>nprev := - EINVAL, nnext := - EINVAL\<rparr>),
           q\<lparr>iq_length := iq_length q - 1\<rparr>) }"

definition iq_PushBack ::
  "'a IndexArray \<Rightarrow> int \<Rightarrow> 'a \<Rightarrow> IndexQueue \<Rightarrow> ('a \<times> IndexQueue) option" where
  "iq_PushBack A i arr q = do {
     cassert (0 \<le> i);
     node \<leftarrow> arr_at A arr i;
     cassert (nprev node = - EINVAL \<and> nnext node = - EINVAL);
     empty \<leftarrow> iq_Empty q;
     (arr, q) \<leftarrow>
       (if empty then Some (arr, iq_SetBack i (iq_SetFront i q))
        else do {
          let arr = arr_set A arr i (node\<lparr>nprev := iq_Back q\<rparr>);
          cassert (0 \<le> iq_Back q);
          b \<leftarrow> arr_at A arr (iq_Back q);
          Some (arr_set A arr (iq_Back q) (b\<lparr>nnext := i\<rparr>), iq_SetBack i q) });
     Some (arr, q\<lparr>iq_length := iq_length q + 1\<rparr>) }"

definition iq_PopFront ::
  "'a IndexArray \<Rightarrow> 'a \<Rightarrow> IndexQueue \<Rightarrow> (int \<times> 'a \<times> IndexQueue) option" where
  "iq_PopFront A arr q = do {
     empty \<leftarrow> iq_Empty q;
     if empty then Some (- EINVAL, arr, q)
     else do {
       let front = iq_Front q;
       (arr, q) \<leftarrow> iq_Remove A front arr q;
       Some (front, arr, q) } }"

text \<open>
  The loop of \<open>Accept\<close>. The visitor may change anything, including the links, so the loop runs over
  the visitor's whole state \<open>s\<close>; \<open>rd s i\<close> reads the node \<open>i\<close> of the array inside that state. The successor is
  read before the visit.
\<close>

partial_function (option) iq_Accept_from ::
  "('s \<Rightarrow> int \<Rightarrow> IndexNode option) \<Rightarrow> (int \<Rightarrow> 's \<Rightarrow> 's option) \<Rightarrow> int \<Rightarrow> int \<Rightarrow> 's \<Rightarrow> (int \<times> 's) option"
where
  "iq_Accept_from rd visit num i s =
     (if i = - EINVAL then Some (num, s)
      else do {
        node \<leftarrow> rd s i;
        s' \<leftarrow> visit i s;
        iq_Accept_from rd visit (num + 1) (nnext node) s' })"

definition iq_Accept ::
  "('s \<Rightarrow> int \<Rightarrow> IndexNode option) \<Rightarrow> (int \<Rightarrow> 's \<Rightarrow> 's option) \<Rightarrow> IndexQueue \<Rightarrow> 's \<Rightarrow> (int \<times> 's) option"
where
  "iq_Accept rd visit q s = iq_Accept_from rd visit 0 (iq_Front q) s"

declare iq_Accept_from.simps [code]

section \<open>The abstract queue\<close>

text \<open>
  The links are a partial function \<open>h\<close> from indices to nodes. \<open>chain h p xs n\<close>: the nodes \<open>xs\<close> are
  linked in this order, the first one back to \<open>p\<close> and the last one on to \<open>n\<close>. \<open>queue_rep h q xs\<close>: the
  queue \<open>q\<close> over the links \<open>h\<close> holds exactly the indices \<open>xs\<close>, front first.
\<close>

type_synonym links = "int \<Rightarrow> IndexNode option"

fun chain :: "links \<Rightarrow> int \<Rightarrow> int list \<Rightarrow> int \<Rightarrow> bool" where
  "chain h p [] n \<longleftrightarrow> True"
| "chain h p (x # xs) n \<longleftrightarrow> h x = Some \<lparr>nprev = p, nnext = hd_or n xs\<rparr> \<and> chain h x xs n"

definition queue_rep :: "links \<Rightarrow> IndexQueue \<Rightarrow> int list \<Rightarrow> bool" where
  "queue_rep h q xs \<longleftrightarrow>
     distinct xs \<and> (\<forall>x \<in> set xs. 0 \<le> x) \<and> chain h (- EINVAL) xs (- EINVAL) \<and>
     q = \<lparr>iq_head = \<lparr>nprev = hd_or (- EINVAL) xs, nnext = last_or (- EINVAL) xs\<rparr>,
          iq_length = int (length xs)\<rparr>"

lemma chain_append:
  "chain h p (xs @ ys) n \<longleftrightarrow> chain h p xs (hd_or n ys) \<and> chain h (last_or p xs) ys n"
  by (induction xs arbitrary: p) auto

lemma chain_cong:
  "(\<And>x. x \<in> set xs \<Longrightarrow> h' x = h x) \<Longrightarrow> chain h' p xs n = chain h p xs n"
  by (induction xs arbitrary: p) auto

lemma chain_upd [simp]: "i \<notin> set xs \<Longrightarrow> chain (h(i := v)) p xs n = chain h p xs n"
  by (rule chain_cong) auto

text \<open>Relinking the last node of a chain, and the first one.\<close>

lemma chain_relink_last:
  "chain h p (xs @ [x]) n \<Longrightarrow> x \<notin> set xs \<Longrightarrow>
     chain (h(x \<mapsto> \<lparr>nprev = last_or p xs, nnext = n'\<rparr>)) p (xs @ [x]) n'"
  by (simp add: chain_append)

lemma chain_relink_first:
  "chain h p (x # xs) n \<Longrightarrow> x \<notin> set xs \<Longrightarrow>
     chain (h(x \<mapsto> \<lparr>nprev = p', nnext = hd_or n xs\<rparr>)) p' (x # xs) n"
  by simp

lemma chain_at: "chain h p xs n \<Longrightarrow> x \<in> set xs \<Longrightarrow> \<exists>node. h x = Some node"
  by (induction xs arbitrary: p) auto

lemma chain_last: "chain h p xs n \<Longrightarrow> xs \<noteq> [] \<Longrightarrow>
    h (last xs) = Some \<lparr>nprev = last_or p (butlast xs), nnext = n\<rparr>"
  by (cases xs rule: rev_cases) (auto simp: chain_append)

lemma queue_rep_frame:
  "queue_rep h q xs \<Longrightarrow> (\<And>x. x \<in> set xs \<Longrightarrow> h' x = h x) \<Longrightarrow> queue_rep h' q xs"
  using chain_cong [of xs h' h] by (simp add: queue_rep_def)

lemma queue_rep_init: "queue_rep h IndexQueue_init []"
  by (simp add: queue_rep_def IndexQueue_init_def iq_SetBack_def iq_SetFront_def IndexNode_init_def)

lemma queue_rep_Front: "queue_rep h q xs \<Longrightarrow> iq_Front q = hd_or (- EINVAL) xs"
  by (simp add: queue_rep_def iq_Front_def)

lemma queue_rep_Back: "queue_rep h q xs \<Longrightarrow> iq_Back q = last_or (- EINVAL) xs"
  by (simp add: queue_rep_def iq_Back_def)

lemma queue_rep_length: "queue_rep h q xs \<Longrightarrow> iq_length q = int (length xs)"
  by (simp add: queue_rep_def)

lemma queue_rep_distinct: "queue_rep h q xs \<Longrightarrow> distinct xs"
  by (simp add: queue_rep_def)

lemma queue_rep_nonneg: "queue_rep h q xs \<Longrightarrow> x \<in> set xs \<Longrightarrow> 0 \<le> x"
  by (simp add: queue_rep_def)

lemma queue_rep_at: "queue_rep h q xs \<Longrightarrow> x \<in> set xs \<Longrightarrow> \<exists>node. h x = Some node"
  unfolding queue_rep_def by (blast dest: chain_at)

lemma queue_rep_Front_iff: "queue_rep h q xs \<Longrightarrow> iq_Front q = - EINVAL \<longleftrightarrow> xs = []"
  using queue_rep_nonneg [of h q xs "hd_or (- EINVAL) xs"] hd_or_in_set [of xs "- EINVAL"]
  by (cases xs) (auto simp: queue_rep_Front)

lemma queue_rep_Back_iff: "queue_rep h q xs \<Longrightarrow> iq_Back q = - EINVAL \<longleftrightarrow> xs = []"
  using queue_rep_nonneg [of h q xs "last_or (- EINVAL) xs"] last_or_in_set [of xs "- EINVAL"]
  by (cases "xs = []") (auto simp: queue_rep_Back)

lemma queue_rep_Empty: "queue_rep h q xs \<Longrightarrow> iq_Empty q = Some (xs = [])"
  using queue_rep_Front_iff [of h q xs] queue_rep_Back_iff [of h q xs] queue_rep_length [of h q xs]
  by (simp add: iq_Empty_def)

section \<open>The contract of an index array and the queue on top of it\<close>

locale index_array =
  fixes A :: "'a IndexArray" and payload :: "'a \<Rightarrow> 'p"
  assumes at_set: "arr_at A arr i \<noteq> None \<Longrightarrow> arr_at A (arr_set A arr i n) = (arr_at A arr)(i \<mapsto> n)"
    and payload_set: "payload (arr_set A arr i n) = payload arr"
begin

text \<open>Appending: the new node is linked behind the old back, nothing outside the queue changes.\<close>

lemma PushBack_rep:
  assumes rep: "queue_rep (arr_at A arr) q xs" and i: "i \<notin> set xs" "0 \<le> i"
    and node: "arr_at A arr i = Some IndexNode_init"
  shows "\<exists>arr' q'. iq_PushBack A i arr q = Some (arr', q') \<and>
    queue_rep (arr_at A arr') q' (xs @ [i]) \<and>
    (\<forall>j. j \<notin> set xs \<and> j \<noteq> i \<longrightarrow> arr_at A arr' j = arr_at A arr j) \<and> payload arr' = payload arr"
proof (cases xs rule: rev_cases)
  case Nil
  then show ?thesis
    using rep node i
    by (simp add: iq_PushBack_def iq_Empty_def iq_Front_def iq_Back_def IndexNode_init_def
        queue_rep_def iq_SetBack_def iq_SetFront_def)
next
  case (snoc ys b)
  define h where "h = arr_at A arr"
  have bk: "iq_Back q = b" "0 \<le> b"
    using queue_rep_Back [OF rep] queue_rep_nonneg [OF rep] snoc by simp_all
  have ch: "chain h (- EINVAL) (ys @ [b]) (- EINVAL)" and dis: "distinct (ys @ [b])"
    and q: "q = \<lparr>iq_head = \<lparr>nprev = hd_or (- EINVAL) xs, nnext = b\<rparr>, iq_length = int (length xs)\<rparr>"
    using rep snoc by (simp_all add: queue_rep_def h_def)
  have nb: "h b = Some \<lparr>nprev = last_or (- EINVAL) ys, nnext = - EINVAL\<rparr>"
    using ch by (simp add: chain_append)
  have ib: "i \<noteq> b" "i \<notin> set ys" using i snoc by auto
  define a1 where "a1 = arr_set A arr i \<lparr>nprev = b, nnext = - EINVAL\<rparr>"
  define a2 where "a2 = arr_set A a1 b \<lparr>nprev = last_or (- EINVAL) ys, nnext = i\<rparr>"
  define q2 where "q2 = \<lparr>iq_head = \<lparr>nprev = hd_or (- EINVAL) xs, nnext = i\<rparr>,
      iq_length = int (length xs) + 1\<rparr>"
  have a1: "arr_at A a1 = h(i \<mapsto> \<lparr>nprev = b, nnext = - EINVAL\<rparr>)"
    unfolding a1_def h_def by (rule at_set) (simp add: node)
  have a2: "arr_at A a2 = (h(i \<mapsto> \<lparr>nprev = b, nnext = - EINVAL\<rparr>))
      (b \<mapsto> \<lparr>nprev = last_or (- EINVAL) ys, nnext = i\<rparr>)"
    unfolding a2_def using a1 nb ib by (subst at_set) simp_all
  have emp: "iq_Empty q = Some False" using queue_rep_Empty [OF rep] snoc by simp
  have "iq_PushBack A i arr q = Some (a2, (iq_SetBack i q)\<lparr>iq_length := iq_length q + 1\<rparr>)"
    using node emp bk i a1 nb ib
    by (simp add: iq_PushBack_def IndexNode_init_def a2_def iq_SetBack_def flip: a1_def)
  then have run: "iq_PushBack A i arr q = Some (a2, q2)"
    by (simp add: q2_def iq_SetBack_def q)
  have "chain (arr_at A a2) (- EINVAL) (ys @ [b]) i"
    using chain_relink_last [OF ch] dis ib by (simp add: a2 chain_append)
  then have rep2: "queue_rep (arr_at A a2) q2 (xs @ [i])"
    using rep snoc i ib by (simp add: queue_rep_def q2_def chain_append a2)
  show ?thesis
    using run rep2 snoc by (auto simp: a2 h_def) (simp_all add: a2_def a1_def payload_set)
qed

text \<open>
  Unlinking the node \<open>i\<close> between \<open>ys\<close> and \<open>zs\<close>: the neighbours are joined, \<open>i\<close> becomes a fresh node,
  nothing outside the queue changes.
\<close>

lemma Remove_rep:
  assumes rep: "queue_rep (arr_at A arr) q (ys @ i # zs)"
  shows "\<exists>arr' q'. iq_Remove A i arr q = Some (arr', q') \<and>
    queue_rep (arr_at A arr') q' (ys @ zs) \<and> arr_at A arr' i = Some IndexNode_init \<and>
    (\<forall>j. j \<notin> set (ys @ i # zs) \<longrightarrow> arr_at A arr' j = arr_at A arr j) \<and> payload arr' = payload arr"
proof -
  define h where "h = arr_at A arr"
  let ?E = "- EINVAL"
  have ch: "chain h ?E (ys @ i # zs) ?E" and dis: "distinct (ys @ i # zs)" and i0: "0 \<le> i"
    and nn: "\<forall>x \<in> set (ys @ zs). 0 \<le> x"
    and q: "q = \<lparr>iq_head = \<lparr>nprev = hd_or ?E (ys @ i # zs), nnext = last_or ?E (ys @ i # zs)\<rparr>,
      iq_length = int (length (ys @ i # zs))\<rparr>"
    using rep by (simp_all add: queue_rep_def h_def)
  have ni: "h i = Some \<lparr>nprev = last_or ?E ys, nnext = hd_or ?E zs\<rparr>"
    and cy: "chain h ?E ys i" and cz: "chain h i zs ?E"
    using ch by (simp_all add: chain_append)
  \<comment> \<open>the first conditional: the predecessor, or the front\<close>
  define a1 where "a1 = (if ys = [] then arr else arr_set A arr (last ys)
      \<lparr>nprev = last_or ?E (butlast ys), nnext = hd_or ?E zs\<rparr>)"
  define h1 where "h1 = (if ys = [] then h else h(last ys \<mapsto>
      \<lparr>nprev = last_or ?E (butlast ys), nnext = hd_or ?E zs\<rparr>))"
  have nl: "ys \<noteq> [] \<Longrightarrow> h (last ys) = Some \<lparr>nprev = last_or ?E (butlast ys), nnext = i\<rparr>"
    using chain_last [OF cy] by simp
  have a1: "arr_at A a1 = h1"
    using at_set [of arr "last ys"] nl by (auto simp: a1_def h1_def h_def)
  have c1: "chain h1 ?E ys (hd_or ?E zs)" "chain h1 i zs ?E" "h1 i = h i"
    using cy cz dis chain_relink_last [of h ?E "butlast ys" "last ys" i "hd_or ?E zs"]
    by (cases ys rule: rev_cases; force simp: h1_def)+
  \<comment> \<open>the second conditional: the successor, or the back\<close>
  define a2 where "a2 = (if zs = [] then a1 else arr_set A a1 (hd zs)
      \<lparr>nprev = last_or ?E ys, nnext = hd_or ?E (tl zs)\<rparr>)"
  define h2 where "h2 = (if zs = [] then h1 else h1(hd zs \<mapsto>
      \<lparr>nprev = last_or ?E ys, nnext = hd_or ?E (tl zs)\<rparr>))"
  have nz: "zs \<noteq> [] \<Longrightarrow> h1 (hd zs) = Some \<lparr>nprev = i, nnext = hd_or ?E (tl zs)\<rparr>"
    using c1 by (cases zs) auto
  have a2: "arr_at A a2 = h2"
    using at_set [of a1 "hd zs"] nz a1 by (auto simp: a2_def h2_def)
  have c2: "chain h2 ?E (ys @ zs) ?E" "h2 i = h i"
    using c1 dis by (cases zs; auto simp: h2_def chain_append)+
  define a3 where "a3 = arr_set A a2 i IndexNode_init"
  define q3 where "q3 = \<lparr>iq_head = \<lparr>nprev = hd_or ?E (ys @ zs), nnext = last_or ?E (ys @ zs)\<rparr>,
      iq_length = int (length (ys @ zs))\<rparr>"
  have a3: "arr_at A a3 = h2(i \<mapsto> IndexNode_init)"
    using at_set [of a2 i] a2 c2 ni by (simp add: a3_def)
  have run: "iq_Remove A i arr q = Some (a3, q3)"
  proof -
    have lp: "ys \<noteq> [] \<Longrightarrow> 0 \<le> last_or ?E ys" and lz: "zs \<noteq> [] \<Longrightarrow> 0 \<le> hd_or ?E zs"
      using nn last_or_in_set [of ys ?E] hd_or_in_set [of zs ?E] by auto
    define q1 where "q1 = q\<lparr>iq_head := \<lparr>nprev = hd_or ?E (ys @ zs), nnext = last_or ?E (ys @ i # zs)\<rparr>\<rparr>"
    define q2 where "q2 = q\<lparr>iq_head := \<lparr>nprev = hd_or ?E (ys @ zs), nnext = last_or ?E (ys @ zs)\<rparr>\<rparr>"
    define n0 where "n0 = \<lparr>nprev = last_or ?E ys, nnext = hd_or ?E zs\<rparr>"
    have n0: "arr_at A arr i = Some n0" and prev: "nprev n0 = last_or ?E ys"
      and nxt: "nnext n0 = hd_or ?E zs"
      using ni by (simp_all add: h_def n0_def)
    have s1: "(if nprev n0 = ?E then do {
          cassert (iq_Front q = i); Some (arr, iq_SetFront (nnext n0) q) }
        else do { p \<leftarrow> arr_at A arr (nprev n0);
          Some (arr_set A arr (nprev n0) (p\<lparr>nnext := nnext n0\<rparr>), q) }) = Some (a1, q1)"
      using lp nl unfolding prev nxt
      by (cases ys rule: rev_cases) (simp_all add: a1_def q1_def q iq_Front_def iq_SetFront_def h_def)
    have s2: "(if nnext n0 = ?E then do {
          cassert (iq_Back q1 = i); Some (a1, iq_SetBack (nprev n0) q1) }
        else do { n \<leftarrow> arr_at A a1 (nnext n0);
          Some (arr_set A a1 (nnext n0) (n\<lparr>nprev := nprev n0\<rparr>), q1) }) = Some (a2, q2)"
      using lz nz unfolding prev nxt
      by (cases zs) (simp_all add: a2_def a1 q1_def q2_def iq_Back_def iq_SetBack_def)
    have n2: "arr_at A a2 i = Some \<lparr>nprev = last_or ?E ys, nnext = hd_or ?E zs\<rparr>"
      using a2 c2 ni by simp
    have "iq_Remove A i arr q = Some (a3, q2\<lparr>iq_length := iq_length q2 - 1\<rparr>)"
      using i0 by (simp add: iq_Remove_def Let_def n0 s1 s2 n2 a3_def IndexNode_init_def split del: if_split)
    then show ?thesis
      by (simp add: q2_def q3_def q)
  qed
  have "queue_rep (arr_at A a3) q3 (ys @ zs)"
    using c2 dis nn by (simp add: queue_rep_def q3_def a3)
  moreover have "arr_at A a3 j = h j" if "j \<notin> set (ys @ i # zs)" for j
  proof -
    have "j \<noteq> i" "ys \<noteq> [] \<Longrightarrow> j \<noteq> last ys" "zs \<noteq> [] \<Longrightarrow> j \<noteq> hd zs"
      using that last_in_set [of ys] hd_in_set [of zs] by auto
    then show ?thesis by (simp add: a3 h2_def h1_def)
  qed
  moreover have "payload a3 = payload arr"
    by (simp add: a3_def a2_def a1_def payload_set)
  moreover have "arr_at A a3 i = Some IndexNode_init"
    by (simp add: a3)
  ultimately show ?thesis
    using run unfolding h_def by blast
qed

lemma Remove_rep_remove1:
  assumes rep: "queue_rep (arr_at A arr) q xs" and i: "i \<in> set xs"
  shows "\<exists>arr' q'. iq_Remove A i arr q = Some (arr', q') \<and>
    queue_rep (arr_at A arr') q' (remove1 i xs) \<and> arr_at A arr' i = Some IndexNode_init \<and>
    (\<forall>j. j \<notin> set xs \<longrightarrow> arr_at A arr' j = arr_at A arr j) \<and> payload arr' = payload arr"
proof -
  obtain ys zs where xs: "xs = ys @ i # zs" and "i \<notin> set ys"
    using split_list_first [OF i] by blast
  then have "remove1 i xs = ys @ zs" by (simp add: remove1_append)
  then show ?thesis using Remove_rep [of arr q ys i zs] rep xs by simp
qed

lemma PopFront_rep:
  assumes rep: "queue_rep (arr_at A arr) q xs"
  shows "\<exists>arr' q'. iq_PopFront A arr q = Some (hd_or (- EINVAL) xs, arr', q') \<and>
    queue_rep (arr_at A arr') q' (tl xs) \<and>
    (xs \<noteq> [] \<longrightarrow> arr_at A arr' (hd xs) = Some IndexNode_init) \<and>
    (\<forall>j. j \<notin> set xs \<longrightarrow> arr_at A arr' j = arr_at A arr j) \<and> payload arr' = payload arr"
proof (cases xs)
  case Nil
  then show ?thesis using rep by (auto simp: iq_PopFront_def queue_rep_Empty [OF rep])
next
  case (Cons x zs)
  then show ?thesis
    using rep Remove_rep [of arr q "[]" x zs]
    by (auto simp: iq_PopFront_def queue_rep_Empty [OF rep] queue_rep_Front [OF rep])
qed

end

section \<open>The visitor loop\<close>

text \<open>
  \<open>Accept\<close> reads the successor before it calls the visitor, so a visitor may unlink the node it is
  given. The invariant \<open>I ws s\<close> says that the indices \<open>ws\<close> still have to be visited in state \<open>s\<close>: it must give the
  links of the first of them, and every visit must succeed and hand the rest on. The loop then ends and
  has visited each index once, front first.
\<close>

lemma Accept_from_total:
  assumes "I ws s"
    and link: "\<And>w ws s. I (w # ws) s \<Longrightarrow>
      w \<noteq> - EINVAL \<and> (\<exists>node. rd s w = Some node \<and> nnext node = hd_or (- EINVAL) ws)"
    and visit: "\<And>w ws s. I (w # ws) s \<Longrightarrow> \<exists>s'. visit w s = Some s' \<and> I ws s'"
  shows "\<exists>s'. iq_Accept_from rd visit num (hd_or (- EINVAL) ws) s = Some (num + int (length ws), s') \<and> I [] s'"
  using assms(1)
proof (induction ws arbitrary: num s)
  case Nil
  then show ?case by (subst iq_Accept_from.simps) simp
next
  case (Cons w ws)
  obtain node where node: "w \<noteq> - EINVAL" "rd s w = Some node" "nnext node = hd_or (- EINVAL) ws"
    using link [OF Cons.prems] by blast
  obtain s' where s': "visit w s = Some s'" "I ws s'"
    using visit [OF Cons.prems] by blast
  from Cons.IH [OF s'(2), of "num + 1"] show ?case
    using node s' by (subst iq_Accept_from.simps) (simp add: add.assoc)
qed

lemma Accept_total:
  assumes rep: "queue_rep (rd s) q xs" and "I xs s"
    and "\<And>w ws s. I (w # ws) s \<Longrightarrow>
      w \<noteq> - EINVAL \<and> (\<exists>node. rd s w = Some node \<and> nnext node = hd_or (- EINVAL) ws)"
    and "\<And>w ws s. I (w # ws) s \<Longrightarrow> \<exists>s'. visit w s = Some s' \<and> I ws s'"
  shows "\<exists>s'. iq_Accept rd visit q s = Some (int (length xs), s') \<and> I [] s'"
  using Accept_from_total [of I xs s rd visit 0] assms
  by (simp add: iq_Accept_def queue_rep_Front [OF rep])

end
