(* ===== verification/Block_Address.thy ===== *)
theory Block_Address
  imports Prelude
begin

text \<open>
  Arithmetic of block addresses. The controller splits a 64-bit address into a block number
  (\<open>addr >> bits\<close>) and an offset (\<open>addr & mask\<close>), and rebases an offset onto another block with \<open>+\<close>. The
  lemmas here are the only place where the development reasons about bits: a block-aligned base
  plus an offset stays in its block, keeps its offset, and two aligned bases with the same block
  number are equal.
\<close>

definition aligned :: "nat \<Rightarrow> Addr \<Rightarrow> bool" where
  "aligned b m \<longleftrightarrow> m AND mask b = 0"

definition rebase :: "nat \<Rightarrow> Addr \<Rightarrow> Addr \<Rightarrow> Addr" where
  "rebase b p m = m + (p AND mask b)"

lemma rebase_or: "aligned b m \<Longrightarrow> rebase b p m = m OR (p AND mask b)"
  unfolding rebase_def aligned_def
  by (rule disjunctive_add_eq_or) (metis (no_types, lifting) and.assoc and.commute and.left_commute and_zero_eq)

lemma aligned_bit: "aligned b m \<Longrightarrow> n < b \<Longrightarrow> \<not> bit m n"
  unfolding aligned_def by (metis bit_0_eq bit_and_iff bit_mask_iff bot_apply bot_bool_def bit_imp_possible_bit)

lemma drop_bit_rebase [simp]: "aligned b m \<Longrightarrow> drop_bit b (rebase b p m) = drop_bit b m"
  by (rule bit_word_eqI) (auto simp: rebase_or bit_simps)

lemma offset_rebase [simp]: "aligned b m \<Longrightarrow> rebase b p m AND mask b = p AND mask b"
  by (rule bit_word_eqI) (auto simp: rebase_or bit_simps dest: aligned_bit)

lemma aligned_push_bit [simp]: "aligned b (push_bit b t)"
  unfolding aligned_def by (rule bit_word_eqI) (auto simp: bit_simps)

lemma rebase_push_drop [simp]: "rebase b p (push_bit b (drop_bit b p)) = p"
  by (rule bit_word_eqI) (auto simp: rebase_or bit_simps)

lemma push_drop_aligned [simp]: "aligned b m \<Longrightarrow> push_bit b (drop_bit b m) = m"
proof (rule bit_word_eqI)
  fix n assume "aligned b m" "n < LENGTH(64)"
  then show "bit (push_bit b (drop_bit b m)) n = bit m n"
    using aligned_bit [of b m n] by (cases "n < b") (auto simp: bit_simps)
qed

lemma aligned_eqI: "aligned b m \<Longrightarrow> aligned b n \<Longrightarrow> drop_bit b m = drop_bit b n \<Longrightarrow> m = n"
  by (metis push_drop_aligned)

lemma drop_push_drop [simp]: "drop_bit b (push_bit b (drop_bit b p)) = drop_bit b (p :: Addr)"
  by (rule bit_word_eqI) (auto simp: bit_simps dest: bit_imp_le_length)

lemma unat_offset: "unat ((x :: Addr) AND mask b) = unat x mod 2 ^ b"
proof -
  have "unat (x AND mask b) = unat (take_bit b x)" by (simp only: take_bit_eq_mask)
  also have "\<dots> = take_bit b (unat x)" by (rule unsigned_take_bit_eq)
  also have "\<dots> = unat x mod 2 ^ b" by (rule take_bit_eq_mod)
  finally show ?thesis .
qed

lemma aligned_unat: "aligned b m \<longleftrightarrow> 2 ^ b dvd unat m"
  unfolding aligned_def dvd_eq_mod_eq_0 unat_offset [symmetric] by (simp add: unat_0_iff)

lemma aligned_uint: "aligned b m \<longleftrightarrow> 2 ^ b dvd uint m"
  using of_nat_dvd_iff [of "2 ^ b" "unat m", where ?'a = int] by (simp add: aligned_unat)

text \<open>The block of an aligned base is the range of \<open>2 ^ b\<close> addresses that starts there.\<close>

lemma rebase_self: "drop_bit b x = drop_bit b d \<Longrightarrow> aligned b d \<Longrightarrow> rebase b x d = x"
  by (metis push_drop_aligned rebase_push_drop)

lemma offset_less: "b < 64 \<Longrightarrow> (x :: Addr) AND mask b < 2 ^ b"
  by (simp add: word_less_nat_alt unat_pow2 unat_offset)

lemma in_block_iff:
  assumes "b < 64" "aligned b d"
  shows "x - d < 2 ^ b \<longleftrightarrow> drop_bit b x = drop_bit b d"
proof
  assume lt: "x - d < 2 ^ b"
  have "(x - d) AND mask b = x - d"
  proof -
    have "unat (x - d) < 2 ^ b"
      using lt assms(1) unat_pow2 [of b, where 'a = 64] by (simp add: word_less_nat_alt)
    then have "unat (take_bit b (x - d)) = unat (x - d)"
      by (simp add: unsigned_take_bit_eq take_bit_nat_eq_self)
    then have "take_bit b (x - d) = x - d" by (simp only: word_unat_eq_iff)
    then show ?thesis by (simp add: take_bit_eq_mask)
  qed
  then have "x = rebase b (x - d) d" by (simp add: rebase_def)
  then show "drop_bit b x = drop_bit b d" using assms(2) by (metis drop_bit_rebase)
next
  assume "drop_bit b x = drop_bit b d"
  then have "x - d = x AND mask b"
    using rebase_self [of b x d] assms(2) by (simp add: rebase_def algebra_simps)
  then show "x - d < 2 ^ b" using offset_less [OF assms(1)] by simp
qed

lemma offset_in_block: "drop_bit b x = drop_bit b d \<Longrightarrow> aligned b d \<Longrightarrow> x - d = x AND mask b"
  using rebase_self [of b x d] by (simp add: rebase_def algebra_simps)

end
