(* ===== verification/Profiling.thy ===== *)
theory Profiling
  imports Prelude
begin

text \<open>
  The cost counters of \<open>src/profiler.h\<close>. All counters are \<open>uint64_t\<close> and wrap; the two shifts
  \<open>num << bits\<close> happen in \<open>int\<close>. The static objects \<open>Profiler::Null\<close> and \<open>Profiler::Overlap\<close> of
  \<open>src/profiler.cc\<close> are sinks: no code reads what is added to them, so the models of the other
  components drop the counting calls made on them.
\<close>

record Profiler =
  pf_block_bits :: nat
  pf_page_bits :: nat
  num_table_ops :: "64 word"
  num_buffer_ops :: "64 word"
  latency :: "64 word"
  bytes_intra_channel :: "64 word"
  bytes_inter_channel :: "64 word"
  op_latency :: "64 word"
  ignore_latency :: bool

definition Profiler_init :: "nat \<Rightarrow> nat \<Rightarrow> Profiler" where
  "Profiler_init block_bits page_bits =
     \<lparr>pf_block_bits = block_bits, pf_page_bits = page_bits, num_table_ops = 0, num_buffer_ops = 0,
      latency = 0, bytes_intra_channel = 0, bytes_inter_channel = 0, op_latency = - 1,
      ignore_latency = False\<rparr>"

text \<open>The copy constructor copies the geometry and the latency of one operation, not the counts.\<close>

definition Profiler_copy :: "Profiler \<Rightarrow> Profiler" where
  "Profiler_copy p = (Profiler_init (pf_block_bits p) (pf_page_bits p))\<lparr>op_latency := op_latency p\<rparr>"

definition pf_set_op_latency :: "64 word \<Rightarrow> Profiler \<Rightarrow> Profiler" where
  "pf_set_op_latency lat pf = pf\<lparr>op_latency := lat\<rparr>"

definition pf_set_ignore_latency :: "Profiler \<Rightarrow> Profiler option" where
  "pf_set_ignore_latency pf = do {
     cassert (\<not> ignore_latency pf);
     Some (pf\<lparr>ignore_latency := True\<rparr>) }"

definition pf_clear_ignore_latency :: "Profiler \<Rightarrow> Profiler option" where
  "pf_clear_ignore_latency pf = do {
     cassert (ignore_latency pf);
     Some (pf\<lparr>ignore_latency := False\<rparr>) }"

definition pf_AddTableOp :: "Profiler \<Rightarrow> Profiler" where
  "pf_AddTableOp pf =
     (if ignore_latency pf then pf else pf\<lparr>num_table_ops := num_table_ops pf + 1\<rparr>)"

definition pf_AddBufferOp :: "Profiler \<Rightarrow> Profiler" where
  "pf_AddBufferOp pf =
     (if ignore_latency pf then pf else pf\<lparr>num_buffer_ops := num_buffer_ops pf + 1\<rparr>)"

definition pf_AddLatency :: "int \<Rightarrow> Profiler \<Rightarrow> Profiler option" where
  "pf_AddLatency lat pf = do {
     cassert (0 < lat \<and> \<not> ignore_latency pf);
     Some (pf\<lparr>latency := latency pf + word_of_int lat\<rparr>) }"

definition pf_AddBlockMoveIntra :: "int \<Rightarrow> Profiler \<Rightarrow> Profiler" where
  "pf_AddBlockMoveIntra num pf =
     pf\<lparr>bytes_intra_channel := bytes_intra_channel pf + word_of_int (int32 (num * 2 ^ pf_block_bits pf))\<rparr>"

definition pf_AddBlockMoveInter :: "int \<Rightarrow> Profiler \<Rightarrow> Profiler" where
  "pf_AddBlockMoveInter num pf =
     pf\<lparr>bytes_inter_channel := bytes_inter_channel pf + word_of_int (int32 (num * 2 ^ pf_block_bits pf))\<rparr>"

definition pf_AddPageMoveIntra :: "int \<Rightarrow> Profiler \<Rightarrow> Profiler" where
  "pf_AddPageMoveIntra num pf =
     pf\<lparr>bytes_intra_channel := bytes_intra_channel pf + word_of_int (int32 (num * 2 ^ pf_page_bits pf))\<rparr>"

definition pf_AddPageMoveInter :: "int \<Rightarrow> Profiler \<Rightarrow> Profiler" where
  "pf_AddPageMoveInter num pf =
     pf\<lparr>bytes_inter_channel := bytes_inter_channel pf + word_of_int (int32 (num * 2 ^ pf_page_bits pf))\<rparr>"

definition pf_SumLatency :: "Profiler \<Rightarrow> (64 word) option" where
  "pf_SumLatency pf = do {
     cassert (0 \<le> sint (op_latency pf));
     cassert (\<not> ignore_latency pf);
     Some (latency pf + op_latency pf * (num_table_ops pf + num_buffer_ops pf)) }"

definition pf_SumBusUtil :: "bool \<Rightarrow> Profiler \<Rightarrow> 64 word" where
  "pf_SumBusUtil exc_intra pf =
     (if exc_intra then 0 else bytes_intra_channel pf) + bytes_inter_channel pf"

text \<open>What every counting call keeps: whether latency is being ignored.\<close>

lemma ignore_latency_add [simp]:
  "ignore_latency (pf_AddTableOp pf) = ignore_latency pf"
  "ignore_latency (pf_AddBufferOp pf) = ignore_latency pf"
  "ignore_latency (pf_AddBlockMoveIntra n pf) = ignore_latency pf"
  "ignore_latency (pf_AddBlockMoveInter n pf) = ignore_latency pf"
  "ignore_latency (pf_AddPageMoveIntra n pf) = ignore_latency pf"
  "ignore_latency (pf_AddPageMoveInter n pf) = ignore_latency pf"
  by (simp_all add: pf_AddTableOp_def pf_AddBufferOp_def pf_AddBlockMoveIntra_def
      pf_AddBlockMoveInter_def pf_AddPageMoveIntra_def pf_AddPageMoveInter_def)

lemma pf_AddLatency_runs:
  "0 < lat \<Longrightarrow> \<not> ignore_latency pf \<Longrightarrow>
     \<exists>pf'. pf_AddLatency lat pf = Some pf' \<and> ignore_latency pf' = ignore_latency pf"
  by (simp add: pf_AddLatency_def)

end
