(* ===== verification/Addr_Trans_Table.thy ===== *)
theory Addr_Trans_Table
  imports Index_Queue Block_Address Profiling
begin

text \<open>
  The block translation table (ATT) of \<open>src/addr_trans_table.h\<close> and \<open>src/addr_trans_table.cc\<close>: a
  fixed array of entries, a hash index from physical block tags to entries, and four queues over
  the array's links, one for each of the states \<open>CLEAN\<close>, \<open>LOAN\<close>, \<open>FREE\<close> and one for all dirty states.
  The entry array is the table's implementation of \<open>IndexArray\<close>; the interpretation \<open>att_links\<close> of the
  locale \<open>index_array\<close> discharges that contract, and the lemmas about the table rest on it.

  The constructor of \<open>ATTEntry\<close> sets only the two statistics. The state, tag and base of an entry that
  was never set up are whatever the memory held, so \<open>AddrTransTable_init\<close> takes them as an argument.
\<close>

section \<open>The data and the operations\<close>

datatype ATTState = CLEAN | LOAN | FREE | DIRTY | HIDDEN | TEMP | STAINED

record ATTEntry =
  phy_tag :: Tag
  mach_base :: Addr
  queue_node :: IndexNode
  att_state :: ATTState
  epoch_reads :: int
  epoch_writes :: int

primrec att_code :: "ATTState \<Rightarrow> nat" where
  "att_code CLEAN = 0"
| "att_code LOAN = 1"
| "att_code FREE = 2"
| "att_code DIRTY = 3"
| "att_code HIDDEN = 4"
| "att_code TEMP = 5"
| "att_code STAINED = 6"

definition StateIndex :: "ATTState \<Rightarrow> nat" where
  "StateIndex st = (if att_code st < att_code DIRTY then att_code st else att_code DIRTY)"

definition att_StateString :: "ATTState \<Rightarrow> string" where
  "att_StateString st =
     [''CLEAN'', ''LOAN'', ''FREE'', ''DIRTY'', ''HIDDEN'', ''TEMP'', ''STAINED''] ! att_code st"

record AddrTransTable =
  att_length :: int
  att_block_bits :: nat
  att_tag_index :: "Tag \<Rightarrow> int option"
  att_entries :: "ATTEntry list"
  att_queues :: "IndexQueue list"

text \<open>The virtual \<open>operator[]\<close>: \<open>entries_[i].queue_node\<close>.\<close>

definition att_array :: "ATTEntry list IndexArray" where
  "att_array = \<lparr>
     arr_at = (\<lambda>es i. if 0 \<le> i \<and> i < int (length es) then Some (queue_node (es ! nat i)) else None),
     arr_set = (\<lambda>es i n. es[nat i := (es ! nat i)\<lparr>queue_node := n\<rparr>])\<rparr>"

definition att_GetQueue :: "ATTState \<Rightarrow> AddrTransTable \<Rightarrow> IndexQueue" where
  "att_GetQueue st att = att_queues att ! StateIndex st"

definition att_PutQueue :: "ATTState \<Rightarrow> ATTEntry list \<Rightarrow> IndexQueue \<Rightarrow> AddrTransTable \<Rightarrow> AddrTransTable" where
  "att_PutQueue st es q att =
     att\<lparr>att_entries := es, att_queues := (att_queues att)[StateIndex st := q]\<rparr>"

text \<open>The calls \<open>GetQueue(st).Remove(i)\<close> and \<open>GetQueue(st).PushBack(i)\<close>.\<close>

definition att_Remove :: "ATTState \<Rightarrow> int \<Rightarrow> AddrTransTable \<Rightarrow> AddrTransTable option" where
  "att_Remove st i att = do {
     (es, q) \<leftarrow> iq_Remove att_array i (att_entries att) (att_GetQueue st att);
     Some (att_PutQueue st es q att) }"

definition att_PushBack :: "ATTState \<Rightarrow> int \<Rightarrow> AddrTransTable \<Rightarrow> AddrTransTable option" where
  "att_PushBack st i att = do {
     (es, q) \<leftarrow> iq_PushBack att_array i (att_entries att) (att_GetQueue st att);
     Some (att_PutQueue st es q att) }"

text \<open>The constructor: \<open>raw\<close> is the indeterminate content of the new entries.\<close>

definition ATTEntry_init :: "ATTEntry \<Rightarrow> ATTEntry" where
  "ATTEntry_init raw = raw\<lparr>queue_node := IndexNode_init, epoch_reads := 0, epoch_writes := 0\<rparr>"

fun att_init_free :: "int list \<Rightarrow> AddrTransTable \<Rightarrow> AddrTransTable option" where
  "att_init_free [] att = Some att"
| "att_init_free (i # is) att = do { att \<leftarrow> att_PushBack FREE i att; att_init_free is att }"

definition AddrTransTable_init :: "int \<Rightarrow> nat \<Rightarrow> (nat \<Rightarrow> ATTEntry) \<Rightarrow> AddrTransTable option" where
  "AddrTransTable_init len block_bits raw =
     att_init_free [0 .. len - 1]
       \<lparr>att_length = len, att_block_bits = block_bits, att_tag_index = (\<lambda>_. None),
        att_entries = map (\<lambda>k. ATTEntry_init (raw k)) [0 ..< nat len],
        att_queues = replicate (att_code DIRTY + 1) IndexQueue_init\<rparr>"

text \<open>Reading \<open>entries_[i]\<close> without the bounds check of \<open>At\<close>, and writing it.\<close>

definition att_entry :: "int \<Rightarrow> AddrTransTable \<Rightarrow> ATTEntry option" where
  "att_entry i att =
     (if 0 \<le> i \<and> i < int (length (att_entries att)) then Some (att_entries att ! nat i) else None)"

definition att_update :: "int \<Rightarrow> (ATTEntry \<Rightarrow> ATTEntry) \<Rightarrow> AddrTransTable \<Rightarrow> AddrTransTable option" where
  "att_update i f att = do {
     e \<leftarrow> att_entry i att;
     Some (att\<lparr>att_entries := (att_entries att)[nat i := f e]\<rparr>) }"

definition att_Lookup :: "Tag \<Rightarrow> Profiler \<Rightarrow> AddrTransTable \<Rightarrow> (int \<times> Profiler \<times> AddrTransTable) option" where
  "att_Lookup tag pf att = do {
     let pf = pf_AddTableOp pf;
     (case att_tag_index att tag of
        None \<Rightarrow> Some (- EINVAL, pf, att)
      | Some i \<Rightarrow> do {
          entry \<leftarrow> att_entry i att;
          cassert (att_state entry \<noteq> FREE \<and> phy_tag entry = tag);
          att \<leftarrow> att_Remove (att_state entry) i att;
          att \<leftarrow> att_PushBack (att_state entry) i att;
          Some (i, pf, att) }) }"

definition att_Setup ::
  "Tag \<Rightarrow> Addr \<Rightarrow> ATTState \<Rightarrow> Profiler \<Rightarrow> AddrTransTable \<Rightarrow> (int \<times> Profiler \<times> AddrTransTable) option" where
  "att_Setup tag base st pf att = do {
     cassert (att_tag_index att tag = None);
     empty \<leftarrow> iq_Empty (att_GetQueue FREE att);
     cassert (\<not> empty);
     (i, es, q) \<leftarrow> iq_PopFront att_array (att_entries att) (att_GetQueue FREE att);
     let att = att_PutQueue FREE es q att;
     att \<leftarrow> att_PushBack st i att;
     att \<leftarrow> att_update i (\<lambda>e. e\<lparr>att_state := st, phy_tag := tag, mach_base := base\<rparr>) att;
     Some (i, pf_AddTableOp pf, att\<lparr>att_tag_index := (att_tag_index att)(tag \<mapsto> i)\<rparr>) }"

definition att_ShiftState :: "int \<Rightarrow> ATTState \<Rightarrow> Profiler \<Rightarrow> AddrTransTable \<Rightarrow> (Profiler \<times> AddrTransTable) option" where
  "att_ShiftState index new_state pf att = do {
     entry \<leftarrow> att_entry index att;
     cassert (att_state entry \<noteq> new_state);
     let att = (if new_state = FREE
                then att\<lparr>att_tag_index := (att_tag_index att)(phy_tag entry := None)\<rparr> else att);
     att \<leftarrow> att_Remove (att_state entry) index att;
     att \<leftarrow> att_PushBack new_state index att;
     att \<leftarrow> att_update index (\<lambda>e. e\<lparr>att_state := new_state\<rparr>) att;
     Some (pf_AddTableOp pf, att) }"

definition att_Reset ::
  "int \<Rightarrow> Addr \<Rightarrow> ATTState \<Rightarrow> Profiler \<Rightarrow> AddrTransTable \<Rightarrow> (Profiler \<times> AddrTransTable) option" where
  "att_Reset index new_base new_state pf att = do {
     att \<leftarrow> att_update index (\<lambda>e. e\<lparr>mach_base := new_base\<rparr>) att;
     att_ShiftState index new_state pf att }"

definition att_ClearStats :: "Profiler \<Rightarrow> AddrTransTable \<Rightarrow> Profiler \<times> AddrTransTable" where
  "att_ClearStats pf att =
     (pf_AddTableOp pf,
      att\<lparr>att_entries := map (\<lambda>e. e\<lparr>epoch_reads := 0, epoch_writes := 0\<rparr>) (att_entries att)\<rparr>)"

definition att_At :: "int \<Rightarrow> AddrTransTable \<Rightarrow> ATTEntry option" where
  "att_At i att = do {
     cassert (0 \<le> i \<and> i < att_length att);
     att_entry i att }"

text \<open>\<open>Contains\<close> casts its argument to a tag; it does not shift it.\<close>

definition att_Contains :: "Addr \<Rightarrow> AddrTransTable \<Rightarrow> bool" where
  "att_Contains phy_addr att \<longleftrightarrow> att_tag_index att phy_addr \<noteq> None"

definition att_VisitQueue ::
  "('s \<Rightarrow> AddrTransTable) \<Rightarrow> ATTState \<Rightarrow> (int \<Rightarrow> 's \<Rightarrow> 's option) \<Rightarrow> 's \<Rightarrow> (int \<times> 's) option" where
  "att_VisitQueue table st visit s = do {
     cassert (att_code st \<le> att_code DIRTY);
     iq_Accept (\<lambda>s. arr_at att_array (att_entries (table s))) visit (att_GetQueue st (table s)) s }"

definition att_IsEmpty :: "ATTState \<Rightarrow> AddrTransTable \<Rightarrow> bool option" where
  "att_IsEmpty st att = do {
     cassert (att_code st \<le> att_code DIRTY);
     iq_Empty (att_GetQueue st att) }"

definition att_GetLength :: "ATTState \<Rightarrow> AddrTransTable \<Rightarrow> int option" where
  "att_GetLength st att = do {
     cassert (att_code st \<le> att_code DIRTY);
     Some (iq_length (att_GetQueue st att)) }"

definition att_GetFront :: "ATTState \<Rightarrow> AddrTransTable \<Rightarrow> int option" where
  "att_GetFront st att = do {
     cassert (att_code st < att_code DIRTY);
     Some (iq_Front (att_GetQueue st att)) }"

definition att_block_size :: "AddrTransTable \<Rightarrow> int" where
  "att_block_size att = int32 (2 ^ att_block_bits att)"

definition att_block_mask :: "AddrTransTable \<Rightarrow> Addr" where
  "att_block_mask att = word_of_int (att_block_size att - 1)"

definition att_ToTag :: "Addr \<Rightarrow> AddrTransTable \<Rightarrow> Tag" where
  "att_ToTag addr att = drop_bit (att_block_bits att) addr"

definition att_ToAddr :: "Tag \<Rightarrow> AddrTransTable \<Rightarrow> Addr" where
  "att_ToAddr tag att = push_bit (att_block_bits att) tag"

definition att_Translate :: "Addr \<Rightarrow> Addr \<Rightarrow> AddrTransTable \<Rightarrow> Addr option" where
  "att_Translate phy_addr base att = do {
     cassert (base AND att_block_mask att = 0);
     Some (base + (phy_addr AND att_block_mask att)) }"

definition att_AddBlockRead :: "int \<Rightarrow> AddrTransTable \<Rightarrow> AddrTransTable option" where
  "att_AddBlockRead index att = att_update index (\<lambda>e. e\<lparr>epoch_reads := epoch_reads e + 1\<rparr>) att"

definition att_AddBlockWrite :: "int \<Rightarrow> AddrTransTable \<Rightarrow> AddrTransTable option" where
  "att_AddBlockWrite index att = att_update index (\<lambda>e. e\<lparr>epoch_writes := epoch_writes e + 1\<rparr>) att"

section \<open>The entry array as an index array\<close>

definition att_payload :: "ATTEntry list \<Rightarrow> ATTEntry list" where
  "att_payload es = map (\<lambda>e. e\<lparr>queue_node := IndexNode_init\<rparr>) es"

lemma att_array_at:
  "arr_at att_array es i =
     (if 0 \<le> i \<and> i < int (length es) then Some (queue_node (es ! nat i)) else None)"
  by (simp add: att_array_def)

interpretation att_links: index_array att_array att_payload
proof
  fix arr i n
  assume "arr_at att_array arr i \<noteq> None"
  then have i: "0 \<le> i" "i < int (length arr)" by (simp_all add: att_array_at split: if_splits)
  show "arr_at att_array (arr_set att_array arr i n) = (arr_at att_array arr)(i \<mapsto> n)"
  proof
    fix j
    have "nat i = nat j \<longleftrightarrow> i = j" if "0 \<le> j" using that i by auto
    then show "arr_at att_array (arr_set att_array arr i n) j = ((arr_at att_array arr)(i \<mapsto> n)) j"
      using i by (auto simp: att_array_def nth_list_update)
  qed
next
  fix arr i n
  show "att_payload (arr_set att_array arr i n) = att_payload arr"
    by (cases "nat i < length arr")
      (simp_all add: att_payload_def att_array_def list_eq_iff_nth_eq nth_list_update)
qed

section \<open>The abstract table\<close>

text \<open>
  \<open>att_linked att qs L\<close>: the four queues hold the index lists \<open>qs 0\<close>, \<dots>, \<open>qs 3\<close>; together they hold every
  entry once, except the entries \<open>L\<close>, which are unlinked.
\<close>

definition ent :: "AddrTransTable \<Rightarrow> int \<Rightarrow> ATTEntry" where
  "ent att i = att_entries att ! nat i"

definition att_linked :: "AddrTransTable \<Rightarrow> (nat \<Rightarrow> int list) \<Rightarrow> int set \<Rightarrow> bool" where
  "att_linked att qs L \<longleftrightarrow>
     length (att_queues att) = 4 \<and>
     (\<forall>k < 4. queue_rep (arr_at att_array (att_entries att)) (att_queues att ! k) (qs k)) \<and>
     (\<forall>k < 4. \<forall>k' < 4. \<forall>i. i \<in> set (qs k) \<and> i \<in> set (qs k') \<longrightarrow> k = k') \<and>
     (\<Union>k < 4. set (qs k)) = {0 ..< int (length (att_entries att))} - L \<and>
     L \<subseteq> {0 ..< int (length (att_entries att))} \<and>
     (\<forall>i \<in> L. queue_node (ent att i) = IndexNode_init)"

text \<open>Two tables that differ in links only.\<close>

definition same_payload :: "AddrTransTable \<Rightarrow> AddrTransTable \<Rightarrow> bool" where
  "same_payload att att' \<longleftrightarrow>
     att_payload (att_entries att') = att_payload (att_entries att) \<and>
     att_tag_index att' = att_tag_index att \<and> att_length att' = att_length att \<and>
     att_block_bits att' = att_block_bits att"

lemma StateIndex_less [simp]: "StateIndex st < 4"
  by (simp add: StateIndex_def)

lemma same_payload_refl [simp]: "same_payload att att"
  by (simp add: same_payload_def)

lemma same_payload_trans [trans]:
  "same_payload a b \<Longrightarrow> same_payload b c \<Longrightarrow> same_payload a c"
  by (simp add: same_payload_def)

lemma payload_length: "att_payload es' = att_payload es \<Longrightarrow> length es' = length es"
  unfolding att_payload_def by (metis length_map)

lemma payload_nth:
  assumes "att_payload es' = att_payload es" "k < length es"
  shows "(es' ! k)\<lparr>queue_node := IndexNode_init\<rparr> = (es ! k)\<lparr>queue_node := IndexNode_init\<rparr>"
  using arg_cong [OF assms(1), of "\<lambda>l. l ! k"] assms(2) payload_length [OF assms(1)]
  by (simp add: att_payload_def)

lemma payload_fields:
  assumes "att_payload es' = att_payload es" "k < length es"
  shows "phy_tag (es' ! k) = phy_tag (es ! k)" "mach_base (es' ! k) = mach_base (es ! k)"
    "att_state (es' ! k) = att_state (es ! k)" "epoch_reads (es' ! k) = epoch_reads (es ! k)"
    "epoch_writes (es' ! k) = epoch_writes (es ! k)"
  using payload_nth [OF assms] by (cases "es' ! k"; cases "es ! k"; simp)+

lemma same_payload_length:
  "same_payload att att' \<Longrightarrow> length (att_entries att') = length (att_entries att)"
  unfolding same_payload_def by (blast dest: payload_length)

lemma same_payload_ent:
  assumes "same_payload att att'" "0 \<le> i" "i < int (length (att_entries att))"
  shows "phy_tag (ent att' i) = phy_tag (ent att i)" "mach_base (ent att' i) = mach_base (ent att i)"
    "att_state (ent att' i) = att_state (ent att i)" "epoch_reads (ent att' i) = epoch_reads (ent att i)"
    "epoch_writes (ent att' i) = epoch_writes (ent att i)"
  using payload_fields [of "att_entries att'" "att_entries att" "nat i"] assms
  by (simp_all add: same_payload_def ent_def nat_less_iff)

lemma att_linked_range:
  "att_linked att qs L \<Longrightarrow> k < 4 \<Longrightarrow> i \<in> set (qs k) \<Longrightarrow>
     0 \<le> i \<and> i < int (length (att_entries att)) \<and> i \<notin> L"
  unfolding att_linked_def by (metis (no_types, lifting) DiffD1 DiffD2 UN_I atLeastLessThan_iff lessThan_iff)

lemma att_linked_queue:
  "att_linked att qs L \<Longrightarrow>
     queue_rep (arr_at att_array (att_entries att)) (att_GetQueue st att) (qs (StateIndex st))"
  by (simp add: att_linked_def att_GetQueue_def)

lemma att_linked_disjoint:
  "att_linked att qs L \<Longrightarrow> k < 4 \<Longrightarrow> k' < 4 \<Longrightarrow> i \<in> set (qs k) \<Longrightarrow> i \<in> set (qs k') \<Longrightarrow> k = k'"
  unfolding att_linked_def by blast

lemma set_exchange:
  assumes "A \<union> Q = R - L" "A \<inter> (Q \<union> L) = {}" "Y \<union> L' = Q \<union> L" "Y \<inter> L' = {}" "L \<subseteq> R"
  shows "A \<union> Y = R - L'"
proof -
  have "R = A \<union> (Q \<union> L)" using assms(1,5) by blast
  then show ?thesis using assms(2,4) unfolding assms(3) [symmetric] by blast
qed

text \<open>
  Replacing one queue: the new links agree with the old ones outside the queue and \<open>M\<close>, the new list
  is \<open>ys\<close>, and exactly the entries of \<open>M\<close> changed sides.
\<close>

lemma att_linked_PutQueue:
  assumes lk: "att_linked att qs L"
    and rep: "queue_rep (arr_at att_array es) q ys"
    and frame: "\<And>j. j \<notin> set (qs (StateIndex st)) \<Longrightarrow> j \<notin> M \<Longrightarrow>
        arr_at att_array es j = arr_at att_array (att_entries att) j"
    and pay: "att_payload es = att_payload (att_entries att)"
    and M: "M \<subseteq> L \<or> M \<subseteq> set (qs (StateIndex st))"
    and ys: "set ys \<union> L' = set (qs (StateIndex st)) \<union> L" "set ys \<inter> L' = {}"
    and init: "\<And>j. j \<in> L' - L \<Longrightarrow> arr_at att_array es j = Some IndexNode_init"
    and M': "M \<inter> L' \<subseteq> - L"
  shows "att_linked (att_PutQueue st es q att) (qs(StateIndex st := ys)) L'"
proof -
  let ?K = "StateIndex st" and ?a = "att_PutQueue st es q att"
  have len: "length es = length (att_entries att)" using payload_length [OF pay] .
  have ent': "att_entries ?a = es" and qu: "att_queues ?a = (att_queues att)[?K := q]"
    by (simp_all add: att_PutQueue_def)
  have L4: "length (att_queues att) = 4" using lk by (simp add: att_linked_def)
  have dj: "j \<notin> set (qs ?K) \<and> j \<notin> M" if "k < 4" "k \<noteq> ?K" "j \<in> set (qs k)" for k j
    using att_linked_disjoint [OF lk that(1) _ that(3), of ?K] att_linked_range [OF lk that(1,3)] that(2) M
    by auto
  have Lr: "L \<subseteq> {0 ..< int (length (att_entries att))}" using lk by (simp add: att_linked_def)
  have KL: "set (qs ?K) \<inter> L = {}" using att_linked_range [OF lk StateIndex_less] by blast
  show ?thesis
    unfolding att_linked_def ent' qu
  proof (intro conjI allI impI ballI)
    show "length ((att_queues att)[?K := q]) = 4" using L4 by simp
  next
    fix k :: nat assume k: "k < 4"
    show "queue_rep (arr_at att_array es) ((att_queues att)[?K := q] ! k) ((qs(?K := ys)) k)"
    proof (cases "k = ?K")
      case True
      then show ?thesis using rep L4 by simp
    next
      case False
      have "queue_rep (arr_at att_array (att_entries att)) (att_queues att ! k) (qs k)"
        using lk k by (simp add: att_linked_def)
      then have "queue_rep (arr_at att_array es) (att_queues att ! k) (qs k)"
        by (rule queue_rep_frame) (use frame dj [OF k False] in blast)
      then show ?thesis using False by simp
    qed
  next
    fix k k' :: nat and j assume k: "k < 4" "k' < 4"
      and j: "j \<in> set ((qs(?K := ys)) k) \<and> j \<in> set ((qs(?K := ys)) k')"
    have "j \<notin> set ys" if "k < 4" "k \<noteq> ?K" "j \<in> set (qs k)" for k
      using dj [OF that] att_linked_range [OF lk that(1,3)] ys by blast
    then show "k = k'"
      using j k att_linked_disjoint [OF lk k] by (auto split: if_splits)
  next
    have ins: "{..<4} = insert ?K ({..<4} - {?K})" by auto
    have "(\<Union>k < 4. set ((qs(?K := ys)) k)) = (\<Union>k \<in> {..<4} - {?K}. set (qs k)) \<union> set ys"
      by (subst ins, subst UN_insert) auto
    moreover have "(\<Union>k < 4. set (qs k)) = (\<Union>k \<in> {..<4} - {?K}. set (qs k)) \<union> set (qs ?K)"
      by (subst ins, subst UN_insert) auto
    moreover have "(\<Union>k \<in> {..<4} - {?K}. set (qs k)) \<inter> (set (qs ?K) \<union> L) = {}"
      using dj att_linked_range [OF lk] by blast
    moreover have "(\<Union>k < 4. set (qs k)) = {0 ..< int (length (att_entries att))} - L"
      using lk by (simp add: att_linked_def)
    ultimately show "(\<Union>k < 4. set ((qs(?K := ys)) k)) = {0 ..< int (length es)} - L'"
      unfolding len using set_exchange [OF _ _ ys Lr] by metis
  next
    have "set (qs ?K) \<subseteq> {0 ..< int (length (att_entries att))}"
      using att_linked_range [OF lk StateIndex_less] by (meson atLeastLessThan_iff subsetI)
    then show "L' \<subseteq> {0 ..< int (length es)}" using ys Lr unfolding len by blast
  next
    fix j assume j: "j \<in> L'"
    have "arr_at att_array es j = Some IndexNode_init"
    proof (cases "j \<in> L")
      case True
      have nm: "j \<notin> M" using M' j True by blast
      have "arr_at att_array es j = arr_at att_array (att_entries att) j"
        by (rule frame) (use True KL nm in blast)+
      moreover have "queue_node (ent att j) = IndexNode_init"
        using lk True by (simp add: att_linked_def)
      ultimately show ?thesis using Lr True by (auto simp: ent_def att_array_at)
    next
      case False
      then show ?thesis using init j by blast
    qed
    then show "queue_node (ent ?a j) = IndexNode_init"
      by (simp add: ent_def ent' att_array_at split: if_splits)
  qed
qed

lemma same_payload_PutQueue:
  "att_payload es = att_payload (att_entries att) \<Longrightarrow> same_payload att (att_PutQueue st es q att)"
  by (simp add: same_payload_def att_PutQueue_def)

lemma att_Remove_linked:
  assumes lk: "att_linked att qs L" and i: "i \<in> set (qs (StateIndex st))"
  shows "\<exists>att'. att_Remove st i att = Some att' \<and> same_payload att att' \<and>
    att_linked att' (qs(StateIndex st := remove1 i (qs (StateIndex st)))) (insert i L)"
proof -
  let ?K = "StateIndex st"
  note rep = att_linked_queue [OF lk, of st]
  obtain es q where run: "iq_Remove att_array i (att_entries att) (att_GetQueue st att) = Some (es, q)"
    and rep': "queue_rep (arr_at att_array es) q (remove1 i (qs ?K))"
    and ni: "arr_at att_array es i = Some IndexNode_init"
    and fr: "\<forall>j. j \<notin> set (qs ?K) \<longrightarrow> arr_at att_array es j = arr_at att_array (att_entries att) j"
    and pay: "att_payload es = att_payload (att_entries att)"
    using att_links.Remove_rep_remove1 [OF rep i] by blast
  have st: "set (remove1 i (qs ?K)) = set (qs ?K) - {i}"
    using queue_rep_distinct [OF rep] by simp
  have iL: "i \<notin> L" using att_linked_range [OF lk _ i] by simp
  have "att_linked (att_PutQueue st es q att) (qs(?K := remove1 i (qs ?K))) (insert i L)"
  proof (rule att_linked_PutQueue [OF lk rep' _ pay, where M = "{}"])
    show "set (remove1 i (qs ?K)) \<union> insert i L = set (qs ?K) \<union> L" using st i by blast
    show "set (remove1 i (qs ?K)) \<inter> insert i L = {}"
      using st att_linked_range [OF lk StateIndex_less [of st]] by blast
  qed (use fr ni in auto)
  then show ?thesis using run same_payload_PutQueue [OF pay] by (simp add: att_Remove_def)
qed

lemma att_PushBack_linked:
  assumes lk: "att_linked att qs L" and i: "i \<in> L"
  shows "\<exists>att'. att_PushBack st i att = Some att' \<and> same_payload att att' \<and>
    att_linked att' (qs(StateIndex st := qs (StateIndex st) @ [i])) (L - {i})"
proof -
  let ?K = "StateIndex st"
  note rep = att_linked_queue [OF lk, of st]
  have iK: "i \<notin> set (qs ?K)" using att_linked_range [OF lk StateIndex_less] i by blast
  have ir: "0 \<le> i" "i < int (length (att_entries att))" "queue_node (ent att i) = IndexNode_init"
    using lk i by (auto simp: att_linked_def)
  obtain es q where run: "iq_PushBack att_array i (att_entries att) (att_GetQueue st att) = Some (es, q)"
    and rep': "queue_rep (arr_at att_array es) q (qs ?K @ [i])"
    and fr: "\<forall>j. j \<notin> set (qs ?K) \<and> j \<noteq> i \<longrightarrow> arr_at att_array es j = arr_at att_array (att_entries att) j"
    and pay: "att_payload es = att_payload (att_entries att)"
    using att_links.PushBack_rep [OF rep iK] ir by (auto simp: ent_def att_array_at)
  have "att_linked (att_PutQueue st es q att) (qs(?K := qs ?K @ [i])) (L - {i})"
  proof (rule att_linked_PutQueue [OF lk rep' _ pay, where M = "{i}"])
    show "set (qs ?K @ [i]) \<union> (L - {i}) = set (qs ?K) \<union> L" using i by auto
    show "set (qs ?K @ [i]) \<inter> (L - {i}) = {}"
      using att_linked_range [OF lk StateIndex_less [of st]] by auto
  qed (use fr i in auto)
  then show ?thesis using run same_payload_PutQueue [OF pay] by (simp add: att_PushBack_def)
qed

section \<open>The table invariant\<close>

text \<open>
  \<open>att_rep att qs\<close>: every entry is linked; an entry outside the free queue is in the queue of its state;
  and the hash index maps a tag to the one entry outside the free queue that carries it.
\<close>

definition att_live :: "AddrTransTable \<Rightarrow> (nat \<Rightarrow> int list) \<Rightarrow> int \<Rightarrow> bool" where
  "att_live att qs i \<longleftrightarrow> 0 \<le> i \<and> i < att_length att \<and> i \<notin> set (qs (StateIndex FREE))"

definition att_rep :: "AddrTransTable \<Rightarrow> (nat \<Rightarrow> int list) \<Rightarrow> bool" where
  "att_rep att qs \<longleftrightarrow>
     att_linked att qs {} \<and> att_length att = int (length (att_entries att)) \<and>
     (\<forall>i. att_live att qs i \<longrightarrow> i \<in> set (qs (StateIndex (att_state (ent att i))))) \<and>
     (\<forall>t i. att_tag_index att t = Some i \<longleftrightarrow> att_live att qs i \<and> phy_tag (ent att i) = t)"

text \<open>What one operation does to the contents: entry \<open>i\<close> becomes \<open>e\<close>, up to links; the others stay.\<close>

definition payload1 :: "ATTEntry \<Rightarrow> ATTEntry" where
  "payload1 e = e\<lparr>queue_node := IndexNode_init\<rparr>"

definition att_effect :: "AddrTransTable \<Rightarrow> AddrTransTable \<Rightarrow> int \<Rightarrow> ATTEntry \<Rightarrow> bool" where
  "att_effect att att' i e \<longleftrightarrow>
     length (att_entries att') = length (att_entries att) \<and>
     att_length att' = att_length att \<and> att_block_bits att' = att_block_bits att \<and>
     (\<forall>j. 0 \<le> j \<and> j < int (length (att_entries att)) \<longrightarrow>
        payload1 (ent att' j) = (if j = i then payload1 e else payload1 (ent att j)))"

lemma payload1_fields:
  assumes "payload1 e = payload1 e'"
  shows "phy_tag e = phy_tag e'" "mach_base e = mach_base e'" "att_state e = att_state e'"
    "epoch_reads e = epoch_reads e'" "epoch_writes e = epoch_writes e'"
  using assms by (cases e; cases e'; simp add: payload1_def)+

lemma att_effect_other:
  assumes "att_effect att att' i e" "0 \<le> j" "j < int (length (att_entries att))" "j \<noteq> i"
  shows "phy_tag (ent att' j) = phy_tag (ent att j)" "mach_base (ent att' j) = mach_base (ent att j)"
    "att_state (ent att' j) = att_state (ent att j)" "epoch_reads (ent att' j) = epoch_reads (ent att j)"
    "epoch_writes (ent att' j) = epoch_writes (ent att j)"
  using payload1_fields [of "ent att' j" "ent att j"] assms by (simp_all add: att_effect_def)

lemma att_effect_this:
  assumes "att_effect att att' i e" "0 \<le> i" "i < int (length (att_entries att))"
  shows "phy_tag (ent att' i) = phy_tag e" "mach_base (ent att' i) = mach_base e"
    "att_state (ent att' i) = att_state e" "epoch_reads (ent att' i) = epoch_reads e"
    "epoch_writes (ent att' i) = epoch_writes e"
  using payload1_fields [of "ent att' i" e] assms by (simp_all add: att_effect_def)

lemma same_payload_effect:
  assumes "same_payload att att'" shows "att_effect att att' i (ent att i)"
proof -
  have "payload1 (ent att' j) = payload1 (ent att j)" if "0 \<le> j" "j < int (length (att_entries att))" for j
    using payload_nth [of "att_entries att'" "att_entries att" "nat j"] assms that
    by (simp add: same_payload_def payload1_def ent_def nat_less_iff)
  then show ?thesis
    using assms same_payload_length [OF assms] by (auto simp: att_effect_def same_payload_def)
qed

lemma att_effect_comp:
  assumes "same_payload a b" "att_effect b c i e" "0 \<le> i" "i < int (length (att_entries a))"
  shows "att_effect a c i e"
  using same_payload_effect [OF assms(1), of i] assms(2-) by (auto simp: att_effect_def)

lemma att_entry_eq:
  "att_entry i att = Some (ent att i)" if "0 \<le> i" "i < int (length (att_entries att))"
  using that by (simp add: att_entry_def ent_def)

lemma att_update_linked:
  assumes lk: "att_linked att qs L" and i: "0 \<le> i" "i < int (length (att_entries att))"
    and f: "queue_node (f (ent att i)) = queue_node (ent att i)"
  shows "\<exists>att'. att_update i f att = Some att' \<and> att_linked att' qs L \<and>
    att_effect att att' i (f (ent att i)) \<and> att_tag_index att' = att_tag_index att"
proof -
  let ?a = "att\<lparr>att_entries := (att_entries att)[nat i := f (ent att i)]\<rparr>"
  have nth: "ent ?a j = (if j = i then f (ent att i) else ent att j)"
    if "0 \<le> j" "j < int (length (att_entries att))" for j
    using that i by (auto simp: ent_def nth_list_update nat_less_iff)
  have at: "arr_at att_array (att_entries ?a) = arr_at att_array (att_entries att)"
    using nth f by (auto simp: fun_eq_iff att_array_at ent_def)
  have "queue_node (ent ?a j) = IndexNode_init" if "j \<in> L" for j
  proof -
    have "0 \<le> j" "j < int (length (att_entries att))" "queue_node (ent att j) = IndexNode_init"
      using lk that by (auto simp: att_linked_def)
    then show ?thesis using nth f by (metis (full_types))
  qed
  then have "att_linked ?a qs L"
    using lk unfolding att_linked_def at by simp
  moreover have "att_effect att ?a i (f (ent att i))"
    using nth by (simp add: att_effect_def)
  moreover have "att_update i f att = Some ?a"
    using i by (simp add: att_update_def att_entry_eq)
  ultimately show ?thesis by simp
qed

lemma att_linked_tag_index [simp]:
  "att_linked (att\<lparr>att_tag_index := ti\<rparr>) qs L = att_linked att qs L"
  by (simp add: att_linked_def ent_def)

lemma ent_tag_index [simp]: "ent (att\<lparr>att_tag_index := ti\<rparr>) i = ent att i"
  by (simp add: ent_def)

section \<open>The operations on the abstract table\<close>

lemma att_rep_linked: "att_rep att qs \<Longrightarrow> att_linked att qs {}"
  by (simp add: att_rep_def)

lemma att_rep_length: "att_rep att qs \<Longrightarrow> att_length att = int (length (att_entries att))"
  by (simp add: att_rep_def)

lemma att_live_range:
  "att_rep att qs \<Longrightarrow> att_live att qs i \<Longrightarrow> 0 \<le> i \<and> i < int (length (att_entries att))"
  by (simp add: att_rep_def att_live_def)

lemma att_live_queue:
  "att_rep att qs \<Longrightarrow> att_live att qs i \<Longrightarrow> i \<in> set (qs (StateIndex (att_state (ent att i))))"
  by (simp add: att_rep_def)

lemma StateIndex_FREE [simp]: "StateIndex st = StateIndex FREE \<longleftrightarrow> st = FREE"
  by (cases st) (simp_all add: StateIndex_def)

lemma att_live_not_FREE: "att_rep att qs \<Longrightarrow> att_live att qs i \<Longrightarrow> att_state (ent att i) \<noteq> FREE"
  using att_live_queue [of att qs i] by (auto simp: att_live_def)

lemma att_index_iff:
  "att_rep att qs \<Longrightarrow> att_tag_index att t = Some i \<longleftrightarrow> att_live att qs i \<and> phy_tag (ent att i) = t"
  by (simp add: att_rep_def)

lemma att_tag_inj:
  assumes "att_rep att qs" "att_live att qs i" "att_live att qs j" "phy_tag (ent att i) = phy_tag (ent att j)"
  shows "i = j"
proof -
  have "att_tag_index att (phy_tag (ent att i)) = Some i" "att_tag_index att (phy_tag (ent att i)) = Some j"
    using assms att_index_iff [OF assms(1)] by simp_all
  then show ?thesis by simp
qed

lemma att_rep_queue_state:
  assumes "att_rep att qs" "k < 4" "i \<in> set (qs k)" "k \<noteq> StateIndex FREE"
  shows "att_live att qs i" "StateIndex (att_state (ent att i)) = k"
proof -
  note lk = att_rep_linked [OF assms(1)]
  show live: "att_live att qs i"
    using att_linked_range [OF lk assms(2,3)] att_rep_length [OF assms(1)]
      att_linked_disjoint [OF lk assms(2) StateIndex_less assms(3)] assms(4)
    by (auto simp: att_live_def)
  show "StateIndex (att_state (ent att i)) = k"
    by (rule att_linked_disjoint [OF lk StateIndex_less assms(2) att_live_queue [OF assms(1) live] assms(3)])
qed

lemma att_rep_same:
  assumes rep: "att_rep att qs" and lk: "att_linked att' qs' {}" and eff: "same_payload att att'"
    and qs: "\<And>k. k < 4 \<Longrightarrow> set (qs' k) = set (qs k)"
  shows "att_rep att' qs'"
proof -
  have len: "att_length att' = int (length (att_entries att'))"
    using same_payload_length [OF eff] eff att_rep_length [OF rep] by (simp add: same_payload_def)
  have live: "att_live att' qs' i = att_live att qs i" for i
    using eff qs [of "StateIndex FREE"] by (simp add: att_live_def same_payload_def)
  have "i \<in> set (qs' (StateIndex (att_state (ent att' i))))" if "att_live att qs i" for i
    using att_live_queue [OF rep that] same_payload_ent [OF eff] att_live_range [OF rep that] qs by simp
  moreover have "att_live att qs i \<and> phy_tag (ent att' i) = t \<longleftrightarrow> att_live att qs i \<and> phy_tag (ent att i) = t" for i t
    using same_payload_ent [OF eff] att_live_range [OF rep, of i] by auto
  ultimately show ?thesis
    using lk len att_index_iff [OF rep] eff
    by (simp add: att_rep_def live same_payload_def)
qed

text \<open>A miss changes nothing; a hit moves the entry to the back of its queue (least recently used first).\<close>

lemma att_Lookup_miss:
  "att_tag_index att t = None \<Longrightarrow> att_Lookup t pf att = Some (- EINVAL, pf_AddTableOp pf, att)"
  by (simp add: att_Lookup_def)

lemma att_Lookup_hit:
  assumes rep: "att_rep att qs" and hit: "att_tag_index att t = Some i"
  defines "k \<equiv> StateIndex (att_state (ent att i))"
  shows "\<exists>att'. att_Lookup t pf att = Some (i, pf_AddTableOp pf, att') \<and> same_payload att att' \<and>
    att_rep att' (qs(k := remove1 i (qs k) @ [i]))"
proof -
  let ?st = "att_state (ent att i)"
  have live: "att_live att qs i" and tag: "phy_tag (ent att i) = t"
    using hit att_index_iff [OF rep] by auto
  note lk = att_rep_linked [OF rep]
  have ik: "i \<in> set (qs k)" unfolding k_def by (rule att_live_queue [OF rep live])
  obtain a1 where a1: "att_Remove ?st i att = Some a1" "same_payload att a1"
      "att_linked a1 (qs(k := remove1 i (qs k))) {i}"
    using att_Remove_linked [OF lk, of i ?st] ik unfolding k_def by auto
  obtain a2 where a2: "att_PushBack ?st i a1 = Some a2" "same_payload a1 a2"
      "att_linked a2 (qs(k := remove1 i (qs k) @ [i])) {}"
    using att_PushBack_linked [OF a1(3), of i ?st] unfolding k_def by auto
  have pay: "same_payload att a2" by (rule same_payload_trans [OF a1(2) a2(2)])
  have "distinct (qs k)" unfolding k_def by (rule queue_rep_distinct [OF att_linked_queue [OF lk]])
  then have "att_rep a2 (qs(k := remove1 i (qs k) @ [i]))"
    using ik by (intro att_rep_same [OF rep a2(3) pay]) auto
  moreover have "att_entry i att = Some (ent att i)"
    using att_live_range [OF rep live] by (simp add: att_entry_eq)
  ultimately show ?thesis
    using hit a1(1) a2(1) pay tag att_live_not_FREE [OF rep live]
    by (simp add: att_Lookup_def)
qed

text \<open>Rewriting one entry and requeueing it: the common core of \<open>Setup\<close>, \<open>ShiftState\<close> and \<open>Reset\<close>.\<close>

lemma att_rep_rewrite:
  assumes rep: "att_rep att qs" and i: "0 \<le> i" "i < att_length att"
    and eff: "att_effect att a i e" and lk: "att_linked a qs' {}"
    and other: "\<And>k j. k < 4 \<Longrightarrow> j \<noteq> i \<Longrightarrow> j \<in> set (qs' k) \<longleftrightarrow> j \<in> set (qs k)"
    and self: "i \<in> set (qs' (StateIndex (att_state e)))"
    and ti: "\<And>t j. att_tag_index a t = Some j \<longleftrightarrow>
        (if j = i then att_state e \<noteq> FREE \<and> t = phy_tag e else att_tag_index att t = Some j)"
  shows "att_rep a qs'"
proof -
  have len: "att_length a = int (length (att_entries a))" "att_length a = att_length att"
    using eff att_rep_length [OF rep] by (simp_all add: att_effect_def)
  have ir: "i < int (length (att_entries att))" using i att_rep_length [OF rep] by simp
  have live_o: "att_live a qs' j = att_live att qs j" if "j \<noteq> i" for j
    using other [OF StateIndex_less that, of FREE] len by (simp add: att_live_def)
  have live_i: "att_live a qs' i \<longleftrightarrow> att_state e \<noteq> FREE"
    using self att_linked_disjoint [OF lk StateIndex_less StateIndex_less self, of FREE] i len
    by (auto simp: att_live_def)
  have st: "j \<in> set (qs' (StateIndex (att_state (ent a j))))" if "att_live a qs' j" for j
  proof (cases "j = i")
    case True
    then show ?thesis using self att_effect_this [OF eff i(1) ir] by simp
  next
    case False
    then have lj: "att_live att qs j" using that live_o by simp
    then show ?thesis
      using att_live_queue [OF rep lj] other [OF StateIndex_less False] att_live_range [OF rep lj]
        att_effect_other [OF eff _ _ False] by simp
  qed
  have idx: "att_tag_index a t = Some j \<longleftrightarrow> att_live a qs' j \<and> phy_tag (ent a j) = t" for t j
  proof (cases "j = i")
    case True
    then show ?thesis using ti live_i att_effect_this [OF eff i(1) ir] by auto
  next
    case False
    have "att_live att qs j \<Longrightarrow> phy_tag (ent a j) = phy_tag (ent att j)"
      using att_effect_other [OF eff _ _ False] att_live_range [OF rep] by blast
    then show ?thesis using ti False live_o att_index_iff [OF rep] by auto
  qed
  show ?thesis using lk len st idx by (simp add: att_rep_def)
qed

lemma att_effect_trans:
  assumes "att_effect a b i e" "same_payload b c" "0 \<le> i" "i < int (length (att_entries a))"
  shows "att_effect a c i e"
  using same_payload_effect [OF assms(2), of i] assms by (auto simp: att_effect_def)

lemma att_effect_tag_index [simp]:
  "att_effect att (a\<lparr>att_tag_index := ti\<rparr>) i e = att_effect att a i e"
  "att_effect (att\<lparr>att_tag_index := ti\<rparr>) a i e = att_effect att a i e"
  by (simp_all add: att_effect_def ent_def)

lemma payload1_idem [simp]: "payload1 (e\<lparr>queue_node := n\<rparr>) = payload1 e"
  by (simp add: payload1_def)

definition requeue :: "nat \<Rightarrow> nat \<Rightarrow> int \<Rightarrow> (nat \<Rightarrow> int list) \<Rightarrow> (nat \<Rightarrow> int list)" where
  "requeue k k' i qs = (let q1 = qs(k := remove1 i (qs k)) in q1(k' := q1 k' @ [i]))"

text \<open>The entry moves from the queue of its state to the back of the queue of the new one.\<close>

lemma att_requeue_linked:
  assumes lk: "att_linked att qs {}" and i: "i \<in> set (qs (StateIndex st))"
  shows "\<exists>a1 a2. att_Remove st i att = Some a1 \<and> att_PushBack st' i a1 = Some a2 \<and>
    same_payload att a2 \<and> att_linked a2 (requeue (StateIndex st) (StateIndex st') i qs) {}"
proof -
  obtain a1 where a1: "att_Remove st i att = Some a1" "same_payload att a1"
      "att_linked a1 (qs(StateIndex st := remove1 i (qs (StateIndex st)))) {i}"
    using att_Remove_linked [OF lk i] by auto
  obtain a2 where a2: "att_PushBack st' i a1 = Some a2" "same_payload a1 a2"
      "att_linked a2 (requeue (StateIndex st) (StateIndex st') i qs) {}"
    using att_PushBack_linked [OF a1(3), of i st'] by (auto simp: requeue_def Let_def)
  show ?thesis using a1(1) a2 same_payload_trans [OF a1(2) a2(2)] by blast
qed

lemma requeue_member:
  assumes "distinct (qs k)" "i \<in> set (qs k)"
  shows "j \<noteq> i \<Longrightarrow> j \<in> set (requeue k k' i qs x) \<longleftrightarrow> j \<in> set (qs x)"
    and "i \<in> set (requeue k k' i qs k')"
  using assms by (auto simp: requeue_def Let_def)

lemma att_ShiftState_rep:
  assumes rep: "att_rep att qs" and live: "att_live att qs i" and ne: "att_state (ent att i) \<noteq> st"
  shows "\<exists>att'. att_ShiftState i st pf att = Some (pf_AddTableOp pf, att') \<and>
    att_effect att att' i ((ent att i)\<lparr>att_state := st\<rparr>) \<and>
    att_rep att' (requeue (StateIndex (att_state (ent att i))) (StateIndex st) i qs) \<and>
    att_tag_index att' =
      (if st = FREE then (att_tag_index att)(phy_tag (ent att i) := None) else att_tag_index att)"
proof -
  let ?e = "ent att i" and ?qs' = "requeue (StateIndex (att_state (ent att i))) (StateIndex st) i qs"
  let ?ti = "if st = FREE then (att_tag_index att)(phy_tag ?e := None) else att_tag_index att"
  let ?a = "att\<lparr>att_tag_index := ?ti\<rparr>"
  note lk = att_rep_linked [OF rep] and r = att_live_range [OF rep live]
  have iq: "i \<in> set (qs (StateIndex (att_state ?e)))" by (rule att_live_queue [OF rep live])
  obtain a1 a2 where run: "att_Remove (att_state ?e) i ?a = Some a1" "att_PushBack st i a1 = Some a2"
    and a2: "same_payload ?a a2" "att_linked a2 ?qs' {}"
    using att_requeue_linked [of ?a qs i "att_state ?e" st] lk iq by auto
  have r2: "i < int (length (att_entries a2))" using r same_payload_length [OF a2(1)] by simp
  obtain a3 where a3: "att_update i (\<lambda>e. e\<lparr>att_state := st\<rparr>) a2 = Some a3" "att_linked a3 ?qs' {}"
      "att_effect a2 a3 i ((ent a2 i)\<lparr>att_state := st\<rparr>)" "att_tag_index a3 = att_tag_index a2"
    using att_update_linked [OF a2(2), of i "\<lambda>e. e\<lparr>att_state := st\<rparr>"] r r2 by auto
  have "payload1 (ent a2 i) = payload1 ?e"
    using same_payload_effect [OF a2(1), of i] r by (simp add: att_effect_def)
  then have "payload1 ((ent a2 i)\<lparr>att_state := st\<rparr>) = payload1 (?e\<lparr>att_state := st\<rparr>)"
    by (cases "ent a2 i"; cases ?e; simp add: payload1_def)
  then have eff: "att_effect att a3 i (?e\<lparr>att_state := st\<rparr>)"
    using att_effect_comp [OF a2(1) a3(3)] r by (simp add: att_effect_def)
  have ti: "att_tag_index a3 = ?ti" using a3(4) a2(1) by (simp add: same_payload_def)
  note d = queue_rep_distinct [OF att_linked_queue [OF lk]]
  have "att_rep a3 ?qs'"
  proof (rule att_rep_rewrite [OF rep _ _ eff a3(2)])
    show "0 \<le> i" "i < att_length att" using r att_rep_length [OF rep] by auto
    show "att_tag_index a3 t = Some j \<longleftrightarrow> (if j = i then att_state (?e\<lparr>att_state := st\<rparr>) \<noteq> FREE \<and>
        t = phy_tag (?e\<lparr>att_state := st\<rparr>) else att_tag_index att t = Some j)" for t j
      using live att_index_iff [OF rep] att_tag_inj [OF rep live, of j] by (auto simp: ti)
  qed (use requeue_member [where qs = qs and k = "StateIndex (att_state ?e)", OF d iq] in auto)
  moreover have "att_ShiftState i st pf att = Some (pf_AddTableOp pf, a3)"
    using run a3(1) ne att_entry_eq [of i att] r by (cases "st = FREE") (simp_all add: att_ShiftState_def)
  ultimately show ?thesis using eff ti by blast
qed

text \<open>Updates of one live entry that keep its state and tag.\<close>

lemma att_update_rep:
  assumes rep: "att_rep att qs" and live: "att_live att qs i"
    and f: "queue_node (f (ent att i)) = queue_node (ent att i)"
      "att_state (f (ent att i)) = att_state (ent att i)" "phy_tag (f (ent att i)) = phy_tag (ent att i)"
  shows "\<exists>att'. att_update i f att = Some att' \<and> att_rep att' qs \<and>
    att_effect att att' i (f (ent att i)) \<and> att_tag_index att' = att_tag_index att"
proof -
  note r = att_live_range [OF rep live]
  obtain a where a: "att_update i f att = Some a" "att_linked a qs {}"
      "att_effect att a i (f (ent att i))" "att_tag_index a = att_tag_index att"
    using att_update_linked [OF att_rep_linked [OF rep], of i f] r f by auto
  have "att_rep a qs"
  proof (rule att_rep_rewrite [OF rep _ _ a(3,2)])
    show "att_tag_index a t = Some j \<longleftrightarrow> (if j = i then att_state (f (ent att i)) \<noteq> FREE \<and>
        t = phy_tag (f (ent att i)) else att_tag_index att t = Some j)" for t j
      using att_index_iff [OF rep, of t i] live att_live_not_FREE [OF rep live] f a(4) by auto
  qed (use r att_rep_length [OF rep] f att_live_queue [OF rep live] in auto)
  then show ?thesis using a by blast
qed

lemma att_Reset_rep:
  assumes rep: "att_rep att qs" and live: "att_live att qs i" and ne: "att_state (ent att i) \<noteq> st"
    and st: "st \<noteq> FREE"
  shows "\<exists>att'. att_Reset i b st pf att = Some (pf_AddTableOp pf, att') \<and>
    att_effect att att' i ((ent att i)\<lparr>mach_base := b, att_state := st\<rparr>) \<and>
    att_rep att' (requeue (StateIndex (att_state (ent att i))) (StateIndex st) i qs) \<and>
    att_tag_index att' = att_tag_index att"
proof -
  note r = att_live_range [OF rep live]
  obtain a where a: "att_update i (\<lambda>e. e\<lparr>mach_base := b\<rparr>) att = Some a" "att_rep a qs"
      "att_effect att a i ((ent att i)\<lparr>mach_base := b\<rparr>)" "att_tag_index a = att_tag_index att"
    using att_update_rep [OF rep live, of "\<lambda>e. e\<lparr>mach_base := b\<rparr>"] by auto
  have live': "att_live a qs i" using live a(3) by (simp add: att_live_def att_effect_def)
  have st': "att_state (ent a i) = att_state (ent att i)" using att_effect_this [OF a(3)] r by simp
  obtain a' where a': "att_ShiftState i st pf a = Some (pf_AddTableOp pf, a')"
      "att_effect a a' i ((ent a i)\<lparr>att_state := st\<rparr>)"
      "att_rep a' (requeue (StateIndex (att_state (ent att i))) (StateIndex st) i qs)"
      "att_tag_index a' = att_tag_index a"
    using att_ShiftState_rep [OF a(2) live', of st pf] ne st st' by auto
  have "payload1 (ent a i) = payload1 ((ent att i)\<lparr>mach_base := b\<rparr>)"
    using a(3) r by (simp add: att_effect_def)
  then have "payload1 ((ent a i)\<lparr>att_state := st\<rparr>) = payload1 ((ent att i)\<lparr>mach_base := b, att_state := st\<rparr>)"
    by (cases "ent a i"; cases "ent att i"; simp add: payload1_def)
  then have "att_effect att a' i ((ent att i)\<lparr>mach_base := b, att_state := st\<rparr>)"
    using a(3) a'(2) by (simp add: att_effect_def)
  then show ?thesis using a a' by (simp add: att_Reset_def)
qed

text \<open>\<open>Setup\<close> takes the front of the free queue.\<close>

lemma att_Setup_rep:
  assumes rep: "att_rep att qs" and new: "att_tag_index att t = None"
    and free: "qs (StateIndex FREE) = i # rest" and st: "st \<noteq> FREE"
  shows "\<exists>att'. att_Setup t b st pf att = Some (i, pf_AddTableOp pf, att') \<and>
    att_effect att att' i ((ent att i)\<lparr>att_state := st, phy_tag := t, mach_base := b\<rparr>) \<and>
    att_rep att' (requeue (StateIndex FREE) (StateIndex st) i qs) \<and>
    att_tag_index att' = (att_tag_index att)(t \<mapsto> i)"
proof -
  let ?F = "StateIndex FREE" and ?qs' = "requeue (StateIndex FREE) (StateIndex st) i qs"
  let ?f = "\<lambda>e. e\<lparr>att_state := st, phy_tag := t, mach_base := b\<rparr>"
  note lk = att_rep_linked [OF rep]
  note q = att_linked_queue [OF lk, of FREE]
  have iF: "i \<in> set (qs ?F)" using free by simp
  have r: "0 \<le> i" "i < int (length (att_entries att))" using att_linked_range [OF lk _ iF] by simp_all
  have em: "iq_Empty (att_GetQueue FREE att) = Some False" using queue_rep_Empty [OF q] free by simp
  have pop: "iq_PopFront att_array (att_entries att) (att_GetQueue FREE att) = do {
      (es, q) \<leftarrow> iq_Remove att_array i (att_entries att) (att_GetQueue FREE att); Some (i, es, q) }"
    using em queue_rep_Front [OF q] free by (simp add: iq_PopFront_def)
  obtain a1 a2 where a1: "att_Remove FREE i att = Some a1" and a2: "att_PushBack st i a1 = Some a2"
    "same_payload att a2" "att_linked a2 ?qs' {}"
    using att_requeue_linked [OF lk iF, of st] by auto
  obtain es q where rm: "iq_Remove att_array i (att_entries att) (att_GetQueue FREE att) = Some (es, q)"
    "a1 = att_PutQueue FREE es q att"
    using a1 by (auto simp: att_Remove_def split: bind_splits)
  have r2: "i < int (length (att_entries a2))" using r same_payload_length [OF a2(2)] by simp
  obtain a3 where a3: "att_update i ?f a2 = Some a3" "att_linked a3 ?qs' {}"
      "att_effect a2 a3 i (?f (ent a2 i))" "att_tag_index a3 = att_tag_index a2"
    using att_update_linked [OF a2(3), of i ?f] r r2 by auto
  let ?a = "a3\<lparr>att_tag_index := (att_tag_index a3)(t \<mapsto> i)\<rparr>"
  have "payload1 (ent a2 i) = payload1 (ent att i)"
    using same_payload_effect [OF a2(2), of i] r by (simp add: att_effect_def)
  then have "payload1 (?f (ent a2 i)) = payload1 (?f (ent att i))"
    by (cases "ent a2 i"; cases "ent att i"; simp add: payload1_def)
  then have eff: "att_effect att ?a i (?f (ent att i))"
    using att_effect_comp [OF a2(2) a3(3)] r by (simp add: att_effect_def ent_def)
  have ti: "att_tag_index ?a = (att_tag_index att)(t \<mapsto> i)"
    using a3(4) a2(2) by (simp add: same_payload_def)
  have nolive: "att_tag_index att t' \<noteq> Some i" for t'
    using att_index_iff [OF rep, of t' i] iF by (simp add: att_live_def)
  note d = queue_rep_distinct [OF att_linked_queue [OF lk]]
  have "att_rep ?a ?qs'"
  proof (rule att_rep_rewrite [OF rep r(1) _ eff])
    show "att_tag_index ?a t' = Some j \<longleftrightarrow> (if j = i then att_state (?f (ent att i)) \<noteq> FREE \<and>
        t' = phy_tag (?f (ent att i)) else att_tag_index att t' = Some j)" for t' j
      using new nolive st unfolding ti by auto
  qed (use r att_rep_length [OF rep] a3(2) requeue_member [where qs = qs and k = ?F, OF d iF] in auto)
  then show ?thesis
    using new em pop rm a2(1) a3(1) eff ti by (simp add: att_Setup_def Let_def)
qed

text \<open>The read-only operations.\<close>

lemma att_At_rep:
  "att_rep att qs \<Longrightarrow> 0 \<le> i \<Longrightarrow> i < att_length att \<Longrightarrow> att_At i att = Some (ent att i)"
  using att_entry_eq [of i att] by (simp add: att_At_def att_rep_length)

lemma att_IsEmpty_rep:
  "att_rep att qs \<Longrightarrow> att_code st \<le> 3 \<Longrightarrow> att_IsEmpty st att = Some (qs (StateIndex st) = [])"
  using queue_rep_Empty [OF att_linked_queue [OF att_rep_linked]] by (simp add: att_IsEmpty_def)

lemma att_GetLength_rep:
  "att_rep att qs \<Longrightarrow> att_code st \<le> 3 \<Longrightarrow> att_GetLength st att = Some (int (length (qs (StateIndex st))))"
  using queue_rep_length [OF att_linked_queue [OF att_rep_linked]] by (simp add: att_GetLength_def)

lemma att_GetFront_rep:
  "att_rep att qs \<Longrightarrow> att_code st < 3 \<Longrightarrow>
     att_GetFront st att = Some (hd_or (- EINVAL) (qs (StateIndex st)))"
  using queue_rep_Front [OF att_linked_queue [OF att_rep_linked]] by (simp add: att_GetFront_def)

lemma att_mask_eq:
  assumes "att_block_bits att \<le> 30" shows "att_block_mask att = mask (att_block_bits att)"
proof -
  have "(2 :: int) ^ att_block_bits att \<le> 2 ^ 30" using assms by (intro power_increasing) simp_all
  then have "int32 (2 ^ att_block_bits att) = 2 ^ att_block_bits att"
    by (intro int32_id) (simp_all add: order_trans [of _ 0])
  then show ?thesis
    by (simp add: att_block_mask_def att_block_size_def mask_eq_exp_minus_1)
qed

lemma att_Translate_eq:
  "att_block_bits att \<le> 30 \<Longrightarrow> aligned (att_block_bits att) b \<Longrightarrow>
     att_Translate p b att = Some (rebase (att_block_bits att) p b)"
  by (simp add: att_Translate_def att_mask_eq aligned_def rebase_def)

lemma att_ClearStats_rep:
  assumes rep: "att_rep att qs"
  shows "att_rep (snd (att_ClearStats pf att)) qs"
    and "0 \<le> i \<Longrightarrow> i < att_length att \<Longrightarrow>
      ent (snd (att_ClearStats pf att)) i = (ent att i)\<lparr>epoch_reads := 0, epoch_writes := 0\<rparr>"
    and "att_tag_index (snd (att_ClearStats pf att)) = att_tag_index att"
    and "att_length (snd (att_ClearStats pf att)) = att_length att"
    and "att_block_bits (snd (att_ClearStats pf att)) = att_block_bits att"
proof -
  let ?a = "snd (att_ClearStats pf att)"
  have e: "ent ?a i = (ent att i)\<lparr>epoch_reads := 0, epoch_writes := 0\<rparr>"
    if "0 \<le> i" "i < int (length (att_entries att))" for i
    using that by (simp add: att_ClearStats_def ent_def nat_less_iff)
  have at: "arr_at att_array (att_entries ?a) = arr_at att_array (att_entries att)"
    using e by (auto simp: fun_eq_iff att_array_at ent_def) (auto simp: att_ClearStats_def)
  have lk: "att_linked ?a qs {}"
    using att_rep_linked [OF rep] unfolding att_linked_def at by (simp add: att_ClearStats_def)
  have live: "att_live ?a qs i = att_live att qs i" for i
    by (simp add: att_live_def att_ClearStats_def)
  have "att_state (ent ?a i) = att_state (ent att i)" "phy_tag (ent ?a i) = phy_tag (ent att i)"
    if "att_live att qs i" for i
    using e att_live_range [OF rep that] by simp_all
  then show "att_rep ?a qs"
    using lk rep unfolding att_rep_def live by (auto simp: att_ClearStats_def)
  show "0 \<le> i \<Longrightarrow> i < att_length att \<Longrightarrow> ent ?a i = (ent att i)\<lparr>epoch_reads := 0, epoch_writes := 0\<rparr>"
    using e att_rep_length [OF rep] by simp
qed (simp_all add: att_ClearStats_def)

section \<open>The constructor\<close>

lemma att_init_free_linked:
  assumes "att_linked att qs (set is)" "distinct is"
  shows "\<exists>att'. att_init_free is att = Some att' \<and> same_payload att att' \<and>
    att_linked att' (qs(StateIndex FREE := qs (StateIndex FREE) @ is)) {}"
  using assms
proof (induction "is" arbitrary: att qs)
  case Nil
  then show ?case by simp
next
  case (Cons i "is")
  obtain a where a: "att_PushBack FREE i att = Some a" "same_payload att a"
      "att_linked a (qs(StateIndex FREE := qs (StateIndex FREE) @ [i])) (set (i # is) - {i})"
    using att_PushBack_linked [OF Cons.prems(1), of i FREE] by auto
  moreover have "set (i # is) - {i} = set is" using Cons.prems(2) by auto
  ultimately show ?case
    using Cons.IH [of a "qs(StateIndex FREE := qs (StateIndex FREE) @ [i])"] Cons.prems(2)
      same_payload_trans [of att a] by fastforce
qed

lemma AddrTransTable_init_rep:
  assumes "0 \<le> len"
  defines "qs \<equiv> (\<lambda>_. [])(StateIndex FREE := [0 .. len - 1])"
  shows "\<exists>att. AddrTransTable_init len bits raw = Some att \<and> att_rep att qs \<and>
    att_length att = len \<and> att_block_bits att = bits \<and> att_tag_index att = (\<lambda>_. None) \<and>
    (\<forall>i. 0 \<le> i \<and> i < len \<longrightarrow> payload1 (ent att i) = payload1 (ATTEntry_init (raw (nat i))))"
proof -
  let ?a = "\<lparr>att_length = len, att_block_bits = bits, att_tag_index = (\<lambda>_. None :: int option),
        att_entries = map (\<lambda>k. ATTEntry_init (raw k)) [0 ..< nat len],
        att_queues = replicate (att_code DIRTY + 1) IndexQueue_init\<rparr>"
  have L: "int (length (att_entries ?a)) = len" using assms(1) by simp
  have e: "ent ?a i = ATTEntry_init (raw (nat i))" if "0 \<le> i" "i < len" for i
    using that by (simp add: ent_def nat_less_iff)
  have "att_linked ?a (\<lambda>_. []) (set [0 .. len - 1])"
    using L e by (auto simp: att_linked_def queue_rep_init nth_append less_Suc_eq numeral_eq_Suc ATTEntry_init_def)
  from att_init_free_linked [OF this]
  obtain att where att: "AddrTransTable_init len bits raw = Some att" "same_payload ?a att" "att_linked att qs {}"
    by (auto simp: AddrTransTable_init_def qs_def)
  have f: "att_length att = len" "att_block_bits att = bits" "att_tag_index att = (\<lambda>_. None)"
      "length (att_entries att) = nat len"
    using att(2) same_payload_length [OF att(2)] by (simp_all add: same_payload_def)
  have "\<not> att_live att qs i" for i by (auto simp: att_live_def qs_def f)
  then have "att_rep att qs" using att(3) f assms(1) by (simp add: att_rep_def)
  moreover have "payload1 (ent att i) = payload1 (ATTEntry_init (raw (nat i)))" if "0 \<le> i" "i < len" for i
    using same_payload_effect [OF att(2), of i] that e [OF that] L by (simp add: att_effect_def)
  ultimately show ?thesis using att(1) f by blast
qed

end
