(* ===== verification/Std_Heap.thy ===== *)
theory Std_Heap
  imports Prelude "HOL-Library.Multiset"
begin

text \<open>
  The standard-library heap algorithms \<open>std::make_heap\<close> and \<open>std::pop_heap\<close> that
  \<open>src/migration_controller.cc\<close> orders pages with, on lists and an arbitrary comparison \<open>lt\<close>. The
  hole is moved down to a leaf along the larger children, then the value is pushed up again, as the
  usual library implementation does. \<open>pop_max\<close> is the source's idiom \<open>front\<close>, \<open>pop_heap\<close>, \<open>pop_back\<close>.
\<close>

function heap_down :: "('a \<Rightarrow> 'a \<Rightarrow> bool) \<Rightarrow> nat \<Rightarrow> nat \<Rightarrow> 'a list \<Rightarrow> nat \<times> 'a list" where
  "heap_down lt len hole xs =
     (if hole < (len - 1) div 2 then
        let c = 2 * (hole + 1);
            c = (if lt (xs ! c) (xs ! (c - 1)) then c - 1 else c)
        in heap_down lt len c (xs[hole := xs ! c])
      else if 2 \<le> len \<and> even len \<and> hole = (len - 2) div 2 then
        (2 * hole + 1, xs[hole := xs ! (2 * hole + 1)])
      else (hole, xs))"
  by pat_completeness auto
termination
  by (relation "measure (\<lambda>(lt, len, hole, xs). len - hole)") (auto simp: Let_def)

function heap_up :: "('a \<Rightarrow> 'a \<Rightarrow> bool) \<Rightarrow> nat \<Rightarrow> nat \<Rightarrow> 'a \<Rightarrow> 'a list \<Rightarrow> 'a list" where
  "heap_up lt root hole v xs =
     (if root < hole \<and> lt (xs ! ((hole - 1) div 2)) v
      then heap_up lt root ((hole - 1) div 2) v (xs[hole := xs ! ((hole - 1) div 2)])
      else xs[hole := v])"
  by pat_completeness auto
termination
  by (relation "measure (\<lambda>(lt, root, hole, v, xs). hole)") auto

declare heap_down.simps [simp del] heap_up.simps [simp del]

definition adjust_heap :: "('a \<Rightarrow> 'a \<Rightarrow> bool) \<Rightarrow> nat \<Rightarrow> nat \<Rightarrow> 'a \<Rightarrow> 'a list \<Rightarrow> 'a list" where
  "adjust_heap lt root len v xs =
     (case heap_down lt len root xs of (hole, ys) \<Rightarrow> heap_up lt root hole v ys)"

fun make_heap_from :: "('a \<Rightarrow> 'a \<Rightarrow> bool) \<Rightarrow> nat \<Rightarrow> 'a list \<Rightarrow> 'a list" where
  "make_heap_from lt 0 xs = adjust_heap lt 0 (length xs) (xs ! 0) xs"
| "make_heap_from lt (Suc parent) xs =
     make_heap_from lt parent (adjust_heap lt (Suc parent) (length xs) (xs ! Suc parent) xs)"

definition make_heap :: "('a \<Rightarrow> 'a \<Rightarrow> bool) \<Rightarrow> 'a list \<Rightarrow> 'a list" where
  "make_heap lt xs =
     (if length xs < 2 then xs else make_heap_from lt ((length xs - 2) div 2) xs)"

definition pop_heap :: "('a \<Rightarrow> 'a \<Rightarrow> bool) \<Rightarrow> 'a list \<Rightarrow> 'a list" where
  "pop_heap lt xs =
     (if 1 < length xs
      then (let v = last xs; n = length xs - 1; ys = xs[n := xs ! 0] in adjust_heap lt 0 n v ys)
      else xs)"

definition pop_max :: "('a \<Rightarrow> 'a \<Rightarrow> bool) \<Rightarrow> 'a list \<Rightarrow> ('a \<times> 'a list) option" where
  "pop_max lt xs = (if xs = [] then None else Some (xs ! 0, butlast (pop_heap lt xs)))"

section \<open>Correctness\<close>

text \<open>
  \<open>heap_from lt lo n xs\<close>: in the first \<open>n\<close> elements no child is larger than its parent, for parents at
  \<open>lo\<close> and beyond.
\<close>

definition heap_from :: "('a \<Rightarrow> 'a \<Rightarrow> bool) \<Rightarrow> nat \<Rightarrow> nat \<Rightarrow> 'a list \<Rightarrow> bool" where
  "heap_from lt lo n xs \<longleftrightarrow>
     (\<forall>c. 0 < c \<and> c < n \<and> lo \<le> (c - 1) div 2 \<longrightarrow> \<not> lt (xs ! ((c - 1) div 2)) (xs ! c))"

abbreviation is_heap :: "('a \<Rightarrow> 'a \<Rightarrow> bool) \<Rightarrow> 'a list \<Rightarrow> bool" where
  "is_heap lt xs \<equiv> heap_from lt 0 (length xs) xs"

lemma parent_less: "0 < c \<Longrightarrow> (c - 1) div 2 < (c :: nat)"
  by linarith

text \<open>The contract of a comparison: a strict weak order.\<close>

locale weak_order =
  fixes lt :: "'a \<Rightarrow> 'a \<Rightarrow> bool"
  assumes irrefl: "\<not> lt x x"
    and neg_trans: "\<not> lt x y \<Longrightarrow> \<not> lt y z \<Longrightarrow> \<not> lt x z"
    and asym: "lt x y \<Longrightarrow> \<not> lt y x"
begin

text \<open>
  Both loops keep the array a heap up to the hole \<open>h\<close>: every pair is ordered except those that involve
  the hole, and the hole's children are not larger than its parent.
\<close>

definition holed :: "nat \<Rightarrow> nat \<Rightarrow> nat \<Rightarrow> 'a list \<Rightarrow> bool" where
  "holed lo n h xs \<longleftrightarrow>
     (\<forall>c. 0 < c \<and> c < n \<and> lo \<le> (c - 1) div 2 \<and> c \<noteq> h \<and> (c - 1) div 2 \<noteq> h \<longrightarrow>
        \<not> lt (xs ! ((c - 1) div 2)) (xs ! c)) \<and>
     (\<forall>c. 0 < c \<and> c < n \<and> (c - 1) div 2 = h \<and> 0 < h \<and> lo \<le> (h - 1) div 2 \<longrightarrow>
        \<not> lt (xs ! ((h - 1) div 2)) (xs ! c))"

lemma holed_pair:
  "holed lo n h xs \<Longrightarrow> 0 < c \<Longrightarrow> c < n \<Longrightarrow> lo \<le> (c - 1) div 2 \<Longrightarrow> c \<noteq> h \<Longrightarrow> (c - 1) div 2 \<noteq> h \<Longrightarrow>
     \<not> lt (xs ! ((c - 1) div 2)) (xs ! c)"
  by (simp add: holed_def)

lemma holed_skip:
  "holed lo n h xs \<Longrightarrow> 0 < c \<Longrightarrow> c < n \<Longrightarrow> (c - 1) div 2 = h \<Longrightarrow> 0 < h \<Longrightarrow> lo \<le> (h - 1) div 2 \<Longrightarrow>
     \<not> lt (xs ! ((h - 1) div 2)) (xs ! c)"
  by (simp add: holed_def)

lemma holed_start: "heap_from lt (Suc lo) n xs \<Longrightarrow> holed lo n lo xs"
  unfolding holed_def heap_from_def by auto

text \<open>One step down: the larger child \<open>c\<close> moves up into the hole.\<close>

lemma holed_down:
  assumes hd: "holed lo n h xs" and c: "c < n" "(c - 1) div 2 = h" "0 < c" and n: "n \<le> length xs"
    and lo: "lo \<le> h"
    and big: "\<And>d. 0 < d \<Longrightarrow> d < n \<Longrightarrow> (d - 1) div 2 = h \<Longrightarrow> \<not> lt (xs ! c) (xs ! d)"
  shows "holed lo n c (xs[h := xs ! c])"
proof -
  have hc: "h < c" using c by auto
  have len: "h < length xs" using hc c n by simp
  show ?thesis
    unfolding holed_def
  proof (intro conjI allI impI)
    fix d
    assume d: "0 < d \<and> d < n \<and> lo \<le> (d - 1) div 2 \<and> d \<noteq> c \<and> (d - 1) div 2 \<noteq> c"
    let ?p = "(d - 1) div 2"
    have pd: "?p < d" using d by auto
    consider "d = h" | "?p = h" | "d \<noteq> h" "?p \<noteq> h" by blast
    then show "\<not> lt (xs[h := xs ! c] ! ?p) (xs[h := xs ! c] ! d)"
    proof cases
      case 1
      then show ?thesis using holed_skip [OF hd c(3,1,2)] d pd len by (simp add: nth_list_update)
    next
      case 2
      then show ?thesis using big d pd len by (simp add: nth_list_update)
    next
      case 3
      then show ?thesis using holed_pair [OF hd] d len by (simp add: nth_list_update)
    qed
  next
    fix d
    assume d: "0 < d \<and> d < n \<and> (d - 1) div 2 = c \<and> 0 < c \<and> lo \<le> (c - 1) div 2"
    then have "d \<noteq> h" "c \<noteq> h" using hc by auto
    then show "\<not> lt (xs[h := xs ! c] ! ((c - 1) div 2)) (xs[h := xs ! c] ! d)"
      using holed_pair [OF hd, of d] d c len lo hc by (simp add: nth_list_update)
  qed
qed

text \<open>One step up: the parent moves down into the hole.\<close>

lemma holed_up:
  assumes hd: "holed lo n h xs" and h: "h < n" "0 < h" "lo \<le> (h - 1) div 2" and n: "n \<le> length xs"
    and v: "\<And>d. 0 < d \<Longrightarrow> d < n \<Longrightarrow> (d - 1) div 2 = h \<Longrightarrow> \<not> lt v (xs ! d)"
    and up: "lt (xs ! ((h - 1) div 2)) v"
  defines "p \<equiv> (h - 1) div 2"
  shows "holed lo n p (xs[h := xs ! p])"
    and "0 < d \<Longrightarrow> d < n \<Longrightarrow> (d - 1) div 2 = p \<Longrightarrow> \<not> lt v (xs[h := xs ! p] ! d)"
proof -
  have ph: "p < h" using h by (auto simp: p_def)
  have len: "h < length xs" using h n by simp
  have sib: "\<not> lt (xs ! p) (xs ! d)" if "0 < d" "d < n" "(d - 1) div 2 = p" "d \<noteq> h" for d
    using holed_pair [OF hd that(1,2)] that h ph by (simp add: p_def)
  show "\<not> lt v (xs[h := xs ! p] ! d)" if "0 < d" "d < n" "(d - 1) div 2 = p" for d
  proof (cases "d = h")
    case True
    then show ?thesis using asym [OF up] len by (simp add: p_def)
  next
    case False
    then show ?thesis using neg_trans [OF asym [OF up], of "xs ! d"] sib [OF that] by (simp add: p_def)
  qed
  show "holed lo n p (xs[h := xs ! p])"
    unfolding holed_def
  proof (intro conjI allI impI)
    fix d
    assume d: "0 < d \<and> d < n \<and> lo \<le> (d - 1) div 2 \<and> d \<noteq> p \<and> (d - 1) div 2 \<noteq> p"
    let ?q = "(d - 1) div 2"
    have qd: "?q < d" using d by auto
    have dh: "d \<noteq> h" using d by (auto simp: p_def)
    show "\<not> lt (xs[h := xs ! p] ! ?q) (xs[h := xs ! p] ! d)"
    proof (cases "?q = h")
      case True
      then show ?thesis using holed_skip [OF hd, of d] d h len dh qd by (simp add: p_def nth_list_update)
    next
      case False
      then show ?thesis using holed_pair [OF hd, of d] d len dh by (simp add: nth_list_update)
    qed
  next
    fix d
    assume d: "0 < d \<and> d < n \<and> (d - 1) div 2 = p \<and> 0 < p \<and> lo \<le> (p - 1) div 2"
    let ?q = "(p - 1) div 2"
    have qp: "?q < p" by (rule parent_less) (use d in blast)
    have gp: "\<not> lt (xs ! ?q) (xs ! p)" using holed_pair [OF hd, of p] d ph h qp by simp
    show "\<not> lt (xs[h := xs ! p] ! ?q) (xs[h := xs ! p] ! d)"
    proof (cases "d = h")
      case True
      then show ?thesis using gp len qp ph by (simp add: nth_list_update)
    next
      case False
      then show ?thesis using neg_trans [OF gp sib [of d]] d len qp ph by (simp add: nth_list_update)
    qed
  qed
qed

lemma holed_fill:
  assumes hd: "holed lo n h xs" and h: "h < n" and n: "n \<le> length xs"
    and v: "\<And>d. 0 < d \<Longrightarrow> d < n \<Longrightarrow> (d - 1) div 2 = h \<Longrightarrow> \<not> lt v (xs ! d)"
    and up: "0 < h \<Longrightarrow> lo \<le> (h - 1) div 2 \<Longrightarrow> \<not> lt (xs ! ((h - 1) div 2)) v"
  shows "heap_from lt lo n (xs[h := v])"
  unfolding heap_from_def
proof (intro allI impI)
  fix c
  assume c: "0 < c \<and> c < n \<and> lo \<le> (c - 1) div 2"
  have "(c - 1) div 2 < c" using c by auto
  then show "\<not> lt (xs[h := v] ! ((c - 1) div 2)) (xs[h := v] ! c)"
    using c h n up v [of c] holed_pair [OF hd, of c] by (cases "c = h"; cases "(c - 1) div 2 = h") auto
qed

text \<open>Where the hole can be: at \<open>lo\<close> or below it in the tree.\<close>

inductive below :: "nat \<Rightarrow> nat \<Rightarrow> bool" for lo where
  here: "below lo lo"
| child: "below lo h \<Longrightarrow> 0 < c \<Longrightarrow> (c - 1) div 2 = h \<Longrightarrow> below lo c"

lemma below_le: "below lo h \<Longrightarrow> lo \<le> h"
  by (induction rule: below.induct) (auto dest: parent_less)

lemma below_up: "below lo h \<Longrightarrow> lo < h \<Longrightarrow> below lo ((h - 1) div 2)"
  by (cases rule: below.cases) auto

lemma mset_move_hole:
  assumes "h < length xs" "c < length xs" "h \<noteq> c"
  shows "mset ((xs[h := xs ! c])[c := v]) = mset (xs[h := v])"
proof -
  have "(xs[h := v])[h := xs[h := v] ! c, c := xs[h := v] ! h] = (xs[h := xs ! c])[c := v]"
    using assms by simp
  moreover have "mset ((xs[h := v])[h := xs[h := v] ! c, c := xs[h := v] ! h]) = mset (xs[h := v])"
    using assms by (intro mset_swap) simp_all
  ultimately show ?thesis by simp
qed

text \<open>The choice of the larger child.\<close>

lemma larger_child:
  fixes xs :: "'a list"
  assumes "2 * h + 2 < n"
  defines "c \<equiv> (if lt (xs ! (2 * h + 2)) (xs ! (2 * h + 1)) then 2 * h + 1 else 2 * h + 2)"
  shows "c < n" "(c - 1) div 2 = h" "0 < c"
    and "0 < d \<Longrightarrow> d < n \<Longrightarrow> (d - 1) div 2 = h \<Longrightarrow> \<not> lt (xs ! c) (xs ! d)"
proof -
  show "c < n" "(c - 1) div 2 = h" "0 < c" using assms by (auto simp: c_def)
  assume "0 < d" "d < n" "(d - 1) div 2 = h"
  then have "d = 2 * h + 1 \<or> d = 2 * h + 2" by linarith
  then show "\<not> lt (xs ! c) (xs ! d)" using irrefl asym by (auto simp: c_def)
qed

lemma heap_down_spec:
  assumes "holed lo n h xs" "h < n" "n \<le> length xs" "below lo h"
  shows "\<exists>h' ys. heap_down lt n h xs = (h', ys) \<and> holed lo n h' ys \<and> h' < n \<and>
    length ys = length xs \<and> below lo h' \<and> n \<le> 2 * h' + 1 \<and>
    (\<forall>v. mset (ys[h' := v]) = mset (xs[h := v])) \<and> (\<forall>i \<ge> n. ys ! i = xs ! i)"
  using assms
proof (induction "n - h" arbitrary: h xs rule: less_induct)
  case less
  note hd = less.prems
  have step: "\<exists>h' ys. heap_down lt n c (xs[h := xs ! c]) = (h', ys) \<and> holed lo n h' ys \<and> h' < n \<and>
      length ys = length xs \<and> below lo h' \<and> n \<le> 2 * h' + 1 \<and>
      (\<forall>v. mset (ys[h' := v]) = mset (xs[h := v])) \<and> (\<forall>i \<ge> n. ys ! i = xs ! i)"
    if c: "c < n" "(c - 1) div 2 = h" "0 < c"
      and big: "\<And>d. 0 < d \<Longrightarrow> d < n \<Longrightarrow> (d - 1) div 2 = h \<Longrightarrow> \<not> lt (xs ! c) (xs ! d)" for c
  proof -
    have hc: "h < c" using parent_less [OF c(3)] c(2) by simp
    have "holed lo n c (xs[h := xs ! c])"
      by (rule holed_down [OF hd(1) c hd(3) below_le [OF hd(4)] big])
    moreover have "below lo c" by (rule below.child [OF hd(4) c(3,2)])
    ultimately have ih: "\<exists>h' ys. heap_down lt n c (xs[h := xs ! c]) = (h', ys) \<and> holed lo n h' ys \<and> h' < n \<and>
        length ys = length (xs[h := xs ! c]) \<and> below lo h' \<and> n \<le> 2 * h' + 1 \<and>
        (\<forall>v. mset (ys[h' := v]) = mset ((xs[h := xs ! c])[c := v])) \<and>
        (\<forall>i \<ge> n. ys ! i = xs[h := xs ! c] ! i)"
      using hc c hd by (intro less.hyps) simp_all
    have "mset ((xs[h := xs ! c])[c := v]) = mset (xs[h := v])" for v
      using hc c hd by (intro mset_move_hole) simp_all
    moreover have "xs[h := xs ! c] ! i = xs ! i" if "n \<le> i" for i using hd that by simp
    ultimately show ?thesis using ih by simp
  qed
  show ?case
  proof (cases "h < (n - 1) div 2")
    case True
    define c where "c = (if lt (xs ! (2 * h + 2)) (xs ! (2 * h + 1)) then 2 * h + 1 else 2 * h + 2)"
    have n2: "2 * h + 2 < n" using True by linarith
    have "heap_down lt n h xs = heap_down lt n c (xs[h := xs ! c])"
      using True by (subst heap_down.simps) (simp add: c_def Let_def)
    then show ?thesis using step [of c] larger_child [OF n2, where xs = xs] unfolding c_def [symmetric] by simp
  next
    case False
    show ?thesis
    proof (cases "2 \<le> n \<and> even n \<and> h = (n - 2) div 2")
      case True
      define c where "c = 2 * h + 1"
      have c: "c < n" "(c - 1) div 2 = h" "0 < c" "n = c + 1" using True by (auto simp: c_def)
      have leaf: "heap_down lt n c ys = (c, ys)" for ys
        using c by (subst heap_down.simps) auto
      have "heap_down lt n h xs = heap_down lt n c (xs[h := xs ! c])"
        using False True by (subst heap_down.simps) (simp add: leaf, simp add: c_def)
      moreover have "\<not> lt (xs ! c) (xs ! d)" if "0 < d" "d < n" "(d - 1) div 2 = h" for d
      proof -
        have "d = c" using that c by (simp add: c_def)
        then show ?thesis using irrefl by simp
      qed
      ultimately show ?thesis using step [OF c(1-3)] by simp
    next
      case no: False
      have "n \<le> 2 * h + 1"
      proof (rule ccontr)
        assume "\<not> n \<le> 2 * h + 1"
        then have "n = 2 * h + 2" using False by linarith
        then show False using no by simp
      qed
      moreover have "heap_down lt n h xs = (h, xs)" using False no by (subst heap_down.simps) auto
      ultimately show ?thesis using hd by simp
    qed
  qed
qed

lemma heap_up_spec:
  assumes "holed lo n h xs" "h < n" "n \<le> length xs" "below lo h"
    and "\<And>d. 0 < d \<Longrightarrow> d < n \<Longrightarrow> (d - 1) div 2 = h \<Longrightarrow> \<not> lt v (xs ! d)"
  shows "heap_from lt lo n (heap_up lt lo h v xs) \<and> mset (heap_up lt lo h v xs) = mset (xs[h := v]) \<and>
    (\<forall>i \<ge> n. heap_up lt lo h v xs ! i = xs ! i) \<and> length (heap_up lt lo h v xs) = length xs"
  using assms
proof (induction h arbitrary: xs rule: less_induct)
  case (less h)
  note hd = less.prems
  let ?p = "(h - 1) div 2"
  show ?case
  proof (cases "lo < h \<and> lt (xs ! ?p) v")
    case True
    then have ph: "?p < h" using parent_less [of h] by simp
    have bl: "below lo ?p" using below_up hd(4) True by blast
    have h0: "0 < h" using True by simp
    have ih: "heap_from lt lo n (heap_up lt lo ?p v (xs[h := xs ! ?p])) \<and>
        mset (heap_up lt lo ?p v (xs[h := xs ! ?p])) = mset ((xs[h := xs ! ?p])[?p := v]) \<and>
        (\<forall>i \<ge> n. heap_up lt lo ?p v (xs[h := xs ! ?p]) ! i = xs[h := xs ! ?p] ! i) \<and>
        length (heap_up lt lo ?p v (xs[h := xs ! ?p])) = length (xs[h := xs ! ?p])"
      by (rule less.IH [OF ph holed_up(1) [OF hd(1,2) h0 below_le [OF bl] hd(3,5)] _ _ bl
            holed_up(2) [OF hd(1,2) h0 below_le [OF bl] hd(3,5)]])
        (use True hd ph in auto)
    have "mset ((xs[h := xs ! ?p])[?p := v]) = mset (xs[h := v])"
      using ph hd by (intro mset_move_hole) simp_all
    moreover have "heap_up lt lo h v xs = heap_up lt lo ?p v (xs[h := xs ! ?p])"
      using True by (subst heap_up.simps) simp
    ultimately show ?thesis using ih hd by simp
  next
    case False
    have "\<not> lt (xs ! ?p) v" if "0 < h" "lo \<le> ?p"
      using False that parent_less [OF that(1)] by auto
    then have "heap_from lt lo n (xs[h := v])"
      using holed_fill [OF hd(1,2,3,5)] by blast
    moreover have "heap_up lt lo h v xs = xs[h := v]" using False by (subst heap_up.simps) auto
    ultimately show ?thesis using hd by simp
  qed
qed

lemma adjust_heap_spec:
  assumes "heap_from lt (Suc lo) n xs" "lo < n" "n \<le> length xs"
  shows "heap_from lt lo n (adjust_heap lt lo n v xs)"
    "mset (adjust_heap lt lo n v xs) = mset (xs[lo := v])"
    "length (adjust_heap lt lo n v xs) = length xs"
    "n \<le> i \<Longrightarrow> adjust_heap lt lo n v xs ! i = xs ! i"
proof -
  obtain h ys where d: "heap_down lt n lo xs = (h, ys)" "holed lo n h ys" "h < n" "length ys = length xs"
      "below lo h" "n \<le> 2 * h + 1" "\<forall>v. mset (ys[h := v]) = mset (xs[lo := v])" "\<forall>i \<ge> n. ys ! i = xs ! i"
    using heap_down_spec [OF holed_start [OF assms(1)] assms(2,3) below.here] by blast
  have no: "\<not> lt v (ys ! c)" if "0 < c" "c < n" "(c - 1) div 2 = h" for c
    using that d(6) by linarith
  show "heap_from lt lo n (adjust_heap lt lo n v xs)"
    "mset (adjust_heap lt lo n v xs) = mset (xs[lo := v])"
    "length (adjust_heap lt lo n v xs) = length xs"
    "n \<le> i \<Longrightarrow> adjust_heap lt lo n v xs ! i = xs ! i"
    using heap_up_spec [OF d(2,3) _ d(5) no] d assms(3) by (simp_all add: adjust_heap_def)
qed

lemma make_heap_from_spec:
  assumes "heap_from lt (Suc parent) (length xs) xs" "parent < length xs"
  shows "is_heap lt (make_heap_from lt parent xs) \<and> mset (make_heap_from lt parent xs) = mset xs"
  using assms
proof (induction parent arbitrary: xs)
  case 0
  then show ?case using adjust_heap_spec [of 0 "length xs" xs] by simp
next
  case (Suc parent)
  define ys where "ys = adjust_heap lt (Suc parent) (length xs) (xs ! Suc parent) xs"
  have sp: "heap_from lt (Suc parent) (length xs) ys" "mset ys = mset xs" "length ys = length xs"
    using adjust_heap_spec(1-3) [OF Suc.prems order_refl, of "xs ! Suc parent"] by (simp_all add: ys_def)
  have "is_heap lt (make_heap_from lt parent ys) \<and> mset (make_heap_from lt parent ys) = mset ys"
    by (rule Suc.IH) (use sp Suc.prems in simp_all)
  then show ?case using sp(2) by (simp add: ys_def)
qed

theorem make_heap_spec: "is_heap lt (make_heap lt xs)" "mset (make_heap lt xs) = mset xs"
proof -
  have "heap_from lt (Suc ((length xs - 2) div 2)) (length xs) xs"
    unfolding heap_from_def by auto
  then show "is_heap lt (make_heap lt xs)" "mset (make_heap lt xs) = mset xs"
    using make_heap_from_spec [of "(length xs - 2) div 2" xs]
    by (auto simp: make_heap_def heap_from_def)
qed

lemma heap_front_max:
  assumes "is_heap lt xs" "i < length xs" shows "\<not> lt (xs ! 0) (xs ! i)"
  using assms(2)
proof (induction i rule: less_induct)
  case (less i)
  show ?case
  proof (cases "i = 0")
    case True
    then show ?thesis by (simp add: irrefl)
  next
    case False
    then have "(i - 1) div 2 < i" by (intro parent_less) simp
    then have "\<not> lt (xs ! 0) (xs ! ((i - 1) div 2))" using less by simp
    moreover have "\<not> lt (xs ! ((i - 1) div 2)) (xs ! i)"
      using assms(1) less.prems False by (simp add: heap_from_def)
    ultimately show ?thesis by (rule neg_trans)
  qed
qed

text \<open>Extraction: the front is a maximum, the rest is a heap of the other elements.\<close>

theorem pop_max_spec:
  assumes heap: "is_heap lt xs" and ne: "xs \<noteq> []"
  shows "\<exists>x ys. pop_max lt xs = Some (x, ys) \<and> mset xs = add_mset x (mset ys) \<and> is_heap lt ys \<and>
    (\<forall>y \<in> set ys. \<not> lt x y)"
proof -
  let ?n = "length xs - 1" and ?ys = "butlast (pop_heap lt xs)"
  have max: "\<not> lt (xs ! 0) y" if "y \<in> set xs" for y
    using that heap_front_max [OF heap] by (auto simp: in_set_conv_nth)
  have key: "mset xs = add_mset (xs ! 0) (mset ?ys) \<and> is_heap lt ?ys"
  proof (cases "1 < length xs")
    case False
    then obtain x where "xs = [x]" using ne by (cases xs; cases "tl xs") auto
    then show ?thesis by (simp add: pop_heap_def heap_from_def)
  next
    case True
    let ?zs = "xs[?n := xs ! 0]" and ?as = "adjust_heap lt 0 ?n (last xs) (xs[?n := xs ! 0])"
    have h1: "heap_from lt (Suc 0) ?n ?zs"
      using heap True unfolding heap_from_def by (auto simp: nth_list_update)
    note sp = adjust_heap_spec [OF h1, where v = "last xs"]
    have ph: "pop_heap lt xs = ?as" using True by (simp add: pop_heap_def Let_def)
    have len: "length ?as = Suc ?n" using sp(3) True by simp
    have lst: "last ?as = xs ! 0"
      using sp(4) [of ?n] len True by (subst last_conv_nth) (auto simp del: length_0_conv)
    have "mset ?as = mset (?zs[0 := last xs])" using sp(2) True by simp
    also have "\<dots> = mset (xs[?n := last xs])"
      using mset_move_hole [of ?n xs 0 "last xs"] True ne by simp
    also have "\<dots> = mset xs" using ne by (simp add: last_conv_nth)
    finally have ms: "mset ?as = mset xs" .
    have "?as = ?ys @ [xs ! 0]"
      using append_butlast_last_id [of ?as] len lst ph by (metis length_0_conv nat.distinct(1))
    then have "mset ?as = mset ?ys + mset [xs ! 0]" by (metis mset_append)
    then have "mset xs = add_mset (xs ! 0) (mset ?ys)" using ms by simp
    moreover have "is_heap lt ?ys"
      using sp(1) True len unfolding ph heap_from_def by (auto simp: nth_butlast)
    ultimately show ?thesis by simp
  qed
  have "set ?ys \<subseteq> set xs"
    using key by (metis set_mset_mset set_mset_add_mset_insert subset_insertI)
  then show ?thesis using key max ne by (auto simp: pop_max_def)
qed

end

end
