(* ===== verification/Migration.thy ===== *)
theory Migration
  imports Addr_Trans_Table Std_Heap Complex_Main "HOL-Library.AList"
begin

text \<open>
  The page table of \<open>src/migration_controller.h\<close> and \<open>src/migration_controller.cc\<close>: which pages live in
  DRAM, in which of the \<open>ptt_capacity\<close> page slots, and the two heaps that order pages for migration.

  The hash tables \<open>entries_\<close> and \<open>nvm_pages_\<close> are association lists in iteration order; no theorem depends
  on that order. A \<open>double\<close> is a \<open>rat\<close>: the two ratios are small integers divided by a power of two, which
  \<open>double\<close> represents exactly. The members that the constructor of \<open>PTTEntry\<close> leaves indeterminate are
  \<open>undefined\<close>. \<open>nvm_pages_[k]\<close> value-initialises a new page, so its counters start at zero.
\<close>

section \<open>The data\<close>

datatype PTTState = CLEAN_DIRECT | CLEAN_STATIC | DIRTY_DIRECT | DIRTY_STATIC

primrec ptt_code :: "PTTState \<Rightarrow> nat" where
  "ptt_code CLEAN_DIRECT = 0"
| "ptt_code CLEAN_STATIC = 1"
| "ptt_code DIRTY_DIRECT = 2"
| "ptt_code DIRTY_STATIC = 3"

definition ptt_state_strings :: "string list" where
  "ptt_state_strings = [''CLEAN_DIRECT'', ''CLEAN_STATIC'', ''DIRTY_DIRECT'', ''DIRTY_STATIC'']"

definition ptt_StateString :: "PTTState \<Rightarrow> string" where
  "ptt_StateString st = ptt_state_strings ! ptt_code st"

record PTTEntry =
  pt_state :: PTTState
  pt_epoch_reads :: int
  pt_epoch_writes :: int
  pt_index :: int
  pt_mach_base :: Addr

definition PTTEntry_init :: PTTEntry where
  "PTTEntry_init =
     \<lparr>pt_state = undefined, pt_epoch_reads = 0, pt_epoch_writes = 0, pt_index = - EINVAL,
      pt_mach_base = undefined\<rparr>"

record DRAMPageStats =
  dp_phy_addr :: Addr
  dp_state :: PTTState
  dp_write_ratio :: rat

definition dram_less :: "DRAMPageStats \<Rightarrow> DRAMPageStats \<Rightarrow> bool" where
  "dram_less a p \<longleftrightarrow>
     (if dp_state a = dp_state p then dp_write_ratio a > dp_write_ratio p
      else ptt_code (dp_state a) > ptt_code (dp_state p))"

record NVMPageStats =
  np_phy_addr :: Addr
  np_dirty_ratio :: rat
  np_write_ratio :: rat

definition nvm_less :: "NVMPageStats \<Rightarrow> NVMPageStats \<Rightarrow> bool" where
  "nvm_less a p \<longleftrightarrow> np_dirty_ratio a < np_dirty_ratio p"

record NVMPage =
  page_epoch_reads :: int
  page_epoch_writes :: int
  page_block_set :: "Addr set"

definition NVMPage_init :: NVMPage where
  "NVMPage_init = \<lparr>page_epoch_reads = 0, page_epoch_writes = 0, page_block_set = {}\<rparr>"

record MigrationController =
  mc_block_bits :: nat
  mc_page_bits :: nat
  mc_ptt_length :: int
  mc_ptt_capacity :: int
  mc_dirty_entries :: int
  mc_total_nvm_writes :: "64 word"
  mc_total_dram_writes :: "64 word"
  mc_dirty_nvm_blocks :: "64 word"
  mc_dirty_nvm_pages :: "64 word"
  mc_dirty_dram_pages :: "64 word"
  mc_free_slots :: "int list"
  mc_entries :: "(Addr \<times> PTTEntry) list"
  mc_nvm_pages :: "(Addr \<times> NVMPage) list"
  mc_dram_heap :: "DRAMPageStats list"
  mc_nvm_heap :: "NVMPageStats list"
  mc_dram_heap_filled :: bool
  mc_nvm_heap_filled :: bool

section \<open>The operations\<close>

definition mc_page_size :: "MigrationController \<Rightarrow> int" where
  "mc_page_size mc = int32 (2 ^ mc_page_bits mc)"

definition mc_page_blocks :: "MigrationController \<Rightarrow> int" where
  "mc_page_blocks mc = int32 (2 ^ (mc_page_bits mc - mc_block_bits mc))"

definition mc_page_mask :: "MigrationController \<Rightarrow> Addr" where
  "mc_page_mask mc = word_of_int (mc_page_size mc - 1)"

definition mc_block_mask :: "MigrationController \<Rightarrow> Addr" where
  "mc_block_mask mc = word_of_int (int32 (2 ^ mc_block_bits mc) - 1)"

definition mc_PageAlign :: "Addr \<Rightarrow> MigrationController \<Rightarrow> Addr" where
  "mc_PageAlign addr mc = addr AND NOT (mc_page_mask mc)"

definition mc_BlockAlign :: "Addr \<Rightarrow> MigrationController \<Rightarrow> Addr" where
  "mc_BlockAlign addr mc = addr AND NOT (mc_block_mask mc)"

definition mc_dram_capacity :: "MigrationController \<Rightarrow> 64 word" where
  "mc_dram_capacity mc = word_of_int (int32 (mc_ptt_capacity mc * 2 ^ mc_page_bits mc))"

definition mc_num_entries :: "MigrationController \<Rightarrow> int" where
  "mc_num_entries mc = int (length (mc_entries mc))"

definition mc_slots_balanced :: "MigrationController \<Rightarrow> bool" where
  "mc_slots_balanced mc \<longleftrightarrow>
     int (length (mc_free_slots mc) + length (mc_entries mc)) = mc_ptt_capacity mc"

definition MigrationController_init :: "nat \<Rightarrow> nat \<Rightarrow> int \<Rightarrow> MigrationController option" where
  "MigrationController_init block_bits page_bits ptt_length = do {
     let capacity = ptt_length + ptt_length div 16;
     let mc = \<lparr>mc_block_bits = block_bits, mc_page_bits = page_bits, mc_ptt_length = ptt_length,
        mc_ptt_capacity = capacity, mc_dirty_entries = 0, mc_total_nvm_writes = 0,
        mc_total_dram_writes = 0, mc_dirty_nvm_blocks = 0, mc_dirty_nvm_pages = 0,
        mc_dirty_dram_pages = 0, mc_free_slots = [0 .. capacity - 1], mc_entries = [],
        mc_nvm_pages = [], mc_dram_heap = [], mc_nvm_heap = [], mc_dram_heap_filled = False,
        mc_nvm_heap_filled = False\<rparr>;
     cassert (mc_slots_balanced mc);
     Some mc }"

definition mc_find :: "Addr \<Rightarrow> MigrationController \<Rightarrow> PTTEntry option" where
  "mc_find page mc = map_of (mc_entries mc) page"

definition mc_LookupPage :: "Addr \<Rightarrow> Profiler \<Rightarrow> MigrationController \<Rightarrow> PTTEntry \<times> Profiler" where
  "mc_LookupPage phy_addr pf mc =
     (case mc_find (mc_PageAlign phy_addr mc) mc of None \<Rightarrow> PTTEntry_init | Some e \<Rightarrow> e, pf_AddTableOp pf)"

definition mc_Contains :: "Addr \<Rightarrow> MigrationController \<Rightarrow> bool" where
  "mc_Contains phy_addr mc \<longleftrightarrow> mc_find (mc_PageAlign phy_addr mc) mc \<noteq> None"

definition mc_map_entry :: "Addr \<Rightarrow> (PTTEntry \<Rightarrow> PTTEntry) \<Rightarrow> MigrationController \<Rightarrow> MigrationController" where
  "mc_map_entry page f mc = mc\<lparr>mc_entries := AList.map_entry page f (mc_entries mc)\<rparr>"

definition mc_AddDRAMPageRead :: "Addr \<Rightarrow> MigrationController \<Rightarrow> MigrationController option" where
  "mc_AddDRAMPageRead phy_addr mc = do {
     cassert (mc_find (mc_PageAlign phy_addr mc) mc \<noteq> None);
     Some (mc_map_entry (mc_PageAlign phy_addr mc) (\<lambda>e. e\<lparr>pt_epoch_reads := pt_epoch_reads e + 1\<rparr>) mc) }"

definition mc_AddDRAMPageWrite :: "Addr \<Rightarrow> MigrationController \<Rightarrow> MigrationController option" where
  "mc_AddDRAMPageWrite phy_addr mc = do {
     cassert (mc_find (mc_PageAlign phy_addr mc) mc \<noteq> None);
     Some (mc_map_entry (mc_PageAlign phy_addr mc) (\<lambda>e. e\<lparr>pt_epoch_writes := pt_epoch_writes e + 1\<rparr>) mc) }"

definition ptt_dirty :: "PTTState \<Rightarrow> bool" where
  "ptt_dirty st \<longleftrightarrow> st = DIRTY_DIRECT \<or> st = DIRTY_STATIC"

text \<open>\<open>ShiftState\<close> on an iterator, that is, on a present page, and its checked overload on an address.\<close>

definition mc_ShiftState_at ::
  "Addr \<Rightarrow> PTTState \<Rightarrow> Profiler \<Rightarrow> MigrationController \<Rightarrow> Profiler \<times> MigrationController" where
  "mc_ShiftState_at page st pf mc =
     (let mc = mc_map_entry page (\<lambda>e. e\<lparr>pt_state := st\<rparr>) mc;
          mc = (if ptt_dirty st then mc\<lparr>mc_dirty_entries := mc_dirty_entries mc + 1\<rparr> else mc)
      in (pf_AddTableOp pf, mc))"

definition mc_ShiftState ::
  "Addr \<Rightarrow> PTTState \<Rightarrow> Profiler \<Rightarrow> MigrationController \<Rightarrow> (Profiler \<times> MigrationController) option" where
  "mc_ShiftState page_addr st pf mc = do {
     cassert (mc_PageAlign page_addr mc = page_addr);
     cassert (mc_find page_addr mc \<noteq> None);
     Some (mc_ShiftState_at page_addr st pf mc) }"

definition mc_Free :: "Addr \<Rightarrow> Profiler \<Rightarrow> MigrationController \<Rightarrow> (Profiler \<times> MigrationController) option" where
  "mc_Free page_addr pf mc = do {
     cassert (mc_PageAlign page_addr mc = page_addr);
     let entry = fst (mc_LookupPage page_addr pf mc);
     cassert (0 \<le> pt_index entry \<and> pt_index entry < mc_ptt_capacity mc);
     let mc = (if ptt_dirty (pt_state entry)
               then mc\<lparr>mc_dirty_entries := mc_dirty_entries mc - 1\<rparr> else mc);
     let mc = mc\<lparr>mc_entries := AList.delete (pt_mach_base entry) (mc_entries mc)\<rparr>;
     let mc = mc\<lparr>mc_free_slots := mc_free_slots mc @ [pt_index entry]\<rparr>;
     cassert (mc_slots_balanced mc);
     Some (pf_AddTableOp pf, mc) }"

definition mc_Setup ::
  "Addr \<Rightarrow> PTTState \<Rightarrow> Profiler \<Rightarrow> MigrationController \<Rightarrow> (Profiler \<times> MigrationController) option" where
  "mc_Setup page_addr st pf mc = do {
     cassert (mc_PageAlign page_addr mc = page_addr);
     cassert (\<not> mc_Contains page_addr mc);
     cassert (mc_free_slots mc \<noteq> []);
     let entry = PTTEntry_init\<lparr>pt_index := last (mc_free_slots mc), pt_state := st, pt_mach_base := page_addr\<rparr>;
     let mc = mc\<lparr>mc_entries := AList.update page_addr entry (mc_entries mc),
                mc_free_slots := butlast (mc_free_slots mc)\<rparr>;
     cassert (mc_slots_balanced mc);
     let mc = (if ptt_dirty st then mc\<lparr>mc_dirty_entries := mc_dirty_entries mc + 1\<rparr> else mc);
     cassert (mc_num_entries mc \<le> mc_ptt_capacity mc);
     Some (pf_AddTableOp pf, mc) }"

definition mc_Translate :: "Addr \<Rightarrow> Addr \<Rightarrow> MigrationController \<Rightarrow> Addr option" where
  "mc_Translate phy_addr page_base mc = do {
     cassert (page_base AND mc_page_mask mc = 0);
     Some (page_base + (phy_addr AND mc_page_mask mc)) }"

subsection \<open>Migration statistics\<close>

primrec mc_fill_nvm :: "(Addr \<times> NVMPage) list \<Rightarrow> MigrationController \<Rightarrow> MigrationController" where
  "mc_fill_nvm [] mc = mc"
| "mc_fill_nvm (kp # rest) mc =
     (let p = snd kp;
          dr = of_nat (card (page_block_set p)) / of_int (mc_page_blocks mc);
          wr = of_int (page_epoch_writes p) / of_int (mc_page_blocks mc);
          st = \<lparr>np_phy_addr = fst kp, np_dirty_ratio = dr, np_write_ratio = wr\<rparr>
      in mc_fill_nvm rest (mc\<lparr>
           mc_nvm_heap := mc_nvm_heap mc @ [st],
           mc_total_nvm_writes := mc_total_nvm_writes mc + word_of_int (page_epoch_writes p),
           mc_dirty_nvm_blocks := mc_dirty_nvm_blocks mc + of_nat (card (page_block_set p))\<rparr>))"

definition mc_FillNVMPageHeap :: "MigrationController \<Rightarrow> MigrationController" where
  "mc_FillNVMPageHeap mc =
     (let mc = mc_fill_nvm (mc_nvm_pages mc) mc
      in mc\<lparr>mc_nvm_heap := make_heap nvm_less (mc_nvm_heap mc), mc_nvm_heap_filled := True\<rparr>)"

primrec mc_fill_dram :: "(Addr \<times> PTTEntry) list \<Rightarrow> int \<Rightarrow> MigrationController \<Rightarrow> int \<times> MigrationController" where
  "mc_fill_dram [] dirts mc = (dirts, mc)"
| "mc_fill_dram (ke # rest) dirts mc =
     (let e = snd ke;
          wr = of_int (pt_epoch_writes e) / of_int (mc_page_blocks mc);
          st = \<lparr>dp_phy_addr = fst ke, dp_state = pt_state e, dp_write_ratio = wr\<rparr>
      in mc_fill_dram rest (dirts + (if pt_epoch_writes e \<noteq> 0 then 1 else 0)) (mc\<lparr>
           mc_dram_heap := mc_dram_heap mc @ [st],
           mc_total_dram_writes := mc_total_dram_writes mc + word_of_int (pt_epoch_writes e)\<rparr>))"

definition mc_FillDRAMPageHeap :: "MigrationController \<Rightarrow> MigrationController option" where
  "mc_FillDRAMPageHeap mc = do {
     let (dirts, mc) = mc_fill_dram (mc_entries mc) 0 mc;
     cassert (dirts = mc_dirty_entries mc);
     let mc = mc\<lparr>mc_dirty_dram_pages := mc_dirty_dram_pages mc + word_of_int (mc_dirty_entries mc)\<rparr>;
     Some (mc\<lparr>mc_dram_heap := make_heap dram_less (mc_dram_heap mc), mc_dram_heap_filled := True\<rparr>) }"

definition mc_input_block :: "ATTEntry \<Rightarrow> MigrationController \<Rightarrow> MigrationController option" where
  "mc_input_block e mc =
     (if att_state e = CLEAN \<or> att_state e = FREE
      then do { cassert (epoch_writes e = 0); Some mc }
      else do {
        let block_addr = push_bit (mc_block_bits mc) (phy_tag e);
        let page = mc_PageAlign block_addr mc;
        let p = (case map_of (mc_nvm_pages mc) page of None \<Rightarrow> NVMPage_init | Some p \<Rightarrow> p);
        let p = p\<lparr>page_epoch_reads := page_epoch_reads p + epoch_reads e,
                 page_epoch_writes := page_epoch_writes p + epoch_writes e\<rparr>;
        let p = (if epoch_writes e \<noteq> 0 then p\<lparr>page_block_set := insert block_addr (page_block_set p)\<rparr> else p);
        cassert (epoch_writes e \<noteq> 0 \<longrightarrow> int (card (page_block_set p)) \<le> mc_page_blocks mc);
        Some (mc\<lparr>mc_nvm_pages := AList.update page p (mc_nvm_pages mc)\<rparr>) })"

primrec mc_input_blocks :: "ATTEntry list \<Rightarrow> MigrationController \<Rightarrow> MigrationController option" where
  "mc_input_blocks [] mc = Some mc"
| "mc_input_blocks (e # es) mc = do { mc \<leftarrow> mc_input_block e mc; mc_input_blocks es mc }"

definition mc_InputBlocks :: "ATTEntry list \<Rightarrow> MigrationController \<Rightarrow> MigrationController option" where
  "mc_InputBlocks blocks mc = do {
     cassert (mc_nvm_pages mc = []);
     mc \<leftarrow> mc_input_blocks blocks mc;
     let mc = mc\<lparr>mc_dirty_nvm_pages := mc_dirty_nvm_pages mc + of_nat (length (mc_nvm_pages mc))\<rparr>;
     mc_FillDRAMPageHeap (mc_FillNVMPageHeap mc) }"

text \<open>The extraction functions return the page they store into \<open>stats\<close>, or nothing where they return false.\<close>

definition mc_ExtractNVMPage ::
  "Profiler \<Rightarrow> MigrationController \<Rightarrow> (NVMPageStats option \<times> Profiler \<times> MigrationController) option" where
  "mc_ExtractNVMPage pf mc = do {
     cassert (mc_nvm_heap_filled mc);
     (case pop_max nvm_less (mc_nvm_heap mc) of
        None \<Rightarrow> Some (None, pf, mc)
      | Some (stats, heap) \<Rightarrow> Some (Some stats, pf_AddTableOp pf, mc\<lparr>mc_nvm_heap := heap\<rparr>)) }"

definition mc_ExtractDRAMPage ::
  "Profiler \<Rightarrow> MigrationController \<Rightarrow> (DRAMPageStats option \<times> Profiler \<times> MigrationController) option" where
  "mc_ExtractDRAMPage pf mc = do {
     cassert (mc_dram_heap_filled mc);
     (case pop_max dram_less (mc_dram_heap mc) of
        None \<Rightarrow> Some (None, pf, mc)
      | Some (stats, heap) \<Rightarrow> Some (Some stats, pf_AddTableOp pf, mc\<lparr>mc_dram_heap := heap\<rparr>)) }"

subsection \<open>Clearing an epoch\<close>

partial_function (option) mc_block_list :: "Addr \<Rightarrow> Addr \<Rightarrow> Addr \<Rightarrow> Addr list \<Rightarrow> Addr list option" where
  [code]: "mc_block_list step next_page a list =
     (if a < next_page then mc_block_list step next_page (a + step) (list @ [a]) else Some list)"

definition mc_AddToBlockList :: "Addr \<Rightarrow> Addr list \<Rightarrow> MigrationController \<Rightarrow> Addr list option" where
  "mc_AddToBlockList page list mc = do {
     cassert (page AND mc_page_mask mc = 0);
     let next_page = page + word_of_int (mc_page_size mc);
     mc_block_list (word_of_int (int32 (2 ^ mc_block_bits mc))) next_page page list }"

definition mc_clear_entry ::
  "Addr \<Rightarrow> Profiler \<Rightarrow> Addr list \<Rightarrow> MigrationController \<Rightarrow> (Profiler \<times> Addr list \<times> MigrationController) option" where
  "mc_clear_entry page pf blocks mc = do {
     e \<leftarrow> mc_find page mc;
     let mc = mc_map_entry page (\<lambda>e. e\<lparr>pt_epoch_reads := 0, pt_epoch_writes := 0\<rparr>) mc;
     (case pt_state e of
        DIRTY_DIRECT \<Rightarrow> do {
          let (pf, mc) = mc_ShiftState_at page CLEAN_DIRECT pf mc;
          let mc = mc\<lparr>mc_dirty_entries := mc_dirty_entries mc - 1\<rparr>;
          blocks \<leftarrow> mc_AddToBlockList (pt_mach_base e) blocks mc;
          Some (pf, blocks, mc) }
      | DIRTY_STATIC \<Rightarrow> do {
          let (pf, mc) = mc_ShiftState_at page CLEAN_STATIC pf mc;
          let mc = mc\<lparr>mc_dirty_entries := mc_dirty_entries mc - 1\<rparr>;
          blocks \<leftarrow> mc_AddToBlockList (pt_mach_base e) blocks mc;
          Some (pf, blocks, mc) }
      | _ \<Rightarrow> Some (pf, blocks, mc)) }"

primrec mc_clear_entries ::
  "Addr list \<Rightarrow> Profiler \<Rightarrow> Addr list \<Rightarrow> MigrationController \<Rightarrow> (Profiler \<times> Addr list \<times> MigrationController) option" where
  "mc_clear_entries [] pf blocks mc = Some (pf, blocks, mc)"
| "mc_clear_entries (page # pages) pf blocks mc = do {
     (pf, blocks, mc) \<leftarrow> mc_clear_entry page pf blocks mc;
     mc_clear_entries pages pf blocks mc }"

definition mc_Clear ::
  "Profiler \<Rightarrow> Addr list \<Rightarrow> MigrationController \<Rightarrow> (Profiler \<times> Addr list \<times> MigrationController) option" where
  "mc_Clear pf ckpt_blocks mc = do {
     let pf = pf_AddPageMoveInter (mc_dirty_entries mc) pf;
     (pf, ckpt_blocks, mc) \<leftarrow> mc_clear_entries (map fst (mc_entries mc)) pf ckpt_blocks mc;
     cassert (mc_dirty_entries mc = 0);
     Some (pf, ckpt_blocks, mc\<lparr>mc_nvm_pages := [], mc_dram_heap := [], mc_nvm_heap := [],
        mc_dram_heap_filled := False, mc_nvm_heap_filled := False\<rparr>) }"

end
