(* ===== verification/Mem_Store.thy ===== *)
theory Mem_Store
  imports Migration
begin

text \<open>
  The interface \<open>MemStore\<close> of \<open>src/mem_store.h\<close>, through which the controller moves data, asks for access
  latencies and reports events: a record of its virtual functions over a store of type \<open>'m\<close>. The locale
  \<open>mem_store\<close> states the contract the controller relies on: copies and swaps act on whole blocks, and
  nothing else changes the stored bytes. \<open>Host_Memory\<close> interprets it on the simulator's memory.
\<close>

record 'm MemStore =
  MemCopy :: "Addr \<Rightarrow> Addr \<Rightarrow> int \<Rightarrow> 'm \<Rightarrow> 'm option"
  MemSwap :: "Addr \<Rightarrow> Addr \<Rightarrow> int \<Rightarrow> 'm \<Rightarrow> 'm option"
  GetReadLatency :: "Addr \<Rightarrow> bool \<Rightarrow> PTTEntry option \<Rightarrow> 'm \<Rightarrow> (int \<times> 'm) option"
  GetWriteLatency :: "Addr \<Rightarrow> bool \<Rightarrow> PTTEntry option \<Rightarrow> 'm \<Rightarrow> (int \<times> 'm) option"
  OnEpochEnd :: "'m \<Rightarrow> 'm option"
  OnATTWriteHit :: "ATTState \<Rightarrow> 'm \<Rightarrow> 'm option"
  OnATTWriteMiss :: "ATTState \<Rightarrow> 'm \<Rightarrow> 'm option"
  OnCacheRegister :: "'m \<Rightarrow> 'm option"
  statsNVMWrites :: "int \<Rightarrow> 'm \<Rightarrow> 'm option"
  statsDRAMWrites :: "int \<Rightarrow> 'm \<Rightarrow> 'm option"
  ckDRAMWriteHit :: "'m \<Rightarrow> 'm option"

text \<open>The base class: copying is pure virtual, the latencies are \<open>-1\<close>, the event hooks do nothing.\<close>

definition MemStore_base ::
  "(Addr \<Rightarrow> Addr \<Rightarrow> int \<Rightarrow> 'm \<Rightarrow> 'm option) \<Rightarrow> (Addr \<Rightarrow> Addr \<Rightarrow> int \<Rightarrow> 'm \<Rightarrow> 'm option) \<Rightarrow> 'm MemStore" where
  "MemStore_base copy swap = \<lparr>
     MemCopy = copy, MemSwap = swap,
     GetReadLatency = (\<lambda>mach_addr dram page m. Some (- 1, m)),
     GetWriteLatency = (\<lambda>mach_addr dram page m. Some (- 1, m)),
     OnEpochEnd = Some, OnATTWriteHit = (\<lambda>st. Some), OnATTWriteMiss = (\<lambda>st. Some),
     OnCacheRegister = Some, statsNVMWrites = (\<lambda>n. Some), statsDRAMWrites = (\<lambda>n. Some),
     ckDRAMWriteHit = Some\<rparr>"

section \<open>Bytes\<close>

type_synonym bytes = "Addr \<Rightarrow> byte"

text \<open>\<open>memcpy(dest, src, size)\<close> on regions that do not overlap.\<close>

definition memcpy :: "Addr \<Rightarrow> Addr \<Rightarrow> int \<Rightarrow> bytes \<Rightarrow> bytes" where
  "memcpy dest src sz mem = (\<lambda>x. if x - dest < word_of_int sz then mem (src + (x - dest)) else mem x)"

text \<open>The same on one block of \<open>2 ^ b\<close> bytes, by block number and offset; and the exchange of two blocks.\<close>

definition block_copy :: "nat \<Rightarrow> Addr \<Rightarrow> Addr \<Rightarrow> bytes \<Rightarrow> bytes" where
  "block_copy b dest src mem =
     (\<lambda>x. if drop_bit b x = drop_bit b dest then mem (rebase b x src) else mem x)"

definition block_swap :: "nat \<Rightarrow> Addr \<Rightarrow> Addr \<Rightarrow> bytes \<Rightarrow> bytes" where
  "block_swap b p q mem =
     (\<lambda>x. if drop_bit b x = drop_bit b p then mem (rebase b x q)
          else if drop_bit b x = drop_bit b q then mem (rebase b x p) else mem x)"

lemma memcpy_block:
  assumes "b \<le> 30" "aligned b dest"
  shows "memcpy dest src (2 ^ b) mem = block_copy b dest src mem"
proof
  fix x
  have "x - dest < 2 ^ b \<longleftrightarrow> drop_bit b x = drop_bit b dest"
    using assms by (intro in_block_iff) simp_all
  then show "memcpy dest src (2 ^ b) mem x = block_copy b dest src mem x"
    using offset_in_block [of b x dest] assms(2) by (simp add: memcpy_def block_copy_def rebase_def)
qed

section \<open>The contract\<close>

text \<open>The regions of the machine address space, which the latency functions distinguish.\<close>

record Geometry =
  geo_block_bits :: nat
  geo_phy_range :: Addr
  geo_nvm_size :: "64 word"
  geo_dram :: "Addr \<Rightarrow> bool"
  geo_page_bits :: nat
  geo_capacity :: int
  geo_size :: "64 word"

text \<open>A block base inside the machine memory.\<close>

definition geo_place :: "Geometry \<Rightarrow> Addr \<Rightarrow> bool" where
  "geo_place g a \<longleftrightarrow> aligned (geo_block_bits g) a \<and> a < geo_size g"

definition latency_pre :: "Geometry \<Rightarrow> Addr \<Rightarrow> bool \<Rightarrow> PTTEntry option \<Rightarrow> bool" where
  "latency_pre g a dram page \<longleftrightarrow>
     (case page of
        None \<Rightarrow> if dram then geo_dram g a else a < geo_phy_range g + geo_nvm_size g
      | Some p \<Rightarrow> dram \<and> a < geo_phy_range g \<and> 0 \<le> pt_index p \<and> pt_index p < geo_capacity g)"

locale mem_store =
  fixes ms :: "'m MemStore" and geo :: Geometry and ok :: "'m \<Rightarrow> bool" and contents :: "'m \<Rightarrow> bytes"
  assumes MemCopy_law: "ok m \<Longrightarrow> geo_place geo d \<Longrightarrow> geo_place geo s \<Longrightarrow> d \<noteq> s \<Longrightarrow>
      \<exists>m'. MemCopy ms d s (2 ^ geo_block_bits geo) m = Some m' \<and> ok m' \<and>
        contents m' = block_copy (geo_block_bits geo) d s (contents m)"
    and MemSwap_law: "ok m \<Longrightarrow> geo_place geo d \<Longrightarrow> geo_place geo s \<Longrightarrow> d \<noteq> s \<Longrightarrow>
      \<exists>m'. MemSwap ms d s (2 ^ geo_block_bits geo) m = Some m' \<and> ok m' \<and>
        contents m' = block_swap (geo_block_bits geo) d s (contents m)"
    and read_law: "ok m \<Longrightarrow> latency_pre geo a dram page \<Longrightarrow>
      \<exists>lat m'. GetReadLatency ms a dram page m = Some (lat, m') \<and> 0 < int32 lat \<and> ok m' \<and> contents m' = contents m"
    and write_law: "ok m \<Longrightarrow> latency_pre geo a dram page \<Longrightarrow>
      \<exists>lat m'. GetWriteLatency ms a dram page m = Some (lat, m') \<and> 0 < int32 lat \<and> ok m' \<and> contents m' = contents m"
    and OnEpochEnd_law: "ok m \<Longrightarrow> \<exists>m'. OnEpochEnd ms m = Some m' \<and> ok m' \<and> contents m' = contents m"
    and OnATTWriteHit_law: "ok m \<Longrightarrow> \<exists>m'. OnATTWriteHit ms st m = Some m' \<and> ok m' \<and> contents m' = contents m"
    and OnATTWriteMiss_law: "ok m \<Longrightarrow> \<exists>m'. OnATTWriteMiss ms st m = Some m' \<and> ok m' \<and> contents m' = contents m"
    and statsNVMWrites_law: "ok m \<Longrightarrow> \<exists>m'. statsNVMWrites ms n m = Some m' \<and> ok m' \<and> contents m' = contents m"
    and statsDRAMWrites_law: "ok m \<Longrightarrow> \<exists>m'. statsDRAMWrites ms n m = Some m' \<and> ok m' \<and> contents m' = contents m"
    and ckDRAMWriteHit_law: "ok m \<Longrightarrow> \<exists>m'. ckDRAMWriteHit ms m = Some m' \<and> ok m' \<and> contents m' = contents m"

end
