(* ===== verification/Version_Buffer.thy ===== *)
theory Version_Buffer
  imports Block_Address Profiling
begin

text \<open>
  The slot allocator of \<open>src/version_buffer.h\<close> and \<open>src/version_buffer.cc\<close>: a region of \<open>length\<close> block
  slots, each in exactly one of four sets. A slot is handed out by \<open>SlotAlloc\<close> and returned by
  \<open>FreeSlot\<close>, or retired through the two backup generations, which \<open>ClearBackup\<close> ages by one.
\<close>

datatype VBState = BACKUP0 | BACKUP1 | IN_USE | VB_FREE

record VersionBuffer =
  vb_addr_base :: Addr
  vb_length :: int
  vb_block_bits :: nat
  vb_sets :: "VBState \<Rightarrow> int set"

text \<open>The cast \<open>(VersionBuffer::State)b\<close> of a \<open>bool\<close>.\<close>

definition VBState_of_bool :: "bool \<Rightarrow> VBState" where
  "VBState_of_bool b = (if b then BACKUP1 else BACKUP0)"

definition VersionBuffer_init :: "int \<Rightarrow> nat \<Rightarrow> VersionBuffer" where
  "VersionBuffer_init len block_bits =
     \<lparr>vb_addr_base = INVAL_ADDR, vb_length = len, vb_block_bits = block_bits,
      vb_sets = (\<lambda>_. {})(VB_FREE := set [0 .. len - 1])\<rparr>"

definition vb_set_addr_base :: "Addr \<Rightarrow> VersionBuffer \<Rightarrow> VersionBuffer" where
  "vb_set_addr_base base vb = vb\<lparr>vb_addr_base := base\<rparr>"

definition vb_block_size :: "VersionBuffer \<Rightarrow> int" where
  "vb_block_size vb = int32 (2 ^ vb_block_bits vb)"

definition vb_block_mask :: "VersionBuffer \<Rightarrow> Addr" where
  "vb_block_mask vb = word_of_int (vb_block_size vb - 1)"

definition vb_Size :: "VersionBuffer \<Rightarrow> 64 word" where
  "vb_Size vb = word_of_int (int32 (vb_length vb * 2 ^ vb_block_bits vb))"

definition vb_Contains :: "Addr \<Rightarrow> VersionBuffer \<Rightarrow> bool" where
  "vb_Contains addr vb \<longleftrightarrow> vb_addr_base vb \<le> addr \<and> addr - vb_addr_base vb < vb_Size vb"

definition vb_At :: "int \<Rightarrow> VersionBuffer \<Rightarrow> Addr option" where
  "vb_At index vb = do {
     cassert (vb_addr_base vb \<noteq> INVAL_ADDR \<and> 0 \<le> index \<and> index < vb_length vb);
     Some (vb_addr_base vb + word_of_int (int32 (index * 2 ^ vb_block_bits vb))) }"

definition vb_Index :: "Addr \<Rightarrow> VersionBuffer \<Rightarrow> int option" where
  "vb_Index mach_addr vb = do {
     cassert (vb_addr_base vb \<le> mach_addr);
     let bytes = mach_addr - vb_addr_base vb;
     cassert (bytes AND vb_block_mask vb = 0);
     let i = int32 (uint (drop_bit (vb_block_bits vb) bytes));
     cassert (0 \<le> i \<and> i < vb_length vb);
     Some i }"

definition vb_SlotAlloc :: "Profiler \<Rightarrow> VersionBuffer \<Rightarrow> (Addr \<times> Profiler \<times> VersionBuffer) option" where
  "vb_SlotAlloc pf vb = do {
     cassert (vb_sets vb VB_FREE \<noteq> {});
     let i = Min (vb_sets vb VB_FREE);
     let sets = (vb_sets vb)(VB_FREE := vb_sets vb VB_FREE - {i});
     let sets = sets(IN_USE := insert i (sets IN_USE));
     let vb = vb\<lparr>vb_sets := sets\<rparr>;
     a \<leftarrow> vb_At i vb;
     Some (a, pf_AddBufferOp pf, vb) }"

definition vb_FreeSlot :: "Addr \<Rightarrow> VBState \<Rightarrow> Profiler \<Rightarrow> VersionBuffer \<Rightarrow> (Profiler \<times> VersionBuffer) option" where
  "vb_FreeSlot mach_addr state pf vb = do {
     i \<leftarrow> vb_Index mach_addr vb;
     cassert (i \<in> vb_sets vb state);
     let sets = (vb_sets vb)(state := vb_sets vb state - {i});
     let sets = sets(VB_FREE := insert i (sets VB_FREE));
     Some (pf_AddBufferOp pf, vb\<lparr>vb_sets := sets\<rparr>) }"

definition vb_SlotBackup :: "Addr \<Rightarrow> VBState \<Rightarrow> Profiler \<Rightarrow> VersionBuffer \<Rightarrow> (Profiler \<times> VersionBuffer) option" where
  "vb_SlotBackup mach_addr state pf vb = do {
     i \<leftarrow> vb_Index mach_addr vb;
     cassert (state = BACKUP0 \<or> state = BACKUP1);
     cassert (i \<notin> vb_sets vb state);
     cassert (i \<in> vb_sets vb IN_USE);
     let sets = (vb_sets vb)(IN_USE := vb_sets vb IN_USE - {i});
     let sets = sets(state := insert i (sets state));
     Some (pf_AddBufferOp pf, vb\<lparr>vb_sets := sets\<rparr>) }"

definition vb_ClearBackup :: "Profiler \<Rightarrow> VersionBuffer \<Rightarrow> (Profiler \<times> VersionBuffer) option" where
  "vb_ClearBackup pf vb = do {
     let sets = (vb_sets vb)(VB_FREE := vb_sets vb VB_FREE \<union> vb_sets vb BACKUP0);
     let sets = sets(BACKUP0 := {});
     let sets = sets(BACKUP0 := sets BACKUP0 \<union> sets BACKUP1);
     let sets = sets(BACKUP1 := {});
     cassert (int (card (sets IN_USE) + card (sets VB_FREE) + card (sets BACKUP0)) = vb_length vb);
     Some (pf_AddBufferOp (pf_AddBufferOp pf), vb\<lparr>vb_sets := sets\<rparr>) }"

section \<open>The invariant\<close>

text \<open>
  \<open>vb_geometry\<close>: the region is block aligned, does not wrap around the address space, and its byte size
  fits in an \<open>int\<close>, which is what \<open>Size\<close> and \<open>At\<close> compute with. \<open>vb_inv\<close>: every slot is in exactly one set.
\<close>

definition vb_geometry :: "VersionBuffer \<Rightarrow> bool" where
  "vb_geometry vb \<longleftrightarrow>
     vb_block_bits vb \<le> 30 \<and> 0 \<le> vb_length vb \<and>
     vb_length vb * 2 ^ vb_block_bits vb < 2 ^ 31 \<and>
     uint (vb_addr_base vb) + vb_length vb * 2 ^ vb_block_bits vb < 2 ^ 64 \<and>
     aligned (vb_block_bits vb) (vb_addr_base vb)"

definition vb_inv :: "VersionBuffer \<Rightarrow> bool" where
  "vb_inv vb \<longleftrightarrow>
     (\<Union>st. vb_sets vb st) = {0 ..< vb_length vb} \<and>
     (\<forall>st st' i. i \<in> vb_sets vb st \<and> i \<in> vb_sets vb st' \<longrightarrow> st = st')"

text \<open>The address of slot \<open>i\<close>, with no overflow in sight.\<close>

definition vb_addr :: "VersionBuffer \<Rightarrow> int \<Rightarrow> Addr" where
  "vb_addr vb i = vb_addr_base vb + word_of_int (i * 2 ^ vb_block_bits vb)"

text \<open>Moving one slot between two sets: the effect of every operation that touches a single slot.\<close>

definition vb_move :: "int \<Rightarrow> VBState \<Rightarrow> VBState \<Rightarrow> VersionBuffer \<Rightarrow> VersionBuffer" where
  "vb_move i src dst vb = vb\<lparr>vb_sets := (vb_sets vb)
     (src := vb_sets vb src - {i}, dst := insert i (vb_sets vb dst))\<rparr>"

section \<open>Slot addresses\<close>

lemma slot_bytes:
  assumes "vb_geometry vb" "0 \<le> i" "i < vb_length vb"
  shows "0 \<le> i * 2 ^ vb_block_bits vb" "i * 2 ^ vb_block_bits vb < vb_length vb * 2 ^ vb_block_bits vb"
    "i * 2 ^ vb_block_bits vb < 2 ^ 31"
proof -
  show "0 \<le> i * 2 ^ vb_block_bits vb" using assms(2) by simp
  show lt: "i * 2 ^ vb_block_bits vb < vb_length vb * 2 ^ vb_block_bits vb" using assms(3) by simp
  then show "i * 2 ^ vb_block_bits vb < 2 ^ 31"
    using assms(1) unfolding vb_geometry_def by linarith
qed

lemma uint_vb_addr:
  assumes "vb_geometry vb" "0 \<le> i" "i < vb_length vb"
  shows "uint (vb_addr vb i) = uint (vb_addr_base vb) + i * 2 ^ vb_block_bits vb"
proof -
  note sb = slot_bytes [OF assms]
  have fits: "uint (vb_addr_base vb) + i * 2 ^ vb_block_bits vb < 2 ^ 64"
    using sb assms(1) unfolding vb_geometry_def by linarith
  have "vb_addr vb i = word_of_int (uint (vb_addr_base vb) + i * 2 ^ vb_block_bits vb)"
    by (simp add: vb_addr_def)
  then show ?thesis
    using fits sb by (simp only: uint_word_of_int_eq) (simp add: take_bit_int_eq_self)
qed

lemma vb_At_eq:
  assumes "vb_geometry vb" "0 \<le> i" "i < vb_length vb"
  shows "vb_At i vb = Some (vb_addr vb i)"
proof -
  have "vb_addr_base vb \<noteq> INVAL_ADDR"
  proof
    assume "vb_addr_base vb = INVAL_ADDR"
    then have "uint (vb_addr_base vb) = 2 ^ 64 - 1"
      by (simp only: INVAL_ADDR_def unsigned_minus_1_eq_mask) (simp add: mask_eq_exp_minus_1)
    moreover have "1 \<le> vb_length vb * 2 ^ vb_block_bits vb"
      using assms slot_bytes [OF assms] by linarith
    ultimately show False using assms(1) unfolding vb_geometry_def by linarith
  qed
  moreover have "int32 (i * 2 ^ vb_block_bits vb) = i * 2 ^ vb_block_bits vb"
    using slot_bytes [OF assms] by (intro int32_id) linarith+
  ultimately show ?thesis
    using assms by (simp add: vb_At_def vb_addr_def)
qed

lemma vb_mask_eq:
  assumes "vb_geometry vb" shows "vb_block_mask vb = mask (vb_block_bits vb)"
proof -
  have "(2 :: int) ^ vb_block_bits vb \<le> 2 ^ 30"
    using assms by (intro power_increasing) (simp_all add: vb_geometry_def)
  then have "int32 (2 ^ vb_block_bits vb) = 2 ^ vb_block_bits vb"
    by (intro int32_id) (simp_all add: order_trans [of _ 0])
  then show ?thesis
    by (simp add: vb_block_mask_def vb_block_size_def mask_eq_exp_minus_1)
qed

lemma aligned_vb_addr:
  "vb_geometry vb \<Longrightarrow> 0 \<le> i \<Longrightarrow> i < vb_length vb \<Longrightarrow> aligned (vb_block_bits vb) (vb_addr vb i)"
  by (simp add: aligned_uint uint_vb_addr) (simp add: vb_geometry_def aligned_uint)

lemma vb_Index_vb_addr:
  assumes "vb_geometry vb" "0 \<le> i" "i < vb_length vb"
  shows "vb_Index (vb_addr vb i) vb = Some i"
proof -
  let ?b = "vb_block_bits vb"
  note u = uint_vb_addr [OF assms]
  have le: "vb_addr_base vb \<le> vb_addr vb i"
    using u assms(2) by (simp add: word_le_def)
  have diff: "uint (vb_addr vb i - vb_addr_base vb) = i * 2 ^ ?b"
    using le u by (simp add: uint_minus_simple_alt)
  have "aligned ?b (vb_addr vb i - vb_addr_base vb)"
    by (simp add: aligned_uint diff)
  moreover have "uint (drop_bit ?b (vb_addr vb i - vb_addr_base vb)) = i"
  proof -
    have "take_bit 64 (i * 2 ^ ?b) = i * 2 ^ ?b"
      using slot_bytes [OF assms] by (intro take_bit_int_eq_self) simp_all
    then show ?thesis
      by (simp only: unsigned_drop_bit_eq diff) (simp add: drop_bit_eq_div)
  qed
  moreover have "int32 i = i"
  proof (rule int32_id)
    have "i * 1 \<le> i * 2 ^ ?b" using assms(2) by (intro mult_left_mono) simp_all
    then show "i < 2 ^ 31" using slot_bytes(3) [OF assms] by simp
    show "- (2 ^ 31) \<le> i" using assms(2) by simp
  qed
  ultimately show ?thesis
    using le assms by (simp add: vb_Index_def vb_mask_eq aligned_def)
qed

lemma vb_addr_inj:
  assumes "vb_geometry vb" "i \<in> {0 ..< vb_length vb}" "j \<in> {0 ..< vb_length vb}"
    "vb_addr vb i = vb_addr vb j"
  shows "i = j"
proof -
  have "Some i = Some j"
    using vb_Index_vb_addr [OF assms(1), of i] vb_Index_vb_addr [OF assms(1), of j] assms(2,3)
    unfolding assms(4) by simp
  then show ?thesis by simp
qed

lemma uint_vb_Size:
  assumes "vb_geometry vb" shows "uint (vb_Size vb) = vb_length vb * 2 ^ vb_block_bits vb"
proof -
  define n where "n = vb_length vb * 2 ^ vb_block_bits vb"
  have n: "0 \<le> n" "n < 2 ^ 31" using assms by (simp_all add: vb_geometry_def n_def)
  then have "int32 n = n" by (intro int32_id) linarith+
  then have "vb_Size vb = word_of_int n" by (simp only: vb_Size_def n_def [symmetric])
  then show ?thesis
    unfolding n_def [symmetric] using n
    by (simp only: uint_word_of_int_eq) (simp add: take_bit_int_eq_self)
qed

lemma vb_Contains_iff:
  assumes "vb_geometry vb"
  shows "vb_Contains a vb \<longleftrightarrow> uint (vb_addr_base vb) \<le> uint a \<and>
    uint a < uint (vb_addr_base vb) + vb_length vb * 2 ^ vb_block_bits vb"
proof (cases "vb_addr_base vb \<le> a")
  case True
  then have "uint (a - vb_addr_base vb) = uint a - uint (vb_addr_base vb)"
    by (simp add: uint_minus_simple_alt)
  then show ?thesis
    using True unfolding vb_Contains_def word_less_def uint_vb_Size [OF assms] word_le_def
    by linarith
next
  case False
  then show ?thesis by (simp add: vb_Contains_def word_le_def)
qed

section \<open>The operations\<close>

lemma vb_geometry_move [simp]: "vb_geometry (vb_move i st st' vb) = vb_geometry vb"
  by (simp add: vb_geometry_def vb_move_def)

lemma vb_move_fields [simp]:
  "vb_addr_base (vb_move i st st' vb) = vb_addr_base vb"
  "vb_length (vb_move i st st' vb) = vb_length vb"
  "vb_block_bits (vb_move i st st' vb) = vb_block_bits vb"
  "vb_addr (vb_move i st st' vb) = vb_addr vb"
  by (simp_all add: vb_move_def vb_addr_def fun_eq_iff)

lemma vb_sets_move:
  "st \<noteq> st' \<Longrightarrow> vb_sets (vb_move i st st' vb) x =
     (if x = st' then insert i (vb_sets vb st') else if x = st then vb_sets vb st - {i} else vb_sets vb x)"
  by (simp add: vb_move_def)

lemma vb_inv_slot: "vb_inv vb \<Longrightarrow> i \<in> vb_sets vb st \<Longrightarrow> 0 \<le> i \<and> i < vb_length vb"
  unfolding vb_inv_def by (metis UN_iff UNIV_I atLeastLessThan_iff)

lemma vb_inv_disjoint: "vb_inv vb \<Longrightarrow> i \<in> vb_sets vb st \<Longrightarrow> i \<in> vb_sets vb st' \<Longrightarrow> st = st'"
  unfolding vb_inv_def by blast

lemma vb_move_member:
  assumes "st \<noteq> st'"
  shows "i \<in> vb_sets (vb_move i st st' vb) x \<longleftrightarrow> x = st' \<or> x \<noteq> st \<and> i \<in> vb_sets vb x"
    and "k \<noteq> i \<Longrightarrow> k \<in> vb_sets (vb_move i st st' vb) x \<longleftrightarrow> k \<in> vb_sets vb x"
  using assms by (simp_all add: vb_sets_move)

lemma vb_inv_move:
  assumes inv: "vb_inv vb" and i: "i \<in> vb_sets vb st" and ne: "st \<noteq> st'"
  shows "vb_inv (vb_move i st st' vb)"
  unfolding vb_inv_def
proof (intro conjI allI impI)
  have "(\<exists>x. k \<in> vb_sets (vb_move i st st' vb) x) \<longleftrightarrow> (\<exists>x. k \<in> vb_sets vb x)" for k
    using i ne vb_move_member [OF ne] by (cases "k = i") blast+
  then have "(\<Union>x. vb_sets (vb_move i st st' vb) x) = (\<Union>x. vb_sets vb x)"
    by (simp add: set_eq_iff)
  also have "\<dots> = {0 ..< vb_length vb}"
    using inv unfolding vb_inv_def by (rule conjunct1)
  finally show "(\<Union>x. vb_sets (vb_move i st st' vb) x) = {0 ..< vb_length (vb_move i st st' vb)}"
    by simp
next
  fix x y k
  assume k: "k \<in> vb_sets (vb_move i st st' vb) x \<and> k \<in> vb_sets (vb_move i st st' vb) y"
  show "x = y"
  proof (cases "k = i")
    case True
    then show ?thesis using k vb_move_member(1) [OF ne] vb_inv_disjoint [OF inv i] by metis
  next
    case False
    then show ?thesis using k vb_move_member(2) [OF ne] vb_inv_disjoint [OF inv] by metis
  qed
qed

lemma vb_inv_finite: "vb_inv vb \<Longrightarrow> finite (vb_sets vb st)"
proof (rule finite_subset [of _ "{0 ..< vb_length vb}"])
  assume "vb_inv vb"
  then show "vb_sets vb st \<subseteq> {0 ..< vb_length vb}"
    using vb_inv_slot [of vb _ st] by (meson atLeastLessThan_iff subsetI)
qed simp

lemma vb_SlotAlloc_eq:
  assumes "vb_geometry vb" "vb_inv vb" "vb_sets vb VB_FREE \<noteq> {}"
  defines "i \<equiv> Min (vb_sets vb VB_FREE)"
  shows "vb_SlotAlloc pf vb = Some (vb_addr vb i, pf_AddBufferOp pf, vb_move i VB_FREE IN_USE vb)"
    and "i \<in> vb_sets vb VB_FREE"
proof -
  show i: "i \<in> vb_sets vb VB_FREE"
    unfolding i_def by (rule Min_in [OF vb_inv_finite [OF assms(2)] assms(3)])
  have "vb_At i (vb_move i VB_FREE IN_USE vb) = Some (vb_addr vb i)"
    using vb_At_eq [of "vb_move i VB_FREE IN_USE vb" i] assms(1) vb_inv_slot [OF assms(2) i] by simp
  moreover have "vb_SlotAlloc pf vb = do {
      a \<leftarrow> vb_At i (vb_move i VB_FREE IN_USE vb);
      Some (a, pf_AddBufferOp pf, vb_move i VB_FREE IN_USE vb) }"
    using assms(3) by (simp add: vb_SlotAlloc_def Let_def vb_move_def i_def)
  ultimately show "vb_SlotAlloc pf vb = Some (vb_addr vb i, pf_AddBufferOp pf, vb_move i VB_FREE IN_USE vb)"
    by simp
qed

lemma vb_FreeSlot_eq:
  assumes "vb_geometry vb" "vb_inv vb" "i \<in> vb_sets vb st" "st \<noteq> VB_FREE"
  shows "vb_FreeSlot (vb_addr vb i) st pf vb = Some (pf_AddBufferOp pf, vb_move i st VB_FREE vb)"
  using assms(3,4) vb_Index_vb_addr [OF assms(1)] vb_inv_slot [OF assms(2,3)]
  by (simp add: vb_FreeSlot_def Let_def vb_move_def)

lemma vb_SlotBackup_eq:
  assumes "vb_geometry vb" "vb_inv vb" "i \<in> vb_sets vb IN_USE" "st = BACKUP0 \<or> st = BACKUP1"
  shows "vb_SlotBackup (vb_addr vb i) st pf vb = Some (pf_AddBufferOp pf, vb_move i IN_USE st vb)"
proof -
  have "i \<notin> vb_sets vb st" using vb_inv_disjoint [OF assms(2,3), of st] assms(4) by auto
  moreover have "vb_Index (vb_addr vb i) vb = Some i"
    using vb_Index_vb_addr [OF assms(1)] vb_inv_slot [OF assms(2,3)] by blast
  moreover have "st \<noteq> IN_USE" using assms(4) by auto
  ultimately show ?thesis
    using assms(3,4) by (simp add: vb_SlotBackup_def Let_def vb_move_def)
qed


lemma UN_VBState: "(\<Union>st. f st) = f BACKUP0 \<union> f BACKUP1 \<union> f IN_USE \<union> f VB_FREE"
proof -
  have "st = BACKUP0 \<or> st = BACKUP1 \<or> st = IN_USE \<or> st = VB_FREE" for st by (cases st) simp_all
  then have "UNIV = {BACKUP0, BACKUP1, IN_USE, VB_FREE}" by blast
  then have "(\<Union>st. f st) = (\<Union>st \<in> {BACKUP0, BACKUP1, IN_USE, VB_FREE}. f st)" by (rule arg_cong)
  then show ?thesis by (simp add: Un_assoc)
qed

lemma vb_inv_Int: "vb_inv vb \<Longrightarrow> st \<noteq> st' \<Longrightarrow> vb_sets vb st \<inter> vb_sets vb st' = {}"
  using vb_inv_disjoint by blast

text \<open>No slot is lost: the four sets always add up to the length.\<close>

lemma vb_inv_card:
  assumes inv: "vb_inv vb" and len: "0 \<le> vb_length vb"
  shows "int (card (vb_sets vb BACKUP0) + card (vb_sets vb BACKUP1) + card (vb_sets vb IN_USE) +
    card (vb_sets vb VB_FREE)) = vb_length vb"
proof -
  note fin = vb_inv_finite [OF inv] and dis = vb_inv_Int [OF inv]
  let ?a = "vb_sets vb BACKUP0" and ?b = "vb_sets vb BACKUP1" and ?c = "vb_sets vb IN_USE"
    and ?d = "vb_sets vb VB_FREE"
  have "card (?a \<union> ?b) = card ?a + card ?b"
    using fin dis by (intro card_Un_disjoint) simp_all
  moreover have "card (?a \<union> ?b \<union> ?c) = card (?a \<union> ?b) + card ?c"
    using fin dis by (intro card_Un_disjoint) (simp_all add: Int_Un_distrib2)
  moreover have "card (?a \<union> ?b \<union> ?c \<union> ?d) = card (?a \<union> ?b \<union> ?c) + card ?d"
    using fin dis by (intro card_Un_disjoint) (simp_all add: Int_Un_distrib2)
  moreover have "?a \<union> ?b \<union> ?c \<union> ?d = {0 ..< vb_length vb}"
    using inv unfolding vb_inv_def UN_VBState by (rule conjunct1)
  moreover have "int (card {0 ..< vb_length vb}) = vb_length vb" using len by simp
  ultimately show ?thesis by (simp only: of_nat_add)
qed

definition vb_aged :: "VersionBuffer \<Rightarrow> VersionBuffer" where
  "vb_aged vb = vb\<lparr>vb_sets := (\<lambda>st. case st of
      BACKUP0 \<Rightarrow> vb_sets vb BACKUP1 | BACKUP1 \<Rightarrow> {} | IN_USE \<Rightarrow> vb_sets vb IN_USE
    | VB_FREE \<Rightarrow> vb_sets vb VB_FREE \<union> vb_sets vb BACKUP0)\<rparr>"

lemma vb_aged_fields [simp]:
  "vb_addr_base (vb_aged vb) = vb_addr_base vb" "vb_length (vb_aged vb) = vb_length vb"
  "vb_block_bits (vb_aged vb) = vb_block_bits vb" "vb_addr (vb_aged vb) = vb_addr vb"
  "vb_geometry (vb_aged vb) = vb_geometry vb"
  "vb_sets (vb_aged vb) BACKUP0 = vb_sets vb BACKUP1" "vb_sets (vb_aged vb) BACKUP1 = {}"
  "vb_sets (vb_aged vb) IN_USE = vb_sets vb IN_USE"
  "vb_sets (vb_aged vb) VB_FREE = vb_sets vb VB_FREE \<union> vb_sets vb BACKUP0"
  by (simp_all add: vb_aged_def vb_addr_def fun_eq_iff vb_geometry_def)

lemma vb_inv_aged:
  assumes inv: "vb_inv vb" shows "vb_inv (vb_aged vb)"
proof -
  have un: "vb_sets vb BACKUP0 \<union> vb_sets vb BACKUP1 \<union> vb_sets vb IN_USE \<union> vb_sets vb VB_FREE = {0 ..< vb_length vb}"
    using inv unfolding vb_inv_def UN_VBState by (rule conjunct1)
  have "i \<in> vb_sets (vb_aged vb) st \<Longrightarrow> i \<in> vb_sets (vb_aged vb) st' \<Longrightarrow> st = st'" for i st st'
    using vb_inv_disjoint [OF inv] by (cases st; cases st') auto
  then show ?thesis
    unfolding vb_inv_def UN_VBState using un by auto
qed

lemma vb_ClearBackup_eq:
  assumes inv: "vb_inv vb" and len: "0 \<le> vb_length vb"
  shows "vb_ClearBackup pf vb = Some (pf_AddBufferOp (pf_AddBufferOp pf), vb_aged vb)"
proof -
  let ?s = "(vb_sets vb)(VB_FREE := vb_sets vb VB_FREE \<union> vb_sets vb BACKUP0, BACKUP0 := vb_sets vb BACKUP1, BACKUP1 := {})"
  have eq: "?s = vb_sets (vb_aged vb)"
  proof
    fix st show "?s st = vb_sets (vb_aged vb) st" by (cases st) simp_all
  qed
  have "vb\<lparr>vb_sets := ?s\<rparr> = vb_aged vb"
    unfolding eq by (simp add: vb_aged_def)
  moreover have "int (card (?s IN_USE) + card (?s VB_FREE) + card (?s BACKUP0)) = vb_length vb"
    using vb_inv_card [OF vb_inv_aged [OF inv]] len unfolding eq by simp
  ultimately show ?thesis
    by (simp add: vb_ClearBackup_def Let_def fun_upd_twist)
qed

lemma VersionBuffer_init_inv: "vb_inv (vb_set_addr_base b (VersionBuffer_init len bits))"
  unfolding vb_inv_def by (auto simp: vb_set_addr_base_def VersionBuffer_init_def UN_VBState split: if_splits)

lemma card_vb_move:
  assumes inv: "vb_inv vb" and i: "i \<in> vb_sets vb st" and ne: "st \<noteq> st'"
  shows "card (vb_sets (vb_move i st st' vb) x) =
    (if x = st' then card (vb_sets vb x) + 1 else if x = st then card (vb_sets vb x) - 1 else card (vb_sets vb x))"
proof -
  have "i \<notin> vb_sets vb st'" using vb_inv_disjoint [OF inv i, of st'] ne by blast
  then show ?thesis
    using vb_inv_finite [OF inv] i ne by (simp add: vb_sets_move)
qed

end
