(* ===== verification/Addr_Trans_Controller.thy ===== *)
theory Addr_Trans_Controller
  imports Mem_Store Version_Buffer
begin

text \<open>
  The controller of \<open>src/addr_trans_controller.h\<close> and \<open>src/addr_trans_controller.cc\<close>. Its state is the
  record \<open>ATC\<close>: the block table, the two slot buffers, the page table and the store behind \<open>mem_store_\<close>,
  whose virtual functions are the argument \<open>ms\<close> of every operation. The profiler passed by reference is
  threaded; a call that counts on \<open>Profiler::Null\<close> or \<open>Profiler::Overlap\<close> discards what it counted. The
  optional pointer \<open>ckpt_blocks\<close> is an \<open>Addr list option\<close>, \<open>None\<close> for \<open>NULL\<close>. A C++ reference to an entry is
  read again after each call that changes the entry. The conditional parts under \<open>MEMCK\<close> and the debug
  output are left out.
\<close>

section \<open>State and constructor\<close>

datatype Control = REG_WRITE | NEW_EPOCH | WAIT_CKPT

record 'm ATC =
  atc_att :: AddrTransTable
  atc_nvm :: VersionBuffer
  atc_dram :: VersionBuffer
  atc_mc :: MigrationController
  atc_phy_range :: "64 word"
  atc_mem :: 'm
  atc_ckpt :: bool
  atc_pages_to_dram :: "64 word"
  atc_pages_to_nvm :: "64 word"

definition AddrTransController_init ::
  "64 word \<Rightarrow> 64 word \<Rightarrow> int \<Rightarrow> nat \<Rightarrow> nat \<Rightarrow> (nat \<Rightarrow> ATTEntry) \<Rightarrow> 'm \<Rightarrow> 'm ATC option" where
  "AddrTransController_init phy_range dram_size att_len block_bits page_bits raw m = do {
     att \<leftarrow> AddrTransTable_init att_len block_bits raw;
     let nvm = VersionBuffer_init (2 * att_len) block_bits;
     let dram = VersionBuffer_init att_len block_bits;
     mc \<leftarrow> MigrationController_init block_bits page_bits (int32 (uint (drop_bit page_bits dram_size)));
     cassert (phy_range \<ge> dram_size);
     let nvm = vb_set_addr_base phy_range nvm;
     let dram = vb_set_addr_base (vb_addr_base nvm + vb_Size nvm) dram;
     Some \<lparr>atc_att = att, atc_nvm = nvm, atc_dram = dram, atc_mc = mc, atc_phy_range = phy_range,
           atc_mem = m, atc_ckpt = False, atc_pages_to_dram = 0, atc_pages_to_nvm = 0\<rparr> }"

definition atc_Size :: "'m ATC \<Rightarrow> 64 word" where
  "atc_Size s = atc_phy_range s + vb_Size (atc_nvm s) + vb_Size (atc_dram s)"

definition atc_IsDRAM :: "Addr \<Rightarrow> Profiler \<Rightarrow> 'm ATC \<Rightarrow> bool \<times> Profiler" where
  "atc_IsDRAM phy_addr pf s = (mc_Contains phy_addr (atc_mc s), pf_AddTableOp pf)"

definition atc_CheckValid :: "Addr \<Rightarrow> int \<Rightarrow> 'm ATC \<Rightarrow> bool" where
  "atc_CheckValid phy_addr sz s \<longleftrightarrow>
     att_ToTag phy_addr (atc_att s) = att_ToTag (phy_addr + word_of_int sz - 1) (atc_att s)"

definition atc_FullBlock :: "Addr \<Rightarrow> int \<Rightarrow> 'm ATC \<Rightarrow> bool" where
  "atc_FullBlock phy_addr sz s \<longleftrightarrow>
     phy_addr AND word_of_int (att_block_size (atc_att s) - 1) = 0 \<and> sz = att_block_size (atc_att s)"

section \<open>Moving blocks\<close>

definition push_ckpt :: "Addr \<Rightarrow> Addr list option \<Rightarrow> Addr list option" where
  "push_ckpt a bl = map_option (\<lambda>l. l @ [a]) bl"

definition atc_CopyBlockIntra ::
  "'m MemStore \<Rightarrow> Addr \<Rightarrow> Addr \<Rightarrow> Addr list option \<Rightarrow> Profiler \<Rightarrow> 'm ATC \<Rightarrow> (Addr list option \<times> Profiler \<times> 'm ATC) option" where
  "atc_CopyBlockIntra ms dest src bl pf s = do {
     m \<leftarrow> MemCopy ms dest src (att_block_size (atc_att s)) (atc_mem s);
     Some (push_ckpt dest bl, pf_AddBlockMoveIntra 1 pf, s\<lparr>atc_mem := m\<rparr>) }"

definition atc_CopyBlockInter ::
  "'m MemStore \<Rightarrow> Addr \<Rightarrow> Addr \<Rightarrow> Addr list option \<Rightarrow> Profiler \<Rightarrow> 'm ATC \<Rightarrow> (Addr list option \<times> Profiler \<times> 'm ATC) option" where
  "atc_CopyBlockInter ms dest src bl pf s = do {
     m \<leftarrow> MemCopy ms dest src (att_block_size (atc_att s)) (atc_mem s);
     Some (push_ckpt dest bl, pf_AddBlockMoveInter 1 pf, s\<lparr>atc_mem := m\<rparr>) }"

definition atc_SwapBlock ::
  "'m MemStore \<Rightarrow> Addr \<Rightarrow> Addr \<Rightarrow> Addr list option \<Rightarrow> Profiler \<Rightarrow> 'm ATC \<Rightarrow> (Addr list option \<times> Profiler \<times> 'm ATC) option" where
  "atc_SwapBlock ms direct_addr mach_addr bl pf s = do {
     m \<leftarrow> MemSwap ms direct_addr mach_addr (att_block_size (atc_att s)) (atc_mem s);
     Some (push_ckpt mach_addr (push_ckpt direct_addr (push_ckpt direct_addr bl)),
           pf_AddBlockMoveIntra 3 pf, s\<lparr>atc_mem := m\<rparr>) }"

section \<open>Entry transitions\<close>

definition atc_Setup ::
  "'m MemStore \<Rightarrow> Addr \<Rightarrow> Addr \<Rightarrow> ATTState \<Rightarrow> bool \<Rightarrow> Profiler \<Rightarrow> 'm ATC \<Rightarrow> (int \<times> Profiler \<times> 'm ATC) option" where
  "atc_Setup ms phy_addr base st move_data pf s = do {
     cassert (st = DIRTY \<or> st = STAINED \<or> st = LOAN);
     let tag = att_ToTag phy_addr (atc_att s);
     (bl, pf, s) \<leftarrow> (if move_data
        then atc_CopyBlockIntra ms base (att_ToAddr tag (atc_att s)) None pf s
        else Some (None, pf, s));
     (index, pf, att) \<leftarrow> att_Setup tag base st pf (atc_att s);
     Some (index, pf, s\<lparr>atc_att := att\<rparr>) }"

definition atc_HideClean :: "'m MemStore \<Rightarrow> int \<Rightarrow> bool \<Rightarrow> Profiler \<Rightarrow> 'm ATC \<Rightarrow> (Profiler \<times> 'm ATC) option" where
  "atc_HideClean ms index move_data pf s = do {
     cassert (\<not> atc_ckpt s);
     entry \<leftarrow> att_At index (atc_att s);
     cassert (att_state entry = CLEAN);
     let phy_addr = att_ToAddr (phy_tag entry) (atc_att s);
     (bl, pf, s) \<leftarrow> (if move_data then atc_CopyBlockIntra ms phy_addr (mach_base entry) None pf s
                     else Some (None, pf, s));
     (pf, nvm) \<leftarrow> vb_SlotBackup (mach_base entry) BACKUP0 pf (atc_nvm s);
     (overlap, att) \<leftarrow> att_Reset index phy_addr HIDDEN pf (atc_att s);
     Some (pf, s\<lparr>atc_nvm := nvm, atc_att := att\<rparr>) }"

definition atc_ResetClean :: "'m MemStore \<Rightarrow> int \<Rightarrow> bool \<Rightarrow> Profiler \<Rightarrow> 'm ATC \<Rightarrow> (Addr \<times> Profiler \<times> 'm ATC) option" where
  "atc_ResetClean ms index move_data pf s = do {
     cassert (atc_ckpt s);
     entry \<leftarrow> att_At index (atc_att s);
     cassert (att_state entry = CLEAN);
     (base, pf, dram) \<leftarrow> vb_SlotAlloc pf (atc_dram s);
     let s = s\<lparr>atc_dram := dram\<rparr>;
     (bl, pf, s) \<leftarrow> (if move_data then atc_CopyBlockInter ms base (mach_base entry) None pf s
                     else Some (None, pf, s));
     (pf, nvm) \<leftarrow> vb_SlotBackup (mach_base entry) BACKUP1 pf (atc_nvm s);
     (overlap, att) \<leftarrow> att_Reset index base TEMP pf (atc_att s);
     Some (base, pf, s\<lparr>atc_nvm := nvm, atc_att := att\<rparr>) }"

definition atc_FreeClean :: "'m MemStore \<Rightarrow> int \<Rightarrow> Profiler \<Rightarrow> 'm ATC \<Rightarrow> (Profiler \<times> 'm ATC) option" where
  "atc_FreeClean ms index pf s = do {
     entry \<leftarrow> att_At index (atc_att s);
     cassert (att_state entry = CLEAN);
     let phy_addr = att_ToAddr (phy_tag entry) (atc_att s);
     (bl, pf, s) \<leftarrow> (if atc_ckpt s then atc_SwapBlock ms phy_addr (mach_base entry) None pf s
                     else atc_CopyBlockIntra ms phy_addr (mach_base entry) None pf s);
     (pf, nvm) \<leftarrow> vb_SlotBackup (mach_base entry) (VBState_of_bool (atc_ckpt s)) pf (atc_nvm s);
     (overlap, att) \<leftarrow> att_ShiftState index FREE pf (atc_att s);
     Some (pf, s\<lparr>atc_nvm := nvm, atc_att := att\<rparr>) }"

definition atc_DirtyStained ::
  "'m MemStore \<Rightarrow> int \<Rightarrow> bool \<Rightarrow> Addr list option \<Rightarrow> Profiler \<Rightarrow> 'm ATC \<Rightarrow> (Addr \<times> Addr list option \<times> Profiler \<times> 'm ATC) option" where
  "atc_DirtyStained ms index move_data bl pf s = do {
     cassert (\<not> atc_ckpt s);
     entry \<leftarrow> att_At index (atc_att s);
     cassert (att_state entry = STAINED);
     (base, pf, nvm) \<leftarrow> vb_SlotAlloc pf (atc_nvm s);
     let s = s\<lparr>atc_nvm := nvm\<rparr>;
     (bl, pf, s) \<leftarrow> (if move_data
        then do { (none, pf, s) \<leftarrow> atc_CopyBlockInter ms base (mach_base entry) None pf s;
                  Some (push_ckpt base bl, pf, s) }
        else Some (bl, pf, s));
     (pf, dram) \<leftarrow> vb_FreeSlot (mach_base entry) IN_USE pf (atc_dram s);
     (overlap, att) \<leftarrow> att_Reset index base DIRTY pf (atc_att s);
     Some (base, bl, pf, s\<lparr>atc_dram := dram, atc_att := att\<rparr>) }"

definition atc_FreeLoan ::
  "'m MemStore \<Rightarrow> int \<Rightarrow> bool \<Rightarrow> Addr list option \<Rightarrow> Profiler \<Rightarrow> 'm ATC \<Rightarrow> (Addr list option \<times> Profiler \<times> 'm ATC) option" where
  "atc_FreeLoan ms index move_data bl pf s = do {
     cassert (\<not> atc_ckpt s);
     entry \<leftarrow> att_At index (atc_att s);
     cassert (att_state entry = LOAN);
     let phy_addr = att_ToAddr (phy_tag entry) (atc_att s);
     (bl, pf, s) \<leftarrow> (if move_data
        then do { cassert (fst (atc_IsDRAM phy_addr pf s));
                  (none, pf, s) \<leftarrow> atc_CopyBlockIntra ms phy_addr (mach_base entry) None pf s;
                  Some (push_ckpt phy_addr bl, pf, s) }
        else Some (bl, pf, s));
     (pf, dram) \<leftarrow> vb_FreeSlot (mach_base entry) IN_USE pf (atc_dram s);
     (overlap, att) \<leftarrow> att_ShiftState index FREE pf (atc_att s);
     Some (bl, pf, s\<lparr>atc_dram := dram, atc_att := att\<rparr>) }"

definition atc_HideTemp ::
  "'m MemStore \<Rightarrow> int \<Rightarrow> bool \<Rightarrow> Addr list option \<Rightarrow> Profiler \<Rightarrow> 'm ATC \<Rightarrow> (Addr list option \<times> Profiler \<times> 'm ATC) option" where
  "atc_HideTemp ms index move_data bl pf s = do {
     cassert (\<not> atc_ckpt s);
     entry \<leftarrow> att_At index (atc_att s);
     cassert (att_state entry = TEMP);
     let phy_addr = att_ToAddr (phy_tag entry) (atc_att s);
     (bl, pf, s) \<leftarrow> (if move_data
        then do { cassert (\<not> fst (atc_IsDRAM phy_addr pf s));
                  (none, pf, s) \<leftarrow> atc_CopyBlockInter ms phy_addr (mach_base entry) None pf s;
                  Some (push_ckpt phy_addr bl, pf, s) }
        else Some (bl, pf, s));
     (pf, dram) \<leftarrow> vb_FreeSlot (mach_base entry) IN_USE pf (atc_dram s);
     (overlap, att) \<leftarrow> att_Reset index phy_addr HIDDEN pf (atc_att s);
     Some (bl, pf, s\<lparr>atc_dram := dram, atc_att := att\<rparr>) }"

text \<open>\<open>Discard\<close> takes the buffer by reference: \<open>True\<close> stands for \<open>nvm_buffer_\<close>, \<open>False\<close> for \<open>dram_buffer_\<close>.\<close>

definition atc_Discard :: "int \<Rightarrow> bool \<Rightarrow> Profiler \<Rightarrow> 'm ATC \<Rightarrow> (Profiler \<times> 'm ATC) option" where
  "atc_Discard index nvm pf s = do {
     cassert (\<not> atc_ckpt s);
     entry \<leftarrow> att_At index (atc_att s);
     (overlap, vb) \<leftarrow> vb_FreeSlot (mach_base entry) IN_USE pf (if nvm then atc_nvm s else atc_dram s);
     let s = (if nvm then s\<lparr>atc_nvm := vb\<rparr> else s\<lparr>atc_dram := vb\<rparr>);
     (pf, att) \<leftarrow> att_ShiftState index FREE pf (atc_att s);
     Some (pf, s\<lparr>atc_att := att\<rparr>) }"

section \<open>Loads and stores\<close>

text \<open>The latency is an \<open>int64_t\<close>, which \<open>AddLatency\<close> takes as an \<open>int\<close>.\<close>

definition atc_ReadLatency ::
  "'m MemStore \<Rightarrow> Addr \<Rightarrow> bool \<Rightarrow> PTTEntry option \<Rightarrow> Profiler \<Rightarrow> 'm ATC \<Rightarrow> (Profiler \<times> 'm ATC) option" where
  "atc_ReadLatency ms a dram page pf s = do {
     (lat, m) \<leftarrow> GetReadLatency ms a dram page (atc_mem s);
     pf \<leftarrow> pf_AddLatency (int32 lat) pf;
     Some (pf, s\<lparr>atc_mem := m\<rparr>) }"

definition atc_WriteLatency ::
  "'m MemStore \<Rightarrow> Addr \<Rightarrow> bool \<Rightarrow> PTTEntry option \<Rightarrow> Profiler \<Rightarrow> 'm ATC \<Rightarrow> (Profiler \<times> 'm ATC) option" where
  "atc_WriteLatency ms a dram page pf s = do {
     (lat, m) \<leftarrow> GetWriteLatency ms a dram page (atc_mem s);
     pf \<leftarrow> pf_AddLatency (int32 lat) pf;
     Some (pf, s\<lparr>atc_mem := m\<rparr>) }"

definition atc_hook :: "('m \<Rightarrow> 'm option) \<Rightarrow> 'm ATC \<Rightarrow> 'm ATC option" where
  "atc_hook f s = do { m \<leftarrow> f (atc_mem s); Some (s\<lparr>atc_mem := m\<rparr>) }"

definition atc_LoadAddr :: "'m MemStore \<Rightarrow> Addr \<Rightarrow> Profiler \<Rightarrow> 'm ATC \<Rightarrow> (Addr \<times> Profiler \<times> 'm ATC) option" where
  "atc_LoadAddr ms phy_addr pf s = do {
     (index, pf, att) \<leftarrow> att_Lookup (att_ToTag phy_addr (atc_att s)) pf (atc_att s);
     let s = s\<lparr>atc_att := att\<rparr>;
     if index \<noteq> - EINVAL then do {
       entry \<leftarrow> att_At index (atc_att s);
       att \<leftarrow> att_AddBlockRead index (atc_att s);
       let s = s\<lparr>atc_att := att\<rparr>;
       mach_addr \<leftarrow> att_Translate phy_addr (mach_base entry) (atc_att s);
       let is_dram = (att_state entry = TEMP \<or> att_state entry = LOAN \<or> att_state entry = STAINED);
       (pf, s) \<leftarrow> atc_ReadLatency ms mach_addr is_dram None pf s;
       Some (mach_addr, pf, s) }
     else do {
       let (page, pf) = mc_LookupPage phy_addr pf (atc_mc s);
       if pt_index page < 0 then do {
         (pf, s) \<leftarrow> atc_ReadLatency ms phy_addr False None pf s;
         Some (phy_addr, pf, s) }
       else do {
         mc \<leftarrow> mc_AddDRAMPageRead (pt_mach_base page) (atc_mc s);
         let s = s\<lparr>atc_mc := mc\<rparr>;
         mach_addr \<leftarrow> mc_Translate phy_addr (pt_mach_base page) (atc_mc s);
         (pf, s) \<leftarrow> atc_ReadLatency ms mach_addr True (Some page) pf s;
         Some (mach_addr, pf, s) } } }"

text \<open>Making room for a new entry during checkpointing, on the way to a \<open>LOAN\<close> or \<open>STAINED\<close> entry.\<close>

definition atc_free_entry_ckpt :: "'m MemStore \<Rightarrow> ATTState \<Rightarrow> Profiler \<Rightarrow> 'm ATC \<Rightarrow> (Profiler \<times> 'm ATC) option" where
  "atc_free_entry_ckpt ms st pf s = do {
     empty \<leftarrow> att_IsEmpty FREE (atc_att s);
     if empty then do {
       none \<leftarrow> att_IsEmpty CLEAN (atc_att s);
       cassert (\<not> none);
       ci \<leftarrow> att_GetFront CLEAN (atc_att s);
       (pf, s) \<leftarrow> atc_FreeClean ms ci pf s;
       s \<leftarrow> atc_hook (OnATTWriteMiss ms st) s;
       Some (pf, s) }
     else do {
       s \<leftarrow> atc_hook (OnATTWriteHit ms st) s;
       Some (pf, s) } }"

definition atc_DRAMStore ::
  "'m MemStore \<Rightarrow> Addr \<Rightarrow> int \<Rightarrow> PTTEntry \<Rightarrow> Profiler \<Rightarrow> 'm ATC \<Rightarrow> (Addr \<times> Profiler \<times> 'm ATC) option" where
  "atc_DRAMStore ms phy_addr sz page pf s = do {
     (index, pf, att) \<leftarrow> att_Lookup (att_ToTag phy_addr (atc_att s)) pf (atc_att s);
     let s = s\<lparr>atc_att := att\<rparr>;
     if index \<noteq> - EINVAL then do {
       entry \<leftarrow> att_At index (atc_att s);
       s \<leftarrow> atc_hook (OnATTWriteHit ms (att_state entry)) s;
       if atc_ckpt s then do {
         (pf, s) \<leftarrow> atc_WriteLatency ms phy_addr True None pf s;
         mach_addr \<leftarrow> att_Translate phy_addr (mach_base entry) (atc_att s);
         Some (mach_addr, pf, s) }
       else do {
         (bl, pf, s) \<leftarrow> atc_FreeLoan ms index (\<not> atc_FullBlock phy_addr sz s) None pf s;
         (pf, s) \<leftarrow> atc_WriteLatency ms phy_addr True (Some page) pf s;
         Some (phy_addr, pf, s) } }
     else if atc_ckpt s then do {
       (pf, s) \<leftarrow> atc_free_entry_ckpt ms LOAN pf s;
       (base, overlap, dram) \<leftarrow> vb_SlotAlloc pf (atc_dram s);
       let s = s\<lparr>atc_dram := dram\<rparr>;
       (index, pf, s) \<leftarrow> atc_Setup ms phy_addr base LOAN (\<not> atc_FullBlock phy_addr sz s) pf s;
       mach_addr \<leftarrow> att_Translate phy_addr base (atc_att s);
       (pf, s) \<leftarrow> atc_WriteLatency ms mach_addr True None pf s;
       Some (mach_addr, pf, s) }
     else do {
       s \<leftarrow> atc_hook (ckDRAMWriteHit ms) s;
       (pf, s) \<leftarrow> atc_WriteLatency ms phy_addr True (Some page) pf s;
       Some (phy_addr, pf, s) } }"

text \<open>The running half of \<open>NVMStore\<close>, up to the translated address, and its checkpointing half.\<close>

definition atc_nvm_hit_run ::
  "'m MemStore \<Rightarrow> Addr \<Rightarrow> int \<Rightarrow> int \<Rightarrow> Profiler \<Rightarrow> 'm ATC \<Rightarrow> (Addr \<times> Profiler \<times> 'm ATC) option" where
  "atc_nvm_hit_run ms phy_addr sz index pf s = do {
     entry \<leftarrow> att_At index (atc_att s);
     s \<leftarrow> atc_hook (OnATTWriteHit ms (att_state entry)) s;
     let move_data = (\<not> atc_FullBlock phy_addr sz s);
     if att_state entry = TEMP then do {
       (bl, pf, s) \<leftarrow> atc_HideTemp ms index move_data None pf s;
       entry \<leftarrow> att_At index (atc_att s);
       mach_addr \<leftarrow> att_Translate phy_addr (mach_base entry) (atc_att s);
       Some (mach_addr, pf, s) }
     else if att_state entry = DIRTY \<or> att_state entry = HIDDEN then do {
       mach_addr \<leftarrow> att_Translate phy_addr (mach_base entry) (atc_att s);
       Some (mach_addr, pf, s) }
     else if att_state entry = STAINED then do {
       (base, bl, pf, s) \<leftarrow> atc_DirtyStained ms index move_data None pf s;
       mach_addr \<leftarrow> att_Translate phy_addr base (atc_att s);
       Some (mach_addr, pf, s) }
     else do {
       (pf, s) \<leftarrow> atc_HideClean ms index move_data pf s;
       Some (phy_addr, pf, s) } }"

definition atc_free_entry_run :: "'m MemStore \<Rightarrow> Profiler \<Rightarrow> 'm ATC \<Rightarrow> (Profiler \<times> 'm ATC) option" where
  "atc_free_entry_run ms pf s = do {
     empty \<leftarrow> att_IsEmpty FREE (atc_att s);
     if empty then do {
       no_loan \<leftarrow> att_IsEmpty LOAN (atc_att s);
       (pf, s) \<leftarrow> (if \<not> no_loan then do {
           li \<leftarrow> att_GetFront LOAN (atc_att s);
           (bl, pf, s) \<leftarrow> atc_FreeLoan ms li True None pf s;
           Some (pf, s) }
         else do {
           no_clean \<leftarrow> att_IsEmpty CLEAN (atc_att s);
           cassert (\<not> no_clean);
           ci \<leftarrow> att_GetFront CLEAN (atc_att s);
           atc_FreeClean ms ci pf s });
       s \<leftarrow> atc_hook (OnATTWriteMiss ms DIRTY) s;
       Some (pf, s) }
     else do {
       s \<leftarrow> atc_hook (OnATTWriteHit ms DIRTY) s;
       Some (pf, s) } }"

definition atc_nvm_hit_ckpt ::
  "'m MemStore \<Rightarrow> Addr \<Rightarrow> int \<Rightarrow> int \<Rightarrow> Profiler \<Rightarrow> 'm ATC \<Rightarrow> (Addr \<times> Profiler \<times> 'm ATC) option" where
  "atc_nvm_hit_ckpt ms phy_addr sz index pf s = do {
     entry \<leftarrow> att_At index (atc_att s);
     s \<leftarrow> atc_hook (OnATTWriteHit ms (att_state entry)) s;
     if att_state entry = TEMP \<or> att_state entry = STAINED then do {
       mach_addr \<leftarrow> att_Translate phy_addr (mach_base entry) (atc_att s);
       Some (mach_addr, pf, s) }
     else do {
       (base, pf, s) \<leftarrow> atc_ResetClean ms index (\<not> atc_FullBlock phy_addr sz s) pf s;
       mach_addr \<leftarrow> att_Translate phy_addr base (atc_att s);
       Some (mach_addr, pf, s) } }"

definition atc_NVMStore ::
  "'m MemStore \<Rightarrow> Addr \<Rightarrow> int \<Rightarrow> Profiler \<Rightarrow> 'm ATC \<Rightarrow> (Addr \<times> Profiler \<times> 'm ATC) option" where
  "atc_NVMStore ms phy_addr sz pf s = do {
     (index, pf, att) \<leftarrow> att_Lookup (att_ToTag phy_addr (atc_att s)) pf (atc_att s);
     let s = s\<lparr>atc_att := att\<rparr>;
     if \<not> atc_ckpt s then do {
       (index, mach_addr, pf, s) \<leftarrow> (if index \<noteq> - EINVAL then do {
           (mach_addr, pf, s) \<leftarrow> atc_nvm_hit_run ms phy_addr sz index pf s;
           Some (index, mach_addr, pf, s) }
         else do {
           (pf, s) \<leftarrow> atc_free_entry_run ms pf s;
           (base, overlap, nvm) \<leftarrow> vb_SlotAlloc pf (atc_nvm s);
           let s = s\<lparr>atc_nvm := nvm\<rparr>;
           (index, pf, s) \<leftarrow> atc_Setup ms phy_addr base DIRTY (\<not> atc_FullBlock phy_addr sz s) pf s;
           mach_addr \<leftarrow> att_Translate phy_addr base (atc_att s);
           Some (index, mach_addr, pf, s) });
       (pf, s) \<leftarrow> atc_WriteLatency ms mach_addr False None pf s;
       att \<leftarrow> att_AddBlockWrite index (atc_att s);
       Some (mach_addr, pf, s\<lparr>atc_att := att\<rparr>) }
     else do {
       (index, mach_addr, pf, s) \<leftarrow> (if index \<noteq> - EINVAL then do {
           (mach_addr, pf, s) \<leftarrow> atc_nvm_hit_ckpt ms phy_addr sz index pf s;
           Some (index, mach_addr, pf, s) }
         else do {
           (pf, s) \<leftarrow> atc_free_entry_ckpt ms STAINED pf s;
           (base, overlap, dram) \<leftarrow> vb_SlotAlloc pf (atc_dram s);
           let s = s\<lparr>atc_dram := dram\<rparr>;
           (index, pf, s) \<leftarrow> atc_Setup ms phy_addr base STAINED (\<not> atc_FullBlock phy_addr sz s) pf s;
           mach_addr \<leftarrow> att_Translate phy_addr base (atc_att s);
           Some (index, mach_addr, pf, s) });
       (pf, s) \<leftarrow> atc_WriteLatency ms mach_addr True None pf s;
       att \<leftarrow> att_AddBlockWrite index (atc_att s);
       Some (mach_addr, pf, s\<lparr>atc_att := att\<rparr>) } }"

text \<open>The test \<open>IsEmpty(FREE) && IsEmpty(CLEAN)\<close>, and the probe that precedes every write.\<close>

definition atc_no_room :: "'m ATC \<Rightarrow> bool option" where
  "atc_no_room s = do {
     free \<leftarrow> att_IsEmpty FREE (atc_att s);
     if free then att_IsEmpty CLEAN (atc_att s) else Some False }"

definition atc_Probe :: "Addr \<Rightarrow> 'm ATC \<Rightarrow> Control option" where
  "atc_Probe phy_addr s =
     (if mc_Contains phy_addr (atc_mc s) then
        (if atc_ckpt s \<and> \<not> att_Contains phy_addr (atc_att s) then do {
           full \<leftarrow> atc_no_room s;
           Some (if full then WAIT_CKPT else REG_WRITE) }
         else Some REG_WRITE)
      else if \<not> att_Contains phy_addr (atc_att s) then
        (if atc_ckpt s then do {
           full \<leftarrow> atc_no_room s;
           Some (if full then WAIT_CKPT else REG_WRITE) }
         else do {
           dirty \<leftarrow> att_GetLength DIRTY (atc_att s);
           Some (if dirty = att_length (atc_att s) \<or> mc_dirty_entries (atc_mc s) \<ge> mc_ptt_length (atc_mc s)
                 then NEW_EPOCH else REG_WRITE) })
      else Some REG_WRITE)"

definition atc_StoreAddr ::
  "'m MemStore \<Rightarrow> Addr \<Rightarrow> int \<Rightarrow> Profiler \<Rightarrow> 'm ATC \<Rightarrow> (Addr \<times> Profiler \<times> 'm ATC) option" where
  "atc_StoreAddr ms phy_addr sz pf s = do {
     cassert (atc_CheckValid phy_addr sz s \<and> phy_addr < atc_phy_range s);
     let (page, pf) = mc_LookupPage phy_addr pf (atc_mc s);
     if pt_index page < 0 then do {
       s \<leftarrow> atc_hook (statsNVMWrites ms 1) s;
       atc_NVMStore ms phy_addr sz pf s }
     else do {
       mc \<leftarrow> mc_AddDRAMPageWrite (pt_mach_base page) (atc_mc s);
       (page, pf, mc) \<leftarrow> (
         if pt_state page = CLEAN_STATIC then do {
           (pf, mc) \<leftarrow> mc_ShiftState (pt_mach_base page) DIRTY_DIRECT pf mc;
           Some (page\<lparr>pt_state := DIRTY_DIRECT\<rparr>, pf, mc) }
         else if pt_state page = CLEAN_DIRECT then do {
           (pf, mc) \<leftarrow> mc_ShiftState (pt_mach_base page) DIRTY_STATIC pf mc;
           Some (page\<lparr>pt_state := DIRTY_STATIC\<rparr>, pf, mc) }
         else Some (page, pf, mc));
       s \<leftarrow> atc_hook (statsDRAMWrites ms 1) (s\<lparr>atc_mc := mc\<rparr>);
       atc_DRAMStore ms phy_addr sz page pf s } }"

section \<open>Checkpointing\<close>

type_synonym 'm visit = "Addr list option \<times> Profiler \<times> 'm ATC"

definition atc_DirtyCleaner_Visit :: "'m MemStore \<Rightarrow> int \<Rightarrow> 'm visit \<Rightarrow> 'm visit option" where
  "atc_DirtyCleaner_Visit ms i v = do {
     let (bl, pf, s) = v;
     entry \<leftarrow> att_At i (atc_att s);
     (bl, pf, s) \<leftarrow> (if att_state entry = STAINED then do {
         (base, bl, pf, s) \<leftarrow> atc_DirtyStained ms i True bl pf s;
         Some (bl, pf, s) }
       else if att_state entry = TEMP then atc_HideTemp ms i True bl pf s
       else Some (bl, pf, s));
     entry \<leftarrow> att_At i (atc_att s);
     if att_state entry = DIRTY then do {
       (overlap, att) \<leftarrow> att_ShiftState i CLEAN pf (atc_att s);
       Some (bl, pf, s\<lparr>atc_att := att\<rparr>) }
     else if att_state entry = HIDDEN then do {
       (overlap, att) \<leftarrow> att_ShiftState i FREE pf (atc_att s);
       Some (bl, pf, s\<lparr>atc_att := att\<rparr>) }
     else Some (bl, pf, s) }"

definition atc_LoanRevoker_Visit :: "'m MemStore \<Rightarrow> int \<Rightarrow> 'm visit \<Rightarrow> 'm visit option" where
  "atc_LoanRevoker_Visit ms i v = do {
     let (bl, pf, s) = v;
     entry \<leftarrow> att_At i (atc_att s);
     cassert (att_state entry = LOAN);
     atc_FreeLoan ms i True bl pf s }"

definition atc_BeginCheckpointing ::
  "'m MemStore \<Rightarrow> Addr list \<Rightarrow> Profiler \<Rightarrow> 'm ATC \<Rightarrow> (Addr list \<times> Profiler \<times> 'm ATC) option" where
  "atc_BeginCheckpointing ms ckpt_blocks pf s = do {
     cassert (\<not> atc_ckpt s);
     (num, bl, pf, s) \<leftarrow> att_VisitQueue (\<lambda>v. atc_att (snd (snd v))) DIRTY (atc_DirtyCleaner_Visit ms)
        (Some ckpt_blocks, pf, s);
     ckpt_blocks \<leftarrow> bl;
     clean \<leftarrow> att_GetLength CLEAN (atc_att s);
     free \<leftarrow> att_GetLength FREE (atc_att s);
     cassert (clean + free = att_length (atc_att s));
     let pf = pf_AddTableOp pf;
     let s = s\<lparr>atc_ckpt := True\<rparr>;
     let (pf, att) = att_ClearStats pf (atc_att s);
     let s = s\<lparr>atc_att := att\<rparr>;
     (pf, ckpt_blocks, mc) \<leftarrow> mc_Clear pf ckpt_blocks (atc_mc s);
     Some (ckpt_blocks, pf, s\<lparr>atc_mc := mc\<rparr>) }"

definition atc_FinishCheckpointing :: "'m MemStore \<Rightarrow> Profiler \<Rightarrow> 'm ATC \<Rightarrow> 'm ATC option" where
  "atc_FinishCheckpointing ms pf_null s = do {
     cassert (atc_ckpt s);
     (null, nvm) \<leftarrow> vb_ClearBackup pf_null (atc_nvm s);
     atc_hook (OnEpochEnd ms) (s\<lparr>atc_nvm := nvm, atc_ckpt := False\<rparr>) }"

section \<open>Migration\<close>

definition atc_MigrateDRAM ::
  "DRAMPageStats \<Rightarrow> Addr list \<Rightarrow> Profiler \<Rightarrow> 'm ATC \<Rightarrow> (Addr list \<times> Profiler \<times> 'm ATC) option" where
  "atc_MigrateDRAM stats ckpt_blocks pf s = do {
     (ckpt_blocks, pf) \<leftarrow> (
       if dp_state stats = CLEAN_STATIC then do {
         bl \<leftarrow> mc_AddToBlockList (dp_phy_addr stats) ckpt_blocks (atc_mc s);
         Some (bl, pf_AddPageMoveIntra 1 pf) }
       else if dp_state stats = DIRTY_DIRECT then do {
         bl \<leftarrow> mc_AddToBlockList (dp_phy_addr stats) ckpt_blocks (atc_mc s);
         Some (bl, pf_AddPageMoveInter 1 pf) }
       else if dp_state stats = DIRTY_STATIC then do {
         bl \<leftarrow> mc_AddToBlockList (dp_phy_addr stats) ckpt_blocks (atc_mc s);
         bl \<leftarrow> mc_AddToBlockList (dp_phy_addr stats) bl (atc_mc s);
         Some (bl, pf_AddPageMoveInter 1 (pf_AddPageMoveIntra 1 pf)) }
       else Some (ckpt_blocks, pf));
     (pf, mc) \<leftarrow> mc_Free (dp_phy_addr stats) pf (atc_mc s);
     Some (ckpt_blocks, pf, s\<lparr>atc_mc := mc\<rparr>) }"

text \<open>One block of the page that \<open>MigrateNVM\<close> moves out.\<close>

definition atc_migrate_block ::
  "'m MemStore \<Rightarrow> Tag \<Rightarrow> Addr list \<Rightarrow> Profiler \<Rightarrow> 'm ATC \<Rightarrow> (Addr list \<times> Profiler \<times> 'm ATC) option" where
  "atc_migrate_block ms tag ckpt_blocks pf s = do {
     (index, pf, att) \<leftarrow> att_Lookup tag pf (atc_att s);
     let s = s\<lparr>atc_att := att\<rparr>;
     if index = - EINVAL then Some (ckpt_blocks, pf_AddBlockMoveInter 1 pf, s)
     else do {
       entry \<leftarrow> att_At index (atc_att s);
       pf \<leftarrow> pf_set_ignore_latency pf;
       let home = att_ToAddr (phy_tag entry) (atc_att s);
       (ckpt_blocks, pf, s) \<leftarrow> (
         if att_state entry = CLEAN \<or> att_state entry = DIRTY then do {
           (none, pf, s) \<leftarrow> atc_CopyBlockIntra ms home (mach_base entry) None (pf_AddBlockMoveInter 1 pf) s;
           (pf, s) \<leftarrow> atc_Discard index True pf s;
           Some (ckpt_blocks @ [home], pf, s) }
         else if att_state entry = STAINED \<or> att_state entry = TEMP then do {
           (none, pf, s) \<leftarrow> atc_CopyBlockInter ms home (mach_base entry) None (pf_AddBlockMoveIntra 1 pf) s;
           (pf, s) \<leftarrow> atc_Discard index False pf s;
           Some (ckpt_blocks @ [home], pf, s) }
         else do {
           cassert (att_state entry \<noteq> LOAN);
           cassert (att_state entry \<noteq> FREE);
           (pf, att) \<leftarrow> att_ShiftState index FREE (pf_AddBlockMoveInter 1 pf) (atc_att s);
           Some (ckpt_blocks, pf, s\<lparr>atc_att := att\<rparr>) });
       pf \<leftarrow> pf_clear_ignore_latency pf;
       Some (ckpt_blocks, pf, s) } }"

partial_function (option) atc_migrate_blocks ::
  "'m MemStore \<Rightarrow> Tag \<Rightarrow> Tag \<Rightarrow> Addr list \<Rightarrow> Profiler \<Rightarrow> 'm ATC \<Rightarrow> (Addr list \<times> Profiler \<times> 'm ATC) option" where
  [code]: "atc_migrate_blocks ms next_page tag ckpt_blocks pf s =
     (if tag < next_page then do {
        r \<leftarrow> atc_migrate_block ms tag ckpt_blocks pf s;
        atc_migrate_blocks ms next_page (tag + 1) (fst r) (fst (snd r)) (snd (snd r)) }
      else Some (ckpt_blocks, pf, s))"

definition atc_MigrateNVM ::
  "'m MemStore \<Rightarrow> NVMPageStats \<Rightarrow> Addr list \<Rightarrow> Profiler \<Rightarrow> 'm ATC \<Rightarrow> (Addr list \<times> Profiler \<times> 'm ATC) option" where
  "atc_MigrateNVM ms stats ckpt_blocks pf s = do {
     let phy_tag = att_ToTag (np_phy_addr stats) (atc_att s);
     let next_page = att_ToTag (np_phy_addr stats + word_of_int (mc_page_size (atc_mc s))) (atc_att s);
     cassert (next_page - phy_tag = word_of_int (mc_page_blocks (atc_mc s)));
     (ckpt_blocks, pf, s) \<leftarrow> atc_migrate_blocks ms next_page phy_tag ckpt_blocks pf s;
     (pf, mc) \<leftarrow> mc_Setup (np_phy_addr stats) (if np_dirty_ratio stats > 1 / 2 then CLEAN_STATIC else CLEAN_DIRECT) pf (atc_mc s);
     let s = s\<lparr>atc_mc := mc\<rparr>;
     ckpt_blocks \<leftarrow> mc_AddToBlockList (np_phy_addr stats) ckpt_blocks (atc_mc s);
     Some (ckpt_blocks, pf, s\<lparr>atc_pages_to_dram := atc_pages_to_dram s + 1\<rparr>) }"

text \<open>
  The first loop of \<open>MigratePages\<close>. It ends at \<open>break\<close> or when the heap is empty (\<open>Some d\<close> is the DRAM page
  it found but did not move, the flag \<open>d_ready\<close>), or leaves the whole function (\<open>False\<close>).
\<close>

definition atc_migrate_in_step ::
  "'m MemStore \<Rightarrow> rat \<Rightarrow> Addr list \<Rightarrow> Profiler \<Rightarrow> 'm ATC \<Rightarrow>
     ((bool \<times> DRAMPageStats option) option \<times> Addr list \<times> Profiler \<times> 'm ATC) option" where
  "atc_migrate_in_step ms dr ckpt_blocks pf s = do {
     (n, pf, mc) \<leftarrow> mc_ExtractNVMPage pf (atc_mc s);
     let s = s\<lparr>atc_mc := mc\<rparr>;
     (case n of
        None \<Rightarrow> Some (Some (True, None), ckpt_blocks, pf, s)
      | Some n \<Rightarrow>
          if np_dirty_ratio n < dr then Some (Some (True, None), ckpt_blocks, pf, s)
          else if mc_num_entries (atc_mc s) = mc_ptt_capacity (atc_mc s) then do {
            (d, overlap, mc) \<leftarrow> mc_ExtractDRAMPage pf (atc_mc s);
            let s = s\<lparr>atc_mc := mc\<rparr>;
            (case d of
               None \<Rightarrow> Some (Some (False, None), ckpt_blocks, pf, s)
             | Some d \<Rightarrow>
                 if dp_write_ratio d > 0 then Some (Some (True, Some d), ckpt_blocks, pf, s)
                 else do {
                   pf \<leftarrow> pf_set_ignore_latency pf;
                   (ckpt_blocks, pf, s) \<leftarrow> atc_MigrateDRAM d ckpt_blocks pf s;
                   pf \<leftarrow> pf_clear_ignore_latency pf;
                   (ckpt_blocks, pf, s) \<leftarrow> atc_MigrateNVM ms n ckpt_blocks pf s;
                   Some (None, ckpt_blocks, pf, s) }) }
          else do {
            (ckpt_blocks, pf, s) \<leftarrow> atc_MigrateNVM ms n ckpt_blocks pf s;
            Some (None, ckpt_blocks, pf, s) }) }"

partial_function (option) atc_migrate_in ::
  "'m MemStore \<Rightarrow> rat \<Rightarrow> Addr list \<Rightarrow> Profiler \<Rightarrow> 'm ATC \<Rightarrow>
     ((bool \<times> DRAMPageStats option) \<times> Addr list \<times> Profiler \<times> 'm ATC) option" where
  [code]: "atc_migrate_in ms dr ckpt_blocks pf s = do {
     r \<leftarrow> atc_migrate_in_step ms dr ckpt_blocks pf s;
     if fst r = None
     then atc_migrate_in ms dr (fst (snd r)) (fst (snd (snd r))) (snd (snd (snd r)))
     else Some (the (fst r), snd r) }"

text \<open>
  The second loop: the body, then the loop condition, which extracts the next page. \<open>continue\<close> goes to the
  condition, with \<open>Profiler::Null\<close> when the page had no writes.
\<close>

definition atc_migrate_out_body ::
  "rat \<Rightarrow> int \<Rightarrow> DRAMPageStats \<Rightarrow> Addr list \<Rightarrow> Profiler \<Rightarrow> 'm ATC \<Rightarrow>
     (bool \<times> int \<times> Addr list \<times> Profiler \<times> 'm ATC) option" where
  "atc_migrate_out_body wr limit d ckpt_blocks pf s =
     (if dp_write_ratio d = 0 then Some (True, limit, ckpt_blocks, pf, s)
      else if dp_write_ratio d > wr then Some (False, limit, ckpt_blocks, pf, s)
      else do {
        pf \<leftarrow> pf_set_ignore_latency pf;
        (ckpt_blocks, pf, s) \<leftarrow> atc_MigrateDRAM d ckpt_blocks pf s;
        pf \<leftarrow> pf_clear_ignore_latency pf;
        Some (True, limit - 1, ckpt_blocks, pf, s\<lparr>atc_pages_to_nvm := atc_pages_to_nvm s + 1\<rparr>) })"

definition atc_migrate_out_cond ::
  "int \<Rightarrow> DRAMPageStats \<Rightarrow> Profiler \<Rightarrow> 'm ATC \<Rightarrow> (DRAMPageStats option \<times> Profiler \<times> 'm ATC) option" where
  "atc_migrate_out_cond limit d pf s =
     (if limit = 0 then Some (None, pf, s)
      else do {
        (d', pf', mc) \<leftarrow> mc_ExtractDRAMPage pf (atc_mc s);
        Some (d', if dp_write_ratio d = 0 then pf else pf', s\<lparr>atc_mc := mc\<rparr>) })"

definition atc_migrate_out_step ::
  "rat \<Rightarrow> int \<Rightarrow> DRAMPageStats \<Rightarrow> Addr list \<Rightarrow> Profiler \<Rightarrow> 'm ATC \<Rightarrow>
     (DRAMPageStats option \<times> int \<times> Addr list \<times> Profiler \<times> 'm ATC) option" where
  "atc_migrate_out_step wr limit d ckpt_blocks pf s = do {
     (more, limit, ckpt_blocks, pf, s) \<leftarrow> atc_migrate_out_body wr limit d ckpt_blocks pf s;
     (d, pf, s) \<leftarrow> (if more then atc_migrate_out_cond limit d pf s else Some (None, pf, s));
     Some (d, limit, ckpt_blocks, pf, s) }"

partial_function (option) atc_migrate_out ::
  "rat \<Rightarrow> int \<Rightarrow> DRAMPageStats \<Rightarrow> Addr list \<Rightarrow> Profiler \<Rightarrow> 'm ATC \<Rightarrow> (Addr list \<times> Profiler \<times> 'm ATC) option" where
  [code]: "atc_migrate_out wr limit d ckpt_blocks pf s = do {
     r \<leftarrow> atc_migrate_out_step wr limit d ckpt_blocks pf s;
     if fst r = None then Some (snd (snd r))
     else atc_migrate_out wr (fst (snd r)) (the (fst r)) (fst (snd (snd r))) (fst (snd (snd (snd r)))) (snd (snd (snd (snd r)))) }"

definition atc_MigratePages ::
  "'m MemStore \<Rightarrow> rat \<Rightarrow> rat \<Rightarrow> Addr list \<Rightarrow> Profiler \<Rightarrow> 'm ATC \<Rightarrow> (Addr list \<times> Profiler \<times> 'm ATC) option" where
  "atc_MigratePages ms dr wr ckpt_blocks pf s = do {
     cassert (\<not> atc_ckpt s);
     (num, bl, pf, s) \<leftarrow> att_VisitQueue (\<lambda>v. atc_att (snd (snd v))) LOAN (atc_LoanRevoker_Visit ms)
        (Some ckpt_blocks, pf, s);
     ckpt_blocks \<leftarrow> bl;
     no_loan \<leftarrow> att_IsEmpty LOAN (atc_att s);
     cassert no_loan;
     mc \<leftarrow> mc_InputBlocks (att_entries (atc_att s)) (atc_mc s);
     let s = s\<lparr>atc_mc := mc\<rparr>;
     ((proceed, d), ckpt_blocks, pf, s) \<leftarrow> atc_migrate_in ms dr ckpt_blocks pf s;
     if \<not> proceed then Some (ckpt_blocks, pf, s)
     else do {
       (d, pf, s) \<leftarrow> (case d of
          Some d \<Rightarrow> Some (Some d, pf, s)
        | None \<Rightarrow> do { (d, pf, mc) \<leftarrow> mc_ExtractDRAMPage pf (atc_mc s); Some (d, pf, s\<lparr>atc_mc := mc\<rparr>) });
       (case d of
          None \<Rightarrow> Some (ckpt_blocks, pf, s)
        | Some d \<Rightarrow>
            atc_migrate_out wr (mc_ptt_capacity (atc_mc s) - mc_ptt_length (atc_mc s)) d ckpt_blocks pf s) } }"

end
