(* ===== verification/Block_Map.thy ===== *)
theory Block_Map
  imports Addr_Trans_Table
begin

text \<open>
  The block table as a finite map from tags to a state and a machine base. \<open>att_ok\<close> hides the queues; each
  operation of the table is restated as an update of the map \<open>tbl\<close>. The controller is verified against this
  view.
\<close>

definition att_ok :: "AddrTransTable \<Rightarrow> bool" where
  "att_ok att \<longleftrightarrow> (\<exists>qs. att_rep att qs)"

definition tbl :: "AddrTransTable \<Rightarrow> Tag \<Rightarrow> (ATTState \<times> Addr) option" where
  "tbl att t = map_option (\<lambda>i. (att_state (ent att i), mach_base (ent att i))) (att_tag_index att t)"

text \<open>Entry \<open>i\<close> holds tag \<open>t\<close>.\<close>

definition att_holds :: "AddrTransTable \<Rightarrow> int \<Rightarrow> Tag \<Rightarrow> bool" where
  "att_holds att i t \<longleftrightarrow> att_tag_index att t = Some i"

definition att_consts :: "AddrTransTable \<Rightarrow> int \<times> nat" where
  "att_consts att = (att_length att, att_block_bits att)"

text \<open>The payload of entry \<open>i\<close> becomes \<open>e\<close>; no other entry changes.\<close>

definition att_sets :: "AddrTransTable \<Rightarrow> AddrTransTable \<Rightarrow> int \<Rightarrow> ATTEntry \<Rightarrow> bool" where
  "att_sets att att' i e \<longleftrightarrow> 0 \<le> i \<and> i < att_length att \<and> att_effect att att' i e"

lemma att_holds_live:
  "att_rep att qs \<Longrightarrow> att_holds att i t \<longleftrightarrow> att_live att qs i \<and> phy_tag (ent att i) = t"
  by (simp add: att_holds_def att_index_iff)

lemma att_holds_range: "att_ok att \<Longrightarrow> att_holds att i t \<Longrightarrow> 0 \<le> i \<and> i < att_length att"
  unfolding att_ok_def using att_holds_live by (auto simp: att_live_def)

lemma att_holds_tag: "att_ok att \<Longrightarrow> att_holds att i t \<Longrightarrow> phy_tag (ent att i) = t"
  unfolding att_ok_def using att_holds_live by blast

lemma att_holds_inj: "att_ok att \<Longrightarrow> att_holds att i t \<Longrightarrow> att_holds att i t' \<Longrightarrow> t = t'"
  using att_holds_tag by blast

lemma att_holds_tbl:
  "att_holds att i t \<Longrightarrow> tbl att t = Some (att_state (ent att i), mach_base (ent att i))"
  by (simp add: att_holds_def tbl_def)

lemma att_holds_At: "att_ok att \<Longrightarrow> att_holds att i t \<Longrightarrow> att_At i att = Some (ent att i)"
  using att_holds_range [of att i t] unfolding att_ok_def by (auto intro: att_At_rep)

lemma att_holds_not_EINVAL: "att_ok att \<Longrightarrow> att_holds att i t \<Longrightarrow> i \<noteq> - EINVAL"
  using att_holds_range nonneg_not_EINVAL by blast

lemma att_tbl_holds: "tbl att t = Some v \<Longrightarrow> \<exists>i. att_holds att i t"
  by (auto simp: tbl_def att_holds_def)

lemma att_tbl_None: "tbl att t = None \<longleftrightarrow> att_tag_index att t = None"
  by (simp add: tbl_def)

lemma att_tbl_not_FREE: "att_ok att \<Longrightarrow> tbl att t = Some (st, b) \<Longrightarrow> st \<noteq> FREE"
  unfolding att_ok_def using att_live_not_FREE att_holds_live att_tbl_holds att_holds_tbl by fastforce

lemma att_ok_length: "att_ok att \<Longrightarrow> att_length att = int (length (att_entries att)) \<and> 0 \<le> att_length att"
  unfolding att_ok_def using att_rep_length by fastforce

section \<open>Operations\<close>

text \<open>The effect of one entry's new payload on the map.\<close>

lemma tbl_effect:
  assumes ok: "att_ok att" and eff: "att_sets att att' i e"
    and ti: "att_tag_index att' = ti" "\<And>t'. t' \<noteq> t \<Longrightarrow> ti t' = att_tag_index att t'"
    and only: "\<And>t'. att_holds att i t' \<Longrightarrow> t' = t"
    and rng: "\<And>j. ti t = Some j \<Longrightarrow> 0 \<le> j \<and> j < att_length att"
  shows "tbl att' = (tbl att)(t := map_option (\<lambda>j. if j = i then (att_state e, mach_base e)
      else (att_state (ent att j), mach_base (ent att j))) (ti t))"
proof
  fix t'
  note len = conjunct1 [OF att_ok_length [OF ok]]
  have ir: "0 \<le> i" "i < int (length (att_entries att))" "att_effect att att' i e"
    using eff len by (simp_all add: att_sets_def)
  have j: "(att_state (ent att' j), mach_base (ent att' j)) =
      (if j = i then (att_state e, mach_base e) else (att_state (ent att j), mach_base (ent att j)))"
    if "0 \<le> j" "j < att_length att" for j
    using att_effect_this [OF ir(3,1,2)] att_effect_other [OF ir(3) that(1)] that(2) len by simp
  show "tbl att' t' = ((tbl att)(t := map_option (\<lambda>j. if j = i then (att_state e, mach_base e)
      else (att_state (ent att j), mach_base (ent att j))) (ti t))) t'"
  proof (cases "t' = t")
    case True
    then show ?thesis using j rng ti(1) by (cases "ti t") (simp_all add: tbl_def)
  next
    case False
    then have same: "att_tag_index att' t' = att_tag_index att t'" using ti by simp
    show ?thesis
    proof (cases "att_tag_index att t'")
      case None
      then show ?thesis using False same by (simp add: tbl_def)
    next
      case (Some k)
      then have k: "att_holds att k t'" by (simp add: att_holds_def)
      then have "k \<noteq> i" using False only by blast
      then show ?thesis using j [of k] att_holds_range [OF ok k] False same Some by (simp add: tbl_def)
    qed
  qed
qed

lemma map_Lookup_miss:
  "tbl att t = None \<Longrightarrow> att_Lookup t pf att = Some (- EINVAL, pf_AddTableOp pf, att)"
  by (simp add: att_tbl_None att_Lookup_miss)

lemma same_payload_tbl:
  assumes "att_ok att" "same_payload att att'"
  shows "tbl att' = tbl att"
proof
  fix t
  show "tbl att' t = tbl att t"
  proof (cases "att_tag_index att t")
    case None
    then show ?thesis using assms by (simp add: tbl_def same_payload_def)
  next
    case (Some i)
    then have "0 \<le> i" "i < int (length (att_entries att))"
      using att_holds_range [OF assms(1), of i t] att_ok_length [OF assms(1)] by (simp_all add: att_holds_def)
    then show ?thesis using same_payload_ent [OF assms(2), of i] Some assms(2) by (simp add: tbl_def same_payload_def)
  qed
qed

text \<open>What no operation but \<open>ClearStats\<close> does: change the statistics of entries it is not about.\<close>

definition same_entries :: "AddrTransTable \<Rightarrow> AddrTransTable \<Rightarrow> bool" where
  "same_entries att att' \<longleftrightarrow> att_consts att' = att_consts att \<and>
     (\<forall>j. 0 \<le> j \<and> j < att_length att \<longrightarrow> payload1 (ent att' j) = payload1 (ent att j))"

lemma map_Lookup_hit:
  assumes ok: "att_ok att" and hit: "tbl att t = Some v"
  shows "\<exists>i att'. att_Lookup t pf att = Some (i, pf_AddTableOp pf, att') \<and> att_ok att' \<and> tbl att' = tbl att \<and>
    att_holds att' i t \<and> same_entries att att' \<and> att_tag_index att' = att_tag_index att"
proof -
  obtain qs where rep: "att_rep att qs" using ok by (auto simp: att_ok_def)
  obtain i where i: "att_tag_index att t = Some i" using hit by (auto simp: tbl_def)
  obtain att' where a: "att_Lookup t pf att = Some (i, pf_AddTableOp pf, att')" "same_payload att att'"
      "\<exists>qs'. att_rep att' qs'"
    using att_Lookup_hit [OF rep i] by blast
  have ti: "att_tag_index att' = att_tag_index att" "att_consts att' = att_consts att"
    using a(2) by (simp_all add: same_payload_def att_consts_def)
  have "payload1 (ent att' j) = payload1 (ent att j)" if "0 \<le> j" "j < att_length att" for j
    using same_payload_effect [OF a(2), of j] that att_ok_length [OF ok] by (simp add: att_effect_def)
  then have "same_entries att att'" using ti by (simp add: same_entries_def)
  then show ?thesis
    using a(1,3) ti i same_payload_tbl [OF ok a(2)] by (auto simp: att_ok_def att_holds_def)
qed

lemma map_ShiftState:
  assumes ok: "att_ok att" and h: "att_holds att i t" and ne: "att_state (ent att i) \<noteq> st"
  shows "\<exists>att'. att_ShiftState i st pf att = Some (pf_AddTableOp pf, att') \<and> att_ok att' \<and>
    att_consts att' = att_consts att \<and> att_sets att att' i ((ent att i)\<lparr>att_state := st\<rparr>) \<and>
    att_tag_index att' = (if st = FREE then (att_tag_index att)(t := None) else att_tag_index att) \<and>
    tbl att' = (tbl att)(t := (if st = FREE then None else Some (st, mach_base (ent att i)))) \<and>
    (\<forall>qs. att_rep att qs \<longrightarrow> att_rep att' (requeue (StateIndex (att_state (ent att i))) (StateIndex st) i qs))"
proof -
  obtain qs where rep: "att_rep att qs" using ok by (auto simp: att_ok_def)
  note live = conjunct1 [OF iffD1 [OF att_holds_live [OF rep] h]] and tag = att_holds_tag [OF ok h]
  obtain att' where a: "att_ShiftState i st pf att = Some (pf_AddTableOp pf, att')"
      "att_effect att att' i ((ent att i)\<lparr>att_state := st\<rparr>)" "att_ok att'"
      "att_tag_index att' = (if st = FREE then (att_tag_index att)(t := None) else att_tag_index att)"
    using att_ShiftState_rep [OF rep live ne, of pf] tag unfolding att_ok_def by blast
  note r = att_holds_range [OF ok h]
  have s: "att_sets att att' i ((ent att i)\<lparr>att_state := st\<rparr>)" using a(2) r by (simp add: att_sets_def)
  have c: "att_consts att' = att_consts att" using a(2) by (simp add: att_consts_def att_effect_def)
  have "tbl att' = (tbl att)(t := map_option (\<lambda>j. if j = i then (att_state ((ent att i)\<lparr>att_state := st\<rparr>), mach_base ((ent att i)\<lparr>att_state := st\<rparr>))
      else (att_state (ent att j), mach_base (ent att j))) ((if st = FREE then (att_tag_index att)(t := None) else att_tag_index att) t))"
  proof (rule tbl_effect [OF ok s a(4)])
    show "t' = t" if "att_holds att i t'" for t' using att_holds_inj [OF ok that h] .
    show "0 \<le> j \<and> j < att_length att"
      if "(if st = FREE then (att_tag_index att)(t := None) else att_tag_index att) t = Some j" for j
      using that h r by (simp add: att_holds_def split: if_splits)
  qed simp
  then have "tbl att' = (tbl att)(t := (if st = FREE then None else Some (st, mach_base (ent att i))))"
    using h by (simp add: att_holds_def)
  moreover have "att_rep att' (requeue (StateIndex (att_state (ent att i))) (StateIndex st) i qs')"
    if "att_rep att qs'" for qs'
    using att_ShiftState_rep [OF that conjunct1 [OF iffD1 [OF att_holds_live [OF that] h]] ne, of pf] a(1) by auto
  ultimately show ?thesis using a(1,3,4) s c by blast
qed

lemma map_Reset:
  assumes ok: "att_ok att" and h: "att_holds att i t" and ne: "att_state (ent att i) \<noteq> st" "st \<noteq> FREE"
  shows "\<exists>att'. att_Reset i b st pf att = Some (pf_AddTableOp pf, att') \<and> att_ok att' \<and>
    att_consts att' = att_consts att \<and> att_sets att att' i ((ent att i)\<lparr>mach_base := b, att_state := st\<rparr>) \<and>
    att_tag_index att' = att_tag_index att \<and> tbl att' = (tbl att)(t \<mapsto> (st, b)) \<and>
    (\<forall>qs. att_rep att qs \<longrightarrow> att_rep att' (requeue (StateIndex (att_state (ent att i))) (StateIndex st) i qs))"
proof -
  obtain qs where rep: "att_rep att qs" using ok by (auto simp: att_ok_def)
  note live = conjunct1 [OF iffD1 [OF att_holds_live [OF rep] h]]
  let ?e = "(ent att i)\<lparr>mach_base := b, att_state := st\<rparr>"
  obtain att' where a: "att_Reset i b st pf att = Some (pf_AddTableOp pf, att')"
      "att_effect att att' i ?e" "att_ok att'" "att_tag_index att' = att_tag_index att"
    using att_Reset_rep [OF rep live ne, of b pf] unfolding att_ok_def by blast
  note r = att_holds_range [OF ok h]
  have s: "att_sets att att' i ?e" using a(2) r by (simp add: att_sets_def)
  have c: "att_consts att' = att_consts att" using a(2) by (simp add: att_consts_def att_effect_def)
  have "tbl att' = (tbl att)(t := map_option (\<lambda>j. if j = i then (att_state ?e, mach_base ?e)
      else (att_state (ent att j), mach_base (ent att j))) (att_tag_index att t))"
  proof (rule tbl_effect [OF ok s a(4)])
    show "t' = t" if "att_holds att i t'" for t' using att_holds_inj [OF ok that h] .
    show "0 \<le> j \<and> j < att_length att" if "att_tag_index att t = Some j" for j
      using that h r by (simp add: att_holds_def)
  qed simp
  then have "tbl att' = (tbl att)(t \<mapsto> (st, b))" using h by (simp add: att_holds_def)
  moreover have "att_rep att' (requeue (StateIndex (att_state (ent att i))) (StateIndex st) i qs')"
    if "att_rep att qs'" for qs'
    using att_Reset_rep [OF that conjunct1 [OF iffD1 [OF att_holds_live [OF that] h]] ne, of b pf] a(1) by auto
  ultimately show ?thesis using a(1,3,4) s c by blast
qed

text \<open>Counting reads and writes.\<close>

lemma map_update_stats:
  assumes ok: "att_ok att" and h: "att_holds att i t"
    and f: "queue_node (f (ent att i)) = queue_node (ent att i)" "att_state (f (ent att i)) = att_state (ent att i)"
      "phy_tag (f (ent att i)) = phy_tag (ent att i)" "mach_base (f (ent att i)) = mach_base (ent att i)"
  shows "\<exists>att'. att_update i f att = Some att' \<and> att_ok att' \<and> att_consts att' = att_consts att \<and>
    att_sets att att' i (f (ent att i)) \<and> att_tag_index att' = att_tag_index att \<and> tbl att' = tbl att"
proof -
  obtain qs where rep: "att_rep att qs" using ok by (auto simp: att_ok_def)
  note live = conjunct1 [OF iffD1 [OF att_holds_live [OF rep] h]]
  obtain att' where a: "att_update i f att = Some att'" "att_effect att att' i (f (ent att i))" "att_ok att'"
      "att_tag_index att' = att_tag_index att"
    using att_update_rep [OF rep live, of f] f unfolding att_ok_def by blast
  note r = att_holds_range [OF ok h]
  have s: "att_sets att att' i (f (ent att i))" using a(2) r by (simp add: att_sets_def)
  have c: "att_consts att' = att_consts att" using a(2) by (simp add: att_consts_def att_effect_def)
  have "tbl att' = (tbl att)(t := map_option (\<lambda>j. if j = i then (att_state (f (ent att i)), mach_base (f (ent att i)))
      else (att_state (ent att j), mach_base (ent att j))) (att_tag_index att t))"
  proof (rule tbl_effect [OF ok s a(4)])
    show "t' = t" if "att_holds att i t'" for t' using att_holds_inj [OF ok that h] .
    show "0 \<le> j \<and> j < att_length att" if "att_tag_index att t = Some j" for j
      using that h r by (simp add: att_holds_def)
  qed simp
  then have "tbl att' = tbl att" using h f att_holds_tbl [OF h] by (simp add: att_holds_def fun_upd_idem)
  then show ?thesis using a(1,3,4) s c by blast
qed

section \<open>Counting entries\<close>

definition tags :: "(ATTState \<Rightarrow> bool) \<Rightarrow> (Tag \<Rightarrow> (ATTState \<times> Addr) option) \<Rightarrow> Tag set" where
  "tags P T = {t. \<exists>st b. T t = Some (st, b) \<and> P st}"

lemma count_queue:
  assumes rep: "att_rep att qs" and k: "k < 4" "k \<noteq> StateIndex FREE"
  shows "card (tags (\<lambda>st. StateIndex st = k) (tbl att)) = length (qs k)"
    and "finite (tags (\<lambda>st. StateIndex st = k) (tbl att))"
proof -
  let ?f = "\<lambda>i. phy_tag (ent att i)"
  have live: "att_live att qs i" "StateIndex (att_state (ent att i)) = k" if "i \<in> set (qs k)" for i
    using att_rep_queue_state [OF rep k(1) that k(2)] by blast+
  have "tags (\<lambda>st. StateIndex st = k) (tbl att) = ?f ` set (qs k)"
  proof (rule set_eqI, rule iffI)
    fix t assume "t \<in> tags (\<lambda>st. StateIndex st = k) (tbl att)"
    then obtain i where i: "att_tag_index att t = Some i" "StateIndex (att_state (ent att i)) = k"
      by (auto simp: tags_def tbl_def)
    then have "att_live att qs i" "phy_tag (ent att i) = t" using att_index_iff [OF rep] by blast+
    then show "t \<in> ?f ` set (qs k)" using att_live_queue [OF rep, of i] i(2) by auto
  next
    fix t assume "t \<in> ?f ` set (qs k)"
    then obtain i where i: "i \<in> set (qs k)" "phy_tag (ent att i) = t" by blast
    then have "att_tag_index att t = Some i" using live(1) att_index_iff [OF rep] by blast
    then show "t \<in> tags (\<lambda>st. StateIndex st = k) (tbl att)" using live(2) [OF i(1)] by (simp add: tags_def tbl_def)
  qed
  moreover have "inj_on ?f (set (qs k))" using live(1) att_tag_inj [OF rep] by (auto simp: inj_on_def)
  moreover have "distinct (qs k)"
    using att_rep_linked [OF rep] k(1) by (auto simp: att_linked_def intro: queue_rep_distinct)
  ultimately show "card (tags (\<lambda>st. StateIndex st = k) (tbl att)) = length (qs k)"
    and "finite (tags (\<lambda>st. StateIndex st = k) (tbl att))"
    by (simp_all add: card_image distinct_card)
qed

lemma count_free:
  assumes rep: "att_rep att qs"
  shows "int (card (dom (tbl att)) + length (qs (StateIndex FREE))) = att_length att" "finite (dom (tbl att))"
proof -
  let ?f = "\<lambda>i. phy_tag (ent att i)" and ?F = "set (qs (StateIndex FREE))"
  let ?L = "{i. att_live att qs i}"
  note lk = att_rep_linked [OF rep] and len = att_rep_length [OF rep]
  have img: "dom (tbl att) = ?f ` ?L"
  proof (rule set_eqI)
    fix t
    have "t \<in> dom (tbl att) \<longleftrightarrow> (\<exists>i. att_tag_index att t = Some i)" by (auto simp: tbl_def dom_def)
    then show "t \<in> dom (tbl att) \<longleftrightarrow> t \<in> ?f ` ?L" using att_index_iff [OF rep] by auto
  qed
  have inj: "inj_on ?f ?L" using att_tag_inj [OF rep] by (auto simp: inj_on_def)
  have F: "?F \<subseteq> {0 ..< att_length att}" using att_linked_range [OF lk StateIndex_less] len by fastforce
  have L: "?L = {0 ..< att_length att} - ?F" by (auto simp: att_live_def)
  then show "finite (dom (tbl att))" unfolding img by simp
  have "distinct (qs (StateIndex FREE))"
    by (rule queue_rep_distinct [OF att_linked_queue [OF lk]])
  then have "card ?F = length (qs (StateIndex FREE))" by (rule distinct_card)
  moreover have "card ?L = nat (att_length att) - card ?F"
    unfolding L using F by (simp add: card_Diff_subset finite_subset)
  moreover have "card ?F \<le> nat (att_length att)" using card_mono [OF _ F] by simp
  moreover have "card (dom (tbl att)) = card ?L" unfolding img by (rule card_image [OF inj])
  moreover have "0 \<le> att_length att" using len by simp
  ultimately show "int (card (dom (tbl att)) + length (qs (StateIndex FREE))) = att_length att" by linarith
qed

lemma tags_empty_iff:
  assumes "att_rep att qs" "k < 4" "k \<noteq> StateIndex FREE"
  shows "qs k = [] \<longleftrightarrow> tags (\<lambda>st. StateIndex st = k) (tbl att) = {}"
  using count_queue [OF assms] by (metis card_0_eq length_0_conv)

lemma map_finite: "att_ok att \<Longrightarrow> finite (dom (tbl att))"
  unfolding att_ok_def using count_free(2) by blast

lemma map_card: "att_ok att \<Longrightarrow> int (card (dom (tbl att))) \<le> att_length att"
  unfolding att_ok_def using count_free(1) by fastforce

lemma StateIndex_eq [simp]:
  "StateIndex st = StateIndex CLEAN \<longleftrightarrow> st = CLEAN" "StateIndex st = StateIndex LOAN \<longleftrightarrow> st = LOAN"
  "StateIndex st = StateIndex DIRTY \<longleftrightarrow> st = DIRTY \<or> st = HIDDEN \<or> st = TEMP \<or> st = STAINED"
  by (cases st; simp add: StateIndex_def)+

lemma map_IsEmpty_FREE:
  assumes "att_ok att"
  shows "att_IsEmpty FREE att = Some (int (card (dom (tbl att))) = att_length att)"
proof -
  obtain qs where rep: "att_rep att qs" using assms by (auto simp: att_ok_def)
  have "qs (StateIndex FREE) = [] \<longleftrightarrow> length (qs (StateIndex FREE)) = 0" by simp
  also have "\<dots> \<longleftrightarrow> int (card (dom (tbl att))) = att_length att" using count_free(1) [OF rep] by linarith
  finally show ?thesis using att_IsEmpty_rep [OF rep, of FREE] by simp
qed

lemma map_IsEmpty:
  assumes "att_ok att" "st = CLEAN \<or> st = LOAN"
  shows "att_IsEmpty st att = Some (tags (\<lambda>x. x = st) (tbl att) = {})"
proof -
  obtain qs where rep: "att_rep att qs" using assms by (auto simp: att_ok_def)
  show ?thesis
    using att_IsEmpty_rep [OF rep, of st] tags_empty_iff [OF rep StateIndex_less, of st] assms(2) by auto
qed

lemma map_GetFront:
  assumes ok: "att_ok att" and st: "st = CLEAN \<or> st = LOAN" and ne: "tags (\<lambda>x. x = st) (tbl att) \<noteq> {}"
  shows "\<exists>i t. att_GetFront st att = Some i \<and> att_holds att i t \<and> att_state (ent att i) = st"
proof -
  obtain qs where rep: "att_rep att qs" using ok by (auto simp: att_ok_def)
  have k: "StateIndex st \<noteq> StateIndex FREE" using st by auto
  have "qs (StateIndex st) \<noteq> []"
    using tags_empty_iff [OF rep StateIndex_less k] ne st by auto
  then have i: "hd_or (- EINVAL) (qs (StateIndex st)) \<in> set (qs (StateIndex st))" by (rule hd_or_in_set)
  note q = att_rep_queue_state [OF rep StateIndex_less i k]
  have "att_GetFront st att = Some (hd_or (- EINVAL) (qs (StateIndex st)))"
    using att_GetFront_rep [OF rep, of st] st by auto
  then show ?thesis using q st att_holds_live [OF rep] by auto
qed

lemma map_GetLength:
  assumes "att_ok att"
  shows "att_GetLength CLEAN att = Some (int (card (tags (\<lambda>x. x = CLEAN) (tbl att))))"
    and "att_GetLength FREE att = Some (att_length att - int (card (dom (tbl att))))"
    and "att_GetLength DIRTY att =
      Some (int (card (tags (\<lambda>x. x = DIRTY \<or> x = HIDDEN \<or> x = TEMP \<or> x = STAINED) (tbl att))))"
proof -
  obtain qs where rep: "att_rep att qs" using assms by (auto simp: att_ok_def)
  show "att_GetLength CLEAN att = Some (int (card (tags (\<lambda>x. x = CLEAN) (tbl att))))"
    using att_GetLength_rep [OF rep, of CLEAN] count_queue(1) [OF rep StateIndex_less, of CLEAN] by simp
  show "att_GetLength FREE att = Some (att_length att - int (card (dom (tbl att))))"
    using att_GetLength_rep [OF rep, of FREE] count_free(1) [OF rep] by simp
  show "att_GetLength DIRTY att =
      Some (int (card (tags (\<lambda>x. x = DIRTY \<or> x = HIDDEN \<or> x = TEMP \<or> x = STAINED) (tbl att))))"
    using att_GetLength_rep [OF rep, of DIRTY] count_queue(1) [OF rep StateIndex_less, of DIRTY] by simp
qed

lemma map_Setup:
  assumes ok: "att_ok att" and new: "tbl att t = None" and room: "int (card (dom (tbl att))) < att_length att"
    and st: "st \<noteq> FREE"
  shows "\<exists>i att'. att_Setup t b st pf att = Some (i, pf_AddTableOp pf, att') \<and> att_ok att' \<and>
    att_consts att' = att_consts att \<and> (\<forall>t'. \<not> att_holds att i t') \<and>
    att_sets att att' i ((ent att i)\<lparr>att_state := st, phy_tag := t, mach_base := b\<rparr>) \<and>
    att_tag_index att' = (att_tag_index att)(t \<mapsto> i) \<and> tbl att' = (tbl att)(t \<mapsto> (st, b))"
proof -
  obtain qs where rep: "att_rep att qs" using ok by (auto simp: att_ok_def)
  have "qs (StateIndex FREE) \<noteq> []" using count_free(1) [OF rep] room by auto
  then obtain i rest where q: "qs (StateIndex FREE) = i # rest" by (cases "qs (StateIndex FREE)") auto
  let ?e = "(ent att i)\<lparr>att_state := st, phy_tag := t, mach_base := b\<rparr>"
  obtain att' where a: "att_Setup t b st pf att = Some (i, pf_AddTableOp pf, att')"
      "att_effect att att' i ?e" "att_ok att'" "att_tag_index att' = (att_tag_index att)(t \<mapsto> i)"
    using att_Setup_rep [OF rep _ q st, of t b pf] new unfolding att_tbl_None att_ok_def by blast
  have iF: "i \<in> set (qs (StateIndex FREE))" using q by simp
  have r: "0 \<le> i" "i < att_length att"
    using att_linked_range [OF att_rep_linked [OF rep] StateIndex_less iF] att_rep_length [OF rep] by auto
  have free: "\<not> att_holds att i t'" for t' using att_holds_live [OF rep] iF by (simp add: att_live_def)
  have s: "att_sets att att' i ?e" using a(2) r by (simp add: att_sets_def)
  have c: "att_consts att' = att_consts att" using a(2) by (simp add: att_consts_def att_effect_def)
  have "tbl att' = (tbl att)(t := map_option (\<lambda>j. if j = i then (att_state ?e, mach_base ?e)
      else (att_state (ent att j), mach_base (ent att j))) (((att_tag_index att)(t \<mapsto> i)) t))"
    by (rule tbl_effect [OF ok s a(4)]) (use free r in simp_all)
  then have "tbl att' = (tbl att)(t \<mapsto> (st, b))" by simp
  then show ?thesis using a(1,3,4) s c free by blast
qed

end
