(* ===== verification/Slot_Owner.thy ===== *)
theory Slot_Owner
  imports Version_Buffer Block_Map
begin

text \<open>
  Ownership of buffer slots. The controller keeps no back pointers: a slot of a version buffer is in use
  exactly when some block table entry, in a state of the class \<open>K\<close>, has the slot's address as its base.
  \<open>owns V K T\<close> is that bijection; each lemma follows one slot through an allocation or a release.
\<close>

type_synonym block_map = "Tag \<Rightarrow> (ATTState \<times> Addr) option"

definition nvm_state :: "ATTState \<Rightarrow> bool" where
  "nvm_state st \<longleftrightarrow> st = CLEAN \<or> st = DIRTY"

definition dram_state :: "ATTState \<Rightarrow> bool" where
  "dram_state st \<longleftrightarrow> st = TEMP \<or> st = STAINED \<or> st = LOAN"

lemma slot_states [simp]:
  "nvm_state CLEAN" "nvm_state DIRTY" "\<not> nvm_state TEMP" "\<not> nvm_state STAINED" "\<not> nvm_state LOAN"
  "\<not> nvm_state HIDDEN" "\<not> nvm_state FREE"
  "\<not> dram_state CLEAN" "\<not> dram_state DIRTY" "dram_state TEMP" "dram_state STAINED" "dram_state LOAN"
  "\<not> dram_state HIDDEN" "\<not> dram_state FREE"
  by (simp_all add: nvm_state_def dram_state_def)

definition owns :: "VersionBuffer \<Rightarrow> (ATTState \<Rightarrow> bool) \<Rightarrow> block_map \<Rightarrow> bool" where
  "owns V K T \<longleftrightarrow>
     (\<forall>t st a. T t = Some (st, a) \<and> K st \<longrightarrow> (\<exists>j \<in> vb_sets V IN_USE. a = vb_addr V j)) \<and>
     (\<forall>j \<in> vb_sets V IN_USE. \<exists>t st. T t = Some (st, vb_addr V j) \<and> K st) \<and>
     (\<forall>t t' st st' a. T t = Some (st, a) \<and> K st \<and> T t' = Some (st', a) \<and> K st' \<longrightarrow> t = t')"

lemma owns_slot: "owns V K T \<Longrightarrow> T t = Some (st, a) \<Longrightarrow> K st \<Longrightarrow> \<exists>j \<in> vb_sets V IN_USE. a = vb_addr V j"
  unfolding owns_def by blast

lemma owns_owner: "owns V K T \<Longrightarrow> j \<in> vb_sets V IN_USE \<Longrightarrow> \<exists>t st. T t = Some (st, vb_addr V j) \<and> K st"
  unfolding owns_def by blast

lemma owns_inj: "owns V K T \<Longrightarrow> T t = Some (st, a) \<Longrightarrow> K st \<Longrightarrow> T t' = Some (st', a) \<Longrightarrow> K st' \<Longrightarrow> t = t'"
  unfolding owns_def by blast

definition outside :: "(ATTState \<Rightarrow> bool) \<Rightarrow> (ATTState \<times> Addr) option \<Rightarrow> bool" where
  "outside K v \<longleftrightarrow> (\<forall>st a. v = Some (st, a) \<longrightarrow> \<not> K st)"

lemma outside_simps [simp]: "outside K None" "outside K (Some (st, a)) \<longleftrightarrow> \<not> K st"
  by (simp_all add: outside_def)

lemma owns_other:
  assumes "owns V K T" "outside K (T t)" "outside K v"
  shows "owns V K (T(t := v))"
proof -
  have eq: "(T(t := v)) x = Some (st, a) \<and> K st \<longleftrightarrow> T x = Some (st, a) \<and> K st" for x st a
    using assms(2,3) by (auto simp: outside_def)
  show ?thesis
    unfolding owns_def
  proof (intro conjI allI impI ballI)
    fix x y b assume "(T(t := v)) x = Some (y, b) \<and> K y"
    then show "\<exists>j \<in> vb_sets V IN_USE. b = vb_addr V j" using eq owns_slot [OF assms(1)] by blast
  next
    fix j assume "j \<in> vb_sets V IN_USE"
    then obtain x y where "T x = Some (y, vb_addr V j) \<and> K y" using owns_owner [OF assms(1)] by blast
    then show "\<exists>x y. (T(t := v)) x = Some (y, vb_addr V j) \<and> K y" using eq [of x y] by blast
  next
    fix x x' y y' b assume "(T(t := v)) x = Some (y, b) \<and> K y \<and> (T(t := v)) x' = Some (y', b) \<and> K y'"
    then show "x = x'" using eq [of x y b] eq [of x' y' b] owns_inj [OF assms(1), of x y b x' y'] by simp
  qed
qed

lemma owns_keep:
  assumes own: "owns V K T" and t: "T t = Some (st, a)" "K st" "K st'"
  shows "owns V K (T(t \<mapsto> (st', a)))"
  unfolding owns_def
proof (intro conjI allI impI ballI)
  fix x y b assume "(T(t \<mapsto> (st', a))) x = Some (y, b) \<and> K y"
  then show "\<exists>j \<in> vb_sets V IN_USE. b = vb_addr V j"
    using owns_slot [OF own] t by (auto split: if_splits)
next
  fix j assume "j \<in> vb_sets V IN_USE"
  then obtain x y where x: "T x = Some (y, vb_addr V j)" "K y" using owns_owner [OF own] by blast
  then show "\<exists>x y. (T(t \<mapsto> (st', a))) x = Some (y, vb_addr V j) \<and> K y"
    using t by (cases "x = t") auto
next
  fix x x' y y' b
  assume "(T(t \<mapsto> (st', a))) x = Some (y, b) \<and> K y \<and> (T(t \<mapsto> (st', a))) x' = Some (y', b) \<and> K y'"
  then show "x = x'"
    using owns_inj [OF own t(1,2)] owns_inj [OF own, of x y b x' y'] by (auto split: if_splits)
qed

lemma owns_alloc:
  assumes own: "owns V K T" and g: "vb_geometry V" and inv: "vb_inv V" and i: "i \<in> vb_sets V VB_FREE"
    and t: "outside K (T t)" "K st"
  shows "owns (vb_move i VB_FREE IN_USE V) K (T(t \<mapsto> (st, vb_addr V i)))"
proof -
  let ?V = "vb_move i VB_FREE IN_USE V" and ?T = "T(t \<mapsto> (st, vb_addr V i))"
  have use: "vb_sets ?V IN_USE = insert i (vb_sets V IN_USE)" by (simp add: vb_sets_move)
  have new: "vb_addr V j \<noteq> vb_addr V i" if "j \<in> vb_sets V IN_USE" for j
  proof
    assume "vb_addr V j = vb_addr V i"
    then have "j = i"
      using vb_addr_inj [OF g] vb_inv_slot [OF inv that] vb_inv_slot [OF inv i] by simp
    then show False using vb_inv_disjoint [OF inv that, of VB_FREE] i by simp
  qed
  have old: "x \<noteq> t \<Longrightarrow> T x = Some (y, b) \<Longrightarrow> K y \<Longrightarrow> b \<noteq> vb_addr V i" for x y b
    using owns_slot [OF own, of x y b] new by auto
  show ?thesis
    unfolding owns_def use vb_move_fields
  proof (intro conjI allI impI ballI)
    fix x y b assume "?T x = Some (y, b) \<and> K y"
    then show "\<exists>j \<in> insert i (vb_sets V IN_USE). b = vb_addr V j"
      using owns_slot [OF own, of x y b] by (auto split: if_splits)
  next
    fix j assume "j \<in> insert i (vb_sets V IN_USE)"
    then consider "j = i" | "j \<in> vb_sets V IN_USE" by blast
    then show "\<exists>x y. ?T x = Some (y, vb_addr V j) \<and> K y"
    proof cases
      case 1
      then show ?thesis using t(2) by auto
    next
      case 2
      then obtain x y where x: "T x = Some (y, vb_addr V j)" "K y" using owns_owner [OF own] by blast
      then have "x \<noteq> t" using t(1) by (auto simp: outside_def)
      then show ?thesis using x by auto
    qed
  next
    fix x x' y y' b assume "?T x = Some (y, b) \<and> K y \<and> ?T x' = Some (y', b) \<and> K y'"
    then show "x = x'"
      using old [of x y b] old [of x' y' b] owns_inj [OF own, of x y b x' y'] by (auto split: if_splits)
  qed
qed

lemma owns_release:
  assumes own: "owns V K T" and g: "vb_geometry V" and inv: "vb_inv V"
    and t: "T t = Some (st, vb_addr V i)" "K st" "i \<in> vb_sets V IN_USE"
    and dst: "dst \<noteq> IN_USE" and v: "outside K v"
  shows "owns (vb_move i IN_USE dst V) K (T(t := v))"
proof -
  let ?V = "vb_move i IN_USE dst V" and ?T = "T(t := v)"
  have use: "vb_sets ?V IN_USE = vb_sets V IN_USE - {i}" using dst by (auto simp: vb_sets_move)
  have sub: "?T x = Some (y, b) \<and> K y \<Longrightarrow> x \<noteq> t \<and> T x = Some (y, b) \<and> K y" for x y b
    using v by (auto simp: outside_def split: if_splits)
  show ?thesis
    unfolding owns_def use vb_move_fields
  proof (intro conjI allI impI ballI)
    fix x y b assume "?T x = Some (y, b) \<and> K y"
    then have x: "x \<noteq> t" "T x = Some (y, b)" "K y" using sub by blast+
    then obtain j where "j \<in> vb_sets V IN_USE" "b = vb_addr V j" using owns_slot [OF own] by blast
    moreover have "j \<noteq> i" using owns_inj [OF own x(2,3), of t st] t x(1) calculation by blast
    ultimately show "\<exists>j \<in> vb_sets V IN_USE - {i}. b = vb_addr V j" by blast
  next
    fix j assume j: "j \<in> vb_sets V IN_USE - {i}"
    then obtain x y where x: "T x = Some (y, vb_addr V j)" "K y" using owns_owner [OF own] by blast
    have "x \<noteq> t"
    proof
      assume "x = t"
      then have "vb_addr V j = vb_addr V i" using x t(1) by simp
      then show False
        using vb_addr_inj [OF g] vb_inv_slot [OF inv t(3)] vb_inv_slot [OF inv, of j IN_USE] j by simp
    qed
    then show "\<exists>x y. ?T x = Some (y, vb_addr V j) \<and> K y" using x by auto
  next
    fix x x' y y' b assume "?T x = Some (y, b) \<and> K y \<and> ?T x' = Some (y', b) \<and> K y'"
    then show "x = x'" using sub owns_inj [OF own] by meson
  qed
qed

lemma owns_card:
  assumes own: "owns V K T" and g: "vb_geometry V" and inv: "vb_inv V"
  shows "card (vb_sets V IN_USE) = card (tags K T)"
proof -
  let ?f = "\<lambda>t. snd (the (T t))"
  have "?f ` tags K T = vb_addr V ` vb_sets V IN_USE"
  proof (rule set_eqI, rule iffI)
    fix a assume "a \<in> ?f ` tags K T"
    then obtain t st where "T t = Some (st, a)" "K st" by (auto simp: tags_def)
    then show "a \<in> vb_addr V ` vb_sets V IN_USE" using owns_slot [OF own] by blast
  next
    fix a assume "a \<in> vb_addr V ` vb_sets V IN_USE"
    then obtain j where j: "j \<in> vb_sets V IN_USE" "a = vb_addr V j" by blast
    then obtain t st where "T t = Some (st, a)" "K st" using owns_owner [OF own] by blast
    then show "a \<in> ?f ` tags K T" by (force simp: tags_def image_iff)
  qed
  moreover have "inj_on ?f (tags K T)"
    using owns_inj [OF own] by (auto simp: inj_on_def tags_def)
  moreover have "inj_on (vb_addr V) (vb_sets V IN_USE)"
  proof (rule inj_onI)
    fix i j assume "i \<in> vb_sets V IN_USE" "j \<in> vb_sets V IN_USE" "vb_addr V i = vb_addr V j"
    then show "i = j" using vb_addr_inj [OF g] vb_inv_slot [OF inv] by (metis atLeastLessThan_iff)
  qed
  ultimately show ?thesis by (metis card_image)
qed

section \<open>Counting tags under an update\<close>

lemma tags_upd: "tags P (T(t := v)) = (case v of Some (st, a) \<Rightarrow> if P st then insert t (tags P T) else tags P T - {t} | None \<Rightarrow> tags P T - {t})"
  by (auto simp: tags_def split: option.splits if_splits)

lemma tags_subset: "tags P T \<subseteq> dom T"
  by (auto simp: tags_def)

lemma tags_disjoint: "(\<And>st. \<not> (P st \<and> Q st)) \<Longrightarrow> tags P T \<inter> tags Q T = {}"
  by (fastforce simp: tags_def)

lemma card_tags_disjoint:
  assumes "finite (dom T)" "\<And>st. \<not> (P st \<and> Q st)"
  shows "card (tags P T) + card (tags Q T) \<le> card (dom T)"
proof -
  have "finite (tags P T)" "finite (tags Q T)" using assms(1) tags_subset finite_subset by blast+
  then have "card (tags P T) + card (tags Q T) = card (tags P T \<union> tags Q T)"
    using tags_disjoint [OF assms(2)] by (simp add: card_Un_disjoint)
  also have "\<dots> \<le> card (dom T)" using assms(1) tags_subset [of P T] tags_subset [of Q T] by (intro card_mono) auto
  finally show ?thesis .
qed

end
