(* ===== verification/Migration_Proofs.thy ===== *)
theory Migration_Proofs
  imports Migration
begin

text \<open>
  What the page table guarantees. \<open>mc_inv\<close> is its invariant: the DRAM page slots are partitioned between
  the free list and the present pages, and the dirty count is the number of dirty pages. The two page
  orders are interpretations of \<open>weak_order\<close>, which gives the heaps their meaning.
\<close>

section \<open>Page arithmetic\<close>

definition mc_geometry :: "MigrationController \<Rightarrow> bool" where
  "mc_geometry mc \<longleftrightarrow> mc_block_bits mc \<le> mc_page_bits mc \<and> mc_page_bits mc \<le> 30"

lemma int32_pow2: "n \<le> 30 \<Longrightarrow> int32 (2 ^ n) = 2 ^ n"
proof -
  assume "n \<le> 30"
  then have "(2 :: int) ^ n \<le> 2 ^ 30" by (intro power_increasing) simp_all
  then show ?thesis by (intro int32_id) (simp_all add: order_trans [of _ 0])
qed

lemma mc_page_size_eq: "mc_geometry mc \<Longrightarrow> mc_page_size mc = 2 ^ mc_page_bits mc"
  by (simp add: mc_geometry_def mc_page_size_def int32_pow2)

lemma mc_page_blocks_eq: "mc_geometry mc \<Longrightarrow> mc_page_blocks mc = 2 ^ (mc_page_bits mc - mc_block_bits mc)"
  by (simp add: mc_geometry_def mc_page_blocks_def int32_pow2 le_diff_conv trans_le_add1)

lemma mc_page_mask_eq: "mc_geometry mc \<Longrightarrow> mc_page_mask mc = mask (mc_page_bits mc)"
  by (simp add: mc_page_mask_def mc_page_size_eq mask_eq_exp_minus_1)

definition page_of :: "nat \<Rightarrow> Addr \<Rightarrow> Addr" where
  "page_of b a = push_bit b (drop_bit b a)"

lemma mc_PageAlign_eq: "mc_geometry mc \<Longrightarrow> mc_PageAlign a mc = page_of (mc_page_bits mc) a"
  unfolding mc_PageAlign_def page_of_def
  by (rule bit_word_eqI) (auto simp: mc_page_mask_eq bit_simps)

lemma aligned_page_of [simp]: "aligned b (page_of b a)"
  by (simp add: page_of_def)

lemma page_of_aligned [simp]: "aligned b a \<Longrightarrow> page_of b a = a"
  by (simp add: page_of_def)

lemma page_of_iff: "page_of b a = a \<longleftrightarrow> aligned b a"
  by (metis aligned_page_of page_of_aligned)

lemma drop_page_of [simp]: "drop_bit b (page_of b a) = drop_bit b a"
  by (simp add: page_of_def)

text \<open>A block lies in one page.\<close>

lemma page_of_block: "b \<le> p \<Longrightarrow> drop_bit b a = drop_bit b a' \<Longrightarrow> page_of p a = page_of p a'"
proof -
  assume "b \<le> p" "drop_bit b a = drop_bit b a'"
  then have "drop_bit (p - b) (drop_bit b a) = drop_bit (p - b) (drop_bit b a')" by simp
  then show ?thesis using \<open>b \<le> p\<close> by (simp add: page_of_def)
qed

text \<open>There are at most \<open>2 ^ (p - b)\<close> blocks in a page.\<close>

lemma card_page_blocks:
  assumes "b \<le> p" "B \<subseteq> {x. aligned b x \<and> page_of p x = page}"
  shows "finite B" "card B \<le> 2 ^ (p - b)"
proof -
  let ?f = "\<lambda>x :: Addr. unat (x AND mask p) div 2 ^ b"
  have inj: "inj_on ?f B"
  proof (rule inj_onI)
    fix x y assume xy: "x \<in> B" "y \<in> B" "?f x = ?f y"
    have "2 ^ b dvd unat (z AND mask p)" if "z \<in> B" for z
    proof -
      have "2 ^ b dvd unat z" using that assms(2) by (auto simp: aligned_unat)
      moreover have "(2 :: nat) ^ b dvd 2 ^ p" using assms(1) by (rule le_imp_power_dvd)
      ultimately show ?thesis by (simp add: unat_offset dvd_mod)
    qed
    then have "unat (x AND mask p) = unat (y AND mask p)"
      using xy by (metis dvd_mult_div_cancel)
    then have "x AND mask p = y AND mask p" by (simp only: word_unat_eq_iff)
    moreover have "rebase p z page = z" if "z \<in> B" for z
    proof -
      have "page = push_bit p (drop_bit p z)" using that assms(2) by (auto simp: page_of_def)
      then show ?thesis by simp
    qed
    ultimately show "x = y" using xy(1,2) unfolding rebase_def by metis
  qed
  have rng: "?f ` B \<subseteq> {..< 2 ^ (p - b)}"
  proof
    fix n assume "n \<in> ?f ` B"
    then obtain x where n: "n = ?f x" by blast
    have "unat (x AND mask p) < 2 ^ (p - b) * 2 ^ b"
      using assms(1) by (simp add: unat_offset power_add [symmetric])
    then show "n \<in> {..< 2 ^ (p - b)}" unfolding n by (simp add: less_mult_imp_div_less)
  qed
  show "finite B" using finite_imageD [OF finite_subset [OF rng] inj] by simp
  show "card B \<le> 2 ^ (p - b)" using card_inj_on_le [OF inj rng] by simp
qed

section \<open>The invariant\<close>

definition mc_dirty_pages :: "MigrationController \<Rightarrow> Addr set" where
  "mc_dirty_pages mc = {k. \<exists>e. mc_find k mc = Some e \<and> ptt_dirty (pt_state e)}"

definition mc_slots :: "MigrationController \<Rightarrow> int set" where
  "mc_slots mc = {i. \<exists>k e. mc_find k mc = Some e \<and> pt_index e = i}"

definition mc_inv :: "MigrationController \<Rightarrow> bool" where
  "mc_inv mc \<longleftrightarrow>
     distinct (map fst (mc_entries mc)) \<and> 0 \<le> mc_ptt_capacity mc \<and>
     (\<forall>k e. mc_find k mc = Some e \<longrightarrow>
        aligned (mc_page_bits mc) k \<and> pt_mach_base e = k \<and> 0 \<le> pt_epoch_writes e) \<and>
     (\<forall>k k' e e'. mc_find k mc = Some e \<and> mc_find k' mc = Some e' \<and> pt_index e = pt_index e' \<longrightarrow> k = k') \<and>
     distinct (mc_free_slots mc) \<and> set (mc_free_slots mc) \<inter> mc_slots mc = {} \<and>
     set (mc_free_slots mc) \<union> mc_slots mc = {0 ..< mc_ptt_capacity mc} \<and>
     mc_dirty_entries mc = int (card (mc_dirty_pages mc))"

text \<open>The write counters tell the dirty pages, which the statistics pass asserts.\<close>

definition mc_counted :: "MigrationController \<Rightarrow> bool" where
  "mc_counted mc \<longleftrightarrow>
     (\<forall>k e. mc_find k mc = Some e \<longrightarrow> (ptt_dirty (pt_state e) \<longleftrightarrow> pt_epoch_writes e \<noteq> 0))"

lemma dom_mc_find: "{k. mc_find k mc \<noteq> None} = fst ` set (mc_entries mc)"
  using dom_map_of_conv_image_fst [of "mc_entries mc"] by (simp add: mc_find_def dom_def)

lemma finite_mc_find: "finite {k. mc_find k mc \<noteq> None}"
  by (simp add: dom_mc_find)

lemma finite_mc_dirty_pages: "finite (mc_dirty_pages mc)"
  by (rule finite_subset [OF _ finite_mc_find [of mc]]) (auto simp: mc_dirty_pages_def)

lemma mc_inv_entry:
  assumes "mc_inv mc" "mc_find k mc = Some e"
  shows "aligned (mc_page_bits mc) k" "pt_mach_base e = k" "0 \<le> pt_index e" "pt_index e < mc_ptt_capacity mc"
    "0 \<le> pt_epoch_writes e"
proof -
  show "aligned (mc_page_bits mc) k" "pt_mach_base e = k" "0 \<le> pt_epoch_writes e"
    using assms by (simp_all add: mc_inv_def)
  have "pt_index e \<in> mc_slots mc" using assms(2) by (auto simp: mc_slots_def)
  then have "pt_index e \<in> {0 ..< mc_ptt_capacity mc}" using assms(1) unfolding mc_inv_def by blast
  then show "0 \<le> pt_index e" "pt_index e < mc_ptt_capacity mc" by simp_all
qed

lemma card_mc_entries: "mc_inv mc \<Longrightarrow> card {k. mc_find k mc \<noteq> None} = length (mc_entries mc)"
  by (metis dom_mc_find distinct_card length_map list.set_map mc_inv_def)

lemma card_mc_slots: "mc_inv mc \<Longrightarrow> card (mc_slots mc) = length (mc_entries mc)"
proof -
  assume inv: "mc_inv mc"
  let ?f = "\<lambda>k. pt_index (the (mc_find k mc))"
  have "mc_slots mc = ?f ` {k. mc_find k mc \<noteq> None}"
    by (force simp: mc_slots_def image_iff)
  moreover have "inj_on ?f {k. mc_find k mc \<noteq> None}"
    using inv by (auto simp: inj_on_def mc_inv_def)
  ultimately show ?thesis using card_mc_entries [OF inv] by (simp add: card_image)
qed

lemma mc_inv_balanced: assumes inv: "mc_inv mc" shows "mc_slots_balanced mc"
proof -
  have fin: "finite (mc_slots mc)" "0 \<le> mc_ptt_capacity mc"
    using inv unfolding mc_inv_def by (auto intro: finite_subset [of _ "{0 ..< mc_ptt_capacity mc}"])
  have "card (set (mc_free_slots mc) \<union> mc_slots mc) = card (set (mc_free_slots mc)) + card (mc_slots mc)"
    using inv fin by (intro card_Un_disjoint) (simp_all add: mc_inv_def)
  moreover have "card (set (mc_free_slots mc) \<union> mc_slots mc) = nat (mc_ptt_capacity mc)"
    using inv by (simp add: mc_inv_def)
  moreover have "card (set (mc_free_slots mc)) = length (mc_free_slots mc)"
    using inv by (simp add: distinct_card mc_inv_def)
  ultimately show ?thesis
    using card_mc_slots [OF inv] fin by (simp add: mc_slots_balanced_def)
qed

lemma mc_Contains_iff:
  "mc_geometry mc \<Longrightarrow> mc_Contains a mc \<longleftrightarrow> mc_find (page_of (mc_page_bits mc) a) mc \<noteq> None"
  by (simp add: mc_Contains_def mc_PageAlign_eq)

lemma MigrationController_init_ok:
  assumes "0 \<le> n"
  shows "\<exists>mc. MigrationController_init bb pb n = Some mc \<and> mc_inv mc \<and> mc_counted mc \<and>
    mc_block_bits mc = bb \<and> mc_page_bits mc = pb \<and> mc_ptt_length mc = n \<and>
    mc_ptt_capacity mc = n + n div 16 \<and> mc_entries mc = [] \<and> mc_nvm_pages mc = [] \<and>
    mc_nvm_heap mc = [] \<and> mc_dram_heap mc = [] \<and> \<not> mc_nvm_heap_filled mc \<and> \<not> mc_dram_heap_filled mc"
proof -
  have "0 \<le> n + n div 16" using assms by simp
  then show ?thesis
    by (auto simp: MigrationController_init_def Let_def mc_slots_balanced_def mc_inv_def mc_counted_def
        mc_find_def mc_slots_def mc_dirty_pages_def)
qed

section \<open>Operations on one page\<close>

text \<open>Everything of the page table but the contents of the pages, the free slots and the dirty count.\<close>

definition mc_same :: "MigrationController \<Rightarrow> MigrationController \<Rightarrow> bool" where
  "mc_same mc mc' \<longleftrightarrow>
     mc_block_bits mc' = mc_block_bits mc \<and> mc_page_bits mc' = mc_page_bits mc \<and>
     mc_ptt_length mc' = mc_ptt_length mc \<and> mc_ptt_capacity mc' = mc_ptt_capacity mc \<and>
     mc_nvm_pages mc' = mc_nvm_pages mc \<and> mc_nvm_heap mc' = mc_nvm_heap mc \<and>
     mc_dram_heap mc' = mc_dram_heap mc \<and> mc_nvm_heap_filled mc' = mc_nvm_heap_filled mc \<and>
     mc_dram_heap_filled mc' = mc_dram_heap_filled mc"

lemma mc_same_refl [simp]: "mc_same mc mc"
  by (simp add: mc_same_def)

lemma mc_same_trans: "mc_same a b \<Longrightarrow> mc_same b c \<Longrightarrow> mc_same a c"
  by (simp add: mc_same_def)

lemma mc_same_geometry: "mc_same a b \<Longrightarrow> mc_geometry b = mc_geometry a"
  by (simp add: mc_same_def mc_geometry_def)

lemma mc_find_map_entry:
  "mc_find k (mc_map_entry k' f mc) = (if k = k' then map_option f (mc_find k mc) else mc_find k mc)"
  by (simp add: mc_find_def mc_map_entry_def map_of_map_entry split: option.splits)

lemma mc_find_dirty [simp]: "mc_find k (mc\<lparr>mc_dirty_entries := d\<rparr>) = mc_find k mc"
  by (simp add: mc_find_def)

lemma keys_map_entry: "map fst (AList.map_entry k f xs) = map fst xs"
  by (induction xs) auto

lemma mc_map_entry_fields [simp]:
  "mc_block_bits (mc_map_entry k f mc) = mc_block_bits mc" "mc_page_bits (mc_map_entry k f mc) = mc_page_bits mc"
  "mc_ptt_capacity (mc_map_entry k f mc) = mc_ptt_capacity mc"
  "mc_free_slots (mc_map_entry k f mc) = mc_free_slots mc" "mc_dirty_entries (mc_map_entry k f mc) = mc_dirty_entries mc"
  "mc_same mc' (mc_map_entry k f mc) = mc_same mc' mc"
  "map fst (mc_entries (mc_map_entry k f mc)) = map fst (mc_entries mc)"
  by (simp_all add: mc_map_entry_def mc_same_def keys_map_entry)

text \<open>
  Rewriting the entry of one present page: the invariant survives when the slot, the base and the sign of
  the counter are kept and the dirty count follows the state.
\<close>

lemma mc_inv_rewrite:
  assumes inv: "mc_inv mc" and e: "mc_find k mc = Some e"
    and find: "\<And>x. mc_find x mc' = (if x = k then Some e' else mc_find x mc)"
    and keys: "map fst (mc_entries mc') = map fst (mc_entries mc)"
    and fs: "mc_free_slots mc' = mc_free_slots mc" and same: "mc_same mc mc'"
    and e': "pt_index e' = pt_index e" "pt_mach_base e' = pt_mach_base e" "0 \<le> pt_epoch_writes e'"
    and d: "mc_dirty_entries mc' = mc_dirty_entries mc + of_bool (ptt_dirty (pt_state e')) - of_bool (ptt_dirty (pt_state e))"
  shows "mc_inv mc'"
proof -
  have slots: "mc_slots mc' = mc_slots mc"
  proof -
    have "(\<exists>y. mc_find x mc' = Some y \<and> pt_index y = i) \<longleftrightarrow> (\<exists>y. mc_find x mc = Some y \<and> pt_index y = i)" for x i
      using e e'(1) by (simp add: find)
    then show ?thesis by (simp add: mc_slots_def)
  qed
  have "mc_dirty_pages mc' = (if ptt_dirty (pt_state e') then insert k (mc_dirty_pages mc) else mc_dirty_pages mc - {k})"
    unfolding mc_dirty_pages_def find by auto
  moreover have "k \<in> mc_dirty_pages mc \<longleftrightarrow> ptt_dirty (pt_state e)" using e by (simp add: mc_dirty_pages_def)
  moreover have "int (card (mc_dirty_pages mc) - Suc 0) = int (card (mc_dirty_pages mc)) - 1"
    if "k \<in> mc_dirty_pages mc"
  proof -
    have "0 < card (mc_dirty_pages mc)" using that finite_mc_dirty_pages card_gt_0_iff by blast
    then show ?thesis by linarith
  qed
  ultimately have "int (card (mc_dirty_pages mc')) =
      int (card (mc_dirty_pages mc)) + of_bool (ptt_dirty (pt_state e')) - of_bool (ptt_dirty (pt_state e))"
    using finite_mc_dirty_pages [of mc] by (auto simp: card_insert_if card_Diff_singleton)
  then have dirty: "mc_dirty_entries mc' = int (card (mc_dirty_pages mc'))"
    using d inv by (simp add: mc_inv_def)
  have ent: "aligned (mc_page_bits mc') x \<and> pt_mach_base y = x \<and> 0 \<le> pt_epoch_writes y"
    if "mc_find x mc' = Some y" for x y
    using that mc_inv_entry [OF inv e] mc_inv_entry [OF inv, of x y] e' same unfolding find
    by (auto simp: mc_same_def split: if_splits)
  have inj: "x = x'" if "mc_find x mc' = Some y" "mc_find x' mc' = Some y'" "pt_index y = pt_index y'" for x x' y y'
    using that inv e e'(1) unfolding find mc_inv_def by (metis option.inject)
  show ?thesis
    using inv ent inj dirty slots keys fs same unfolding mc_inv_def mc_same_def by auto
qed

text \<open>A read of a DRAM page, and the two steps with which a store marks it.\<close>

lemma mc_AddDRAMPageRead_ok:
  assumes g: "mc_geometry mc" and inv: "mc_inv mc" and e: "mc_find k mc = Some e"
  shows "\<exists>mc'. mc_AddDRAMPageRead k mc = Some mc' \<and> mc_inv mc' \<and> mc_same mc mc' \<and>
    (\<forall>x. mc_find x mc' = (if x = k then Some (e\<lparr>pt_epoch_reads := pt_epoch_reads e + 1\<rparr>) else mc_find x mc))"
proof -
  let ?f = "\<lambda>e. e\<lparr>pt_epoch_reads := pt_epoch_reads e + 1\<rparr>"
  have pg: "mc_PageAlign k mc = k" using mc_inv_entry(1) [OF inv e] by (simp add: mc_PageAlign_eq [OF g])
  have find: "mc_find x (mc_map_entry k ?f mc) = (if x = k then Some (?f e) else mc_find x mc)" for x
    using e by (simp add: mc_find_map_entry)
  have "mc_inv (mc_map_entry k ?f mc)"
    by (rule mc_inv_rewrite [OF inv e find]) (use mc_inv_entry [OF inv e] in simp_all)
  then show ?thesis using e find by (simp add: mc_AddDRAMPageRead_def pg)
qed

definition mc_mark :: "PTTState \<Rightarrow> PTTState" where
  "mc_mark st = (case st of CLEAN_STATIC \<Rightarrow> DIRTY_DIRECT | CLEAN_DIRECT \<Rightarrow> DIRTY_STATIC | _ \<Rightarrow> st)"

lemma ptt_dirty_mark [simp]: "ptt_dirty (mc_mark st)"
  by (cases st) (simp_all add: mc_mark_def ptt_dirty_def)

lemma mc_AddDRAMPageWrite_ok:
  assumes g: "mc_geometry mc" and inv: "mc_inv mc" and e: "mc_find k mc = Some e"
  shows "\<exists>mc'. mc_AddDRAMPageWrite k mc = Some mc' \<and> mc_inv mc' \<and> mc_same mc mc' \<and>
    (\<forall>x. mc_find x mc' = (if x = k then Some (e\<lparr>pt_epoch_writes := pt_epoch_writes e + 1\<rparr>) else mc_find x mc))"
proof -
  let ?f = "\<lambda>e. e\<lparr>pt_epoch_writes := pt_epoch_writes e + 1\<rparr>"
  have pg: "mc_PageAlign k mc = k" using mc_inv_entry(1) [OF inv e] by (simp add: mc_PageAlign_eq [OF g])
  have find: "mc_find x (mc_map_entry k ?f mc) = (if x = k then Some (?f e) else mc_find x mc)" for x
    using e by (simp add: mc_find_map_entry)
  have "mc_inv (mc_map_entry k ?f mc)"
    by (rule mc_inv_rewrite [OF inv e find]) (use mc_inv_entry [OF inv e] in simp_all)
  then show ?thesis using e find by (simp add: mc_AddDRAMPageWrite_def pg)
qed

lemma mc_ShiftState_ok:
  assumes g: "mc_geometry mc" and inv: "mc_inv mc" and e: "mc_find k mc = Some e"
    and st: "\<not> ptt_dirty (pt_state e)" "ptt_dirty st"
  shows "\<exists>mc'. mc_ShiftState k st pf mc = Some (pf_AddTableOp pf, mc') \<and> mc_inv mc' \<and> mc_same mc mc' \<and>
    (\<forall>x. mc_find x mc' = (if x = k then Some (e\<lparr>pt_state := st\<rparr>) else mc_find x mc))"
proof -
  let ?f = "\<lambda>e. e\<lparr>pt_state := st\<rparr>"
  let ?m = "mc_map_entry k ?f mc"
  let ?m' = "?m\<lparr>mc_dirty_entries := mc_dirty_entries ?m + 1\<rparr>"
  have pg: "mc_PageAlign k mc = k" using mc_inv_entry(1) [OF inv e] by (simp add: mc_PageAlign_eq [OF g])
  have find: "mc_find x ?m' = (if x = k then Some (?f e) else mc_find x mc)" for x
    using e by (simp add: mc_find_map_entry)
  have same: "mc_same mc ?m'" by (simp add: mc_same_def mc_map_entry_def)
  have "mc_inv ?m'"
    by (rule mc_inv_rewrite [OF inv e find _ _ same]) (use mc_inv_entry [OF inv e] st in simp_all)
  then show ?thesis
    using e find st(2) same by (simp add: mc_ShiftState_def mc_ShiftState_at_def Let_def pg)
qed

section \<open>Pages entering and leaving DRAM\<close>

lemma mc_LookupPage_eq:
  "mc_geometry mc \<Longrightarrow> fst (mc_LookupPage a pf mc) =
     (case mc_find (page_of (mc_page_bits mc) a) mc of None \<Rightarrow> PTTEntry_init | Some e \<Rightarrow> e)"
  by (simp add: mc_LookupPage_def mc_PageAlign_eq)

lemma mc_Free_ok:
  assumes g: "mc_geometry mc" and inv: "mc_inv mc" and e: "mc_find k mc = Some e"
  shows "\<exists>mc'. mc_Free k pf mc = Some (pf_AddTableOp pf, mc') \<and> mc_inv mc' \<and> mc_same mc mc' \<and>
    (\<forall>x. mc_find x mc' = (if x = k then None else mc_find x mc)) \<and>
    mc_free_slots mc' = mc_free_slots mc @ [pt_index e]"
proof -
  let ?d = "mc_dirty_entries mc - of_bool (ptt_dirty (pt_state e))"
  define m where "m = mc\<lparr>mc_dirty_entries := ?d, mc_entries := AList.delete k (mc_entries mc),
      mc_free_slots := mc_free_slots mc @ [pt_index e]\<rparr>"
  note en = mc_inv_entry [OF inv e]
  have find: "mc_find x m = (if x = k then None else mc_find x mc)" for x
    by (simp add: m_def mc_find_def AList.delete_conv')
  have same: "mc_same mc m" by (simp add: m_def mc_same_def)
  have uniq: "x = k" if "mc_find x mc = Some y" "pt_index y = pt_index e" for x y
    using inv e that unfolding mc_inv_def by metis
  have mem: "i \<in> mc_slots m \<longleftrightarrow> (\<exists>x y. x \<noteq> k \<and> mc_find x mc = Some y \<and> pt_index y = i)" for i
    unfolding mc_slots_def find by simp metis
  have slots: "mc_slots m = mc_slots mc - {pt_index e}" "pt_index e \<in> mc_slots mc"
  proof (rule set_eqI)
    fix i
    show "i \<in> mc_slots m \<longleftrightarrow> i \<in> mc_slots mc - {pt_index e}"
      unfolding mem using uniq e unfolding mc_slots_def Diff_iff mem_Collect_eq singleton_iff
      by (metis option.inject)
    show "pt_index e \<in> mc_slots mc" using e by (auto simp: mc_slots_def)
  qed
  have dirty: "mc_dirty_pages m = mc_dirty_pages mc - {k}"
    unfolding mc_dirty_pages_def find by auto
  have kd: "k \<in> mc_dirty_pages mc \<longleftrightarrow> ptt_dirty (pt_state e)" using e by (simp add: mc_dirty_pages_def)
  have "int (card (mc_dirty_pages m)) = int (card (mc_dirty_pages mc)) - of_bool (ptt_dirty (pt_state e))"
  proof (cases "ptt_dirty (pt_state e)")
    case True
    then have "0 < card (mc_dirty_pages mc)" using kd finite_mc_dirty_pages card_gt_0_iff by blast
    then show ?thesis using True kd by (simp add: dirty card_Diff_singleton)
  next
    case False
    then show ?thesis using kd by (simp add: dirty)
  qed
  then have cnt: "mc_dirty_entries m = int (card (mc_dirty_pages m))"
    using inv by (simp add: mc_inv_def m_def)
  have free: "distinct (mc_free_slots m)" "set (mc_free_slots m) \<inter> mc_slots m = {}"
      "set (mc_free_slots m) \<union> mc_slots m = {0 ..< mc_ptt_capacity m}"
    using inv slots unfolding mc_inv_def by (auto simp: m_def)
  have "distinct (map fst (mc_entries m))"
    using inv by (simp add: m_def mc_inv_def AList.distinct_delete)
  then have invm: "mc_inv m"
    using inv free cnt same unfolding mc_inv_def mc_same_def find by (auto split: if_splits)
  have "mc_PageAlign k mc = k" using en(1) by (simp add: mc_PageAlign_eq [OF g])
  then have "mc_Free k pf mc = Some (pf_AddTableOp pf, m)"
    using en e mc_inv_balanced [OF invm]
    by (simp add: mc_Free_def Let_def mc_LookupPage_def m_def mc_slots_balanced_def)
  then show ?thesis using invm same find by (auto simp: m_def)
qed

lemma mc_Setup_ok:
  assumes g: "mc_geometry mc" and inv: "mc_inv mc" and k: "mc_find k mc = None" "aligned (mc_page_bits mc) k"
    and room: "int (length (mc_entries mc)) < mc_ptt_capacity mc" and st: "\<not> ptt_dirty st"
  shows "\<exists>mc' i. mc_Setup k st pf mc = Some (pf_AddTableOp pf, mc') \<and> mc_inv mc' \<and> mc_same mc mc' \<and>
    (\<forall>x. mc_find x mc' = (if x = k then Some (PTTEntry_init\<lparr>pt_index := i, pt_state := st, pt_mach_base := k\<rparr>)
       else mc_find x mc))"
proof -
  have ne: "mc_free_slots mc \<noteq> []"
    using mc_inv_balanced [OF inv] room by (auto simp: mc_slots_balanced_def)
  define i where "i = last (mc_free_slots mc)"
  define e where "e = PTTEntry_init\<lparr>pt_index := i, pt_state := st, pt_mach_base := k\<rparr>"
  define m where "m = mc\<lparr>mc_entries := AList.update k e (mc_entries mc), mc_free_slots := butlast (mc_free_slots mc)\<rparr>"
  have fs: "mc_free_slots mc = butlast (mc_free_slots mc) @ [i]" using ne by (simp add: i_def)
  have fsd: "distinct (mc_free_slots mc)" using inv unfolding mc_inv_def by blast
  have ib: "i \<notin> set (butlast (mc_free_slots mc))" "set (mc_free_slots mc) = insert i (set (butlast (mc_free_slots mc)))"
    using fsd by (subst (asm) fs, simp) (subst fs, simp)
  have find: "mc_find x m = (if x = k then Some e else mc_find x mc)" for x
    by (simp add: m_def mc_find_def AList.update_conv')
  have ei: "pt_index e = i" "pt_mach_base e = k" "pt_epoch_writes e = 0" "pt_state e = st"
    by (simp_all add: e_def PTTEntry_init_def)
  have same: "mc_same mc m" by (simp add: m_def mc_same_def)
  have un: "set (mc_free_slots mc) \<inter> mc_slots mc = {}" "set (mc_free_slots mc) \<union> mc_slots mc = {0 ..< mc_ptt_capacity mc}"
    using inv unfolding mc_inv_def by blast+
  have slots: "mc_slots m = insert i (mc_slots mc)"
  proof (rule set_eqI)
    fix j
    show "j \<in> mc_slots m \<longleftrightarrow> j \<in> insert i (mc_slots mc)"
      unfolding mc_slots_def find mem_Collect_eq insert_iff using k(1) ei(1)
      by (metis option.distinct(1) option.inject)
  qed
  have "mc_dirty_pages m = mc_dirty_pages mc"
    unfolding mc_dirty_pages_def find using k(1) ei st by auto
  then have cnt: "mc_dirty_entries m = int (card (mc_dirty_pages m))"
    using inv by (simp add: mc_inv_def m_def)
  have new: "pt_index y \<noteq> i" if "mc_find x mc = Some y" for x y
    using un(1) ib(2) that by (auto simp: mc_slots_def)
  have inj: "x = x'" if "mc_find x m = Some y" "mc_find x' m = Some y'" "pt_index y = pt_index y'" for x x' y y'
    using that inv new ei unfolding find mc_inv_def by (metis option.inject)
  have fsm: "mc_free_slots m = butlast (mc_free_slots mc)" "mc_ptt_capacity m = mc_ptt_capacity mc"
    by (simp_all add: m_def)
  have free: "set (mc_free_slots m) \<inter> mc_slots m = {}" "set (mc_free_slots m) \<union> mc_slots m = {0 ..< mc_ptt_capacity m}"
    using un ib unfolding fsm slots by blast+
  have dist: "distinct (map fst (mc_entries m))" "distinct (mc_free_slots m)"
    using inv by (simp_all add: m_def mc_inv_def AList.distinct_update distinct_butlast)
  have ents: "aligned (mc_page_bits m) x \<and> pt_mach_base y = x \<and> 0 \<le> pt_epoch_writes y"
    if "mc_find x m = Some y" for x y
    using that mc_inv_entry [OF inv, of x y] ei k(2) same unfolding find
    by (auto simp: mc_same_def split: if_splits)
  have invm: "mc_inv m"
    using inv ents inj free cnt dist same unfolding mc_inv_def mc_same_def by metis
  note bal = mc_inv_balanced [OF invm]
  have cap: "mc_num_entries m \<le> mc_ptt_capacity m"
    using bal by (simp add: mc_slots_balanced_def mc_num_entries_def)
  have "mc_PageAlign k mc = k" using k(2) by (simp add: mc_PageAlign_eq [OF g])
  then have "mc_Setup k st pf mc = Some (pf_AddTableOp pf, m)"
    using ne k(1) st bal cap
    by (simp add: mc_Setup_def mc_Contains_def Let_def m_def e_def i_def)
  then show ?thesis using invm same find unfolding e_def by blast
qed

section \<open>Block lists\<close>

lemma unat_plus_of_nat:
  assumes "unat (a :: Addr) + m < 2 ^ 64" shows "unat (a + of_nat m) = unat a + m"
proof -
  have "a + of_nat m = of_nat (unat a + m)" by simp
  then show ?thesis using assms by (simp only: unsigned_of_nat) (simp add: take_bit_nat_eq_self)
qed

lemma mc_block_list_upto:
  fixes page :: Addr
  assumes "unat page + n * s < 2 ^ 64" "k \<le> n" "unat step = s" "0 < s"
  shows "mc_block_list step (page + of_nat (n * s)) (page + of_nat (k * s)) list =
    Some (list @ map (\<lambda>j. page + of_nat (j * s)) [k ..< n])"
  using assms(2)
proof (induction "n - k" arbitrary: k list)
  case 0
  then have "k = n" by simp
  then show ?case by (subst mc_block_list.simps) simp
next
  case (Suc m)
  have at: "unat (page + of_nat (j * s)) = unat page + j * s" if "j \<le> n" for j
  proof -
    have "unat page + j * s < 2 ^ 64"
      using assms(1) mult_le_mono1 [OF that, of s] by linarith
    then show ?thesis by (rule unat_plus_of_nat)
  qed
  have lt: "k < n" using Suc by simp
  then have "page + of_nat (k * s) < page + of_nat (n * s)"
    using at [of k] at [of n] assms(4) by (simp only: word_less_nat_alt) simp
  moreover have step: "page + of_nat (k * s) + step = page + of_nat (Suc k * s)"
    using assms(3) by (auto simp: algebra_simps)
  moreover have "[k ..< n] = k # [Suc k ..< n]" using lt by (simp add: upt_rec)
  moreover have "mc_block_list step (page + of_nat (n * s)) (page + of_nat (Suc k * s)) (list @ [page + of_nat (k * s)]) =
      Some ((list @ [page + of_nat (k * s)]) @ map (\<lambda>j. page + of_nat (j * s)) [Suc k ..< n])"
    by (rule Suc.hyps(1)) (use Suc.hyps(2) lt in simp_all)
  ultimately show ?case
    by (subst mc_block_list.simps) (simp only: if_True append_assoc append.simps list.map)
qed

text \<open>The blocks of a page, in address order.\<close>

definition page_block_list :: "MigrationController \<Rightarrow> Addr \<Rightarrow> Addr list" where
  "page_block_list mc page = map (\<lambda>j. page + of_nat (j * 2 ^ mc_block_bits mc)) [0 ..< 2 ^ (mc_page_bits mc - mc_block_bits mc)]"

lemma page_block_list_same: "mc_same mc mc' \<Longrightarrow> page_block_list mc' = page_block_list mc"
  by (simp add: page_block_list_def mc_same_def fun_eq_iff)

lemma mc_AddToBlockList_eq:
  assumes g: "mc_geometry mc" and al: "aligned (mc_page_bits mc) page"
    and fits: "unat page + 2 ^ mc_page_bits mc < 2 ^ 64"
  shows "mc_AddToBlockList page list mc = Some (list @ page_block_list mc page)"
proof -
  let ?bb = "mc_block_bits mc" and ?pb = "mc_page_bits mc"
  have bits: "?bb \<le> ?pb" "?bb \<le> 30" "?pb \<le> 30" using g by (auto simp: mc_geometry_def)
  have pw: "2 ^ (?pb - ?bb) * 2 ^ ?bb = (2 :: nat) ^ ?pb" using bits by (simp add: power_add [symmetric])
  have step: "unat (2 ^ ?bb :: Addr) = 2 ^ ?bb" using bits by (intro unat_pow2) simp
  have "mc_block_list (2 ^ ?bb) (page + of_nat (2 ^ (?pb - ?bb) * 2 ^ ?bb)) (page + of_nat (0 * 2 ^ ?bb)) list =
      Some (list @ page_block_list mc page)"
    unfolding page_block_list_def by (rule mc_block_list_upto) (use fits step in \<open>simp_all only: pw, simp_all\<close>)
  then show ?thesis
    using al bits unfolding pw
    by (simp add: mc_AddToBlockList_def mc_page_mask_eq [OF g] mc_page_size_eq [OF g] aligned_def int32_pow2)
qed

section \<open>Statistics and heaps\<close>

lemma dram_code_inj: "ptt_code s = ptt_code t \<longleftrightarrow> s = t"
  by (cases s; cases t) simp_all

lemma dram_less_lex:
  "dram_less a p \<longleftrightarrow> ptt_code (dp_state p) < ptt_code (dp_state a) \<or>
     ptt_code (dp_state p) = ptt_code (dp_state a) \<and> dp_write_ratio p < dp_write_ratio a"
  using dram_code_inj by (auto simp: dram_less_def)

interpretation dram_order: weak_order dram_less
  by unfold_locales (auto simp: dram_less_lex)

interpretation nvm_order: weak_order nvm_less
  by unfold_locales (auto simp: nvm_less_def)

lemma mc_ExtractNVMPage_ok:
  assumes "mc_nvm_heap_filled mc" "is_heap nvm_less (mc_nvm_heap mc)"
  shows "mc_nvm_heap mc = [] \<and> mc_ExtractNVMPage pf mc = Some (None, pf, mc) \<or>
    (\<exists>n heap. mc_ExtractNVMPage pf mc = Some (Some n, pf_AddTableOp pf, mc\<lparr>mc_nvm_heap := heap\<rparr>) \<and>
       mset (mc_nvm_heap mc) = add_mset n (mset heap) \<and> is_heap nvm_less heap \<and>
       (\<forall>y \<in> set heap. np_dirty_ratio y \<le> np_dirty_ratio n))"
proof (cases "mc_nvm_heap mc = []")
  case True
  then show ?thesis using assms(1) by (simp add: mc_ExtractNVMPage_def pop_max_def)
next
  case False
  then show ?thesis
    using nvm_order.pop_max_spec [OF assms(2)] assms(1)
    by (auto simp: mc_ExtractNVMPage_def nvm_less_def not_less)
qed

lemma mc_ExtractDRAMPage_ok:
  assumes "mc_dram_heap_filled mc" "is_heap dram_less (mc_dram_heap mc)"
  shows "mc_dram_heap mc = [] \<and> mc_ExtractDRAMPage pf mc = Some (None, pf, mc) \<or>
    (\<exists>d heap. mc_ExtractDRAMPage pf mc = Some (Some d, pf_AddTableOp pf, mc\<lparr>mc_dram_heap := heap\<rparr>) \<and>
       mset (mc_dram_heap mc) = add_mset d (mset heap) \<and> is_heap dram_less heap \<and>
       (\<forall>y \<in> set heap. \<not> dram_less d y))"
proof (cases "mc_dram_heap mc = []")
  case True
  then show ?thesis using assms(1) by (simp add: mc_ExtractDRAMPage_def pop_max_def)
next
  case False
  then show ?thesis
    using dram_order.pop_max_spec [OF assms(2)] assms(1) by (auto simp: mc_ExtractDRAMPage_def)
qed

text \<open>What the two filling loops build.\<close>

definition nvm_stats :: "MigrationController \<Rightarrow> Addr \<times> NVMPage \<Rightarrow> NVMPageStats" where
  "nvm_stats mc kp = \<lparr>np_phy_addr = fst kp,
     np_dirty_ratio = of_nat (card (page_block_set (snd kp))) / of_int (mc_page_blocks mc),
     np_write_ratio = of_int (page_epoch_writes (snd kp)) / of_int (mc_page_blocks mc)\<rparr>"

definition dram_stats :: "MigrationController \<Rightarrow> Addr \<times> PTTEntry \<Rightarrow> DRAMPageStats" where
  "dram_stats mc ke = \<lparr>dp_phy_addr = fst ke, dp_state = pt_state (snd ke),
     dp_write_ratio = of_int (pt_epoch_writes (snd ke)) / of_int (mc_page_blocks mc)\<rparr>"

text \<open>The page table proper: everything the statistics pass leaves alone.\<close>

definition mc_core :: "MigrationController \<Rightarrow> nat \<times> nat \<times> int \<times> int \<times> int \<times> int list \<times> (Addr \<times> PTTEntry) list" where
  "mc_core mc = (mc_block_bits mc, mc_page_bits mc, mc_ptt_length mc, mc_ptt_capacity mc,
     mc_dirty_entries mc, mc_free_slots mc, mc_entries mc)"

lemma mc_core_fields:
  assumes "mc_core mc' = mc_core mc"
  shows "mc_block_bits mc' = mc_block_bits mc" "mc_page_bits mc' = mc_page_bits mc"
    "mc_ptt_length mc' = mc_ptt_length mc" "mc_ptt_capacity mc' = mc_ptt_capacity mc"
    "mc_dirty_entries mc' = mc_dirty_entries mc" "mc_free_slots mc' = mc_free_slots mc"
    "mc_entries mc' = mc_entries mc" "mc_find k mc' = mc_find k mc" "mc_page_blocks mc' = mc_page_blocks mc"
    "mc_inv mc' = mc_inv mc" "mc_counted mc' = mc_counted mc" "mc_geometry mc' = mc_geometry mc"
    "nvm_stats mc' = nvm_stats mc" "dram_stats mc' = dram_stats mc" "mc_PageAlign a mc' = mc_PageAlign a mc"
  using assms by (simp_all add: mc_core_def mc_inv_def mc_counted_def mc_find_def mc_slots_def mc_dirty_pages_def
      mc_geometry_def mc_page_blocks_def nvm_stats_def dram_stats_def fun_eq_iff mc_PageAlign_def mc_page_mask_def
      mc_page_size_def)

lemma mc_fill_nvm_spec:
  "mc_core (mc_fill_nvm ps mc) = mc_core mc \<and>
   mc_nvm_heap (mc_fill_nvm ps mc) = mc_nvm_heap mc @ map (nvm_stats mc) ps \<and>
   mc_nvm_pages (mc_fill_nvm ps mc) = mc_nvm_pages mc \<and> mc_dram_heap (mc_fill_nvm ps mc) = mc_dram_heap mc \<and>
   mc_dram_heap_filled (mc_fill_nvm ps mc) = mc_dram_heap_filled mc"
proof (induction ps arbitrary: mc)
  case Nil
  then show ?case by simp
next
  case (Cons kp ps)
  define m where "m = mc\<lparr>mc_nvm_heap := mc_nvm_heap mc @ [nvm_stats mc kp],
      mc_total_nvm_writes := mc_total_nvm_writes mc + word_of_int (page_epoch_writes (snd kp)),
      mc_dirty_nvm_blocks := mc_dirty_nvm_blocks mc + of_nat (card (page_block_set (snd kp)))\<rparr>"
  have core: "mc_core m = mc_core mc" by (simp add: m_def mc_core_def)
  have "mc_fill_nvm (kp # ps) mc = mc_fill_nvm ps m"
    by (simp add: m_def nvm_stats_def Let_def)
  then show ?case
    using Cons.IH [of m] core mc_core_fields(13) [OF core] by (simp add: m_def)
qed

lemma mc_fill_dram_spec:
  "\<exists>mc'. mc_fill_dram es n mc = (n + int (length (filter (\<lambda>ke. pt_epoch_writes (snd ke) \<noteq> 0) es)), mc') \<and>
     mc_core mc' = mc_core mc \<and> mc_dram_heap mc' = mc_dram_heap mc @ map (dram_stats mc) es \<and>
     mc_nvm_heap mc' = mc_nvm_heap mc \<and> mc_nvm_pages mc' = mc_nvm_pages mc \<and>
     mc_nvm_heap_filled mc' = mc_nvm_heap_filled mc"
proof (induction es arbitrary: n mc)
  case Nil
  then show ?case by simp
next
  case (Cons ke es)
  define m where "m = mc\<lparr>mc_dram_heap := mc_dram_heap mc @ [dram_stats mc ke],
      mc_total_dram_writes := mc_total_dram_writes mc + word_of_int (pt_epoch_writes (snd ke))\<rparr>"
  have core: "mc_core m = mc_core mc" by (simp add: m_def mc_core_def)
  have "mc_fill_dram (ke # es) n mc = mc_fill_dram es (n + (if pt_epoch_writes (snd ke) \<noteq> 0 then 1 else 0)) m"
    by (simp add: m_def dram_stats_def Let_def)
  then show ?case
    using Cons.IH [of "n + (if pt_epoch_writes (snd ke) \<noteq> 0 then 1 else 0)" m] core mc_core_fields(14) [OF core]
    by (auto simp: m_def)
qed

lemma mc_dirts_eq:
  assumes inv: "mc_inv mc" and cnt: "mc_counted mc"
  shows "int (length (filter (\<lambda>ke. pt_epoch_writes (snd ke) \<noteq> 0) (mc_entries mc))) = mc_dirty_entries mc"
proof -
  let ?l = "filter (\<lambda>ke. pt_epoch_writes (snd ke) \<noteq> 0) (mc_entries mc)"
  have d: "distinct (map fst (mc_entries mc))" using inv by (simp add: mc_inv_def)
  then have "distinct (map fst ?l)" by (rule distinct_map_filter)
  then have "length ?l = card (fst ` set ?l)" using distinct_card [of "map fst ?l"] by simp
  moreover have "fst ` set ?l = mc_dirty_pages mc"
  proof (rule set_eqI)
    fix k
    have "k \<in> fst ` set ?l \<longleftrightarrow> (\<exists>e. (k, e) \<in> set (mc_entries mc) \<and> pt_epoch_writes e \<noteq> 0)" by force
    also have "\<dots> \<longleftrightarrow> (\<exists>e. mc_find k mc = Some e \<and> pt_epoch_writes e \<noteq> 0)"
      using d by (simp add: mc_find_def map_of_eq_Some_iff)
    also have "\<dots> \<longleftrightarrow> k \<in> mc_dirty_pages mc" using cnt by (auto simp: mc_counted_def mc_dirty_pages_def)
    finally show "k \<in> fst ` set ?l \<longleftrightarrow> k \<in> mc_dirty_pages mc" .
  qed
  ultimately show ?thesis using inv by (simp add: mc_inv_def)
qed

subsection \<open>The statistics pass over the translation table\<close>

definition att_active :: "ATTEntry \<Rightarrow> bool" where
  "att_active e \<longleftrightarrow> att_state e \<noteq> CLEAN \<and> att_state e \<noteq> FREE"

definition entry_block :: "MigrationController \<Rightarrow> ATTEntry \<Rightarrow> Addr" where
  "entry_block mc e = push_bit (mc_block_bits mc) (phy_tag e)"

definition in_page :: "MigrationController \<Rightarrow> Addr \<Rightarrow> ATTEntry \<Rightarrow> bool" where
  "in_page mc page e \<longleftrightarrow> att_active e \<and> mc_PageAlign (entry_block mc e) mc = page"

text \<open>The sums over the active blocks of one page, and the table that holds them for every page.\<close>

definition page_stat :: "MigrationController \<Rightarrow> ATTEntry list \<Rightarrow> Addr \<Rightarrow> NVMPage" where
  "page_stat mc es page = \<lparr>
     page_epoch_reads = sum_list (map epoch_reads (filter (in_page mc page) es)),
     page_epoch_writes = sum_list (map epoch_writes (filter (in_page mc page) es)),
     page_block_set = entry_block mc ` {e \<in> set es. in_page mc page e \<and> epoch_writes e \<noteq> 0}\<rparr>"

definition nvm_pages_rep :: "MigrationController \<Rightarrow> ATTEntry list \<Rightarrow> (Addr \<times> NVMPage) list \<Rightarrow> bool" where
  "nvm_pages_rep mc es ps \<longleftrightarrow> distinct (map fst ps) \<and>
     (\<forall>page. map_of ps page = (if \<exists>e \<in> set es. in_page mc page e then Some (page_stat mc es page) else None))"

lemma page_stat_none: "\<not> (\<exists>e \<in> set es. in_page mc page e) \<Longrightarrow> page_stat mc es page = NVMPage_init"
proof -
  assume a: "\<not> (\<exists>e \<in> set es. in_page mc page e)"
  then have "filter (in_page mc page) es = []" by (simp add: filter_empty_conv)
  then show ?thesis using a by (auto simp: page_stat_def NVMPage_init_def)
qed

lemma page_stat_other: "\<not> in_page mc page e \<Longrightarrow> page_stat mc (es @ [e]) page = page_stat mc es page"
  by (auto simp: page_stat_def)

lemma page_blocks_bound:
  assumes "mc_geometry mc" shows "int (card (page_block_set (page_stat mc es page))) \<le> mc_page_blocks mc"
proof -
  have "card (page_block_set (page_stat mc es page)) \<le> 2 ^ (mc_page_bits mc - mc_block_bits mc)"
    using assms by (intro card_page_blocks(2) [where page = page])
      (auto simp: page_stat_def in_page_def mc_PageAlign_eq entry_block_def mc_geometry_def)
  then show ?thesis using of_nat_le_iff [where ?'a = int] by (fastforce simp: mc_page_blocks_eq [OF assms])
qed

lemma mc_input_block_ok:
  assumes g: "mc_geometry mc" and rep: "nvm_pages_rep mc es (mc_nvm_pages mc)"
    and w: "\<not> att_active e \<Longrightarrow> epoch_writes e = 0"
  shows "\<exists>ps. mc_input_block e mc = Some (mc\<lparr>mc_nvm_pages := ps\<rparr>) \<and> nvm_pages_rep mc (es @ [e]) ps"
proof (cases "att_active e")
  case False
  then have "\<not> in_page mc page e" for page by (simp add: in_page_def)
  then have "nvm_pages_rep mc (es @ [e]) (mc_nvm_pages mc)"
    using rep by (simp add: nvm_pages_rep_def page_stat_other)
  then show ?thesis
    using False w by (intro exI [of _ "mc_nvm_pages mc"]) (auto simp: mc_input_block_def att_active_def)
next
  case True
  define page where "page = mc_PageAlign (entry_block mc e) mc"
  define q where "q = page_stat mc (es @ [e]) page"
  have ip: "in_page mc page e" using True by (simp add: in_page_def page_def)
  have old: "(case map_of (mc_nvm_pages mc) page of None \<Rightarrow> NVMPage_init | Some p \<Rightarrow> p) = page_stat mc es page"
    using rep page_stat_none [of es mc page] by (auto simp: nvm_pages_rep_def)
  define p1 where "p1 = (page_stat mc es page)\<lparr>
      page_epoch_reads := page_epoch_reads (page_stat mc es page) + epoch_reads e,
      page_epoch_writes := page_epoch_writes (page_stat mc es page) + epoch_writes e\<rparr>"
  have "{x \<in> set (es @ [e]). in_page mc page x \<and> epoch_writes x \<noteq> 0} =
      {x \<in> set es. in_page mc page x \<and> epoch_writes x \<noteq> 0} \<union> (if epoch_writes e \<noteq> 0 then {e} else {})"
    using ip by auto
  then have new: "(if epoch_writes e \<noteq> 0 then p1\<lparr>page_block_set := insert (entry_block mc e) (page_block_set p1)\<rparr> else p1) = q"
    using ip unfolding p1_def q_def page_stat_def by simp
  have "int (card (page_block_set q)) \<le> mc_page_blocks mc"
    unfolding q_def by (rule page_blocks_bound [OF g])
  then have run: "mc_input_block e mc = Some (mc\<lparr>mc_nvm_pages := AList.update page q (mc_nvm_pages mc)\<rparr>)"
    using True
    unfolding mc_input_block_def Let_def entry_block_def [symmetric] page_def [symmetric] old p1_def [symmetric] new
    by (simp add: att_active_def)
  have "nvm_pages_rep mc (es @ [e]) (AList.update page q (mc_nvm_pages mc))"
  proof -
    have "x = page" if "in_page mc x e" for x using that by (simp add: in_page_def page_def)
    then have other: "\<not> in_page mc x e" if "x \<noteq> page" for x using that by blast
    show ?thesis
      using rep ip other unfolding nvm_pages_rep_def
      by (auto simp: AList.update_conv' AList.distinct_update q_def page_stat_other)
  qed
  then show ?thesis using run by blast
qed

lemma nvm_pages_rep_core:
  assumes "mc_core mc' = mc_core mc" shows "nvm_pages_rep mc' = nvm_pages_rep mc"
proof -
  have e: "entry_block mc' = entry_block mc"
    by (simp add: fun_eq_iff entry_block_def mc_core_fields [OF assms])
  then have "in_page mc' = in_page mc"
    by (intro ext) (simp only: in_page_def mc_core_fields(15) [OF assms])
  then show ?thesis by (intro ext) (simp only: nvm_pages_rep_def page_stat_def e)
qed

lemma mc_input_blocks_ok:
  assumes g: "mc_geometry mc" and rep: "nvm_pages_rep mc es0 (mc_nvm_pages mc)"
    and w: "\<And>e. e \<in> set es \<Longrightarrow> \<not> att_active e \<Longrightarrow> epoch_writes e = 0"
  shows "\<exists>ps. mc_input_blocks es mc = Some (mc\<lparr>mc_nvm_pages := ps\<rparr>) \<and> nvm_pages_rep mc (es0 @ es) ps"
  using assms
proof (induction es arbitrary: es0 mc)
  case Nil
  then show ?case by (intro exI [of _ "mc_nvm_pages mc"]) simp
next
  case (Cons e es)
  obtain ps where ps: "mc_input_block e mc = Some (mc\<lparr>mc_nvm_pages := ps\<rparr>)" "nvm_pages_rep mc (es0 @ [e]) ps"
    using mc_input_block_ok [OF Cons.prems(1,2), of e] Cons.prems(3) by auto
  let ?m = "mc\<lparr>mc_nvm_pages := ps\<rparr>"
  have core: "mc_core ?m = mc_core mc" by (simp add: mc_core_def)
  note m = mc_core_fields(12) [OF core] nvm_pages_rep_core [OF core]
  obtain qs where "mc_input_blocks es ?m = Some (?m\<lparr>mc_nvm_pages := qs\<rparr>)" "nvm_pages_rep mc ((es0 @ [e]) @ es) qs"
    using Cons.IH [of ?m "es0 @ [e]"] Cons.prems ps(2) m by auto
  then show ?case using ps(1) by auto
qed

lemma mc_InputBlocks_ok:
  assumes g: "mc_geometry mc" and inv: "mc_inv mc" and cnt: "mc_counted mc"
    and fresh: "mc_nvm_pages mc = []" "mc_nvm_heap mc = []" "mc_dram_heap mc = []"
    and w: "\<And>e. e \<in> set es \<Longrightarrow> \<not> att_active e \<Longrightarrow> epoch_writes e = 0"
  shows "\<exists>mc' ps. mc_InputBlocks es mc = Some mc' \<and> mc_core mc' = mc_core mc \<and>
    mc_nvm_heap_filled mc' \<and> mc_dram_heap_filled mc' \<and>
    is_heap nvm_less (mc_nvm_heap mc') \<and> is_heap dram_less (mc_dram_heap mc') \<and>
    nvm_pages_rep mc es ps \<and> mset (mc_nvm_heap mc') = mset (map (nvm_stats mc) ps) \<and>
    mset (mc_dram_heap mc') = mset (map (dram_stats mc) (mc_entries mc))"
proof -
  have "nvm_pages_rep mc [] []" by (simp add: nvm_pages_rep_def)
  then obtain ps where ps: "mc_input_blocks es mc = Some (mc\<lparr>mc_nvm_pages := ps\<rparr>)" "nvm_pages_rep mc es ps"
    using mc_input_blocks_ok [OF g, of "[]" es] fresh w by auto
  define m0 where "m0 = mc\<lparr>mc_nvm_pages := ps, mc_dirty_nvm_pages := mc_dirty_nvm_pages mc + of_nat (length ps)\<rparr>"
  have c0: "mc_core m0 = mc_core mc" by (simp add: m0_def mc_core_def)
  note f1 = mc_fill_nvm_spec [of ps m0]
  define m1 where "m1 = mc_FillNVMPageHeap m0"
  have m1: "mc_core m1 = mc_core mc" "mc_nvm_heap m1 = make_heap nvm_less (map (nvm_stats mc) ps)"
      "mc_nvm_heap_filled m1" "mc_dram_heap m1 = []"
    using f1 c0 fresh mc_core_fields(13) [OF c0]
    by (simp_all add: m1_def mc_FillNVMPageHeap_def Let_def m0_def mc_core_def)
  obtain m2 where m2: "mc_fill_dram (mc_entries m1) 0 m1 = (mc_dirty_entries m1, m2)" "mc_core m2 = mc_core m1"
      "mc_dram_heap m2 = map (dram_stats m1) (mc_entries m1)" "mc_nvm_heap m2 = mc_nvm_heap m1"
      "mc_nvm_heap_filled m2 = mc_nvm_heap_filled m1"
    using mc_fill_dram_spec [of "mc_entries m1" 0 m1] mc_dirts_eq [of m1] m1(4) inv cnt mc_core_fields(10,11) [OF m1(1)]
    by auto
  define m3 where "m3 = m2\<lparr>mc_dirty_dram_pages := mc_dirty_dram_pages m2 + word_of_int (mc_dirty_entries m2),
      mc_dram_heap := make_heap dram_less (mc_dram_heap m2), mc_dram_heap_filled := True\<rparr>"
  have "mc_FillDRAMPageHeap m1 = Some m3"
    using m2(1) mc_core_fields(5) [OF m2(2)] by (simp add: mc_FillDRAMPageHeap_def Let_def m3_def)
  then have run: "mc_InputBlocks es mc = Some m3"
    using ps(1) fresh by (simp add: mc_InputBlocks_def Let_def m1_def m0_def)
  have core: "mc_core m3 = mc_core mc" using m2(2) m1(1) by (simp add: m3_def mc_core_def)
  have "mc_dram_heap m3 = make_heap dram_less (map (dram_stats mc) (mc_entries mc))"
    using m2(3) mc_core_fields(7,14) [OF m1(1)] by (simp add: m3_def)
  moreover have "mc_nvm_heap m3 = make_heap nvm_less (map (nvm_stats mc) ps)" "mc_nvm_heap_filled m3" "mc_dram_heap_filled m3"
    using m2(4,5) m1(2,3) by (simp_all add: m3_def)
  ultimately show ?thesis
    using run core ps(2) nvm_order.make_heap_spec dram_order.make_heap_spec
    by (intro exI [of _ m3] exI [of _ ps]) simp
qed

section \<open>Clearing an epoch\<close>

definition ptt_clean :: "PTTState \<Rightarrow> PTTState" where
  "ptt_clean st = (case st of DIRTY_DIRECT \<Rightarrow> CLEAN_DIRECT | DIRTY_STATIC \<Rightarrow> CLEAN_STATIC | _ \<Rightarrow> st)"

definition pt_cleaned :: "PTTEntry \<Rightarrow> PTTEntry" where
  "pt_cleaned e = e\<lparr>pt_epoch_reads := 0, pt_epoch_writes := 0, pt_state := ptt_clean (pt_state e)\<rparr>"

lemma pt_cleaned_fields [simp]:
  "pt_index (pt_cleaned e) = pt_index e" "pt_mach_base (pt_cleaned e) = pt_mach_base e"
  "pt_epoch_writes (pt_cleaned e) = 0" "\<not> ptt_dirty (pt_state (pt_cleaned e))"
  by (simp_all add: pt_cleaned_def ptt_clean_def ptt_dirty_def split: PTTState.splits)

text \<open>The write-back list of one page: its blocks when the page is dirty.\<close>

definition writeback :: "MigrationController \<Rightarrow> Addr \<Rightarrow> Addr list" where
  "writeback mc page =
     (case mc_find page mc of Some e \<Rightarrow> if ptt_dirty (pt_state e) then page_block_list mc page else [] | None \<Rightarrow> [])"

lemma map_entry_cong:
  "map_of xs k = Some v \<Longrightarrow> f v = g v \<Longrightarrow> AList.map_entry k f xs = AList.map_entry k g xs"
  by (induction xs) (auto split: if_splits)

lemma mc_clear_entry_ok:
  assumes g: "mc_geometry mc" and inv: "mc_inv mc" and e: "mc_find k mc = Some e"
    and fits: "unat k + 2 ^ mc_page_bits mc < 2 ^ 64"
  shows "\<exists>pf' mc'. mc_clear_entry k pf blocks mc = Some (pf', blocks @ writeback mc k, mc') \<and>
    ignore_latency pf' = ignore_latency pf \<and> mc_inv mc' \<and> mc_same mc mc' \<and>
    map fst (mc_entries mc') = map fst (mc_entries mc) \<and>
    (\<forall>x. mc_find x mc' = (if x = k then Some (pt_cleaned e) else mc_find x mc))"
proof -
  note en = mc_inv_entry [OF inv e]
  let ?f = "\<lambda>e. e\<lparr>pt_epoch_reads := 0, pt_epoch_writes := 0\<rparr>"
  let ?d = "ptt_dirty (pt_state e)"
  define m1 where "m1 = mc_map_entry k ?f mc"
  define m where "m = (if ?d then (mc_map_entry k (\<lambda>e. e\<lparr>pt_state := ptt_clean (pt_state e)\<rparr>) m1)
      \<lparr>mc_dirty_entries := mc_dirty_entries mc - 1\<rparr> else m1)"
  have clean: "e\<lparr>pt_epoch_reads := 0, pt_epoch_writes := 0\<rparr> = pt_cleaned e" if "\<not> ?d"
    using that by (cases e) (simp add: pt_cleaned_def ptt_clean_def ptt_dirty_def split: PTTState.splits)
  have find: "mc_find x m = (if x = k then Some (pt_cleaned e) else mc_find x mc)" for x
    using e clean by (simp add: m_def m1_def mc_find_map_entry pt_cleaned_def)
  have same: "mc_same mc m" by (simp add: m_def m1_def mc_same_def mc_map_entry_def)
  have keys: "map fst (mc_entries m) = map fst (mc_entries mc)"
    by (simp add: m_def m1_def mc_map_entry_def keys_map_entry)
  have invm: "mc_inv m"
    by (rule mc_inv_rewrite [OF inv e find keys _ same]) (simp_all add: m_def m1_def)
  have gm: "mc_geometry m" "page_block_list m = page_block_list mc" "mc_page_bits m = mc_page_bits mc"
    using g mc_same_geometry [OF same] page_block_list_same [OF same] same by (simp_all add: mc_same_def)
  have list: "mc_AddToBlockList (pt_mach_base e) blocks m = Some (blocks @ page_block_list mc k)"
    using mc_AddToBlockList_eq [OF gm(1), of k blocks] en gm fits by simp
  have st: "mc_map_entry k (\<lambda>e. e\<lparr>pt_state := st\<rparr>) m1 =
      mc_map_entry k (\<lambda>e. e\<lparr>pt_state := ptt_clean (pt_state e)\<rparr>) m1" if "st = ptt_clean (pt_state e)" for st
  proof -
    have "map_of (mc_entries m1) k = Some (?f e)"
      using e mc_find_map_entry [of k k ?f mc] by (simp add: m1_def mc_find_def)
    from map_entry_cong [OF this, of "\<lambda>e. e\<lparr>pt_state := st\<rparr>" "\<lambda>e. e\<lparr>pt_state := ptt_clean (pt_state e)\<rparr>"]
    show ?thesis using that by (simp add: mc_map_entry_def)
  qed
  have "\<exists>pf'. mc_clear_entry k pf blocks mc = Some (pf', blocks @ writeback mc k, m) \<and> ignore_latency pf' = ignore_latency pf"
  proof (cases ?d)
    case True
    then have m: "m = (mc_map_entry k (\<lambda>e. e\<lparr>pt_state := ptt_clean (pt_state e)\<rparr>) m1)\<lparr>mc_dirty_entries := mc_dirty_entries mc - 1\<rparr>"
      by (simp add: m_def)
    have d1: "mc_dirty_entries m1 = mc_dirty_entries mc" by (simp add: m1_def)
    have nd: "\<not> ptt_dirty CLEAN_DIRECT" "\<not> ptt_dirty CLEAN_STATIC" by (simp_all add: ptt_dirty_def)
    have "mc_clear_entry k pf blocks mc = do {
        blocks \<leftarrow> mc_AddToBlockList (pt_mach_base e) blocks m; Some (pf_AddTableOp pf, blocks, m) }"
      using True e st nd d1 unfolding m
      by (cases "pt_state e") (simp_all add: mc_clear_entry_def Let_def m1_def [symmetric] mc_ShiftState_at_def
          ptt_clean_def ptt_dirty_def)
    then show ?thesis using list True e by (simp add: writeback_def)
  next
    case False
    then show ?thesis
      using e by (cases "pt_state e") (simp_all add: mc_clear_entry_def Let_def m_def m1_def writeback_def ptt_dirty_def)
  qed
  then show ?thesis using invm same keys find by blast
qed

definition mc_fits :: "MigrationController \<Rightarrow> bool" where
  "mc_fits mc \<longleftrightarrow> (\<forall>k. mc_find k mc \<noteq> None \<longrightarrow> unat k + 2 ^ mc_page_bits mc < 2 ^ 64)"

lemma mc_clear_entries_ok:
  assumes "mc_geometry mc" "mc_inv mc" "mc_fits mc" "distinct ks" "\<And>k. k \<in> set ks \<Longrightarrow> mc_find k mc \<noteq> None"
  shows "\<exists>pf' mc'. mc_clear_entries ks pf blocks mc = Some (pf', blocks @ concat (map (writeback mc) ks), mc') \<and>
    ignore_latency pf' = ignore_latency pf \<and> mc_inv mc' \<and> mc_same mc mc' \<and>
    (\<forall>x. mc_find x mc' = (if x \<in> set ks then map_option pt_cleaned (mc_find x mc) else mc_find x mc))"
  using assms
proof (induction ks arbitrary: mc pf blocks)
  case Nil
  then show ?case by simp
next
  case (Cons k ks)
  obtain e where e: "mc_find k mc = Some e" using Cons.prems(5) [of k] by auto
  obtain pf1 m1 where m1: "mc_clear_entry k pf blocks mc = Some (pf1, blocks @ writeback mc k, m1)"
      "ignore_latency pf1 = ignore_latency pf" "mc_inv m1" "mc_same mc m1"
      "\<forall>x. mc_find x m1 = (if x = k then Some (pt_cleaned e) else mc_find x mc)"
    using mc_clear_entry_ok [OF Cons.prems(1,2) e] Cons.prems(3) e unfolding mc_fits_def by blast
  have fits: "mc_fits m1"
    using Cons.prems(3) m1(4,5) e unfolding mc_fits_def mc_same_def by auto
  have pres: "mc_find x m1 \<noteq> None" if "x \<in> set ks" for x using m1(5) Cons.prems(5) that by simp
  have wb: "map (writeback m1) ks = map (writeback mc) ks"
    using Cons.prems(4) m1(5) page_block_list_same [OF m1(4)] by (auto simp: writeback_def split: option.splits)
  obtain pf2 m2 where m2: "mc_clear_entries ks pf1 (blocks @ writeback mc k) m1 =
        Some (pf2, (blocks @ writeback mc k) @ concat (map (writeback m1) ks), m2)"
      "ignore_latency pf2 = ignore_latency pf1" "mc_inv m2" "mc_same m1 m2"
      "\<forall>x. mc_find x m2 = (if x \<in> set ks then map_option pt_cleaned (mc_find x m1) else mc_find x m1)"
    using Cons.IH [OF _ m1(3) fits _ pres, of pf1 "blocks @ writeback mc k"] Cons.prems(1,4) mc_same_geometry [OF m1(4)]
    by auto
  have "mc_find x m2 = (if x \<in> set (k # ks) then map_option pt_cleaned (mc_find x mc) else mc_find x mc)" for x
    using m2(5) m1(5) e Cons.prems(4) by auto
  then show ?case
    using m1(1,2) m2(1,2,3) mc_same_trans [OF m1(4) m2(4)] wb by simp
qed

lemma mc_Clear_ok:
  assumes "mc_geometry mc" "mc_inv mc" "mc_fits mc"
  shows "\<exists>pf' mc'. mc_Clear pf blocks mc = Some (pf', blocks @ concat (map (writeback mc) (map fst (mc_entries mc))), mc') \<and>
    ignore_latency pf' = ignore_latency pf \<and> mc_inv mc' \<and> mc_counted mc' \<and>
    mc_block_bits mc' = mc_block_bits mc \<and> mc_page_bits mc' = mc_page_bits mc \<and>
    mc_ptt_length mc' = mc_ptt_length mc \<and> mc_ptt_capacity mc' = mc_ptt_capacity mc \<and> mc_dirty_entries mc' = 0 \<and>
    mc_nvm_pages mc' = [] \<and> mc_nvm_heap mc' = [] \<and> mc_dram_heap mc' = [] \<and>
    \<not> mc_nvm_heap_filled mc' \<and> \<not> mc_dram_heap_filled mc' \<and>
    (\<forall>x. mc_find x mc' = map_option pt_cleaned (mc_find x mc))"
proof -
  let ?ks = "map fst (mc_entries mc)"
  have mem: "x \<in> set ?ks \<longleftrightarrow> mc_find x mc \<noteq> None" for x using dom_mc_find [of mc] by auto
  have dk: "distinct ?ks" using assms(2) unfolding mc_inv_def by blast
  obtain pf1 m1 where m1: "mc_clear_entries ?ks (pf_AddPageMoveInter (mc_dirty_entries mc) pf) blocks mc =
        Some (pf1, blocks @ concat (map (writeback mc) ?ks), m1)"
      "ignore_latency pf1 = ignore_latency pf" "mc_inv m1" "mc_same mc m1"
      "\<forall>x. mc_find x m1 = (if x \<in> set ?ks then map_option pt_cleaned (mc_find x mc) else mc_find x mc)"
    using mc_clear_entries_ok [OF assms(1-3), of ?ks "pf_AddPageMoveInter (mc_dirty_entries mc) pf" blocks]
      mem dk by auto
  have find: "mc_find x m1 = map_option pt_cleaned (mc_find x mc)" for x
    using m1(5) mem [of x] by (cases "mc_find x mc") auto
  have "mc_dirty_pages m1 = {}" unfolding mc_dirty_pages_def find by auto
  then have d0: "mc_dirty_entries m1 = 0" using m1(3) by (simp add: mc_inv_def)
  define m where "m = m1\<lparr>mc_nvm_pages := [], mc_dram_heap := [], mc_nvm_heap := [],
      mc_dram_heap_filled := False, mc_nvm_heap_filled := False\<rparr>"
  have core: "mc_core m = mc_core m1" by (simp add: m_def mc_core_def)
  have cnt: "mc_counted m1" unfolding mc_counted_def find by auto
  have "mc_Clear pf blocks mc = Some (pf1, blocks @ concat (map (writeback mc) ?ks), m)"
    using m1(1) d0 by (simp add: mc_Clear_def Let_def m_def)
  then show ?thesis
    using m1(2,3,4) cnt find d0 mc_core_fields [OF core]
    by (intro exI [of _ pf1] exI [of _ m]) (simp add: mc_same_def m_def)
qed

end
