(* ===== verification/Controller_Invariant.thy ===== *)
theory Controller_Invariant
  imports Addr_Trans_Controller Slot_Owner Migration_Proofs
begin

text \<open>
  The invariant of the address translation controller and its memory view. \<open>atc_inv\<close> relates the block
  map to the two slot buffers and to the page table; \<open>tr\<close> is the translation the map defines, and the
  logical memory is the stored bytes read through it. The lemmas here are about states; the operations
  follow in \<open>Controller_Blocks\<close>, \<open>Controller_Store\<close> and \<open>Controller_Epoch\<close>.
\<close>

section \<open>Translation\<close>

definition valid_tag :: "nat \<Rightarrow> Addr \<Rightarrow> Tag \<Rightarrow> bool" where
  "valid_tag b R t \<longleftrightarrow> push_bit b t < R \<and> drop_bit b (push_bit b t) = t"

definition loc :: "nat \<Rightarrow> block_map \<Rightarrow> Tag \<Rightarrow> Addr" where
  "loc b T t = (case T t of None \<Rightarrow> push_bit b t | Some (st, m) \<Rightarrow> m)"

definition tr :: "nat \<Rightarrow> block_map \<Rightarrow> Addr \<Rightarrow> Addr" where
  "tr b T a = (case T (drop_bit b a) of None \<Rightarrow> a | Some (st, m) \<Rightarrow> rebase b a m)"

lemma tr_loc: "tr b T a = rebase b a (loc b T (drop_bit b a))"
  by (simp add: tr_def loc_def split: option.splits)

lemma rebase_rebase [simp]: "aligned b m \<Longrightarrow> rebase b (rebase b a m) m' = rebase b a m'"
  using offset_rebase [of b m a] by (simp add: rebase_def)

lemma push_drop_le: "push_bit b (drop_bit b a) \<le> (a :: Addr)"
proof -
  have "push_bit b (drop_bit b a) = a AND NOT (mask b)"
    by (rule bit_word_eqI) (auto simp: bit_simps)
  then show ?thesis by (simp add: word_and_le2)
qed

lemma valid_tag_drop: "a < R \<Longrightarrow> valid_tag b R (drop_bit b a)"
  using push_drop_le [of b a] by (auto simp: valid_tag_def intro: order.strict_trans1)

lemma valid_tag_inj: "valid_tag b R t \<Longrightarrow> valid_tag b R t' \<Longrightarrow> push_bit b t = push_bit b t' \<Longrightarrow> t = t'"
  unfolding valid_tag_def by metis

text \<open>Moving block \<open>t\<close> to a base \<open>m'\<close> that no other block uses keeps what is read through the map.\<close>

definition fresh_base :: "nat \<Rightarrow> Addr \<Rightarrow> block_map \<Rightarrow> Tag \<Rightarrow> Addr \<Rightarrow> bool" where
  "fresh_base b R T t m' \<longleftrightarrow> aligned b m' \<and> (\<forall>t'. t' \<noteq> t \<and> valid_tag b R t' \<longrightarrow> aligned b (loc b T t') \<and> loc b T t' \<noteq> m')"

lemma fresh_drop:
  assumes "fresh_base b R T t m'" "valid_tag b R t'" "t' \<noteq> t"
  shows "drop_bit b (loc b T t') \<noteq> drop_bit b m'"
  using assms aligned_eqI [of b "loc b T t'" m'] unfolding fresh_base_def by blast

lemma loc_upd: "loc b (T(t := v)) t' = (if t' = t then (case v of None \<Rightarrow> push_bit b t | Some (st, m) \<Rightarrow> m) else loc b T t')"
  by (auto simp: loc_def)

lemma view_other:
  assumes "a < R" "drop_bit b a \<noteq> t" "fresh_base b R T t m'"
  shows "drop_bit b (tr b T a) \<noteq> drop_bit b m'" "tr b (T(t := v)) a = tr b T a"
proof -
  have al: "aligned b (loc b T (drop_bit b a))"
    using assms valid_tag_drop [OF assms(1), of b] by (simp add: fresh_base_def)
  show "drop_bit b (tr b T a) \<noteq> drop_bit b m'"
    using fresh_drop [OF assms(3) valid_tag_drop [OF assms(1)] assms(2)] al by (simp add: tr_loc)
  show "tr b (T(t := v)) a = tr b T a" using assms(2) by (simp add: tr_def)
qed

lemma view_copy:
  assumes a: "a < R" and fresh: "fresh_base b R T t m'" and m: "aligned b (loc b T t)"
    and v: "loc b (T(t := v)) t = m'" and mem: "mem' = block_copy b m' (loc b T t) mem"
  shows "mem' (tr b (T(t := v)) a) = mem (tr b T a)"
proof (cases "drop_bit b a = t")
  case True
  have al: "aligned b m'" using fresh by (simp add: fresh_base_def)
  have "tr b (T(t := v)) a = rebase b a m'" unfolding tr_loc True v ..
  moreover have "tr b T a = rebase b a (loc b T t)" unfolding tr_loc True ..
  ultimately show ?thesis using al by (simp add: mem block_copy_def)
next
  case False
  then show ?thesis using view_other [OF a False fresh] by (simp add: mem block_copy_def)
qed

lemma view_swap:
  assumes a: "a < R" and fresh: "fresh_base b R T t m'" "fresh_base b R T t (loc b T t)"
    and v: "loc b (T(t := v)) t = m'" and mem: "mem' = block_swap b m' (loc b T t) mem"
  shows "mem' (tr b (T(t := v)) a) = mem (tr b T a)"
proof (cases "drop_bit b a = t")
  case True
  have al: "aligned b m'" using fresh by (simp add: fresh_base_def)
  have "tr b (T(t := v)) a = rebase b a m'" unfolding tr_loc True v ..
  moreover have "tr b T a = rebase b a (loc b T t)" unfolding tr_loc True ..
  ultimately show ?thesis using al by (simp add: mem block_swap_def)
next
  case False
  then show ?thesis
    using view_other [OF a False fresh(1)] view_other(1) [OF a False fresh(2)] by (simp add: mem block_swap_def)
qed

section \<open>The invariant\<close>

abbreviation atc_map :: "'m ATC \<Rightarrow> block_map" where
  "atc_map s \<equiv> tbl (atc_att s)"

abbreviation atc_bits :: "'m ATC \<Rightarrow> nat" where
  "atc_bits s \<equiv> att_block_bits (atc_att s)"

definition in_dram :: "'m ATC \<Rightarrow> Tag \<Rightarrow> bool" where
  "in_dram s t \<longleftrightarrow> mc_find (page_of (mc_page_bits (atc_mc s)) (push_bit (atc_bits s) t)) (atc_mc s) \<noteq> None"

text \<open>Sizes and regions, which never change.\<close>

definition atc_geo :: "'m ATC \<Rightarrow> bool" where
  "atc_geo s \<longleftrightarrow>
     atc_bits s \<le> 30 \<and> vb_block_bits (atc_nvm s) = atc_bits s \<and> vb_block_bits (atc_dram s) = atc_bits s \<and>
     mc_block_bits (atc_mc s) = atc_bits s \<and> mc_geometry (atc_mc s) \<and>
     vb_geometry (atc_nvm s) \<and> vb_geometry (atc_dram s) \<and>
     vb_length (atc_nvm s) = 2 * att_length (atc_att s) \<and> vb_length (atc_dram s) = att_length (atc_att s) \<and>
     vb_addr_base (atc_nvm s) = atc_phy_range s \<and>
     vb_addr_base (atc_dram s) = atc_phy_range s + vb_Size (atc_nvm s) \<and>
     aligned (mc_page_bits (atc_mc s)) (atc_phy_range s)"

text \<open>Every entry is in a state and at a place that fit.\<close>

definition atc_blocks :: "'m ATC \<Rightarrow> bool" where
  "atc_blocks s \<longleftrightarrow>
     (\<forall>t st a. atc_map s t = Some (st, a) \<longrightarrow>
        valid_tag (atc_bits s) (atc_phy_range s) t \<and> (st = LOAN \<longleftrightarrow> in_dram s t) \<and>
        (st = HIDDEN \<longrightarrow> a = push_bit (atc_bits s) t) \<and> (atc_ckpt s \<longrightarrow> st \<noteq> DIRTY \<and> st \<noteq> HIDDEN)) \<and>
     owns (atc_nvm s) nvm_state (atc_map s) \<and> owns (atc_dram s) dram_state (atc_map s)"

text \<open>
  The slots. A slot that backs up a checkpointed version is kept until the next checkpoint ends, and no
  more than \<open>att_length\<close> slots are kept in this way, so \<open>2 * att_length\<close> NVM slots are enough.
\<close>

definition atc_counts :: "'m ATC \<Rightarrow> bool" where
  "atc_counts s \<longleftrightarrow>
     vb_sets (atc_dram s) BACKUP0 = {} \<and> vb_sets (atc_dram s) BACKUP1 = {} \<and>
     int (card (vb_sets (atc_nvm s) BACKUP0)) \<le> att_length (atc_att s) \<and>
     (if atc_ckpt s
      then int (card (vb_sets (atc_nvm s) BACKUP1) + card (tags (\<lambda>x. x = CLEAN) (atc_map s))) \<le> att_length (atc_att s)
      else vb_sets (atc_nvm s) BACKUP1 = {})"

text \<open>What keeps the number of backups small in a running epoch: a new one comes from a clean block.\<close>

definition atc_budget :: "'m ATC \<Rightarrow> bool" where
  "atc_budget s \<longleftrightarrow> atc_ckpt s \<or>
     int (card (vb_sets (atc_nvm s) BACKUP0) + card (tags (\<lambda>x. x = CLEAN) (atc_map s))) \<le> att_length (atc_att s)"

text \<open>An entry that holds no block is in no active state.\<close>

definition att_idle :: "AddrTransTable \<Rightarrow> bool" where
  "att_idle att \<longleftrightarrow>
     (\<forall>i. 0 \<le> i \<and> i < att_length att \<and> (\<forall>t. \<not> att_holds att i t) \<longrightarrow> \<not> att_active (ent att i))"

definition atc_inv :: "'m ATC \<Rightarrow> bool" where
  "atc_inv s \<longleftrightarrow>
     atc_geo s \<and> att_ok (atc_att s) \<and> att_idle (atc_att s) \<and> vb_inv (atc_nvm s) \<and> vb_inv (atc_dram s) \<and>
     mc_inv (atc_mc s) \<and> mc_counted (atc_mc s) \<and>
     (\<forall>k. mc_find k (atc_mc s) \<noteq> None \<longrightarrow> k < atc_phy_range s) \<and> atc_blocks s \<and> atc_counts s"

text \<open>
  The books of the epoch, which hold from one checkpoint until the pages are migrated: entries that the
  migration pass must find unwritten are unwritten, the heaps are empty, and the budget is kept.
\<close>

definition att_quiet :: "AddrTransTable \<Rightarrow> bool" where
  "att_quiet att \<longleftrightarrow>
     (\<forall>i. 0 \<le> i \<and> i < att_length att \<and> (\<not> att_active (ent att i) \<or> att_state (ent att i) = LOAN) \<longrightarrow>
        epoch_writes (ent att i) = 0)"

definition atc_stats :: "'m ATC \<Rightarrow> bool" where
  "atc_stats s \<longleftrightarrow> att_quiet (atc_att s) \<and> mc_nvm_pages (atc_mc s) = [] \<and> mc_nvm_heap (atc_mc s) = [] \<and>
     mc_dram_heap (atc_mc s) = [] \<and> \<not> mc_nvm_heap_filled (atc_mc s) \<and> atc_budget s"

lemma atc_invD:
  assumes "atc_inv s"
  shows "atc_geo s" "att_ok (atc_att s)" "att_idle (atc_att s)" "vb_inv (atc_nvm s)" "vb_inv (atc_dram s)"
    "mc_inv (atc_mc s)" "mc_counted (atc_mc s)" "atc_blocks s" "atc_counts s"
    "mc_find k (atc_mc s) \<noteq> None \<Longrightarrow> k < atc_phy_range s"
  using assms by (simp_all add: atc_inv_def)

lemma atc_geoD:
  assumes "atc_geo s"
  shows "atc_bits s \<le> 30" "vb_block_bits (atc_nvm s) = atc_bits s" "vb_block_bits (atc_dram s) = atc_bits s"
    "mc_block_bits (atc_mc s) = atc_bits s" "mc_geometry (atc_mc s)" "vb_geometry (atc_nvm s)"
    "vb_geometry (atc_dram s)" "vb_length (atc_nvm s) = 2 * att_length (atc_att s)"
    "vb_length (atc_dram s) = att_length (atc_att s)" "vb_addr_base (atc_nvm s) = atc_phy_range s"
    "vb_addr_base (atc_dram s) = atc_phy_range s + vb_Size (atc_nvm s)"
    "aligned (mc_page_bits (atc_mc s)) (atc_phy_range s)"
  using assms by (simp_all add: atc_geo_def)

lemma atc_blocksD:
  assumes "atc_blocks s" "atc_map s t = Some (st, a)"
  shows "valid_tag (atc_bits s) (atc_phy_range s) t" "st = LOAN \<longleftrightarrow> in_dram s t"
    "st = HIDDEN \<Longrightarrow> a = push_bit (atc_bits s) t" "atc_ckpt s \<Longrightarrow> st \<noteq> DIRTY \<and> st \<noteq> HIDDEN"
  using assms by (simp_all add: atc_blocks_def)

lemma atc_owns:
  assumes "atc_blocks s"
  shows "owns (atc_nvm s) nvm_state (atc_map s)" "owns (atc_dram s) dram_state (atc_map s)"
  using assms by (simp_all add: atc_blocks_def)

section \<open>Regions\<close>

lemma dram_base_uint:
  assumes "atc_geo s"
  shows "uint (vb_addr_base (atc_dram s)) =
    uint (atc_phy_range s) + vb_length (atc_nvm s) * 2 ^ vb_block_bits (atc_nvm s)"
proof -
  note g = atc_geoD [OF assms]
  have lt: "uint (atc_phy_range s) + uint (vb_Size (atc_nvm s)) < 2 ^ 64"
    using g(6) uint_vb_Size [OF g(6)] g(10) by (simp add: vb_geometry_def)
  have "uint (vb_addr_base (atc_dram s)) = (uint (atc_phy_range s) + uint (vb_Size (atc_nvm s))) mod 2 ^ 64"
    unfolding g(11) by (simp add: uint_word_ariths)
  also have "\<dots> = uint (atc_phy_range s) + uint (vb_Size (atc_nvm s))"
    using lt by (intro mod_pos_pos_trivial) simp_all
  finally show ?thesis unfolding uint_vb_Size [OF g(6)] .
qed

lemma slot_nvm:
  assumes "atc_geo s" "j \<in> {0 ..< vb_length (atc_nvm s)}"
  shows "atc_phy_range s \<le> vb_addr (atc_nvm s) j" "vb_addr (atc_nvm s) j < vb_addr_base (atc_dram s)"
    "aligned (atc_bits s) (vb_addr (atc_nvm s) j)"
proof -
  note g = atc_geoD [OF assms(1)]
  note u = uint_vb_addr [OF g(6), of j] and sb = slot_bytes [OF g(6), of j]
  show "atc_phy_range s \<le> vb_addr (atc_nvm s) j"
    using u sb g(10) assms(2) by (simp add: word_le_def)
  show "vb_addr (atc_nvm s) j < vb_addr_base (atc_dram s)"
    using u sb g(10) assms(2) dram_base_uint [OF assms(1)] by (simp add: word_less_def)
  show "aligned (atc_bits s) (vb_addr (atc_nvm s) j)"
    using aligned_vb_addr [OF g(6), of j] g(2) assms(2) by simp
qed

lemma slot_dram:
  assumes "atc_geo s" "j \<in> {0 ..< vb_length (atc_dram s)}"
  shows "vb_addr_base (atc_dram s) \<le> vb_addr (atc_dram s) j" "atc_phy_range s \<le> vb_addr (atc_dram s) j"
    "aligned (atc_bits s) (vb_addr (atc_dram s) j)"
proof -
  note g = atc_geoD [OF assms(1)]
  note u = uint_vb_addr [OF g(7), of j] and sb = slot_bytes [OF g(7), of j]
  show le: "vb_addr_base (atc_dram s) \<le> vb_addr (atc_dram s) j"
    using u sb assms(2) by (simp add: word_le_def)
  have "0 \<le> vb_length (atc_nvm s)" using g(6) by (simp add: vb_geometry_def)
  then have "atc_phy_range s \<le> vb_addr_base (atc_dram s)"
    using dram_base_uint [OF assms(1)] by (simp add: word_le_def)
  then show "atc_phy_range s \<le> vb_addr (atc_dram s) j" using le by simp
  show "aligned (atc_bits s) (vb_addr (atc_dram s) j)"
    using aligned_vb_addr [OF g(7), of j] g(3) assms(2) by simp
qed

text \<open>The machine memory ends where the DRAM buffer ends, without wrap-around.\<close>

lemma atc_Size_bounds:
  assumes "atc_geo s"
  shows "atc_phy_range s \<le> atc_Size s"
    "j \<in> {0 ..< vb_length (atc_nvm s)} \<Longrightarrow> vb_addr (atc_nvm s) j < atc_Size s"
    "j \<in> {0 ..< vb_length (atc_dram s)} \<Longrightarrow> vb_addr (atc_dram s) j < atc_Size s"
proof -
  note g = atc_geoD [OF assms] and b = dram_base_uint [OF assms]
  have sz: "atc_Size s = vb_addr_base (atc_dram s) + vb_Size (atc_dram s)" using g(11) by (simp add: atc_Size_def)
  have lt: "uint (vb_addr_base (atc_dram s)) + uint (vb_Size (atc_dram s)) < 2 ^ 64"
    using g(7) uint_vb_Size [OF g(7)] by (simp add: vb_geometry_def)
  have u: "uint (atc_Size s) = uint (vb_addr_base (atc_dram s)) + vb_length (atc_dram s) * 2 ^ vb_block_bits (atc_dram s)"
    using lt uint_vb_Size [OF g(7)] uint_add_lem [of "vb_addr_base (atc_dram s)" "vb_Size (atc_dram s)"] unfolding sz by simp
  have nn: "0 \<le> vb_length (atc_nvm s)" "0 \<le> vb_length (atc_dram s)" using g(6,7) by (simp_all add: vb_geometry_def)
  then have le: "atc_phy_range s \<le> vb_addr_base (atc_dram s)" "vb_addr_base (atc_dram s) \<le> atc_Size s"
    using u b by (simp_all add: word_le_def)
  show "atc_phy_range s \<le> atc_Size s" using le by simp
  show "vb_addr (atc_nvm s) j < atc_Size s" if "j \<in> {0 ..< vb_length (atc_nvm s)}"
    using slot_nvm(2) [OF assms that] le(2) by (rule order.strict_trans2)
  show "vb_addr (atc_dram s) j < atc_Size s" if "j \<in> {0 ..< vb_length (atc_dram s)}"
    using that uint_vb_addr [OF g(7), of j] slot_bytes [OF g(7), of j] u by (simp add: word_less_def)
qed

text \<open>Where a block can be: its home, or a slot of one buffer in use.\<close>

lemma loc_cases:
  assumes inv: "atc_inv s" and t: "valid_tag (atc_bits s) (atc_phy_range s) t"
  obtains (home) "loc (atc_bits s) (atc_map s) t = push_bit (atc_bits s) t"
  | (nvm) st j where "atc_map s t = Some (st, vb_addr (atc_nvm s) j)" "nvm_state st" "j \<in> vb_sets (atc_nvm s) IN_USE"
      "loc (atc_bits s) (atc_map s) t = vb_addr (atc_nvm s) j"
  | (dram) st j where "atc_map s t = Some (st, vb_addr (atc_dram s) j)" "dram_state st" "j \<in> vb_sets (atc_dram s) IN_USE"
      "loc (atc_bits s) (atc_map s) t = vb_addr (atc_dram s) j"
proof (cases "atc_map s t")
  case None
  then show ?thesis using home by (simp add: loc_def)
next
  case (Some x)
  then obtain st a where x: "atc_map s t = Some (st, a)" by (cases x) simp
  note bl = atc_invD(8) [OF inv]
  have "st \<noteq> FREE" using att_tbl_not_FREE [OF atc_invD(2) [OF inv] x] .
  then consider "nvm_state st" | "dram_state st" | "st = HIDDEN" by (cases st) simp_all
  then show ?thesis
  proof cases
    case 1
    then obtain j where "j \<in> vb_sets (atc_nvm s) IN_USE" "a = vb_addr (atc_nvm s) j"
      using owns_slot [OF atc_owns(1) [OF bl] x] by blast
    then show ?thesis using nvm 1 x by (simp add: loc_def)
  next
    case 2
    then obtain j where "j \<in> vb_sets (atc_dram s) IN_USE" "a = vb_addr (atc_dram s) j"
      using owns_slot [OF atc_owns(2) [OF bl] x] by blast
    then show ?thesis using dram 2 x by (simp add: loc_def)
  next
    case 3
    then show ?thesis using home x atc_blocksD(3) [OF bl x] by (simp add: loc_def)
  qed
qed

lemma in_use_range:
  assumes "atc_inv s"
  shows "j \<in> vb_sets (atc_nvm s) st \<Longrightarrow> j \<in> {0 ..< vb_length (atc_nvm s)}"
    and "j \<in> vb_sets (atc_dram s) st \<Longrightarrow> j \<in> {0 ..< vb_length (atc_dram s)}"
  using vb_inv_slot [OF atc_invD(4) [OF assms]] vb_inv_slot [OF atc_invD(5) [OF assms]] by simp_all

lemma loc_aligned:
  assumes "atc_inv s" "valid_tag (atc_bits s) (atc_phy_range s) t"
  shows "aligned (atc_bits s) (loc (atc_bits s) (atc_map s) t)"
  using assms(1,2)
  by (cases rule: loc_cases [OF assms])
    (use slot_nvm(3) [OF atc_invD(1) [OF assms(1)]] slot_dram(3) [OF atc_invD(1) [OF assms(1)]]
      in_use_range [OF assms(1)] in auto)

text \<open>The three kinds of base that a block can move to are free for it.\<close>

lemma fresh_home:
  assumes inv: "atc_inv s" and t: "valid_tag (atc_bits s) (atc_phy_range s) t"
  shows "fresh_base (atc_bits s) (atc_phy_range s) (atc_map s) t (push_bit (atc_bits s) t)"
  unfolding fresh_base_def
proof (intro conjI allI impI)
  fix t' assume t': "t' \<noteq> t \<and> valid_tag (atc_bits s) (atc_phy_range s) t'"
  then show "aligned (atc_bits s) (loc (atc_bits s) (atc_map s) t')" using loc_aligned [OF inv] by blast
  have lt: "push_bit (atc_bits s) t < atc_phy_range s" using t by (simp add: valid_tag_def)
  show "loc (atc_bits s) (atc_map s) t' \<noteq> push_bit (atc_bits s) t"
  proof (cases rule: loc_cases [OF inv conjunct2 [OF t'], case_names home nvm dram])
    case home
    then show ?thesis using valid_tag_inj [OF conjunct2 [OF t'] t] t' by auto
  next
    case (nvm st j)
    then show ?thesis using slot_nvm(1) [OF atc_invD(1) [OF inv]] in_use_range(1) [OF inv] lt by fastforce
  next
    case (dram st j)
    then show ?thesis using slot_dram(2) [OF atc_invD(1) [OF inv]] in_use_range(2) [OF inv] lt by fastforce
  qed
qed simp

lemma home_not_slot:
  assumes inv: "atc_inv s" and t: "valid_tag (atc_bits s) (atc_phy_range s) t"
  shows "i \<in> {0 ..< vb_length (atc_nvm s)} \<Longrightarrow> push_bit (atc_bits s) t \<noteq> vb_addr (atc_nvm s) i"
    and "i \<in> {0 ..< vb_length (atc_dram s)} \<Longrightarrow> push_bit (atc_bits s) t \<noteq> vb_addr (atc_dram s) i"
proof -
  have lt: "push_bit (atc_bits s) t < atc_phy_range s" using t by (simp add: valid_tag_def)
  show "i \<in> {0 ..< vb_length (atc_nvm s)} \<Longrightarrow> push_bit (atc_bits s) t \<noteq> vb_addr (atc_nvm s) i"
    using slot_nvm(1) [OF atc_invD(1) [OF inv], of i] lt by auto
  show "i \<in> {0 ..< vb_length (atc_dram s)} \<Longrightarrow> push_bit (atc_bits s) t \<noteq> vb_addr (atc_dram s) i"
    using slot_dram(2) [OF atc_invD(1) [OF inv], of i] lt by auto
qed

lemma nvm_not_dram:
  assumes "atc_geo s" "i \<in> {0 ..< vb_length (atc_nvm s)}" "j \<in> {0 ..< vb_length (atc_dram s)}"
  shows "vb_addr (atc_nvm s) i \<noteq> vb_addr (atc_dram s) j"
  using slot_nvm(2) [OF assms(1,2)] slot_dram(1) [OF assms(1,3)] by auto

lemma fresh_nvm:
  assumes inv: "atc_inv s" and i: "i \<in> {0 ..< vb_length (atc_nvm s)}"
    and free: "\<And>t' st. t' \<noteq> t \<Longrightarrow> nvm_state st \<Longrightarrow> atc_map s t' \<noteq> Some (st, vb_addr (atc_nvm s) i)"
  shows "fresh_base (atc_bits s) (atc_phy_range s) (atc_map s) t (vb_addr (atc_nvm s) i)"
  unfolding fresh_base_def
proof (intro conjI allI impI)
  note g = atc_invD(1) [OF inv]
  show "aligned (atc_bits s) (vb_addr (atc_nvm s) i)" by (rule slot_nvm(3) [OF g i])
  fix t' assume t': "t' \<noteq> t \<and> valid_tag (atc_bits s) (atc_phy_range s) t'"
  then show "aligned (atc_bits s) (loc (atc_bits s) (atc_map s) t')" using loc_aligned [OF inv] by blast
  show "loc (atc_bits s) (atc_map s) t' \<noteq> vb_addr (atc_nvm s) i"
  proof (cases rule: loc_cases [OF inv conjunct2 [OF t'], case_names home nvm dram])
    case home
    then show ?thesis using home_not_slot(1) [OF inv conjunct2 [OF t'] i] by simp
  next
    case (nvm st j)
    then show ?thesis using free [of t' st] t' by auto
  next
    case (dram st j)
    then show ?thesis using nvm_not_dram [OF g i] in_use_range(2) [OF inv] by metis
  qed
qed

lemma fresh_dram:
  assumes inv: "atc_inv s" and i: "i \<in> {0 ..< vb_length (atc_dram s)}"
    and free: "\<And>t' st. t' \<noteq> t \<Longrightarrow> dram_state st \<Longrightarrow> atc_map s t' \<noteq> Some (st, vb_addr (atc_dram s) i)"
  shows "fresh_base (atc_bits s) (atc_phy_range s) (atc_map s) t (vb_addr (atc_dram s) i)"
  unfolding fresh_base_def
proof (intro conjI allI impI)
  note g = atc_invD(1) [OF inv]
  show "aligned (atc_bits s) (vb_addr (atc_dram s) i)" by (rule slot_dram(3) [OF g i])
  fix t' assume t': "t' \<noteq> t \<and> valid_tag (atc_bits s) (atc_phy_range s) t'"
  then show "aligned (atc_bits s) (loc (atc_bits s) (atc_map s) t')" using loc_aligned [OF inv] by blast
  show "loc (atc_bits s) (atc_map s) t' \<noteq> vb_addr (atc_dram s) i"
  proof (cases rule: loc_cases [OF inv conjunct2 [OF t'], case_names home nvm dram])
    case home
    then show ?thesis using home_not_slot(2) [OF inv conjunct2 [OF t'] i] by simp
  next
    case (nvm st j)
    then show ?thesis using nvm_not_dram [OF g _ i] in_use_range(1) [OF inv] by metis
  next
    case (dram st j)
    then show ?thesis using free [of t' st] t' by auto
  qed
qed

text \<open>The room a store needs when its block is not in the table.\<close>

definition store_room :: "Tag \<Rightarrow> 'm ATC \<Rightarrow> bool" where
  "store_room t s \<longleftrightarrow> atc_map s t \<noteq> None \<or> (in_dram s t \<and> \<not> atc_ckpt s) \<or>
     int (card (dom (atc_map s))) < att_length (atc_att s) \<or> tags (\<lambda>x. x = CLEAN) (atc_map s) \<noteq> {} \<or>
     (\<not> atc_ckpt s \<and> tags (\<lambda>x. x = LOAN) (atc_map s) \<noteq> {})"

end
