(* ===== verification/Controller_Blocks.thy ===== *)
theory Controller_Blocks
  imports Controller_Invariant
begin

text \<open>
  The transitions of a single block: \<open>HideClean\<close>, \<open>ResetClean\<close>, \<open>FreeClean\<close>, \<open>DirtyStained\<close>, \<open>FreeLoan\<close>,
  \<open>HideTemp\<close>, \<open>Discard\<close> and \<open>Setup\<close>. Each lemma shows that the operation runs without failing an
  assertion, keeps the invariant, rewrites exactly one entry of the block map and keeps the logical
  memory, except for the block itself when no data is moved because the caller overwrites all of it.
\<close>

section \<open>Frames\<close>

definition vb_consts :: "VersionBuffer \<Rightarrow> Addr \<times> int \<times> nat" where
  "vb_consts vb = (vb_addr_base vb, vb_length vb, vb_block_bits vb)"

lemma vb_consts_move [simp]: "vb_consts (vb_move i st st' vb) = vb_consts vb"
  by (simp add: vb_consts_def)

lemma vb_consts_cong:
  assumes "vb_consts vb' = vb_consts vb"
  shows "vb_geometry vb' = vb_geometry vb" "vb_Size vb' = vb_Size vb" "vb_addr vb' = vb_addr vb"
    "vb_length vb' = vb_length vb" "vb_block_bits vb' = vb_block_bits vb" "vb_addr_base vb' = vb_addr_base vb"
    "vb_Contains a vb' = vb_Contains a vb"
  using assms by (simp_all add: vb_consts_def vb_geometry_def vb_Size_def vb_addr_def fun_eq_iff vb_Contains_def)

text \<open>What a block transition leaves alone.\<close>

definition atc_frame :: "'m ATC \<Rightarrow> 'm ATC \<Rightarrow> bool" where
  "atc_frame s s' \<longleftrightarrow>
     atc_phy_range s' = atc_phy_range s \<and> atc_ckpt s' = atc_ckpt s \<and> atc_mc s' = atc_mc s \<and>
     att_consts (atc_att s') = att_consts (atc_att s) \<and>
     vb_consts (atc_nvm s') = vb_consts (atc_nvm s) \<and> vb_consts (atc_dram s') = vb_consts (atc_dram s)"

lemma atc_frame_refl [simp]: "atc_frame s s"
  by (simp add: atc_frame_def)

lemma atc_frame_trans: "atc_frame a b \<Longrightarrow> atc_frame b c \<Longrightarrow> atc_frame a c"
  by (simp add: atc_frame_def)

lemma atc_frameD:
  assumes "atc_frame s s'"
  shows "atc_phy_range s' = atc_phy_range s" "atc_ckpt s' = atc_ckpt s" "atc_mc s' = atc_mc s"
    "atc_bits s' = atc_bits s" "att_length (atc_att s') = att_length (atc_att s)"
    "vb_addr (atc_nvm s') = vb_addr (atc_nvm s)" "vb_addr (atc_dram s') = vb_addr (atc_dram s)"
    "in_dram s' t = in_dram s t" "atc_geo s' = atc_geo s"
  using assms vb_consts_cong [of "atc_nvm s'" "atc_nvm s"] vb_consts_cong [of "atc_dram s'" "atc_dram s"]
  by (simp_all add: atc_frame_def att_consts_def in_dram_def atc_geo_def)

definition geometry_of :: "'m ATC \<Rightarrow> Geometry" where
  "geometry_of s = \<lparr>geo_block_bits = atc_bits s, geo_phy_range = atc_phy_range s, geo_nvm_size = vb_Size (atc_nvm s),
     geo_dram = (\<lambda>a. vb_Contains a (atc_dram s)), geo_page_bits = mc_page_bits (atc_mc s),
     geo_capacity = mc_ptt_capacity (atc_mc s), geo_size = atc_Size s\<rparr>"

lemma geometry_of_frame: "atc_frame s s' \<Longrightarrow> geometry_of s' = geometry_of s"
  using vb_consts_cong [of "atc_nvm s'" "atc_nvm s"] vb_consts_cong [of "atc_dram s'" "atc_dram s"]
  by (simp add: atc_frame_def geometry_of_def att_consts_def atc_Size_def)

text \<open>Rewriting one entry of the block map: what remains to be shown of the invariant.\<close>

definition entry_fits :: "'m ATC \<Rightarrow> Tag \<Rightarrow> (ATTState \<times> Addr) option \<Rightarrow> bool" where
  "entry_fits s t v \<longleftrightarrow> (case v of None \<Rightarrow> True | Some (st, a) \<Rightarrow>
     valid_tag (atc_bits s) (atc_phy_range s) t \<and> (st = LOAN \<longleftrightarrow> in_dram s t) \<and>
     (st = HIDDEN \<longrightarrow> a = push_bit (atc_bits s) t) \<and> (atc_ckpt s \<longrightarrow> st \<noteq> DIRTY \<and> st \<noteq> HIDDEN))"

lemma atc_inv_step:
  assumes inv: "atc_inv s" and fr: "atc_frame s s'"
    and ok: "att_ok (atc_att s')" "att_idle (atc_att s')" "vb_inv (atc_nvm s')" "vb_inv (atc_dram s')"
    and T: "atc_map s' = (atc_map s)(t := v)"
    and v: "entry_fits s t v"
    and own: "owns (atc_nvm s') nvm_state (atc_map s')" "owns (atc_dram s') dram_state (atc_map s')"
    and cnt: "atc_counts s'"
  shows "atc_inv s'"
proof -
  note f = atc_frameD [OF fr]
  have "valid_tag (atc_bits s) (atc_phy_range s) x \<and> (st = LOAN \<longleftrightarrow> in_dram s x) \<and>
      (st = HIDDEN \<longrightarrow> a = push_bit (atc_bits s) x) \<and> (atc_ckpt s \<longrightarrow> st \<noteq> DIRTY \<and> st \<noteq> HIDDEN)"
    if "atc_map s' x = Some (st, a)" for x st a
  proof (cases "x = t")
    case True
    then show ?thesis using v that by (simp add: T entry_fits_def)
  next
    case False
    then have "atc_map s x = Some (st, a)" using that by (simp add: T)
    then show ?thesis using atc_blocksD [OF atc_invD(8) [OF inv]] by blast
  qed
  then have "atc_blocks s'" using own by (simp add: atc_blocks_def f)
  then show ?thesis
    using inv ok cnt by (simp add: atc_inv_def f)
qed

section \<open>Idle and unwritten entries\<close>

lemma att_sets_nth:
  assumes "att_ok att" "att_sets att att' i e" "0 \<le> j" "j < att_length att"
  shows "att_state (ent att' j) = (if j = i then att_state e else att_state (ent att j))"
    "epoch_writes (ent att' j) = (if j = i then epoch_writes e else epoch_writes (ent att j))"
    "att_active (ent att' j) = (if j = i then att_active e else att_active (ent att j))"
proof -
  have r: "att_effect att att' i e" "0 \<le> i" "i < int (length (att_entries att))" "j < int (length (att_entries att))"
    using assms att_ok_length [OF assms(1)] by (simp_all add: att_sets_def)
  show st: "att_state (ent att' j) = (if j = i then att_state e else att_state (ent att j))"
    and "epoch_writes (ent att' j) = (if j = i then epoch_writes e else epoch_writes (ent att j))"
    using att_effect_this [OF r(1-3)] att_effect_other [OF r(1) assms(3) r(4)] by simp_all
  show "att_active (ent att' j) = (if j = i then att_active e else att_active (ent att j))"
    using st by (simp add: att_active_def)
qed

lemma att_idle_step:
  assumes ok: "att_ok att" and idle: "att_idle att" and s: "att_sets att att' i e" and c: "att_consts att' = att_consts att"
    and keep: "\<And>j t. j \<noteq> i \<Longrightarrow> att_holds att j t \<Longrightarrow> \<exists>t'. att_holds att' j t'"
    and i: "(\<exists>t. att_holds att' i t) \<or> \<not> att_active e"
  shows "att_idle att'"
  unfolding att_idle_def
proof (intro allI impI)
  fix j assume j: "0 \<le> j \<and> j < att_length att' \<and> (\<forall>t. \<not> att_holds att' j t)"
  then have r: "0 \<le> j" "j < att_length att" using c by (simp_all add: att_consts_def)
  show "\<not> att_active (ent att' j)"
  proof (cases "j = i")
    case True
    then show ?thesis using att_sets_nth(3) [OF ok s r] i j by auto
  next
    case False
    then have "\<not> att_active (ent att j)" using idle keep j r unfolding att_idle_def by blast
    then show ?thesis using att_sets_nth(3) [OF ok s r] False by simp
  qed
qed

lemma att_quiet_step:
  assumes "att_ok att" "att_quiet att" "att_sets att att' i e" "att_consts att' = att_consts att"
    and e: "\<not> att_active e \<or> att_state e = LOAN \<Longrightarrow> epoch_writes e = 0"
  shows "att_quiet att'"
  unfolding att_quiet_def
proof (intro allI impI)
  fix j assume j: "0 \<le> j \<and> j < att_length att' \<and> (\<not> att_active (ent att' j) \<or> att_state (ent att' j) = LOAN)"
  then have r: "0 \<le> j" "j < att_length att" using assms(4) by (simp_all add: att_consts_def)
  show "epoch_writes (ent att' j) = 0"
    using att_sets_nth [OF assms(1,3) r] j e assms(2) r unfolding att_quiet_def by (auto split: if_splits)
qed

text \<open>The table operations, with what they keep of idle and unwritten entries.\<close>

definition att_ready :: "AddrTransTable \<Rightarrow> bool" where
  "att_ready att \<longleftrightarrow> att_ok att \<and> att_idle att"

lemma ready_ShiftState:
  assumes r: "att_ready att" and h: "att_holds att i t" and ne: "att_state (ent att i) \<noteq> st"
  shows "\<exists>att'. att_ShiftState i st pf att = Some (pf_AddTableOp pf, att') \<and> att_ready att' \<and>
    att_consts att' = att_consts att \<and>
    tbl att' = (tbl att)(t := (if st = FREE then None else Some (st, mach_base (ent att i)))) \<and>
    (att_quiet att \<and> (st = FREE \<or> st = CLEAN \<or> st = LOAN \<longrightarrow> epoch_writes (ent att i) = 0) \<longrightarrow> att_quiet att') \<and>
    (\<forall>qs. att_rep att qs \<longrightarrow> att_rep att' (requeue (StateIndex (att_state (ent att i))) (StateIndex st) i qs)) \<and>
    (\<forall>j t'. att_holds att j t' \<and> t' \<noteq> t \<longrightarrow> att_holds att' j t')"
proof -
  have ok: "att_ok att" "att_idle att" using r by (simp_all add: att_ready_def)
  obtain att' where a: "att_ShiftState i st pf att = Some (pf_AddTableOp pf, att')" "att_ok att'"
      "att_consts att' = att_consts att" "att_sets att att' i ((ent att i)\<lparr>att_state := st\<rparr>)"
      "att_tag_index att' = (if st = FREE then (att_tag_index att)(t := None) else att_tag_index att)"
      "tbl att' = (tbl att)(t := (if st = FREE then None else Some (st, mach_base (ent att i))))"
      "\<forall>qs. att_rep att qs \<longrightarrow> att_rep att' (requeue (StateIndex (att_state (ent att i))) (StateIndex st) i qs)"
    using map_ShiftState [OF ok(1) h ne, of pf] by blast
  have keep: "att_holds att' j t'" if "att_holds att j t'" "t' \<noteq> t" for j t'
    using that a(5) by (simp add: att_holds_def)
  have "att_idle att'"
  proof (rule att_idle_step [OF ok a(4,3)])
    fix j t' assume "j \<noteq> i" "att_holds att j t'"
    then have "t' \<noteq> t" using h by (auto simp: att_holds_def)
    then show "\<exists>t'. att_holds att' j t'" using keep [OF \<open>att_holds att j t'\<close>] by blast
  next
    show "(\<exists>t. att_holds att' i t) \<or> \<not> att_active ((ent att i)\<lparr>att_state := st\<rparr>)"
      using h a(5) by (cases "st = FREE") (auto simp: att_holds_def att_active_def)
  qed
  moreover have "att_quiet att'"
    if "att_quiet att" "st = FREE \<or> st = CLEAN \<or> st = LOAN \<longrightarrow> epoch_writes (ent att i) = 0"
    by (rule att_quiet_step [OF ok(1) that(1) a(4,3)]) (use that(2) in \<open>auto simp: att_active_def\<close>)
  ultimately show ?thesis using a keep by (auto simp: att_ready_def)
qed

lemma ready_Reset:
  assumes r: "att_ready att" and h: "att_holds att i t" and ne: "att_state (ent att i) \<noteq> st"
    and st: "st = DIRTY \<or> st = HIDDEN \<or> st = TEMP"
  shows "\<exists>att'. att_Reset i b st pf att = Some (pf_AddTableOp pf, att') \<and> att_ready att' \<and>
    att_consts att' = att_consts att \<and> tbl att' = (tbl att)(t \<mapsto> (st, b)) \<and>
    (att_quiet att \<longrightarrow> att_quiet att') \<and> att_holds att' i t \<and>
    (\<forall>qs. att_rep att qs \<longrightarrow> att_rep att' (requeue (StateIndex (att_state (ent att i))) (StateIndex st) i qs))"
proof -
  have ok: "att_ok att" "att_idle att" using r by (simp_all add: att_ready_def)
  have nf: "st \<noteq> FREE" using st by auto
  let ?e = "(ent att i)\<lparr>mach_base := b, att_state := st\<rparr>"
  obtain att' where a: "att_Reset i b st pf att = Some (pf_AddTableOp pf, att')" "att_ok att'"
      "att_consts att' = att_consts att" "att_sets att att' i ?e"
      "att_tag_index att' = att_tag_index att" "tbl att' = (tbl att)(t \<mapsto> (st, b))"
      "\<forall>qs. att_rep att qs \<longrightarrow> att_rep att' (requeue (StateIndex (att_state (ent att i))) (StateIndex st) i qs)"
    using map_Reset [OF ok(1) h ne nf, of b pf] by blast
  have hold: "att_holds att' j t' = att_holds att j t'" for j t' using a(5) by (simp add: att_holds_def)
  have "att_idle att'"
    by (rule att_idle_step [OF ok a(4,3)]) (use h hold in blast)+
  moreover have "att_quiet att'" if "att_quiet att"
    by (rule att_quiet_step [OF ok(1) that a(4,3)]) (use st in \<open>auto simp: att_active_def\<close>)
  ultimately show ?thesis using a h hold by (auto simp: att_ready_def)
qed

lemma ready_Setup:
  assumes r: "att_ready att" and new: "tbl att t = None" and room: "int (card (dom (tbl att))) < att_length att"
    and st: "st \<noteq> FREE" "st \<noteq> CLEAN"
  shows "\<exists>i att'. att_Setup t b st pf att = Some (i, pf_AddTableOp pf, att') \<and> att_ready att' \<and>
    att_consts att' = att_consts att \<and> tbl att' = (tbl att)(t \<mapsto> (st, b)) \<and>
    (att_quiet att \<longrightarrow> att_quiet att') \<and> att_holds att' i t"
proof -
  have ok: "att_ok att" "att_idle att" using r by (simp_all add: att_ready_def)
  obtain i att' where a: "att_Setup t b st pf att = Some (i, pf_AddTableOp pf, att')" "att_ok att'"
      "att_consts att' = att_consts att" "\<forall>t'. \<not> att_holds att i t'"
      "att_sets att att' i ((ent att i)\<lparr>att_state := st, phy_tag := t, mach_base := b\<rparr>)"
      "att_tag_index att' = (att_tag_index att)(t \<mapsto> i)" "tbl att' = (tbl att)(t \<mapsto> (st, b))"
    using map_Setup [OF ok(1) new room st(1), of b pf] by blast
  have h: "att_holds att' i t" using a(6) by (simp add: att_holds_def)
  have "att_idle att'"
  proof (rule att_idle_step [OF ok a(5,3)])
    fix j t' assume j: "j \<noteq> i" "att_holds att j t'"
    have "t' \<noteq> t" using j(2) new by (auto simp: att_holds_def att_tbl_None)
    then show "\<exists>t'. att_holds att' j t'" using j(2) a(6) by (auto simp: att_holds_def)
  qed (use h in blast)
  moreover have "att_quiet att'" if q: "att_quiet att"
  proof (rule att_quiet_step [OF ok(1) q a(5,3)])
    have ir: "0 \<le> i" "i < att_length att" using a(5) by (simp_all add: att_sets_def)
    then have "\<not> att_active (ent att i)" using ok(2) a(4) unfolding att_idle_def by blast
    then have "epoch_writes (ent att i) = 0" using q ir unfolding att_quiet_def by blast
    then show "epoch_writes ((ent att i)\<lparr>att_state := st, phy_tag := t, mach_base := b\<rparr>) = 0" by simp
  qed
  ultimately show ?thesis using a h by (auto simp: att_ready_def)
qed

section \<open>The slot budget\<close>

text \<open>A free NVM slot exists in a running epoch whenever an entry is free or is about to leave DRAM.\<close>

lemma nvm_room:
  assumes inv: "atc_inv s" and run: "\<not> atc_ckpt s"
    and room: "int (card (dom (atc_map s))) < att_length (atc_att s) \<or> tags (\<lambda>x. x = STAINED) (atc_map s) \<noteq> {}"
  shows "vb_sets (atc_nvm s) VB_FREE \<noteq> {}"
proof
  assume none: "vb_sets (atc_nvm s) VB_FREE = {}"
  note g = atc_geoD [OF atc_invD(1) [OF inv]] and fin = map_finite [OF atc_invD(2) [OF inv]]
  have b1: "vb_sets (atc_nvm s) BACKUP1 = {}" and b0: "int (card (vb_sets (atc_nvm s) BACKUP0)) \<le> att_length (atc_att s)"
    using atc_invD(9) [OF inv] run by (simp_all add: atc_counts_def)
  have "int (card (vb_sets (atc_nvm s) BACKUP0) + card (vb_sets (atc_nvm s) IN_USE)) = 2 * att_length (atc_att s)"
    using vb_inv_card [OF atc_invD(4) [OF inv]] g(6,8) none b1 by (simp add: vb_geometry_def)
  then have "att_length (atc_att s) \<le> int (card (tags nvm_state (atc_map s)))"
    using owns_card [OF atc_owns(1) [OF atc_invD(8) [OF inv]] g(6) atc_invD(4) [OF inv]] b0 by linarith
  moreover have "card (tags nvm_state (atc_map s)) + card (tags (\<lambda>x. x = STAINED) (atc_map s)) \<le> card (dom (atc_map s))"
    by (rule card_tags_disjoint [OF fin]) auto
  moreover have "card (tags (\<lambda>x. x = STAINED) (atc_map s)) \<noteq> 0" if "tags (\<lambda>x. x = STAINED) (atc_map s) \<noteq> {}"
    using that fin tags_subset [of "\<lambda>x. x = STAINED" "atc_map s"] by (auto dest: finite_subset)
  ultimately show False
    using room map_card [OF atc_invD(2) [OF inv]] by linarith
qed

text \<open>A free DRAM slot exists whenever an entry is free or is in a state without a DRAM slot.\<close>

lemma dram_room:
  assumes inv: "atc_inv s"
    and room: "int (card (dom (atc_map s))) < att_length (atc_att s) \<or> tags (\<lambda>x. x = CLEAN) (atc_map s) \<noteq> {}"
  shows "vb_sets (atc_dram s) VB_FREE \<noteq> {}"
proof
  assume none: "vb_sets (atc_dram s) VB_FREE = {}"
  note g = atc_geoD [OF atc_invD(1) [OF inv]] and fin = map_finite [OF atc_invD(2) [OF inv]]
  have "int (card (vb_sets (atc_dram s) IN_USE)) = att_length (atc_att s)"
    using vb_inv_card [OF atc_invD(5) [OF inv]] g(7,9) none atc_invD(9) [OF inv]
    by (simp add: vb_geometry_def atc_counts_def)
  then have "int (card (tags dram_state (atc_map s))) = att_length (atc_att s)"
    using owns_card [OF atc_owns(2) [OF atc_invD(8) [OF inv]] g(7) atc_invD(5) [OF inv]] by simp
  moreover have "card (tags dram_state (atc_map s)) + card (tags (\<lambda>x. x = CLEAN) (atc_map s)) \<le> card (dom (atc_map s))"
    by (rule card_tags_disjoint [OF fin]) auto
  moreover have "card (tags (\<lambda>x. x = CLEAN) (atc_map s)) \<noteq> 0" if "tags (\<lambda>x. x = CLEAN) (atc_map s) \<noteq> {}"
    using that fin tags_subset [of "\<lambda>x. x = CLEAN" "atc_map s"] by (auto dest: finite_subset)
  ultimately show False
    using room map_card [OF atc_invD(2) [OF inv]] by linarith
qed

text \<open>
  How the budget changes: retiring the slot of a clean block trades a clean entry for a backup; the other
  transitions do not add clean entries or backups.
\<close>

lemma counts_retire:
  assumes inv: "atc_inv s" and fr: "atc_frame s s'" and t: "atc_map s t = Some (CLEAN, a)" and bud: "atc_budget s"
    and T: "atc_map s' = (atc_map s)(t := v)" and v: "outside (\<lambda>x. x = CLEAN) v"
    and j: "j \<in> vb_sets (atc_nvm s) IN_USE"
    and N: "atc_nvm s' = vb_move j IN_USE (VBState_of_bool (atc_ckpt s)) (atc_nvm s)"
    and D: "vb_sets (atc_dram s') BACKUP0 = {}" "vb_sets (atc_dram s') BACKUP1 = {}"
  shows "atc_counts s' \<and> atc_budget s'"
proof -
  note f = atc_frameD [OF fr]
  have fin: "finite (tags (\<lambda>x. x = CLEAN) (atc_map s))"
    using tags_subset map_finite [OF atc_invD(2) [OF inv]] finite_subset by blast
  have "tags (\<lambda>x. x = CLEAN) (atc_map s') = tags (\<lambda>x. x = CLEAN) (atc_map s) - {t}"
    using v by (auto simp: T tags_upd outside_def split: option.splits)
  moreover have tc: "t \<in> tags (\<lambda>x. x = CLEAN) (atc_map s)" using t by (simp add: tags_def)
  ultimately have C: "card (tags (\<lambda>x. x = CLEAN) (atc_map s)) = Suc (card (tags (\<lambda>x. x = CLEAN) (atc_map s')))"
    using fin card_Suc_Diff1 [OF fin tc] by simp
  note mv = card_vb_move [OF atc_invD(4) [OF inv] j, of "VBState_of_bool (atc_ckpt s)"]
  show ?thesis
  proof (cases "atc_ckpt s")
    case True
    then have "vb_sets (atc_nvm s') BACKUP0 = vb_sets (atc_nvm s) BACKUP0"
      by (simp add: N VBState_of_bool_def vb_sets_move)
    then show ?thesis
      using True C D N mv atc_invD(9) [OF inv] f by (simp add: atc_counts_def atc_budget_def VBState_of_bool_def)
  next
    case False
    then have "vb_sets (atc_nvm s') BACKUP1 = vb_sets (atc_nvm s) BACKUP1"
      by (simp add: N VBState_of_bool_def vb_sets_move)
    then show ?thesis
      using False C D N mv atc_invD(9) [OF inv] bud f by (simp add: atc_counts_def atc_budget_def VBState_of_bool_def)
  qed
qed

lemma counts_keep:
  assumes inv: "atc_inv s" and fr: "atc_frame s s'" and T: "atc_map s' = (atc_map s)(t := v)"
    and v: "outside (\<lambda>x. x = CLEAN) v \<or> (\<exists>a. atc_map s t = Some (CLEAN, a))"
    and N: "vb_sets (atc_nvm s') BACKUP0 = vb_sets (atc_nvm s) BACKUP0" "vb_sets (atc_nvm s') BACKUP1 = vb_sets (atc_nvm s) BACKUP1"
    and D: "vb_sets (atc_dram s') BACKUP0 = {}" "vb_sets (atc_dram s') BACKUP1 = {}"
  shows "atc_counts s' \<and> (atc_budget s \<longrightarrow> atc_budget s')"
proof -
  note f = atc_frameD [OF fr]
  have fin: "finite (tags (\<lambda>x. x = CLEAN) (atc_map s))"
    using tags_subset map_finite [OF atc_invD(2) [OF inv]] finite_subset by blast
  have "tags (\<lambda>x. x = CLEAN) (atc_map s') \<subseteq> tags (\<lambda>x. x = CLEAN) (atc_map s)"
    using v by (auto simp: T tags_upd outside_def tags_def split: option.splits if_splits)
  then have "card (tags (\<lambda>x. x = CLEAN) (atc_map s')) \<le> card (tags (\<lambda>x. x = CLEAN) (atc_map s))"
    using fin by (rule card_mono [rotated])
  then show ?thesis
    using N D atc_invD(9) [OF inv] f by (auto simp: atc_counts_def atc_budget_def)
qed

section \<open>Block transitions over a store\<close>

lemma SlotAlloc_ex:
  assumes "vb_geometry vb" "vb_inv vb" "vb_sets vb VB_FREE \<noteq> {}"
  shows "\<exists>k. k \<in> vb_sets vb VB_FREE \<and>
    (\<forall>pf. vb_SlotAlloc pf vb = Some (vb_addr vb k, pf_AddBufferOp pf, vb_move k VB_FREE IN_USE vb))"
  using vb_SlotAlloc_eq [OF assms] by blast

lemma att_block_size_eq: "atc_geo s \<Longrightarrow> att_block_size (atc_att s) = 2 ^ atc_bits s"
  using atc_geoD(1) [of s] by (simp add: att_block_size_def int32_pow2)

lemma atc_mem_upd [simp]:
  "atc_frame s (s\<lparr>atc_mem := m\<rparr>)" "atc_frame (s\<lparr>atc_mem := m\<rparr>) s' = atc_frame s s'"
  "atc_inv (s\<lparr>atc_mem := m\<rparr>) = atc_inv s" "atc_stats (s\<lparr>atc_mem := m\<rparr>) = atc_stats s"
  by (simp_all add: atc_frame_def atc_inv_def atc_geo_def atc_blocks_def atc_counts_def in_dram_def atc_stats_def atc_budget_def)

context mem_store
begin

text \<open>The state of the whole system is good when the controller, the store and their geometry agree.\<close>

definition sys_inv :: "'m ATC \<Rightarrow> bool" where
  "sys_inv s \<longleftrightarrow> atc_inv s \<and> ok (atc_mem s) \<and> geometry_of s = geo"

definition vw :: "'m ATC \<Rightarrow> bytes" where
  "vw s a = contents (atc_mem s) (tr (atc_bits s) (atc_map s) a)"

lemma sys_inv_bits: "sys_inv s \<Longrightarrow> geo_block_bits geo = atc_bits s"
  by (auto simp: sys_inv_def geometry_of_def)

lemma sys_inv_atc: "sys_inv s \<Longrightarrow> atc_inv s"
  by (simp add: sys_inv_def)

lemma sys_inv_geo: "sys_inv s \<Longrightarrow> atc_geo s"
  by (simp add: sys_inv_def atc_inv_def)

text \<open>What a transition of block \<open>t\<close> to the entry \<open>v\<close> does; \<open>mv\<close> tells whether the data is moved along.\<close>

definition block_step :: "bool \<Rightarrow> Tag \<Rightarrow> (ATTState \<times> Addr) option \<Rightarrow> 'm ATC \<Rightarrow> 'm ATC \<Rightarrow> bool" where
  "block_step mv t v s s' \<longleftrightarrow>
     sys_inv s' \<and> atc_frame s s' \<and> atc_map s' = (atc_map s)(t := v) \<and>
     (\<forall>a < atc_phy_range s. mv \<or> drop_bit (atc_bits s) a \<noteq> t \<longrightarrow> vw s' a = vw s a) \<and>
     (atc_stats s \<longrightarrow> atc_stats s')"

lemma block_stepI_view:
  assumes s: "sys_inv s" and inv: "atc_inv s'" and fr: "atc_frame s s'" and m: "ok (atc_mem s')"
    and T: "atc_map s' = (atc_map s)(t := v)"
    and view: "\<And>a. a < atc_phy_range s \<Longrightarrow> mv \<or> drop_bit (atc_bits s) a \<noteq> t \<Longrightarrow>
      contents (atc_mem s') (tr (atc_bits s) ((atc_map s)(t := v)) a) = contents (atc_mem s) (tr (atc_bits s) (atc_map s) a)"
    and q: "atc_stats s \<Longrightarrow> att_quiet (atc_att s')" and bud: "atc_budget s \<Longrightarrow> atc_budget s'"
  shows "block_step mv t v s s'"
  using assms geometry_of_frame [OF fr] atc_frameD(3,4) [OF fr] by (simp add: block_step_def sys_inv_def vw_def atc_stats_def)

lemma block_stepI:
  assumes s: "sys_inv s" and inv: "atc_inv s'" and fr: "atc_frame s s'" and m: "ok (atc_mem s')"
    and T: "atc_map s' = (atc_map s)(t := v)" and t: "valid_tag (atc_bits s) (atc_phy_range s) t"
    and fresh: "fresh_base (atc_bits s) (atc_phy_range s) (atc_map s) t (loc (atc_bits s) ((atc_map s)(t := v)) t)"
    and mem: "contents (atc_mem s') = (if mv
        then block_copy (atc_bits s) (loc (atc_bits s) ((atc_map s)(t := v)) t) (loc (atc_bits s) (atc_map s) t) (contents (atc_mem s))
        else contents (atc_mem s))"
    and q: "atc_stats s \<Longrightarrow> att_quiet (atc_att s')" and bud: "atc_budget s \<Longrightarrow> atc_budget s'"
  shows "block_step mv t v s s'"
proof (rule block_stepI_view [OF s inv fr m T _ q bud])
  fix a assume a: "a < atc_phy_range s" and c: "mv \<or> drop_bit (atc_bits s) a \<noteq> t"
  show "contents (atc_mem s') (tr (atc_bits s) ((atc_map s)(t := v)) a) = contents (atc_mem s) (tr (atc_bits s) (atc_map s) a)"
  proof (cases mv)
    case True
    then show ?thesis
      by (intro view_copy [OF a fresh loc_aligned [OF sys_inv_atc [OF s] t] refl]) (use mem in simp)
  next
    case False
    then show ?thesis using c view_other(2) [OF a _ fresh] mem by simp
  qed
qed

text \<open>The optional copy with which most transitions begin needs only the store.\<close>

definition store_ok :: "'m ATC \<Rightarrow> bool" where
  "store_ok s \<longleftrightarrow> ok (atc_mem s) \<and> geo_block_bits geo = atc_bits s \<and> atc_bits s \<le> 30"

lemma store_okI: "sys_inv s \<Longrightarrow> store_ok s"
  using sys_inv_bits [of s] atc_geoD(1) [OF sys_inv_geo] by (simp add: store_ok_def sys_inv_def)

lemma store_ok_size: "store_ok s \<Longrightarrow> att_block_size (atc_att s) = 2 ^ atc_bits s"
  by (simp add: store_ok_def att_block_size_def int32_pow2)

lemma store_ok_upd [simp]:
  "store_ok (s\<lparr>atc_dram := d\<rparr>) = store_ok s" "store_ok (s\<lparr>atc_nvm := n\<rparr>) = store_ok s"
  by (simp_all add: store_ok_def)

lemma copy_ok:
  assumes s: "store_ok s" and al: "geo_place geo d" "geo_place geo b" "d \<noteq> b"
  shows "\<exists>m. atc_CopyBlockIntra ms d b bl pf s = Some (push_ckpt d bl, pf_AddBlockMoveIntra 1 pf, s\<lparr>atc_mem := m\<rparr>) \<and>
      atc_CopyBlockInter ms d b bl pf s = Some (push_ckpt d bl, pf_AddBlockMoveInter 1 pf, s\<lparr>atc_mem := m\<rparr>) \<and>
      ok m \<and> contents m = block_copy (atc_bits s) d b (contents (atc_mem s))"
proof -
  have "ok (atc_mem s)" using s by (simp add: store_ok_def)
  from MemCopy_law [OF this, of d b] obtain m where m: "MemCopy ms d b (2 ^ atc_bits s) (atc_mem s) = Some m" "ok m"
      "contents m = block_copy (atc_bits s) d b (contents (atc_mem s))"
    using al s by (auto simp: store_ok_def)
  then show ?thesis
    using store_ok_size [OF s]
    by (intro exI [of _ m]) (simp add: atc_CopyBlockIntra_def atc_CopyBlockInter_def)
qed

lemma swap_ok:
  assumes s: "store_ok s" and al: "geo_place geo d" "geo_place geo b" "d \<noteq> b"
  shows "\<exists>m bl'. atc_SwapBlock ms d b bl pf s = Some (bl', pf_AddBlockMoveIntra 3 pf, s\<lparr>atc_mem := m\<rparr>) \<and>
      ok m \<and> contents m = block_swap (atc_bits s) d b (contents (atc_mem s))"
proof -
  have "ok (atc_mem s)" using s by (simp add: store_ok_def)
  from MemSwap_law [OF this, of d b] obtain m where m: "MemSwap ms d b (2 ^ atc_bits s) (atc_mem s) = Some m" "ok m"
      "contents m = block_swap (atc_bits s) d b (contents (atc_mem s))"
    using al s by (auto simp: store_ok_def)
  then show ?thesis
    using store_ok_size [OF s]
    by (intro exI [of _ m]) (simp add: atc_SwapBlock_def)
qed

text \<open>Homes and slots lie inside the machine memory.\<close>

lemma place_home:
  assumes s: "sys_inv s" and t: "valid_tag (atc_bits s) (atc_phy_range s) t"
  shows "geo_place geo (push_bit (atc_bits s) t)"
proof -
  note g = sys_inv_geo [OF s]
  have "atc_phy_range s \<le> atc_Size s" using atc_Size_bounds(1) [OF g] .
  then have "push_bit (atc_bits s) t < atc_Size s" using t by (auto simp: valid_tag_def intro: order.strict_trans2)
  then show ?thesis using s by (auto simp: sys_inv_def geometry_of_def geo_place_def)
qed

lemma place_slot:
  assumes s: "sys_inv s"
  shows "j \<in> {0 ..< vb_length (atc_nvm s)} \<Longrightarrow> geo_place geo (vb_addr (atc_nvm s) j)"
    "j \<in> {0 ..< vb_length (atc_dram s)} \<Longrightarrow> geo_place geo (vb_addr (atc_dram s) j)"
  using s atc_Size_bounds(2,3) [OF sys_inv_geo [OF s], of j] slot_nvm(3) [OF sys_inv_geo [OF s], of j]
    slot_dram(3) [OF sys_inv_geo [OF s], of j] by (auto simp: sys_inv_def geometry_of_def geo_place_def)

text \<open>Facts about the entry a transition starts from.\<close>

lemma entry_facts:
  assumes s: "sys_inv s" and h: "att_holds (atc_att s) i t"
  defines "e \<equiv> ent (atc_att s) i"
  shows "att_At i (atc_att s) = Some e" "phy_tag e = t" "atc_map s t = Some (att_state e, mach_base e)"
    "valid_tag (atc_bits s) (atc_phy_range s) t" "loc (atc_bits s) (atc_map s) t = mach_base e"
    "att_ready (atc_att s)"
proof -
  note inv = sys_inv_atc [OF s]
  have ok: "att_ok (atc_att s)" "att_idle (atc_att s)" using inv by (simp_all add: atc_inv_def)
  show "att_At i (atc_att s) = Some e" "phy_tag e = t"
    using att_holds_At [OF ok(1) h] att_holds_tag [OF ok(1) h] by (simp_all add: e_def)
  show T: "atc_map s t = Some (att_state e, mach_base e)" using att_holds_tbl [OF h] by (simp add: e_def)
  show "valid_tag (atc_bits s) (atc_phy_range s) t" using atc_blocksD(1) [OF atc_invD(8) [OF inv] T] .
  show "loc (atc_bits s) (atc_map s) t = mach_base e" using T by (simp add: loc_def)
  show "att_ready (atc_att s)" using ok by (simp add: att_ready_def)
qed

lemma nvm_entry:
  assumes s: "sys_inv s" and h: "att_holds (atc_att s) i t" and st: "nvm_state (att_state (ent (atc_att s) i))"
  obtains j where "j \<in> vb_sets (atc_nvm s) IN_USE" "mach_base (ent (atc_att s) i) = vb_addr (atc_nvm s) j"
    "geo_place geo (vb_addr (atc_nvm s) j)" "push_bit (atc_bits s) t \<noteq> vb_addr (atc_nvm s) j"
proof -
  note inv = sys_inv_atc [OF s] and e = entry_facts [OF s h]
  obtain j where j: "j \<in> vb_sets (atc_nvm s) IN_USE" "mach_base (ent (atc_att s) i) = vb_addr (atc_nvm s) j"
    using owns_slot [OF atc_owns(1) [OF atc_invD(8) [OF inv]] e(3) st] by blast
  note r = in_use_range(1) [OF inv j(1)]
  show ?thesis using that [OF j place_slot(1) [OF s r] home_not_slot(1) [OF inv e(4) r]] .
qed

lemma dram_entry:
  assumes s: "sys_inv s" and h: "att_holds (atc_att s) i t" and st: "dram_state (att_state (ent (atc_att s) i))"
  obtains j where "j \<in> vb_sets (atc_dram s) IN_USE" "mach_base (ent (atc_att s) i) = vb_addr (atc_dram s) j"
    "geo_place geo (vb_addr (atc_dram s) j)" "push_bit (atc_bits s) t \<noteq> vb_addr (atc_dram s) j"
proof -
  note inv = sys_inv_atc [OF s] and e = entry_facts [OF s h]
  obtain j where j: "j \<in> vb_sets (atc_dram s) IN_USE" "mach_base (ent (atc_att s) i) = vb_addr (atc_dram s) j"
    using owns_slot [OF atc_owns(2) [OF atc_invD(8) [OF inv]] e(3) st] by blast
  note r = in_use_range(2) [OF inv j(1)]
  show ?thesis using that [OF j place_slot(2) [OF s r] home_not_slot(2) [OF inv e(4) r]] .
qed

lemma opt_copy_ok:
  assumes s: "store_ok s" and al: "geo_place geo d" "geo_place geo b" "d \<noteq> b"
  shows "\<exists>pf' m. (if mv then atc_CopyBlockIntra ms d b None pf s else Some (None, pf, s)) = Some (None, pf', s\<lparr>atc_mem := m\<rparr>) \<and>
      ignore_latency pf' = ignore_latency pf \<and> ok m \<and>
      contents m = (if mv then block_copy (atc_bits s) d b (contents (atc_mem s)) else contents (atc_mem s))"
    and "\<exists>pf' m. (if mv then atc_CopyBlockInter ms d b None pf s else Some (None, pf, s)) = Some (None, pf', s\<lparr>atc_mem := m\<rparr>) \<and>
      ignore_latency pf' = ignore_latency pf \<and> ok m \<and>
      contents m = (if mv then block_copy (atc_bits s) d b (contents (atc_mem s)) else contents (atc_mem s))"
proof -
  obtain m where m: "atc_CopyBlockIntra ms d b None pf s = Some (None, pf_AddBlockMoveIntra 1 pf, s\<lparr>atc_mem := m\<rparr>)"
      "atc_CopyBlockInter ms d b None pf s = Some (None, pf_AddBlockMoveInter 1 pf, s\<lparr>atc_mem := m\<rparr>)"
      "ok m" "contents m = block_copy (atc_bits s) d b (contents (atc_mem s))"
    using copy_ok [OF s al, of None pf] by (auto simp: push_ckpt_def)
  have k: "ok (atc_mem s)" "s = s\<lparr>atc_mem := atc_mem s\<rparr>" using s by (simp_all add: store_ok_def)
  show "\<exists>pf' m. (if mv then atc_CopyBlockIntra ms d b None pf s else Some (None, pf, s)) = Some (None, pf', s\<lparr>atc_mem := m\<rparr>) \<and>
      ignore_latency pf' = ignore_latency pf \<and> ok m \<and>
      contents m = (if mv then block_copy (atc_bits s) d b (contents (atc_mem s)) else contents (atc_mem s))"
  proof (cases mv)
    case True
    then show ?thesis using m by (intro exI [of _ "pf_AddBlockMoveIntra 1 pf"] exI [of _ m]) simp
  next
    case False
    then show ?thesis using k by (intro exI [of _ pf] exI [of _ "atc_mem s"]) simp
  qed
  show "\<exists>pf' m. (if mv then atc_CopyBlockInter ms d b None pf s else Some (None, pf, s)) = Some (None, pf', s\<lparr>atc_mem := m\<rparr>) \<and>
      ignore_latency pf' = ignore_latency pf \<and> ok m \<and>
      contents m = (if mv then block_copy (atc_bits s) d b (contents (atc_mem s)) else contents (atc_mem s))"
  proof (cases mv)
    case True
    then show ?thesis using m by (intro exI [of _ "pf_AddBlockMoveInter 1 pf"] exI [of _ m]) simp
  next
    case False
    then show ?thesis using k by (intro exI [of _ pf] exI [of _ "atc_mem s"]) simp
  qed
qed

text \<open>A slot that is not in use is nobody's base.\<close>

lemma fresh_slot_dram:
  assumes s: "sys_inv s" and k: "k \<in> vb_sets (atc_dram s) VB_FREE"
  shows "fresh_base (atc_bits s) (atc_phy_range s) (atc_map s) t (vb_addr (atc_dram s) k)"
proof (rule fresh_dram [OF sys_inv_atc [OF s] in_use_range(2) [OF sys_inv_atc [OF s] k]])
  note inv = sys_inv_atc [OF s]
  note g = atc_geoD [OF atc_invD(1) [OF inv]]
  fix t' st assume "dram_state st"
  show "atc_map s t' \<noteq> Some (st, vb_addr (atc_dram s) k)"
  proof
    assume "atc_map s t' = Some (st, vb_addr (atc_dram s) k)"
    then obtain j where j: "j \<in> vb_sets (atc_dram s) IN_USE" "vb_addr (atc_dram s) k = vb_addr (atc_dram s) j"
      using owns_slot [OF atc_owns(2) [OF atc_invD(8) [OF inv]]] \<open>dram_state st\<close> by blast
    then have "k = j" using vb_addr_inj [OF g(7) in_use_range(2) [OF inv k] in_use_range(2) [OF inv j(1)]] by simp
    then show False using vb_inv_disjoint [OF atc_invD(5) [OF inv] k, of IN_USE] j(1) by simp
  qed
qed

lemma fresh_slot_nvm:
  assumes s: "sys_inv s" and k: "k \<in> vb_sets (atc_nvm s) VB_FREE"
  shows "fresh_base (atc_bits s) (atc_phy_range s) (atc_map s) t (vb_addr (atc_nvm s) k)"
proof (rule fresh_nvm [OF sys_inv_atc [OF s] in_use_range(1) [OF sys_inv_atc [OF s] k]])
  note inv = sys_inv_atc [OF s]
  note g = atc_geoD [OF atc_invD(1) [OF inv]]
  fix t' st assume "nvm_state st"
  show "atc_map s t' \<noteq> Some (st, vb_addr (atc_nvm s) k)"
  proof
    assume "atc_map s t' = Some (st, vb_addr (atc_nvm s) k)"
    then obtain j where j: "j \<in> vb_sets (atc_nvm s) IN_USE" "vb_addr (atc_nvm s) k = vb_addr (atc_nvm s) j"
      using owns_slot [OF atc_owns(1) [OF atc_invD(8) [OF inv]]] \<open>nvm_state st\<close> by blast
    then have "k = j" using vb_addr_inj [OF g(6) in_use_range(1) [OF inv k] in_use_range(1) [OF inv j(1)]] by simp
    then show False using vb_inv_disjoint [OF atc_invD(4) [OF inv] k, of IN_USE] j(1) by simp
  qed
qed

text \<open>A clean block is written in a running epoch: its slot is backed up and its home takes the new data.\<close>

lemma HideClean_ok:
  assumes s: "sys_inv s" and bud: "atc_budget s" and run: "\<not> atc_ckpt s" and h: "att_holds (atc_att s) i t"
    and st: "att_state (ent (atc_att s) i) = CLEAN"
  shows "\<exists>pf' s'. atc_HideClean ms i mv pf s = Some (pf', s') \<and> ignore_latency pf' = ignore_latency pf \<and>
    block_step mv t (Some (HIDDEN, push_bit (atc_bits s) t)) s s' \<and> att_holds (atc_att s') i t"
proof -
  let ?b = "atc_bits s" and ?e = "ent (atc_att s) i" and ?v = "Some (HIDDEN, push_bit (atc_bits s) t)"
  note inv = sys_inv_atc [OF s] and e = entry_facts [OF s h]
  note g = atc_geoD [OF atc_invD(1) [OF inv]] and bl = atc_invD(8) [OF inv]
  have T: "atc_map s t = Some (CLEAN, mach_base ?e)" using e(3) st by simp
  obtain j where j: "j \<in> vb_sets (atc_nvm s) IN_USE" "mach_base ?e = vb_addr (atc_nvm s) j"
      "geo_place geo (vb_addr (atc_nvm s) j)" "push_bit ?b t \<noteq> vb_addr (atc_nvm s) j"
    using nvm_entry [OF s h] st by auto
  obtain pf1 m where m: "(if mv then atc_CopyBlockIntra ms (push_bit ?b t) (mach_base ?e) None pf s else Some (None, pf, s)) =
        Some (None, pf1, s\<lparr>atc_mem := m\<rparr>)" "ignore_latency pf1 = ignore_latency pf" "ok m"
      "contents m = (if mv then block_copy ?b (push_bit ?b t) (mach_base ?e) (contents (atc_mem s)) else contents (atc_mem s))"
    using opt_copy_ok(1) [OF store_okI [OF s], of "push_bit ?b t" "mach_base ?e" mv pf] j place_home [OF s e(4)] by auto
  let ?N = "vb_move j IN_USE BACKUP0 (atc_nvm s)"
  have N: "vb_SlotBackup (mach_base ?e) BACKUP0 pf1 (atc_nvm s) = Some (pf_AddBufferOp pf1, ?N)"
    unfolding j(2) by (rule vb_SlotBackup_eq [OF g(6) atc_invD(4) [OF inv] j(1)]) simp
  obtain att' where a: "att_Reset i (push_bit ?b t) HIDDEN (pf_AddBufferOp pf1) (atc_att s) = Some (pf_AddTableOp (pf_AddBufferOp pf1), att')"
      "att_ready att'" "att_consts att' = att_consts (atc_att s)" "tbl att' = (atc_map s)(t := ?v)"
      "att_quiet (atc_att s) \<longrightarrow> att_quiet att'" "att_holds att' i t"
    using ready_Reset [OF e(6) h, of HIDDEN "push_bit ?b t" "pf_AddBufferOp pf1"] st by auto
  define s' where "s' = s\<lparr>atc_mem := m, atc_nvm := ?N, atc_att := att'\<rparr>"
  have fr: "atc_frame s s'" using a(3) by (simp add: s'_def atc_frame_def)
  have own: "owns (atc_nvm s') nvm_state (atc_map s')" "owns (atc_dram s') dram_state (atc_map s')"
    using owns_release [OF atc_owns(1) [OF bl] g(6) atc_invD(4) [OF inv], of t CLEAN j BACKUP0 ?v]
      owns_other [OF atc_owns(2) [OF bl], of t ?v] T j a(4) by (simp_all add: s'_def)
  have cnt: "atc_counts s' \<and> atc_budget s'"
    by (rule counts_retire [OF inv fr T bud _ _ j(1), where v = ?v])
      (use atc_invD(9) [OF inv] a(4) run in \<open>simp_all add: s'_def atc_counts_def VBState_of_bool_def\<close>)
  have "atc_inv s'"
  proof (rule atc_inv_step [OF inv fr, where t = t and v = ?v])
    show "atc_counts s'" using cnt by simp
    show "vb_inv (atc_nvm s')" using vb_inv_move [OF atc_invD(4) [OF inv] j(1)] by (simp add: s'_def)
  qed (use own a e(4) run atc_blocksD(2) [OF bl T] atc_invD(5) [OF inv] in \<open>simp_all add: s'_def att_ready_def entry_fits_def\<close>)
  moreover have "loc ?b ((atc_map s)(t := ?v)) t = push_bit ?b t" by (simp add: loc_def)
  ultimately have "block_step mv t ?v s s'"
    using fresh_home [OF inv e(4)] m(3,4) a(4,5) e(5) fr cnt
    by (intro block_stepI [OF s _ fr _ _ e(4)]) (auto simp: s'_def atc_stats_def)
  moreover have "atc_HideClean ms i mv pf s = Some (pf_AddBufferOp pf1, s')"
    using run e(1,2) st m(1) N a(1) by (simp add: atc_HideClean_def att_ToAddr_def Let_def s'_def split del: if_split cong: if_cong)
  ultimately show ?thesis using m(2) a(6) by (auto simp: s'_def)
qed

text \<open>A clean block is written during checkpointing: it moves to a DRAM slot, its NVM slot becomes a new backup.\<close>

lemma ResetClean_ok:
  assumes s: "sys_inv s" and ck: "atc_ckpt s" and h: "att_holds (atc_att s) i t"
    and st: "att_state (ent (atc_att s) i) = CLEAN"
  shows "\<exists>k pf' s'. atc_ResetClean ms i mv pf s = Some (vb_addr (atc_dram s) k, pf', s') \<and>
    k \<in> {0 ..< vb_length (atc_dram s)} \<and> ignore_latency pf' = ignore_latency pf \<and>
    block_step mv t (Some (TEMP, vb_addr (atc_dram s) k)) s s' \<and> att_holds (atc_att s') i t"
proof -
  let ?b = "atc_bits s" and ?e = "ent (atc_att s) i"
  note inv = sys_inv_atc [OF s] and e = entry_facts [OF s h]
  note g = atc_geoD [OF atc_invD(1) [OF inv]] and bl = atc_invD(8) [OF inv]
  have T: "atc_map s t = Some (CLEAN, mach_base ?e)" using e(3) st by simp
  obtain j where j: "j \<in> vb_sets (atc_nvm s) IN_USE" "mach_base ?e = vb_addr (atc_nvm s) j"
      "geo_place geo (vb_addr (atc_nvm s) j)"
    using nvm_entry [OF s h] st by auto
  have "t \<in> tags (\<lambda>x. x = CLEAN) (atc_map s)" using T by (simp add: tags_def)
  then have room: "vb_sets (atc_dram s) VB_FREE \<noteq> {}" using dram_room [OF inv] by blast
  then obtain k where kf: "k \<in> vb_sets (atc_dram s) VB_FREE"
    and D': "vb_SlotAlloc pf (atc_dram s) = Some (vb_addr (atc_dram s) k, pf_AddBufferOp pf, vb_move k VB_FREE IN_USE (atc_dram s))"
    using SlotAlloc_ex [OF g(7) atc_invD(5) [OF inv]] by blast
  define D where "D = vb_move k VB_FREE IN_USE (atc_dram s)"
  note D = D' [folded D_def]
  note kr = in_use_range(2) [OF inv kf] and jr = in_use_range(1) [OF inv j(1)]
  let ?v = "Some (TEMP, vb_addr (atc_dram s) k)"
  have sd: "store_ok (s\<lparr>atc_dram := D\<rparr>)" using store_okI [OF s] by simp
  obtain pf1 m where m: "(if mv then atc_CopyBlockInter ms (vb_addr (atc_dram s) k) (mach_base ?e) None (pf_AddBufferOp pf) (s\<lparr>atc_dram := D\<rparr>)
        else Some (None, pf_AddBufferOp pf, s\<lparr>atc_dram := D\<rparr>)) =
        Some (None, pf1, s\<lparr>atc_dram := D, atc_mem := m\<rparr>)" "ignore_latency pf1 = ignore_latency pf" "ok m"
      "contents m = (if mv then block_copy ?b (vb_addr (atc_dram s) k) (mach_base ?e) (contents (atc_mem s)) else contents (atc_mem s))"
    using opt_copy_ok(2) [OF sd, of "vb_addr (atc_dram s) k" "mach_base ?e" mv "pf_AddBufferOp pf"] j
      place_slot(2) [OF s kr] nvm_not_dram [OF atc_invD(1) [OF inv] jr kr] by auto
  let ?N = "vb_move j IN_USE BACKUP1 (atc_nvm s)"
  have N: "vb_SlotBackup (mach_base ?e) BACKUP1 pf1 (atc_nvm s) = Some (pf_AddBufferOp pf1, ?N)"
    unfolding j(2) by (rule vb_SlotBackup_eq [OF g(6) atc_invD(4) [OF inv] j(1)]) simp
  obtain att' where a: "att_Reset i (vb_addr (atc_dram s) k) TEMP (pf_AddBufferOp pf1) (atc_att s) = Some (pf_AddTableOp (pf_AddBufferOp pf1), att')"
      "att_ready att'" "att_consts att' = att_consts (atc_att s)" "tbl att' = (atc_map s)(t := ?v)"
      "att_quiet (atc_att s) \<longrightarrow> att_quiet att'" "att_holds att' i t"
    using ready_Reset [OF e(6) h, of TEMP "vb_addr (atc_dram s) k" "pf_AddBufferOp pf1"] st by auto
  define s' where "s' = s\<lparr>atc_dram := D, atc_mem := m, atc_nvm := ?N, atc_att := att'\<rparr>"
  have fr: "atc_frame s s'" using a(3) by (simp add: s'_def atc_frame_def D_def)
  have own: "owns (atc_nvm s') nvm_state (atc_map s')" "owns (atc_dram s') dram_state (atc_map s')"
    using owns_release [OF atc_owns(1) [OF bl] g(6) atc_invD(4) [OF inv], of t CLEAN j BACKUP1 ?v]
      owns_alloc [OF atc_owns(2) [OF bl] g(7) atc_invD(5) [OF inv] kf, of t TEMP] T j a(4) by (simp_all add: s'_def D_def)
  have db: "vb_sets D BACKUP0 = {}" "vb_sets D BACKUP1 = {}"
    using atc_invD(9) [OF inv] by (simp_all add: D_def vb_sets_move atc_counts_def)
  have bud: "atc_budget s" using ck by (simp add: atc_budget_def)
  have cnt: "atc_counts s' \<and> atc_budget s'"
    by (rule counts_retire [OF inv fr T bud _ _ j(1), where v = ?v])
      (use db a(4) ck in \<open>simp_all add: s'_def VBState_of_bool_def\<close>)
  have "atc_inv s'"
  proof (rule atc_inv_step [OF inv fr, where t = t and v = ?v])
    show "atc_counts s'" using cnt by simp
    show "vb_inv (atc_nvm s')" "vb_inv (atc_dram s')"
      using vb_inv_move [OF atc_invD(4) [OF inv] j(1)] vb_inv_move [OF atc_invD(5) [OF inv] kf] by (simp_all add: s'_def D_def)
  qed (use own a e(4) ck atc_blocksD(2) [OF bl T] in \<open>simp_all add: s'_def att_ready_def entry_fits_def\<close>)
  moreover have "fresh_base ?b (atc_phy_range s) (atc_map s) t (vb_addr (atc_dram s) k)"
    using fresh_slot_dram [OF s kf] .
  ultimately have "block_step mv t ?v s s'"
    using m(3,4) a(4,5) e(5) fr cnt
    by (intro block_stepI [OF s _ fr _ _ e(4)]) (auto simp: s'_def atc_stats_def loc_def)
  moreover have "atc_ResetClean ms i mv pf s = Some (vb_addr (atc_dram s) k, pf_AddBufferOp pf1, s')"
    using ck e(1) st D m(1) N a(1) by (simp add: atc_ResetClean_def Let_def s'_def split del: if_split cong: if_cong)
  ultimately show ?thesis using m(2) a(6) kr by (auto simp: s'_def)
qed

text \<open>Evicting a clean block: its data goes home, and its slot keeps the checkpointed copy.\<close>

lemma fresh_own_nvm:
  assumes s: "sys_inv s" and T: "atc_map s t = Some (st, vb_addr (atc_nvm s) j)" "nvm_state st"
    and j: "j \<in> vb_sets (atc_nvm s) IN_USE"
  shows "fresh_base (atc_bits s) (atc_phy_range s) (atc_map s) t (vb_addr (atc_nvm s) j)"
  using owns_inj [OF atc_owns(1) [OF atc_invD(8) [OF sys_inv_atc [OF s]]] T]
  by (intro fresh_nvm [OF sys_inv_atc [OF s] in_use_range(1) [OF sys_inv_atc [OF s] j]]) blast

lemma FreeClean_ok:
  assumes s: "sys_inv s" and bud: "atc_budget s" and h: "att_holds (atc_att s) i t" and st: "att_state (ent (atc_att s) i) = CLEAN"
  shows "\<exists>pf' s'. atc_FreeClean ms i pf s = Some (pf', s') \<and> ignore_latency pf' = ignore_latency pf \<and>
    block_step True t None s s'"
proof -
  let ?b = "atc_bits s" and ?e = "ent (atc_att s) i" and ?B = "VBState_of_bool (atc_ckpt s)"
  note inv = sys_inv_atc [OF s] and e = entry_facts [OF s h]
  note g = atc_geoD [OF atc_invD(1) [OF inv]] and bl = atc_invD(8) [OF inv]
  have T: "atc_map s t = Some (CLEAN, mach_base ?e)" using e(3) st by simp
  obtain j where j: "j \<in> vb_sets (atc_nvm s) IN_USE" "mach_base ?e = vb_addr (atc_nvm s) j"
      "geo_place geo (vb_addr (atc_nvm s) j)" "push_bit ?b t \<noteq> vb_addr (atc_nvm s) j"
    using nvm_entry [OF s h] st by auto
  have fresh: "fresh_base ?b (atc_phy_range s) (atc_map s) t (push_bit ?b t)"
      "fresh_base ?b (atc_phy_range s) (atc_map s) t (loc ?b (atc_map s) t)"
    using fresh_home [OF inv e(4)] fresh_own_nvm [OF s, of t CLEAN j] T j e(5) by simp_all
  obtain pf1 m bl' where m: "(if atc_ckpt s then atc_SwapBlock ms (push_bit ?b t) (mach_base ?e) None pf s
        else atc_CopyBlockIntra ms (push_bit ?b t) (mach_base ?e) None pf s) = Some (bl', pf1, s\<lparr>atc_mem := m\<rparr>)"
      "ignore_latency pf1 = ignore_latency pf" "ok m"
      "contents m = (if atc_ckpt s then block_swap ?b (push_bit ?b t) (mach_base ?e) (contents (atc_mem s))
        else block_copy ?b (push_bit ?b t) (mach_base ?e) (contents (atc_mem s)))"
    using copy_ok [OF store_okI [OF s], of "push_bit ?b t" "mach_base ?e" None pf]
      swap_ok [OF store_okI [OF s], of "push_bit ?b t" "mach_base ?e" None pf] j place_home [OF s e(4)] by (cases "atc_ckpt s") auto
  have B: "?B = BACKUP0 \<or> ?B = BACKUP1" "?B \<noteq> IN_USE" by (simp_all add: VBState_of_bool_def)
  let ?N = "vb_move j IN_USE ?B (atc_nvm s)"
  have N: "vb_SlotBackup (mach_base ?e) ?B pf1 (atc_nvm s) = Some (pf_AddBufferOp pf1, ?N)"
    unfolding j(2) by (rule vb_SlotBackup_eq [OF g(6) atc_invD(4) [OF inv] j(1) B(1)])
  have r: "0 \<le> i" "i < att_length (atc_att s)" using att_holds_range [OF atc_invD(2) [OF inv] h] by simp_all
  obtain att' where a: "att_ShiftState i FREE (pf_AddBufferOp pf1) (atc_att s) = Some (pf_AddTableOp (pf_AddBufferOp pf1), att')"
      "att_ready att'" "att_consts att' = att_consts (atc_att s)" "tbl att' = (atc_map s)(t := None)"
      "att_quiet (atc_att s) \<and> epoch_writes ?e = 0 \<longrightarrow> att_quiet att'"
    using ready_ShiftState [OF e(6) h, of FREE "pf_AddBufferOp pf1"] st by auto
  define s' where "s' = s\<lparr>atc_mem := m, atc_nvm := ?N, atc_att := att'\<rparr>"
  have fr: "atc_frame s s'" using a(3) by (simp add: s'_def atc_frame_def)
  have own: "owns (atc_nvm s') nvm_state (atc_map s')" "owns (atc_dram s') dram_state (atc_map s')"
    using owns_release [OF atc_owns(1) [OF bl] g(6) atc_invD(4) [OF inv], of t CLEAN j ?B None]
      owns_other [OF atc_owns(2) [OF bl], of t None] T j a(4) B by (simp_all add: s'_def)
  have cnt: "atc_counts s' \<and> atc_budget s'"
    by (rule counts_retire [OF inv fr T bud _ _ j(1), where v = None])
      (use atc_invD(9) [OF inv] a(4) in \<open>simp_all add: s'_def atc_counts_def\<close>)
  have inv': "atc_inv s'"
  proof (rule atc_inv_step [OF inv fr, where t = t and v = None])
    show "atc_counts s'" using cnt by simp
    show "vb_inv (atc_nvm s')" using vb_inv_move [OF atc_invD(4) [OF inv] j(1) B(2) [symmetric]] by (simp add: s'_def)
  qed (use own a atc_invD(5) [OF inv] in \<open>simp_all add: s'_def att_ready_def entry_fits_def\<close>)
  have lv: "loc ?b ((atc_map s)(t := None)) t = push_bit ?b t" by (simp add: loc_def)
  have "epoch_writes ?e = 0" if "att_quiet (atc_att s)"
    using that r st unfolding att_quiet_def by (auto simp: att_active_def)
  then have quiet: "att_quiet (atc_att s')" if "atc_stats s" using that a(5) by (simp add: s'_def atc_stats_def)
  have "block_step True t None s s'"
  proof (rule block_stepI_view [OF s inv' fr _ _ _ quiet conjunct2 [OF cnt]])
    fix x assume x: "x < atc_phy_range s"
    show "contents (atc_mem s') (tr ?b ((atc_map s)(t := None)) x) = contents (atc_mem s) (tr ?b (atc_map s) x)"
      using view_swap [OF x fresh lv, of "contents m" "contents (atc_mem s)"]
        view_copy [OF x fresh(1) loc_aligned [OF inv e(4)] lv, of "contents m" "contents (atc_mem s)"] m(4) e(5)
      by (cases "atc_ckpt s") (simp_all add: s'_def)
  qed (use m(3) a(4) in \<open>simp_all add: s'_def\<close>)
  moreover have "atc_FreeClean ms i pf s = Some (pf_AddBufferOp pf1, s')"
    using e(1,2) st m(1) N a(1)
    by (simp add: atc_FreeClean_def att_ToAddr_def Let_def s'_def split del: if_split cong: if_cong)
  ultimately show ?thesis using m(2) by auto
qed

text \<open>The copies that also report the block to the checkpoint list.\<close>

lemma list_copy_ok:
  assumes s: "store_ok s" and al: "geo_place geo d" "geo_place geo b" "d \<noteq> b" and P: "mv \<Longrightarrow> P"
  shows "\<exists>pf' m. (if mv then do { cassert P; (none, pf, s) \<leftarrow> atc_CopyBlockIntra ms d b None pf s; Some (push_ckpt d bl, pf, s) }
        else Some (bl, pf, s)) = Some (if mv then push_ckpt d bl else bl, pf', s\<lparr>atc_mem := m\<rparr>) \<and>
      ignore_latency pf' = ignore_latency pf \<and> ok m \<and>
      contents m = (if mv then block_copy (atc_bits s) d b (contents (atc_mem s)) else contents (atc_mem s))"
    and "\<exists>pf' m. (if mv then do { cassert P; (none, pf, s) \<leftarrow> atc_CopyBlockInter ms d b None pf s; Some (push_ckpt d bl, pf, s) }
        else Some (bl, pf, s)) = Some (if mv then push_ckpt d bl else bl, pf', s\<lparr>atc_mem := m\<rparr>) \<and>
      ignore_latency pf' = ignore_latency pf \<and> ok m \<and>
      contents m = (if mv then block_copy (atc_bits s) d b (contents (atc_mem s)) else contents (atc_mem s))"
proof -
  show "\<exists>pf' m. (if mv then do { cassert P; (none, pf, s) \<leftarrow> atc_CopyBlockIntra ms d b None pf s; Some (push_ckpt d bl, pf, s) }
        else Some (bl, pf, s)) = Some (if mv then push_ckpt d bl else bl, pf', s\<lparr>atc_mem := m\<rparr>) \<and>
      ignore_latency pf' = ignore_latency pf \<and> ok m \<and>
      contents m = (if mv then block_copy (atc_bits s) d b (contents (atc_mem s)) else contents (atc_mem s))"
  proof (cases mv)
    case True
    then show ?thesis using opt_copy_ok(1) [OF s al, of True pf] P by auto
  next
    case False
    then show ?thesis using opt_copy_ok(1) [OF s al, of False pf] by auto
  qed
  show "\<exists>pf' m. (if mv then do { cassert P; (none, pf, s) \<leftarrow> atc_CopyBlockInter ms d b None pf s; Some (push_ckpt d bl, pf, s) }
        else Some (bl, pf, s)) = Some (if mv then push_ckpt d bl else bl, pf', s\<lparr>atc_mem := m\<rparr>) \<and>
      ignore_latency pf' = ignore_latency pf \<and> ok m \<and>
      contents m = (if mv then block_copy (atc_bits s) d b (contents (atc_mem s)) else contents (atc_mem s))"
  proof (cases mv)
    case True
    then show ?thesis using opt_copy_ok(2) [OF s al, of True pf] P by auto
  next
    case False
    then show ?thesis using opt_copy_ok(2) [OF s al, of False pf] by auto
  qed
qed

lemma atc_IsDRAM_iff: "atc_inv s \<Longrightarrow> fst (atc_IsDRAM (push_bit (atc_bits s) t) pf s) \<longleftrightarrow> in_dram s t"
  using mc_Contains_iff [OF atc_geoD(5) [OF atc_invD(1)], of s] by (simp add: atc_IsDRAM_def in_dram_def)

text \<open>A block written during checkpointing enters NVM again in the next epoch.\<close>

lemma DirtyStained_ok:
  assumes s: "sys_inv s" and run: "\<not> atc_ckpt s" and h: "att_holds (atc_att s) i t"
    and st: "att_state (ent (atc_att s) i) = STAINED"
  shows "\<exists>k pf' s'. atc_DirtyStained ms i mv bl pf s =
      Some (vb_addr (atc_nvm s) k, if mv then push_ckpt (vb_addr (atc_nvm s) k) bl else bl, pf', s') \<and>
    k \<in> {0 ..< vb_length (atc_nvm s)} \<and> ignore_latency pf' = ignore_latency pf \<and>
    block_step mv t (Some (DIRTY, vb_addr (atc_nvm s) k)) s s' \<and> att_holds (atc_att s') i t \<and>
    (\<forall>qs. att_rep (atc_att s) qs \<longrightarrow> att_rep (atc_att s') (requeue (StateIndex STAINED) (StateIndex DIRTY) i qs))"
proof -
  let ?b = "atc_bits s" and ?e = "ent (atc_att s) i"
  note inv = sys_inv_atc [OF s] and e = entry_facts [OF s h]
  note g = atc_geoD [OF atc_invD(1) [OF inv]] and blk = atc_invD(8) [OF inv]
  have T: "atc_map s t = Some (STAINED, mach_base ?e)" using e(3) st by simp
  obtain j where j: "j \<in> vb_sets (atc_dram s) IN_USE" "mach_base ?e = vb_addr (atc_dram s) j"
      "geo_place geo (vb_addr (atc_dram s) j)"
    using dram_entry [OF s h] st by auto
  have "t \<in> tags (\<lambda>x. x = STAINED) (atc_map s)" using T by (simp add: tags_def)
  then have room: "vb_sets (atc_nvm s) VB_FREE \<noteq> {}" using nvm_room [OF inv run] by blast
  then obtain k where kf: "k \<in> vb_sets (atc_nvm s) VB_FREE"
    and N': "vb_SlotAlloc pf (atc_nvm s) = Some (vb_addr (atc_nvm s) k, pf_AddBufferOp pf, vb_move k VB_FREE IN_USE (atc_nvm s))"
    using SlotAlloc_ex [OF g(6) atc_invD(4) [OF inv]] by blast
  define N where "N = vb_move k VB_FREE IN_USE (atc_nvm s)"
  note N = N' [folded N_def]
  note kr = in_use_range(1) [OF inv kf] and jr = in_use_range(2) [OF inv j(1)]
  let ?a = "vb_addr (atc_nvm s) k"
  let ?v = "Some (DIRTY, ?a)" and ?bl = "if mv then push_ckpt ?a bl else bl"
  have sd: "store_ok (s\<lparr>atc_nvm := N\<rparr>)" using store_okI [OF s] by simp
  obtain pf1 m where m: "(if mv then do { (none, pf, s) \<leftarrow> atc_CopyBlockInter ms ?a (mach_base ?e) None (pf_AddBufferOp pf) (s\<lparr>atc_nvm := N\<rparr>);
          Some (push_ckpt ?a bl, pf, s) } else Some (bl, pf_AddBufferOp pf, s\<lparr>atc_nvm := N\<rparr>)) =
        Some (?bl, pf1, s\<lparr>atc_nvm := N, atc_mem := m\<rparr>)" "ignore_latency pf1 = ignore_latency pf" "ok m"
      "contents m = (if mv then block_copy ?b ?a (mach_base ?e) (contents (atc_mem s)) else contents (atc_mem s))"
    using list_copy_ok(2) [OF sd, of ?a "mach_base ?e" mv True "pf_AddBufferOp pf" bl] j
      place_slot(1) [OF s kr] nvm_not_dram [OF atc_invD(1) [OF inv] kr jr]
    by (simp cong: if_cong split del: if_split) blast
  define D where "D = vb_move j IN_USE VB_FREE (atc_dram s)"
  have D: "vb_FreeSlot (mach_base ?e) IN_USE pf1 (atc_dram s) = Some (pf_AddBufferOp pf1, D)"
    unfolding j(2) D_def by (rule vb_FreeSlot_eq [OF g(7) atc_invD(5) [OF inv] j(1)]) simp
  obtain att' where a: "att_Reset i ?a DIRTY (pf_AddBufferOp pf1) (atc_att s) = Some (pf_AddTableOp (pf_AddBufferOp pf1), att')"
      "att_ready att'" "att_consts att' = att_consts (atc_att s)" "tbl att' = (atc_map s)(t := ?v)"
      "att_quiet (atc_att s) \<longrightarrow> att_quiet att'" "att_holds att' i t"
      "\<forall>qs. att_rep (atc_att s) qs \<longrightarrow> att_rep att' (requeue (StateIndex STAINED) (StateIndex DIRTY) i qs)"
    using ready_Reset [OF e(6) h, of DIRTY ?a "pf_AddBufferOp pf1"] st by auto
  define s' where "s' = s\<lparr>atc_nvm := N, atc_mem := m, atc_dram := D, atc_att := att'\<rparr>"
  have fr: "atc_frame s s'" using a(3) by (simp add: s'_def atc_frame_def D_def N_def)
  have own: "owns (atc_nvm s') nvm_state (atc_map s')" "owns (atc_dram s') dram_state (atc_map s')"
    using owns_release [OF atc_owns(2) [OF blk] g(7) atc_invD(5) [OF inv], of t STAINED j VB_FREE ?v]
      owns_alloc [OF atc_owns(1) [OF blk] g(6) atc_invD(4) [OF inv] kf, of t DIRTY] T j a(4) by (simp_all add: s'_def D_def N_def)
  have sets: "vb_sets D BACKUP0 = {}" "vb_sets D BACKUP1 = {}"
      "vb_sets N BACKUP0 = vb_sets (atc_nvm s) BACKUP0" "vb_sets N BACKUP1 = vb_sets (atc_nvm s) BACKUP1"
    using atc_invD(9) [OF inv] by (simp_all add: D_def N_def vb_sets_move atc_counts_def)
  have cnt: "atc_counts s' \<and> (atc_budget s \<longrightarrow> atc_budget s')"
    by (rule counts_keep [OF inv fr, where t = t and v = ?v])
      (use sets a(4) in \<open>simp_all add: s'_def\<close>)
  have "atc_inv s'"
  proof (rule atc_inv_step [OF inv fr, where t = t and v = ?v])
    show "atc_counts s'" using cnt by simp
    show "vb_inv (atc_nvm s')" "vb_inv (atc_dram s')"
      using vb_inv_move [OF atc_invD(4) [OF inv] kf] vb_inv_move [OF atc_invD(5) [OF inv] j(1)] by (simp_all add: s'_def D_def N_def)
  qed (use own a e(4) run atc_blocksD(2) [OF blk T] in \<open>simp_all add: s'_def att_ready_def entry_fits_def\<close>)
  then have "block_step mv t ?v s s'"
    using m(3,4) a(4,5) e(5) fr cnt fresh_slot_nvm [OF s kf]
    by (intro block_stepI [OF s _ fr _ _ e(4)]) (auto simp: s'_def atc_stats_def loc_def)
  moreover have "atc_DirtyStained ms i mv bl pf s = Some (?a, ?bl, pf_AddBufferOp pf1, s')"
    using run e(1) st N m(1) D a(1) by (simp add: atc_DirtyStained_def Let_def s'_def split del: if_split cong: if_cong)
  ultimately show ?thesis using m(2) a(6,7) kr by (auto simp: s'_def)
qed

text \<open>
  The common part of the transitions that send a block home from DRAM: the slot is released and the new
  entry, if any, points home.
\<close>

lemma release_dram_home:
  assumes s: "sys_inv s" and run: "\<not> atc_ckpt s" and h: "att_holds (atc_att s) i t"
    and st: "dram_state (att_state (ent (atc_att s) i))"
    and j: "j \<in> vb_sets (atc_dram s) IN_USE" "mach_base (ent (atc_att s) i) = vb_addr (atc_dram s) j"
    and v: "v = None \<or> v = Some (HIDDEN, push_bit (atc_bits s) t) \<and> att_state (ent (atc_att s) i) \<noteq> LOAN"
    and m: "ok m" "contents m = (if mv then block_copy (atc_bits s) (push_bit (atc_bits s) t) (mach_base (ent (atc_att s) i))
        (contents (atc_mem s)) else contents (atc_mem s))"
    and a: "att_ready att'" "att_consts att' = att_consts (atc_att s)" "tbl att' = (atc_map s)(t := v)"
      "atc_stats s \<Longrightarrow> att_quiet att'"
    and s': "s' = s\<lparr>atc_mem := m, atc_dram := vb_move j IN_USE VB_FREE (atc_dram s), atc_att := att'\<rparr>"
  shows "block_step mv t v s s'"
proof -
  note inv = sys_inv_atc [OF s] and e = entry_facts [OF s h]
  note g = atc_geoD [OF atc_invD(1) [OF inv]] and blk = atc_invD(8) [OF inv]
  have fr: "atc_frame s s'" using a(2) by (simp add: s' atc_frame_def)
  have out: "outside nvm_state (atc_map s t)" "outside nvm_state v" "outside dram_state v"
      "outside (\<lambda>x. x = CLEAN) v"
    using v e(3) st by (auto simp: dram_state_def)
  have own: "owns (atc_nvm s') nvm_state (atc_map s')" "owns (atc_dram s') dram_state (atc_map s')"
    using owns_release [OF atc_owns(2) [OF blk] g(7) atc_invD(5) [OF inv], of t "att_state (ent (atc_att s) i)" j VB_FREE v]
      owns_other [OF atc_owns(1) [OF blk] out(1,2)] st j e(3) a(3) out(3) by (simp_all add: s')
  have cnt: "atc_counts s' \<and> (atc_budget s \<longrightarrow> atc_budget s')"
    by (rule counts_keep [OF inv fr, where t = t and v = v])
      (use atc_invD(9) [OF inv] out(4) a(3) in \<open>simp_all add: s' vb_sets_move atc_counts_def\<close>)
  have "atc_inv s'"
  proof (rule atc_inv_step [OF inv fr, where t = t and v = v])
    show "atc_counts s'" using cnt by simp
    show "vb_inv (atc_dram s')" using vb_inv_move [OF atc_invD(5) [OF inv] j(1)] by (simp add: s')
    show "entry_fits s t v" using v e(4) run atc_blocksD(2) [OF blk e(3)] by (auto simp: entry_fits_def)
  qed (use own a atc_invD(4) [OF inv] in \<open>simp_all add: s' att_ready_def\<close>)
  moreover have "loc (atc_bits s) ((atc_map s)(t := v)) t = push_bit (atc_bits s) t" using v by (auto simp: loc_def)
  ultimately show ?thesis
    using fresh_home [OF inv e(4)] m a(3,4) e(5) fr cnt
    by (intro block_stepI [OF s _ fr _ _ e(4)]) (auto simp: s' atc_stats_def)
qed

lemma FreeLoan_ok:
  assumes s: "sys_inv s" and run: "\<not> atc_ckpt s" and h: "att_holds (atc_att s) i t"
    and st: "att_state (ent (atc_att s) i) = LOAN"
  shows "\<exists>pf' s'. atc_FreeLoan ms i mv bl pf s =
      Some (if mv then push_ckpt (push_bit (atc_bits s) t) bl else bl, pf', s') \<and>
    ignore_latency pf' = ignore_latency pf \<and> block_step mv t None s s' \<and>
    (\<forall>qs. att_rep (atc_att s) qs \<longrightarrow> att_rep (atc_att s') (requeue (StateIndex LOAN) (StateIndex FREE) i qs))"
proof -
  let ?b = "atc_bits s" and ?e = "ent (atc_att s) i" and ?h = "push_bit (atc_bits s) t"
  note inv = sys_inv_atc [OF s] and e = entry_facts [OF s h]
  note g = atc_geoD [OF atc_invD(1) [OF inv]] and blk = atc_invD(8) [OF inv]
  obtain j where j: "j \<in> vb_sets (atc_dram s) IN_USE" "mach_base ?e = vb_addr (atc_dram s) j"
      "geo_place geo (vb_addr (atc_dram s) j)" "?h \<noteq> vb_addr (atc_dram s) j"
    using dram_entry [OF s h] st by auto
  have P: "fst (atc_IsDRAM ?h pf s)"
    using atc_IsDRAM_iff [OF inv] atc_blocksD(2) [OF blk e(3)] st by simp
  obtain pf1 m where m: "(if mv then do { cassert (fst (atc_IsDRAM ?h pf s)); (none, pf, s) \<leftarrow> atc_CopyBlockIntra ms ?h (mach_base ?e) None pf s;
          Some (push_ckpt ?h bl, pf, s) } else Some (bl, pf, s)) = Some (if mv then push_ckpt ?h bl else bl, pf1, s\<lparr>atc_mem := m\<rparr>)"
      "ignore_latency pf1 = ignore_latency pf" "ok m"
      "contents m = (if mv then block_copy ?b ?h (mach_base ?e) (contents (atc_mem s)) else contents (atc_mem s))"
    using list_copy_ok(1) [OF store_okI [OF s], of ?h "mach_base ?e" mv "fst (atc_IsDRAM ?h pf s)" pf bl] j P place_home [OF s e(4)]
    by (simp cong: if_cong split del: if_split) blast
  let ?D = "vb_move j IN_USE VB_FREE (atc_dram s)"
  have D: "vb_FreeSlot (mach_base ?e) IN_USE pf1 (atc_dram s) = Some (pf_AddBufferOp pf1, ?D)"
    unfolding j(2) by (rule vb_FreeSlot_eq [OF g(7) atc_invD(5) [OF inv] j(1)]) simp
  have r: "0 \<le> i" "i < att_length (atc_att s)" using att_holds_range [OF atc_invD(2) [OF inv] h] by simp_all
  have w: "epoch_writes ?e = 0" if "att_quiet (atc_att s)" using that r st unfolding att_quiet_def by blast
  obtain att' where a: "att_ShiftState i FREE (pf_AddBufferOp pf1) (atc_att s) = Some (pf_AddTableOp (pf_AddBufferOp pf1), att')"
      "att_ready att'" "att_consts att' = att_consts (atc_att s)" "tbl att' = (atc_map s)(t := None)"
      "att_quiet (atc_att s) \<and> epoch_writes ?e = 0 \<longrightarrow> att_quiet att'"
      "\<forall>qs. att_rep (atc_att s) qs \<longrightarrow> att_rep att' (requeue (StateIndex LOAN) (StateIndex FREE) i qs)"
    using ready_ShiftState [OF e(6) h, of FREE "pf_AddBufferOp pf1"] st by auto
  define s' where "s' = s\<lparr>atc_mem := m, atc_dram := ?D, atc_att := att'\<rparr>"
  have "block_step mv t None s s'"
    by (rule release_dram_home [OF s run h _ j(1,2) _ m(3,4) a(2-4) _ s'_def]) (use st a(5) w in \<open>simp_all add: atc_stats_def\<close>)
  moreover have "atc_FreeLoan ms i mv bl pf s = Some (if mv then push_ckpt ?h bl else bl, pf_AddBufferOp pf1, s')"
    using run e(1,2) st m(1) D a(1)
    by (simp add: atc_FreeLoan_def att_ToAddr_def Let_def s'_def split del: if_split cong: if_cong)
  ultimately show ?thesis using m(2) a(6) by (auto simp: s'_def)
qed

lemma HideTemp_ok:
  assumes s: "sys_inv s" and run: "\<not> atc_ckpt s" and h: "att_holds (atc_att s) i t"
    and st: "att_state (ent (atc_att s) i) = TEMP"
  shows "\<exists>pf' s'. atc_HideTemp ms i mv bl pf s =
      Some (if mv then push_ckpt (push_bit (atc_bits s) t) bl else bl, pf', s') \<and>
    ignore_latency pf' = ignore_latency pf \<and> block_step mv t (Some (HIDDEN, push_bit (atc_bits s) t)) s s' \<and>
    att_holds (atc_att s') i t \<and>
    (\<forall>qs. att_rep (atc_att s) qs \<longrightarrow> att_rep (atc_att s') (requeue (StateIndex TEMP) (StateIndex HIDDEN) i qs))"
proof -
  let ?b = "atc_bits s" and ?e = "ent (atc_att s) i" and ?h = "push_bit (atc_bits s) t"
  note inv = sys_inv_atc [OF s] and e = entry_facts [OF s h]
  note g = atc_geoD [OF atc_invD(1) [OF inv]] and blk = atc_invD(8) [OF inv]
  obtain j where j: "j \<in> vb_sets (atc_dram s) IN_USE" "mach_base ?e = vb_addr (atc_dram s) j"
      "geo_place geo (vb_addr (atc_dram s) j)" "?h \<noteq> vb_addr (atc_dram s) j"
    using dram_entry [OF s h] st by auto
  have P: "\<not> fst (atc_IsDRAM ?h pf s)"
    using atc_IsDRAM_iff [OF inv] atc_blocksD(2) [OF blk e(3)] st by simp
  obtain pf1 m where m: "(if mv then do { cassert (\<not> fst (atc_IsDRAM ?h pf s)); (none, pf, s) \<leftarrow> atc_CopyBlockInter ms ?h (mach_base ?e) None pf s;
          Some (push_ckpt ?h bl, pf, s) } else Some (bl, pf, s)) = Some (if mv then push_ckpt ?h bl else bl, pf1, s\<lparr>atc_mem := m\<rparr>)"
      "ignore_latency pf1 = ignore_latency pf" "ok m"
      "contents m = (if mv then block_copy ?b ?h (mach_base ?e) (contents (atc_mem s)) else contents (atc_mem s))"
    using list_copy_ok(2) [OF store_okI [OF s], of ?h "mach_base ?e" mv "\<not> fst (atc_IsDRAM ?h pf s)" pf bl] j P place_home [OF s e(4)]
    by (simp cong: if_cong split del: if_split) blast
  let ?D = "vb_move j IN_USE VB_FREE (atc_dram s)"
  have D: "vb_FreeSlot (mach_base ?e) IN_USE pf1 (atc_dram s) = Some (pf_AddBufferOp pf1, ?D)"
    unfolding j(2) by (rule vb_FreeSlot_eq [OF g(7) atc_invD(5) [OF inv] j(1)]) simp
  obtain att' where a: "att_Reset i ?h HIDDEN (pf_AddBufferOp pf1) (atc_att s) = Some (pf_AddTableOp (pf_AddBufferOp pf1), att')"
      "att_ready att'" "att_consts att' = att_consts (atc_att s)" "tbl att' = (atc_map s)(t \<mapsto> (HIDDEN, ?h))"
      "att_quiet (atc_att s) \<longrightarrow> att_quiet att'" "att_holds att' i t"
      "\<forall>qs. att_rep (atc_att s) qs \<longrightarrow> att_rep att' (requeue (StateIndex TEMP) (StateIndex HIDDEN) i qs)"
    using ready_Reset [OF e(6) h, of HIDDEN ?h "pf_AddBufferOp pf1"] st by auto
  define s' where "s' = s\<lparr>atc_mem := m, atc_dram := ?D, atc_att := att'\<rparr>"
  have "block_step mv t (Some (HIDDEN, ?h)) s s'"
    by (rule release_dram_home [OF s run h _ j(1,2) _ m(3,4) a(2-4) _ s'_def]) (use st a(5) in \<open>simp_all add: atc_stats_def\<close>)
  moreover have "atc_HideTemp ms i mv bl pf s = Some (if mv then push_ckpt ?h bl else bl, pf_AddBufferOp pf1, s')"
    using run e(1,2) st m(1) D a(1)
    by (simp add: atc_HideTemp_def att_ToAddr_def Let_def s'_def split del: if_split cong: if_cong)
  ultimately show ?thesis using m(2) a(6,7) by (auto simp: s'_def)
qed

text \<open>A new entry: the block moves from its home to a slot just allocated.\<close>

lemma setup_core:
  assumes s: "sys_inv s" and t: "valid_tag (atc_bits s) (atc_phy_range s) t" "att_ToTag x (atc_att s) = t"
    and new: "atc_map s t = None" and room: "int (card (dom (atc_map s))) < att_length (atc_att s)"
    and st: "st = DIRTY \<or> st = STAINED \<or> st = LOAN" and fits: "entry_fits s t (Some (st, b))"
    and b: "geo_place geo b" "b \<noteq> push_bit (atc_bits s) t" "fresh_base (atc_bits s) (atc_phy_range s) (atc_map s) t b"
    and vb: "vb_consts N = vb_consts (atc_nvm s)" "vb_consts D = vb_consts (atc_dram s)" "vb_inv N" "vb_inv D"
      "vb_sets N BACKUP0 = vb_sets (atc_nvm s) BACKUP0" "vb_sets N BACKUP1 = vb_sets (atc_nvm s) BACKUP1"
      "vb_sets D BACKUP0 = {}" "vb_sets D BACKUP1 = {}"
    and own: "owns N nvm_state ((atc_map s)(t \<mapsto> (st, b)))" "owns D dram_state ((atc_map s)(t \<mapsto> (st, b)))"
  shows "\<exists>i pf' s'. atc_Setup ms x b st mv pf (s\<lparr>atc_nvm := N, atc_dram := D\<rparr>) = Some (i, pf', s') \<and>
    ignore_latency pf' = ignore_latency pf \<and> block_step mv t (Some (st, b)) s s' \<and> att_holds (atc_att s') i t"
proof -
  let ?b = "atc_bits s" and ?h = "push_bit (atc_bits s) t" and ?s = "s\<lparr>atc_nvm := N, atc_dram := D\<rparr>" and ?v = "Some (st, b)"
  note inv = sys_inv_atc [OF s]
  have rdy: "att_ready (atc_att s)" using inv by (simp add: att_ready_def atc_inv_def)
  have sd: "store_ok ?s" using store_okI [OF s] by simp
  obtain pf1 m where m: "(if mv then atc_CopyBlockIntra ms b ?h None pf ?s else Some (None, pf, ?s)) =
        Some (None, pf1, ?s\<lparr>atc_mem := m\<rparr>)" "ignore_latency pf1 = ignore_latency pf" "ok m"
      "contents m = (if mv then block_copy ?b b ?h (contents (atc_mem s)) else contents (atc_mem s))"
    using opt_copy_ok(1) [OF sd b(1) place_home [OF s t(1)] b(2), of mv pf] by auto
  obtain i att' where a: "att_Setup t b st pf1 (atc_att s) = Some (i, pf_AddTableOp pf1, att')" "att_ready att'"
      "att_consts att' = att_consts (atc_att s)" "tbl att' = (atc_map s)(t := ?v)"
      "att_quiet (atc_att s) \<longrightarrow> att_quiet att'" "att_holds att' i t"
    using ready_Setup [OF rdy new room, of st b pf1] st by auto
  define s' where "s' = s\<lparr>atc_nvm := N, atc_dram := D, atc_mem := m, atc_att := att'\<rparr>"
  have fr: "atc_frame s s'" using a(3) vb by (simp add: s'_def atc_frame_def)
  have cnt: "atc_counts s' \<and> (atc_budget s \<longrightarrow> atc_budget s')"
    by (rule counts_keep [OF inv fr, where t = t and v = ?v])
      (use vb a(4) st in \<open>auto simp: s'_def\<close>)
  have "atc_inv s'"
  proof (rule atc_inv_step [OF inv fr, where t = t and v = ?v])
    show "atc_counts s'" using cnt by simp
  qed (use own a fits vb in \<open>simp_all add: s'_def att_ready_def\<close>)
  then have "block_step mv t ?v s s'"
    using m(3,4) a(4,5) fr b(3) new cnt
    by (intro block_stepI [OF s _ fr _ _ t(1)]) (auto simp: s'_def atc_stats_def loc_def)
  moreover have "atc_Setup ms x b st mv pf ?s = Some (i, pf_AddTableOp pf1, s')"
    using st m(1) a(1) t(2) by (simp add: atc_Setup_def att_ToAddr_def Let_def s'_def split del: if_split cong: if_cong)
  ultimately show ?thesis using m(2) a(6) by (auto simp: s'_def)
qed

text \<open>The hypotheses a store has when its block is not in the table.\<close>

definition store_miss :: "Addr \<Rightarrow> Tag \<Rightarrow> 'm ATC \<Rightarrow> bool" where
  "store_miss x t s \<longleftrightarrow> valid_tag (atc_bits s) (atc_phy_range s) t \<and> att_ToTag x (atc_att s) = t \<and>
     atc_map s t = None \<and> int (card (dom (atc_map s))) < att_length (atc_att s)"

lemma SetupDirty_ok:
  assumes s: "sys_inv s" and run: "\<not> atc_ckpt s" and x: "store_miss x t s" and nd: "\<not> in_dram s t"
  shows "\<exists>k i pf' s'. k \<in> {0 ..< vb_length (atc_nvm s)} \<and>
    (\<forall>pf. vb_SlotAlloc pf (atc_nvm s) = Some (vb_addr (atc_nvm s) k, pf_AddBufferOp pf, vb_move k VB_FREE IN_USE (atc_nvm s))) \<and>
    atc_Setup ms x (vb_addr (atc_nvm s) k) DIRTY mv pf (s\<lparr>atc_nvm := vb_move k VB_FREE IN_USE (atc_nvm s)\<rparr>) = Some (i, pf', s') \<and>
    ignore_latency pf' = ignore_latency pf \<and> block_step mv t (Some (DIRTY, vb_addr (atc_nvm s) k)) s s' \<and>
    att_holds (atc_att s') i t"
proof -
  note inv = sys_inv_atc [OF s]
  note g = atc_geoD [OF atc_invD(1) [OF inv]] and blk = atc_invD(8) [OF inv]
  have t: "valid_tag (atc_bits s) (atc_phy_range s) t" "att_ToTag x (atc_att s) = t" "atc_map s t = None"
      "int (card (dom (atc_map s))) < att_length (atc_att s)" using x by (simp_all add: store_miss_def)
  obtain k where kf: "k \<in> vb_sets (atc_nvm s) VB_FREE"
    and A: "\<forall>pf. vb_SlotAlloc pf (atc_nvm s) = Some (vb_addr (atc_nvm s) k, pf_AddBufferOp pf, vb_move k VB_FREE IN_USE (atc_nvm s))"
    using SlotAlloc_ex [OF g(6) atc_invD(4) [OF inv]] nvm_room [OF inv run] t(4) by blast
  note kr = in_use_range(1) [OF inv kf]
  let ?N = "vb_move k VB_FREE IN_USE (atc_nvm s)" and ?v = "Some (DIRTY, vb_addr (atc_nvm s) k)"
  have own: "owns ?N nvm_state ((atc_map s)(t := ?v))" "owns (atc_dram s) dram_state ((atc_map s)(t := ?v))"
    using owns_alloc [OF atc_owns(1) [OF blk] g(6) atc_invD(4) [OF inv] kf, of t DIRTY]
      owns_other [OF atc_owns(2) [OF blk], of t ?v] t(3) by simp_all
  have cnt: "vb_sets ?N BACKUP0 = vb_sets (atc_nvm s) BACKUP0" "vb_sets ?N BACKUP1 = vb_sets (atc_nvm s) BACKUP1"
      "vb_sets (atc_dram s) BACKUP0 = {}" "vb_sets (atc_dram s) BACKUP1 = {}"
    using atc_invD(9) [OF inv] by (simp_all add: vb_sets_move atc_counts_def)
  have "vb_inv ?N" using vb_inv_move [OF atc_invD(4) [OF inv] kf] by simp
  moreover have "entry_fits s t ?v" using t(1) nd run by (simp add: entry_fits_def)
  ultimately show ?thesis
    using setup_core [OF s t _ _ place_slot(1) [OF s kr] home_not_slot(1) [OF inv t(1) kr, symmetric]
      fresh_slot_nvm [OF s kf] vb_consts_move refl _ atc_invD(5) [OF inv] cnt own, of mv pf] A kr by auto
qed

lemma SetupDram_ok:
  assumes s: "sys_inv s" and x: "store_miss x t s" and st: "st = (if in_dram s t then LOAN else STAINED)"
  shows "\<exists>k i pf' s'. k \<in> {0 ..< vb_length (atc_dram s)} \<and>
    (\<forall>pf. vb_SlotAlloc pf (atc_dram s) = Some (vb_addr (atc_dram s) k, pf_AddBufferOp pf, vb_move k VB_FREE IN_USE (atc_dram s))) \<and>
    atc_Setup ms x (vb_addr (atc_dram s) k) st mv pf (s\<lparr>atc_dram := vb_move k VB_FREE IN_USE (atc_dram s)\<rparr>) = Some (i, pf', s') \<and>
    ignore_latency pf' = ignore_latency pf \<and> block_step mv t (Some (st, vb_addr (atc_dram s) k)) s s' \<and>
    att_holds (atc_att s') i t"
proof -
  note inv = sys_inv_atc [OF s]
  note g = atc_geoD [OF atc_invD(1) [OF inv]] and blk = atc_invD(8) [OF inv]
  have t: "valid_tag (atc_bits s) (atc_phy_range s) t" "att_ToTag x (atc_att s) = t" "atc_map s t = None"
      "int (card (dom (atc_map s))) < att_length (atc_att s)" using x by (simp_all add: store_miss_def)
  have st': "st = DIRTY \<or> st = STAINED \<or> st = LOAN" "dram_state st" "\<not> nvm_state st" using st by simp_all
  obtain k where kf: "k \<in> vb_sets (atc_dram s) VB_FREE"
    and A: "\<forall>pf. vb_SlotAlloc pf (atc_dram s) = Some (vb_addr (atc_dram s) k, pf_AddBufferOp pf, vb_move k VB_FREE IN_USE (atc_dram s))"
    using SlotAlloc_ex [OF g(7) atc_invD(5) [OF inv]] dram_room [OF inv] t(4) by blast
  note kr = in_use_range(2) [OF inv kf]
  let ?D = "vb_move k VB_FREE IN_USE (atc_dram s)" and ?v = "Some (st, vb_addr (atc_dram s) k)"
  have own: "owns (atc_nvm s) nvm_state ((atc_map s)(t := ?v))" "owns ?D dram_state ((atc_map s)(t := ?v))"
    using owns_alloc [OF atc_owns(2) [OF blk] g(7) atc_invD(5) [OF inv] kf, of t st]
      owns_other [OF atc_owns(1) [OF blk], of t ?v] t(3) st' by simp_all
  have cnt: "vb_sets ?D BACKUP0 = {}" "vb_sets ?D BACKUP1 = {}"
    using atc_invD(9) [OF inv] by (simp_all add: vb_sets_move atc_counts_def)
  have "vb_inv ?D" using vb_inv_move [OF atc_invD(5) [OF inv] kf] by simp
  moreover have "entry_fits s t ?v" using t(1) st by (simp add: entry_fits_def)
  ultimately show ?thesis
    using setup_core [OF s t st'(1) _ place_slot(2) [OF s kr] home_not_slot(2) [OF inv t(1) kr, symmetric]
      fresh_slot_dram [OF s kf] refl vb_consts_move atc_invD(4) [OF inv] _ refl refl cnt own, of mv pf] A kr by auto
qed

end

end
