(* ===== verification/Controller_Store.thy ===== *)
theory Controller_Store
  imports Controller_Blocks
begin

text \<open>
  Loads and stores: \<open>LoadAddr\<close>, \<open>NVMStore\<close>, \<open>DRAMStore\<close>, \<open>StoreAddr\<close> and \<open>Probe\<close>. A load changes nothing
  that can be read. A store may move blocks around, but keeps the logical memory, except for the bytes
  of its own block when the caller announces that it will overwrite the whole block; the address it
  returns is the one that later loads of the same address return.
\<close>

section \<open>Regions of translated addresses\<close>

lemma att_quiet_same:
  assumes "att_quiet att" "same_entries att att'"
  shows "att_quiet att'"
  unfolding att_quiet_def
proof (intro allI impI)
  fix j assume j: "0 \<le> j \<and> j < att_length att' \<and> (\<not> att_active (ent att' j) \<or> att_state (ent att' j) = LOAN)"
  then have r: "0 \<le> j" "j < att_length att" and p: "payload1 (ent att' j) = payload1 (ent att j)"
    using assms(2) by (auto simp: same_entries_def att_consts_def)
  then show "epoch_writes (ent att' j) = 0"
    using payload1_fields [OF p] j assms(1) unfolding att_quiet_def att_active_def by auto
qed

lemma att_idle_same:
  assumes "att_idle att" "same_entries att att'" "att_tag_index att' = att_tag_index att"
  shows "att_idle att'"
  unfolding att_idle_def
proof (intro allI impI)
  fix j assume j: "0 \<le> j \<and> j < att_length att' \<and> (\<forall>t. \<not> att_holds att' j t)"
  then have r: "0 \<le> j" "j < att_length att" and p: "payload1 (ent att' j) = payload1 (ent att j)"
    using assms(2) by (auto simp: same_entries_def att_consts_def)
  have "\<forall>t. \<not> att_holds att j t" using j assms(3) by (simp add: att_holds_def)
  then have "\<not> att_active (ent att j)" using assms(1) r unfolding att_idle_def by blast
  then show "\<not> att_active (ent att' j)" using payload1_fields [OF p] by (simp add: att_active_def)
qed

text \<open>An address of a slot lies in the region of its buffer.\<close>

lemma rebase_slot:
  assumes g: "vb_geometry vb" and j: "j \<in> {0 ..< vb_length vb}"
  shows "vb_Contains (rebase (vb_block_bits vb) a (vb_addr vb j)) vb"
proof -
  let ?b = "vb_block_bits vb" and ?o = "a AND mask (vb_block_bits vb)"
  have b: "?b \<le> 30" using g by (simp add: vb_geometry_def)
  have "int (unat ?o) < int (2 ^ ?b)" unfolding unat_offset of_nat_less_iff by simp
  then have o: "uint ?o < 2 ^ ?b" by simp
  have "(j + 1) * 2 ^ ?b \<le> vb_length vb * 2 ^ ?b" using j by (intro mult_right_mono) simp_all
  then have le: "j * 2 ^ ?b + 2 ^ ?b \<le> vb_length vb * 2 ^ ?b" by (simp add: algebra_simps)
  note u = uint_vb_addr [OF g, of j] and sb = slot_bytes(1) [OF g, of j]
  have lt: "uint (vb_addr vb j) + uint ?o < 2 ^ 64"
    using u o le g j by (simp add: vb_geometry_def)
  then have "uint (rebase ?b a (vb_addr vb j)) = uint (vb_addr vb j) + uint ?o"
    using uint_add_lem [of "vb_addr vb j" ?o] by (simp add: rebase_def)
  then show ?thesis
    unfolding vb_Contains_iff [OF g] using u o le sb j by auto
qed

lemma tr_hit: "atc_map s (drop_bit (atc_bits s) a) = Some (st, m) \<Longrightarrow> tr (atc_bits s) (atc_map s) a = rebase (atc_bits s) a m"
  by (simp add: tr_def)

lemma tr_miss: "atc_map s (drop_bit (atc_bits s) a) = None \<Longrightarrow> tr (atc_bits s) (atc_map s) a = a"
  by (simp add: tr_def)

lemma push_ckpt_None [simp]: "(if b then push_ckpt x None else None) = None"
  by (simp add: push_ckpt_def)

context mem_store
begin

lemma latency_home:
  assumes s: "sys_inv s" and a: "a < atc_phy_range s"
  shows "latency_pre geo a False None"
proof -
  note inv = sys_inv_atc [OF s]
  note g = atc_geoD [OF atc_invD(1) [OF inv]]
  have "0 \<le> vb_length (atc_nvm s)" using g(6) by (simp add: vb_geometry_def)
  then have "atc_phy_range s \<le> vb_addr_base (atc_dram s)"
    using dram_base_uint [OF atc_invD(1) [OF inv]] by (simp add: word_le_def)
  then have "a < vb_addr_base (atc_dram s)" using a by simp
  then show ?thesis using s g(11) by (auto simp: sys_inv_def geometry_of_def latency_pre_def)
qed

lemma latency_hit:
  assumes s: "sys_inv s" and a: "a < atc_phy_range s" and T: "atc_map s (drop_bit (atc_bits s) a) = Some (st, m)"
  shows "latency_pre geo (rebase (atc_bits s) a m) (dram_state st) None" "aligned (atc_bits s) m"
proof -
  note inv = sys_inv_atc [OF s] and blk = atc_invD(8) [OF sys_inv_atc [OF s]]
  note g = atc_geoD [OF atc_invD(1) [OF inv]]
  note v = valid_tag_drop [OF a, of "atc_bits s"]
  show "aligned (atc_bits s) m" using loc_aligned [OF inv v] T by (simp add: loc_def)
  have G: "geo_dram geo x = vb_Contains x (atc_dram s)"
      "geo_phy_range geo + geo_nvm_size geo = vb_addr_base (atc_dram s)" for x
    using s g(11) by (auto simp: sys_inv_def geometry_of_def)
  have "st \<noteq> FREE" using att_tbl_not_FREE [OF atc_invD(2) [OF inv] T] .
  then consider "nvm_state st" "\<not> dram_state st" | "dram_state st" | "st = HIDDEN" by (cases st) simp_all
  then show "latency_pre geo (rebase (atc_bits s) a m) (dram_state st) None"
  proof cases
    case 1
    then obtain j where j: "j \<in> vb_sets (atc_nvm s) IN_USE" "m = vb_addr (atc_nvm s) j"
      using owns_slot [OF atc_owns(1) [OF blk] T] by blast
    have "vb_Contains (rebase (atc_bits s) a m) (atc_nvm s)"
      using rebase_slot [OF g(6) in_use_range(1) [OF inv j(1)], of a] g(2) j(2) by simp
    then have "rebase (atc_bits s) a m < vb_addr_base (atc_dram s)"
      using dram_base_uint [OF atc_invD(1) [OF inv]] g(10) unfolding vb_Contains_iff [OF g(6)] by (simp add: word_less_def)
    then show ?thesis using 1 by (simp add: latency_pre_def G)
  next
    case 2
    then obtain j where j: "j \<in> vb_sets (atc_dram s) IN_USE" "m = vb_addr (atc_dram s) j"
      using owns_slot [OF atc_owns(2) [OF blk] T] by blast
    have "vb_Contains (rebase (atc_bits s) a m) (atc_dram s)"
      using rebase_slot [OF g(7) in_use_range(2) [OF inv j(1)], of a] g(3) j(2) by simp
    then show ?thesis using 2 by (simp add: latency_pre_def G)
  next
    case 3
    then have "rebase (atc_bits s) a m = a" using atc_blocksD(3) [OF blk T] by simp
    then show ?thesis using 3 latency_home [OF s a] by simp
  qed
qed

section \<open>Steps that only keep books\<close>

definition keeps :: "'m ATC \<Rightarrow> 'm ATC \<Rightarrow> bool" where
  "keeps s s' \<longleftrightarrow> sys_inv s' \<and> atc_map s' = atc_map s \<and> contents (atc_mem s') = contents (atc_mem s) \<and>
     atc_phy_range s' = atc_phy_range s \<and> atc_ckpt s' = atc_ckpt s \<and> att_consts (atc_att s') = att_consts (atc_att s) \<and>
     in_dram s' = in_dram s \<and> (atc_stats s \<longrightarrow> atc_stats s')"

lemma keeps_refl: "sys_inv s \<Longrightarrow> keeps s s"
  by (simp add: keeps_def)

lemma keeps_trans: "keeps s s' \<Longrightarrow> keeps s' s'' \<Longrightarrow> keeps s s''"
  by (simp add: keeps_def)

lemma keepsD:
  assumes "keeps s s'"
  shows "sys_inv s'" "atc_map s' = atc_map s" "atc_phy_range s' = atc_phy_range s" "atc_ckpt s' = atc_ckpt s"
    "atc_bits s' = atc_bits s" "att_length (atc_att s') = att_length (atc_att s)" "in_dram s' = in_dram s" "vw s' = vw s"
    "atc_stats s \<Longrightarrow> atc_stats s'"
  using assms by (simp_all add: keeps_def att_consts_def vw_def [abs_def])

lemma keeps_mem:
  assumes "sys_inv s" "ok m" "contents m = contents (atc_mem s)"
  shows "keeps s (s\<lparr>atc_mem := m\<rparr>)"
  using assms by (simp add: keeps_def sys_inv_def geometry_of_def atc_Size_def in_dram_def fun_eq_iff)

lemma keeps_att:
  assumes s: "sys_inv s" and a: "att_ready att'" "att_consts att' = att_consts (atc_att s)" "tbl att' = atc_map s"
    and q: "atc_stats s \<Longrightarrow> att_quiet att'"
  shows "keeps s (s\<lparr>atc_att := att'\<rparr>)"
proof -
  have c: "att_length att' = att_length (atc_att s)" "att_block_bits att' = atc_bits s"
    using a(2) by (simp_all add: att_consts_def)
  have p: "atc_geo (s\<lparr>atc_att := att'\<rparr>) = atc_geo s" "atc_blocks (s\<lparr>atc_att := att'\<rparr>) = atc_blocks s"
      "atc_counts (s\<lparr>atc_att := att'\<rparr>) = atc_counts s" "atc_budget (s\<lparr>atc_att := att'\<rparr>) = atc_budget s"
    using c a(3) by (simp_all add: atc_geo_def atc_blocks_def atc_counts_def in_dram_def atc_budget_def)
  have d: "in_dram (s\<lparr>atc_att := att'\<rparr>) = in_dram s" using c by (simp add: in_dram_def fun_eq_iff)
  have "atc_inv (s\<lparr>atc_att := att'\<rparr>)"
    using sys_inv_atc [OF s] a(1) unfolding atc_inv_def p by (simp add: att_ready_def)
  then show ?thesis
    using s a q c d p(4) by (simp add: keeps_def sys_inv_def geometry_of_def atc_Size_def atc_stats_def)
qed

lemma keeps_mc:
  assumes s: "sys_inv s" and m: "mc_inv mc'" "mc_counted mc'" "mc_same (atc_mc s) mc'"
    and f: "\<And>k. mc_find k mc' = None \<longleftrightarrow> mc_find k (atc_mc s) = None"
  shows "keeps s (s\<lparr>atc_mc := mc'\<rparr>)"
proof -
  note inv = sys_inv_atc [OF s]
  have c: "mc_block_bits mc' = mc_block_bits (atc_mc s)" "mc_page_bits mc' = mc_page_bits (atc_mc s)"
      "mc_ptt_capacity mc' = mc_ptt_capacity (atc_mc s)" "mc_geometry mc' = mc_geometry (atc_mc s)"
    using m(3) mc_same_geometry [OF m(3)] by (simp_all add: mc_same_def)
  have d: "in_dram (s\<lparr>atc_mc := mc'\<rparr>) = in_dram s" by (simp add: in_dram_def fun_eq_iff c f)
  have p: "atc_geo (s\<lparr>atc_mc := mc'\<rparr>) = atc_geo s" "atc_blocks (s\<lparr>atc_mc := mc'\<rparr>) = atc_blocks s"
      "atc_counts (s\<lparr>atc_mc := mc'\<rparr>) = atc_counts s"
    using c d by (simp_all add: atc_geo_def atc_blocks_def atc_counts_def)
  have "atc_inv (s\<lparr>atc_mc := mc'\<rparr>)"
    using inv m(1,2) f unfolding atc_inv_def p by simp
  then show ?thesis
    using s m(3) d c by (simp add: keeps_def sys_inv_def geometry_of_def atc_Size_def atc_stats_def mc_same_def atc_budget_def)
qed

lemma hook_ok:
  assumes "sys_inv s"
  shows "\<exists>s'. atc_hook (OnATTWriteHit ms st) s = Some s' \<and> keeps s s' \<and> atc_att s' = atc_att s"
    "\<exists>s'. atc_hook (OnATTWriteMiss ms st) s = Some s' \<and> keeps s s' \<and> atc_att s' = atc_att s"
    "\<exists>s'. atc_hook (OnEpochEnd ms) s = Some s' \<and> keeps s s' \<and> atc_att s' = atc_att s"
    "\<exists>s'. atc_hook (statsNVMWrites ms n) s = Some s' \<and> keeps s s' \<and> atc_att s' = atc_att s"
    "\<exists>s'. atc_hook (statsDRAMWrites ms n) s = Some s' \<and> keeps s s' \<and> atc_att s' = atc_att s"
    "\<exists>s'. atc_hook (ckDRAMWriteHit ms) s = Some s' \<and> keeps s s' \<and> atc_att s' = atc_att s"
proof -
  have k: "ok (atc_mem s)" using assms by (simp add: sys_inv_def)
  have run: "\<exists>s'. atc_hook f s = Some s' \<and> keeps s s' \<and> atc_att s' = atc_att s"
    if "\<exists>m. f (atc_mem s) = Some m \<and> ok m \<and> contents m = contents (atc_mem s)" for f
    using that keeps_mem [OF assms] by (auto simp: atc_hook_def)
  show "\<exists>s'. atc_hook (OnATTWriteHit ms st) s = Some s' \<and> keeps s s' \<and> atc_att s' = atc_att s"
    "\<exists>s'. atc_hook (OnATTWriteMiss ms st) s = Some s' \<and> keeps s s' \<and> atc_att s' = atc_att s"
    "\<exists>s'. atc_hook (OnEpochEnd ms) s = Some s' \<and> keeps s s' \<and> atc_att s' = atc_att s"
    "\<exists>s'. atc_hook (statsNVMWrites ms n) s = Some s' \<and> keeps s s' \<and> atc_att s' = atc_att s"
    "\<exists>s'. atc_hook (statsDRAMWrites ms n) s = Some s' \<and> keeps s s' \<and> atc_att s' = atc_att s"
    "\<exists>s'. atc_hook (ckDRAMWriteHit ms) s = Some s' \<and> keeps s s' \<and> atc_att s' = atc_att s"
    by (rule run, rule OnATTWriteHit_law OnATTWriteMiss_law OnEpochEnd_law statsNVMWrites_law statsDRAMWrites_law
        ckDRAMWriteHit_law, rule k)+
qed

lemma latency_ok:
  assumes s: "sys_inv s" and p: "latency_pre geo a dram page" and pf: "\<not> ignore_latency pf"
  shows "\<exists>pf' s'. atc_ReadLatency ms a dram page pf s = Some (pf', s') \<and> keeps s s' \<and> \<not> ignore_latency pf' \<and> atc_att s' = atc_att s"
    "\<exists>pf' s'. atc_WriteLatency ms a dram page pf s = Some (pf', s') \<and> keeps s s' \<and> \<not> ignore_latency pf' \<and> atc_att s' = atc_att s"
proof -
  have k: "ok (atc_mem s)" using s by (simp add: sys_inv_def)
  show "\<exists>pf' s'. atc_ReadLatency ms a dram page pf s = Some (pf', s') \<and> keeps s s' \<and> \<not> ignore_latency pf' \<and> atc_att s' = atc_att s"
    using read_law [OF k p] pf keeps_mem [OF s] by (auto simp: atc_ReadLatency_def pf_AddLatency_def)
  show "\<exists>pf' s'. atc_WriteLatency ms a dram page pf s = Some (pf', s') \<and> keeps s s' \<and> \<not> ignore_latency pf' \<and> atc_att s' = atc_att s"
    using write_law [OF k p] pf keeps_mem [OF s] by (auto simp: atc_WriteLatency_def pf_AddLatency_def)
qed

lemma Lookup_ok:
  assumes s: "sys_inv s" and T: "atc_map s t = Some v"
  shows "\<exists>i att'. att_Lookup t pf (atc_att s) = Some (i, pf_AddTableOp pf, att') \<and> i \<noteq> - EINVAL \<and>
    keeps s (s\<lparr>atc_att := att'\<rparr>) \<and> att_holds att' i t"
proof -
  have r: "att_ok (atc_att s)" "att_idle (atc_att s)" using sys_inv_atc [OF s] by (simp_all add: atc_inv_def)
  obtain i att' where a: "att_Lookup t pf (atc_att s) = Some (i, pf_AddTableOp pf, att')" "att_ok att'" "tbl att' = atc_map s"
      "att_holds att' i t" "same_entries (atc_att s) att'" "att_tag_index att' = att_tag_index (atc_att s)"
    using map_Lookup_hit [OF r(1) T, of pf] by blast
  have "keeps s (s\<lparr>atc_att := att'\<rparr>)"
    by (rule keeps_att [OF s]) (use a att_idle_same [OF r(2) a(5,6)] att_quiet_same [OF _ a(5)] in
        \<open>auto simp: att_ready_def same_entries_def atc_stats_def\<close>)
  then show ?thesis using a att_holds_not_EINVAL [OF a(2,4)] by blast
qed

text \<open>Counting an access to entry \<open>i\<close>.\<close>

lemma update_stats_ok:
  assumes s: "sys_inv s" and h: "att_holds (atc_att s) i t"
    and f: "queue_node (f (ent (atc_att s) i)) = queue_node (ent (atc_att s) i)" "att_state (f (ent (atc_att s) i)) = att_state (ent (atc_att s) i)"
      "phy_tag (f (ent (atc_att s) i)) = phy_tag (ent (atc_att s) i)" "mach_base (f (ent (atc_att s) i)) = mach_base (ent (atc_att s) i)"
    and w: "epoch_writes (f (ent (atc_att s) i)) = epoch_writes (ent (atc_att s) i) \<or>
      att_active (ent (atc_att s) i) \<and> att_state (ent (atc_att s) i) \<noteq> LOAN"
  shows "\<exists>att'. att_update i f (atc_att s) = Some att' \<and> keeps s (s\<lparr>atc_att := att'\<rparr>)"
proof -
  let ?e = "ent (atc_att s) i"
  have r: "att_ok (atc_att s)" "att_idle (atc_att s)" using sys_inv_atc [OF s] by (simp_all add: atc_inv_def)
  obtain att' where a: "att_update i f (atc_att s) = Some att'" "att_ok att'" "att_consts att' = att_consts (atc_att s)"
      "att_sets (atc_att s) att' i (f ?e)" "att_tag_index att' = att_tag_index (atc_att s)" "tbl att' = atc_map s"
    using map_update_stats [where f = f, OF r(1) h f] by blast
  have hold: "att_holds att' = att_holds (atc_att s)" using a(5) by (simp add: att_holds_def fun_eq_iff)
  have idle: "att_idle att'"
    by (rule att_idle_step [OF r a(4,3)]) (use h hold in auto)
  have "att_quiet att'" if q: "att_quiet (atc_att s)"
  proof (rule att_quiet_step [OF r(1) q a(4,3)])
    have ir: "0 \<le> i" "i < att_length (atc_att s)" using att_holds_range [OF r(1) h] by simp_all
    assume "\<not> att_active (f ?e) \<or> att_state (f ?e) = LOAN"
    then have ia: "\<not> att_active ?e \<or> att_state ?e = LOAN" using f(2) by (simp add: att_active_def)
    then have "epoch_writes ?e = 0" using q ir unfolding att_quiet_def by blast
    then show "epoch_writes (f ?e) = 0" using w ia by auto
  qed
  then have "keeps s (s\<lparr>atc_att := att'\<rparr>)"
    by (intro keeps_att [OF s]) (use a idle in \<open>auto simp: att_ready_def atc_stats_def\<close>)
  then show ?thesis using a(1) by blast
qed

section \<open>Loads\<close>

lemma page_of_tag:
  assumes "sys_inv s"
  shows "page_of (mc_page_bits (atc_mc s)) (push_bit (atc_bits s) (drop_bit (atc_bits s) a)) = page_of (mc_page_bits (atc_mc s)) a"
  using atc_geoD(4,5) [OF sys_inv_geo [OF assms]] by (intro page_of_block [of "atc_bits s"]) (simp_all add: mc_geometry_def)

lemma LookupPage_miss:
  assumes s: "sys_inv s" and d: "\<not> in_dram s (drop_bit (atc_bits s) a)"
  shows "mc_LookupPage a pf (atc_mc s) = (PTTEntry_init, pf_AddTableOp pf)" "pt_index PTTEntry_init < 0"
  using d mc_PageAlign_eq [OF atc_geoD(5) [OF sys_inv_geo [OF s]]]
  by (simp_all add: in_dram_def page_of_tag [OF s] mc_LookupPage_def PTTEntry_init_def EINVAL_def)

lemma LookupPage_hit:
  assumes s: "sys_inv s" and a: "a < atc_phy_range s" and d: "in_dram s (drop_bit (atc_bits s) a)"
  obtains k e where "mc_LookupPage a pf (atc_mc s) = (e, pf_AddTableOp pf)" "mc_find k (atc_mc s) = Some e"
    "k = page_of (mc_page_bits (atc_mc s)) a" "pt_mach_base e = k" "0 \<le> pt_index e"
    "\<And>e'. pt_index e' = pt_index e \<Longrightarrow> latency_pre geo a True (Some e')"
proof -
  note inv = sys_inv_atc [OF s]
  obtain e where e: "mc_find (page_of (mc_page_bits (atc_mc s)) a) (atc_mc s) = Some e"
    using d by (auto simp: in_dram_def page_of_tag [OF s])
  have "mc_LookupPage a pf (atc_mc s) = (e, pf_AddTableOp pf)"
    using e mc_PageAlign_eq [OF atc_geoD(5) [OF sys_inv_geo [OF s]]] by (simp add: mc_LookupPage_def)
  moreover note i = mc_inv_entry [OF atc_invD(6) [OF inv] e]
  moreover have "latency_pre geo a True (Some e')" if "pt_index e' = pt_index e" for e'
    using s a i(3,4) that by (auto simp: latency_pre_def sys_inv_def geometry_of_def)
  ultimately show ?thesis using that e by blast
qed

lemma mc_Translate_page:
  assumes "sys_inv s" shows "mc_Translate a (page_of (mc_page_bits (atc_mc s)) a) (atc_mc s) = Some a"
proof -
  note m = mc_page_mask_eq [OF atc_geoD(5) [OF sys_inv_geo [OF assms]]]
  have "page_of (mc_page_bits (atc_mc s)) a AND mask (mc_page_bits (atc_mc s)) = 0"
    using aligned_page_of by (simp add: aligned_def)
  moreover have "page_of (mc_page_bits (atc_mc s)) a + (a AND mask (mc_page_bits (atc_mc s))) = a"
    using rebase_push_drop [of "mc_page_bits (atc_mc s)" a] by (simp add: rebase_def page_of_def)
  ultimately show ?thesis by (simp add: mc_Translate_def m)
qed

lemma AddDRAMPageRead_keeps:
  assumes s: "sys_inv s" and e: "mc_find k (atc_mc s) = Some e"
  shows "\<exists>mc'. mc_AddDRAMPageRead k (atc_mc s) = Some mc' \<and> keeps s (s\<lparr>atc_mc := mc'\<rparr>) \<and> mc_page_bits mc' = mc_page_bits (atc_mc s)"
proof -
  note inv = sys_inv_atc [OF s]
  obtain mc' where m: "mc_AddDRAMPageRead k (atc_mc s) = Some mc'" "mc_inv mc'" "mc_same (atc_mc s) mc'"
      "\<forall>x. mc_find x mc' = (if x = k then Some (e\<lparr>pt_epoch_reads := pt_epoch_reads e + 1\<rparr>) else mc_find x (atc_mc s))"
    using mc_AddDRAMPageRead_ok [OF atc_geoD(5) [OF sys_inv_geo [OF s]] atc_invD(6) [OF inv] e] by blast
  have "mc_counted mc'" using atc_invD(7) [OF inv] m(4) e by (simp add: mc_counted_def)
  then have "keeps s (s\<lparr>atc_mc := mc'\<rparr>)" using m(2,3,4) e by (intro keeps_mc [OF s]) (auto split: if_splits)
  then show ?thesis using m(1,3) by (auto simp: mc_same_def)
qed

theorem LoadAddr_ok:
  assumes s: "sys_inv s" and a: "a < atc_phy_range s" and pf: "\<not> ignore_latency pf"
  shows "\<exists>pf' s'. atc_LoadAddr ms a pf s = Some (tr (atc_bits s) (atc_map s) a, pf', s') \<and> keeps s s' \<and> \<not> ignore_latency pf'"
proof (cases "atc_map s (drop_bit (atc_bits s) a)")
  case (Some v)
  let ?t = "drop_bit (atc_bits s) a"
  obtain i att1 where l: "att_Lookup ?t pf (atc_att s) = Some (i, pf_AddTableOp pf, att1)" "i \<noteq> - EINVAL"
      "keeps s (s\<lparr>atc_att := att1\<rparr>)" "att_holds att1 i ?t"
    using Lookup_ok [OF s Some, of pf] by blast
  define s1 where "s1 = s\<lparr>atc_att := att1\<rparr>"
  note k1 = keepsD [OF l(3) [folded s1_def]]
  have h1: "att_holds (atc_att s1) i ?t" using l(4) by (simp add: s1_def)
  note e = entry_facts [OF k1(1) h1]
  obtain att2 where u: "att_AddBlockRead i (atc_att s1) = Some att2" "keeps s1 (s1\<lparr>atc_att := att2\<rparr>)"
    using update_stats_ok [OF k1(1) h1, of "\<lambda>e. e\<lparr>epoch_reads := epoch_reads e + 1\<rparr>"]
    by (auto simp: att_AddBlockRead_def)
  note k2 = keepsD [OF u(2)]
  let ?e = "ent (atc_att s1) i"
  have T: "atc_map (s1\<lparr>atc_att := att2\<rparr>) (drop_bit (atc_bits (s1\<lparr>atc_att := att2\<rparr>)) a) = Some (att_state ?e, mach_base ?e)"
    using e(3) k1 k2 by simp
  have a2: "a < atc_phy_range (s1\<lparr>atc_att := att2\<rparr>)" using a k1(3) by simp
  note lat = latency_hit [OF k2(1) a2 T]
  have bits: "att_block_bits att2 = atc_bits s" "atc_bits s \<le> 30"
    using k1(5) k2(5) atc_geoD(1) [OF sys_inv_geo [OF s]] by simp_all
  obtain pf' s' where r: "atc_ReadLatency ms (rebase (atc_bits s) a (mach_base ?e)) (dram_state (att_state ?e)) None (pf_AddTableOp pf) (s1\<lparr>atc_att := att2\<rparr>) =
      Some (pf', s')" "keeps (s1\<lparr>atc_att := att2\<rparr>) s'" "\<not> ignore_latency pf'"
    using latency_ok(1) [OF k2(1) lat(1), of "pf_AddTableOp pf"] pf bits by auto
  have tr: "tr (atc_bits s) (atc_map s) a = rebase (atc_bits s) a (mach_base ?e)"
    using e(3) k1(2) by (simp add: tr_def)
  have dr: "(x = TEMP \<or> x = LOAN \<or> x = STAINED) = dram_state x" for x by (auto simp: dram_state_def)
  have At: "att_At i att1 = Some ?e" using e(1) by (simp add: s1_def)
  have AR: "att_AddBlockRead i att1 = Some att2" using u(1) by (simp add: s1_def)
  have TL: "att_Translate a (mach_base ?e) att2 = Some (rebase (atc_bits s) a (mach_base ?e))"
    using att_Translate_eq [of att2 "mach_base ?e" a] lat(2) bits by simp
  have "atc_LoadAddr ms a pf s = Some (tr (atc_bits s) (atc_map s) a, pf', s')"
    using l(1,2) At AR TL r(1) unfolding atc_LoadAddr_def tr att_ToTag_def
    by (simp add: Let_def dr s1_def)
  moreover have "keeps s s'" using keeps_trans [OF l(3) keeps_trans [OF u(2) r(2), unfolded s1_def]] by simp
  ultimately show ?thesis using r(3) by blast
next
  case None
  let ?t = "drop_bit (atc_bits s) a"
  have L: "att_Lookup ?t pf (atc_att s) = Some (- EINVAL, pf_AddTableOp pf, atc_att s)" by (rule map_Lookup_miss [OF None])
  have tr: "tr (atc_bits s) (atc_map s) a = a" using None by (simp add: tr_def)
  show ?thesis
  proof (cases "in_dram s ?t")
    case False
    obtain pf' s' where r: "atc_ReadLatency ms a False None (pf_AddTableOp (pf_AddTableOp pf)) s = Some (pf', s')" "keeps s s'" "\<not> ignore_latency pf'"
      using latency_ok(1) [OF s latency_home [OF s a], of "pf_AddTableOp (pf_AddTableOp pf)"] pf by auto
    have "atc_LoadAddr ms a pf s = Some (a, pf', s')"
      using L r(1) LookupPage_miss [OF s False] unfolding atc_LoadAddr_def att_ToTag_def by (simp add: Let_def)
    then show ?thesis using r tr by auto
  next
    case True
    obtain k e where P: "mc_LookupPage a (pf_AddTableOp pf) (atc_mc s) = (e, pf_AddTableOp (pf_AddTableOp pf))" "mc_find k (atc_mc s) = Some e"
        "k = page_of (mc_page_bits (atc_mc s)) a" "pt_mach_base e = k" "0 \<le> pt_index e" "latency_pre geo a True (Some e)"
      using LookupPage_hit [OF s a True] by metis
    obtain mc' where m: "mc_AddDRAMPageRead k (atc_mc s) = Some mc'" "keeps s (s\<lparr>atc_mc := mc'\<rparr>)"
        "mc_page_bits mc' = mc_page_bits (atc_mc s)"
      using AddDRAMPageRead_keeps [OF s P(2)] by blast
    note k1 = keepsD [OF m(2)]
    have TL: "mc_Translate a k mc' = Some a" using mc_Translate_page [OF k1(1), of a] P(3) m(3) by simp
    obtain pf' s' where r: "atc_ReadLatency ms a True (Some e) (pf_AddTableOp (pf_AddTableOp pf)) (s\<lparr>atc_mc := mc'\<rparr>) = Some (pf', s')"
        "keeps (s\<lparr>atc_mc := mc'\<rparr>) s'" "\<not> ignore_latency pf'"
      using latency_ok(1) [OF k1(1) P(6), of "pf_AddTableOp (pf_AddTableOp pf)"] pf by auto
    have "atc_LoadAddr ms a pf s = Some (a, pf', s')"
      using L P(1,4,5) m(1) TL r(1) unfolding atc_LoadAddr_def att_ToTag_def by (simp add: Let_def)
    then show ?thesis using r keeps_trans [OF m(2)] tr by auto
  qed
qed

section \<open>Moving blocks on the way to a store\<close>

definition moved :: "bool \<Rightarrow> Tag \<Rightarrow> 'm ATC \<Rightarrow> 'm ATC \<Rightarrow> bool" where
  "moved mv t s s' \<longleftrightarrow> sys_inv s' \<and> atc_phy_range s' = atc_phy_range s \<and> atc_ckpt s' = atc_ckpt s \<and>
     att_consts (atc_att s') = att_consts (atc_att s) \<and> in_dram s' = in_dram s \<and>
     (\<forall>a < atc_phy_range s. mv \<or> drop_bit (atc_bits s) a \<noteq> t \<longrightarrow> vw s' a = vw s a) \<and> (atc_stats s \<longrightarrow> atc_stats s')"

lemma keeps_moved: "keeps s s' \<Longrightarrow> moved mv t s s'"
  using keepsD(8) [of s s'] by (simp add: moved_def keeps_def)

lemma block_step_moved: "block_step mv t v s s' \<Longrightarrow> moved mv t s s'"
  using atc_frameD(8) [of s s'] by (simp add: moved_def block_step_def atc_frame_def fun_eq_iff)

lemma block_step_moved_other: "block_step True t' v s s' \<Longrightarrow> moved mv t s s'"
  using atc_frameD(8) [of s s'] by (simp add: moved_def block_step_def atc_frame_def fun_eq_iff)

lemma moved_trans: "moved mv t s s' \<Longrightarrow> moved mv t s' s'' \<Longrightarrow> moved mv t s s''"
  by (simp add: moved_def att_consts_def)

lemma movedD:
  assumes "moved mv t s s'"
  shows "sys_inv s'" "atc_phy_range s' = atc_phy_range s" "atc_ckpt s' = atc_ckpt s" "atc_bits s' = atc_bits s"
    "att_length (atc_att s') = att_length (atc_att s)" "in_dram s' = in_dram s" "atc_stats s \<Longrightarrow> atc_stats s'"
  using assms by (simp_all add: moved_def att_consts_def)

lemma FullBlock_att: "att_consts (atc_att s') = att_consts (atc_att s) \<Longrightarrow> atc_FullBlock a sz s' = atc_FullBlock a sz s"
  by (simp add: atc_FullBlock_def att_block_size_def att_consts_def)

lemma translate_ok:
  assumes s: "sys_inv s" and a: "a < atc_phy_range s" and T: "atc_map s (drop_bit (atc_bits s) a) = Some (st, m)"
  shows "att_Translate a m (atc_att s) = Some (tr (atc_bits s) (atc_map s) a)"
  using att_Translate_eq [OF atc_geoD(1) [OF sys_inv_geo [OF s]] latency_hit(2) [OF s a T], of a] T by (simp add: tr_def)

text \<open>The common end of a store to NVM: its latency and its count.\<close>

lemma store_finish:
  assumes s: "sys_inv s" and a: "a < atc_phy_range s" and h: "att_holds (atc_att s) i (drop_bit (atc_bits s) a)"
    and st: "att_active (ent (atc_att s) i)" "att_state (ent (atc_att s) i) \<noteq> LOAN"
    and d: "dram = dram_state (att_state (ent (atc_att s) i))" and pf: "\<not> ignore_latency pf"
  shows "\<exists>pf' s' att'. atc_WriteLatency ms (tr (atc_bits s) (atc_map s) a) dram None pf s = Some (pf', s') \<and>
    att_AddBlockWrite i (atc_att s') = Some att' \<and> keeps s (s'\<lparr>atc_att := att'\<rparr>) \<and> \<not> ignore_latency pf'"
proof -
  note e = entry_facts [OF s h]
  have "latency_pre geo (tr (atc_bits s) (atc_map s) a) dram None"
    using latency_hit(1) [OF s a e(3)] e(3) d by (simp add: tr_def)
  then obtain pf' s' where w: "atc_WriteLatency ms (tr (atc_bits s) (atc_map s) a) dram None pf s = Some (pf', s')"
      "keeps s s'" "\<not> ignore_latency pf'" "atc_att s' = atc_att s"
    using latency_ok(2) [OF s _ pf] by blast
  obtain att' where u: "att_AddBlockWrite i (atc_att s') = Some att'" "keeps s' (s'\<lparr>atc_att := att'\<rparr>)"
    using update_stats_ok [OF keepsD(1) [OF w(2)], of i "drop_bit (atc_bits s) a" "\<lambda>e. e\<lparr>epoch_writes := epoch_writes e + 1\<rparr>"]
      h st w(4) by (auto simp: att_AddBlockWrite_def)
  then show ?thesis using w keeps_trans [OF w(2) u(2)] by blast
qed

text \<open>A store that finds its NVM block in the table, in a running epoch.\<close>

lemma atc_stats_budget: "atc_stats s \<Longrightarrow> atc_budget s"
  by (simp add: atc_stats_def)

lemma nvm_hit_run_ok:
  assumes s: "sys_inv s" and bk: "atc_stats s" and run: "\<not> atc_ckpt s" and a: "a < atc_phy_range s"
    and h: "att_holds (atc_att s) i (drop_bit (atc_bits s) a)" and d: "\<not> in_dram s (drop_bit (atc_bits s) a)"
  shows "\<exists>pf' s'. atc_nvm_hit_run ms a sz i pf s = Some (tr (atc_bits s') (atc_map s') a, pf', s') \<and>
    ignore_latency pf' = ignore_latency pf \<and> moved (\<not> atc_FullBlock a sz s) (drop_bit (atc_bits s) a) s s' \<and>
    att_holds (atc_att s') i (drop_bit (atc_bits s') a) \<and>
    (att_state (ent (atc_att s') i) = DIRTY \<or> att_state (ent (atc_att s') i) = HIDDEN)"
proof -
  let ?t = "drop_bit (atc_bits s) a" and ?mv = "\<not> atc_FullBlock a sz s"
  let ?st = "att_state (ent (atc_att s) i)"
  note e = entry_facts [OF s h]
  obtain s1 where k: "atc_hook (OnATTWriteHit ms ?st) s = Some s1" "keeps s s1" "atc_att s1 = atc_att s"
    using hook_ok(1) [OF s] by blast
  note k1 = keepsD [OF k(2)]
  have h1: "att_holds (atc_att s1) i ?t" and run1: "\<not> atc_ckpt s1" and a1: "a < atc_phy_range s1"
    and fb: "atc_FullBlock a sz s1 = atc_FullBlock a sz s" and e1: "att_At i (atc_att s1) = Some (ent (atc_att s) i)"
    using h run a k(3) k1 e(1) by (simp_all add: atc_FullBlock_def)
  have nl: "?st \<noteq> LOAN" "?st \<noteq> FREE"
    using atc_blocksD(2) [OF atc_invD(8) [OF sys_inv_atc [OF s]] e(3)] d att_tbl_not_FREE [OF atc_invD(2) [OF sys_inv_atc [OF s]] e(3)]
    by auto
  have fin: ?thesis
    if r: "atc_nvm_hit_run ms a sz i pf s = Some (tr (atc_bits s') (atc_map s') a, pf', s')"
      "ignore_latency pf' = ignore_latency pf" "moved ?mv ?t s1 s'" "att_holds (atc_att s') i ?t"
      "att_state (ent (atc_att s') i) = DIRTY \<or> att_state (ent (atc_att s') i) = HIDDEN" for pf' s'
    using r moved_trans [OF keeps_moved [OF k(2)] r(3)] movedD(4) [OF r(3)] k1(5) by metis
  consider (temp) "?st = TEMP" | (wr) "?st = DIRTY \<or> ?st = HIDDEN" | (stained) "?st = STAINED" | (clean) "?st = CLEAN"
    using nl by (cases ?st) simp_all
  then show ?thesis
  proof cases
    case temp
    have t1: "att_state (ent (atc_att s1) i) = TEMP" using temp k(3) by simp
    obtain pf' s' where r: "atc_HideTemp ms i ?mv None pf s1 = Some (None, pf', s')" "ignore_latency pf' = ignore_latency pf"
        "block_step ?mv ?t (Some (HIDDEN, push_bit (atc_bits s1) ?t)) s1 s'" "att_holds (atc_att s') i ?t"
      using HideTemp_ok [OF k1(1) run1 h1 t1, of ?mv None pf] by (auto simp: push_ckpt_def)
    note mv = block_step_moved [OF r(3)]
    note m = movedD [OF mv] and e' = entry_facts [OF movedD(1) [OF mv] r(4)]
    have T: "atc_map s' ?t = Some (HIDDEN, push_bit (atc_bits s1) ?t)" using r(3) by (simp add: block_step_def)
    have "att_Translate a (mach_base (ent (atc_att s') i)) (atc_att s') = Some (tr (atc_bits s') (atc_map s') a)"
      using translate_ok [OF m(1), of a HIDDEN] T e'(3) m(2,4) a1 k1(5) by simp
    then have "atc_nvm_hit_run ms a sz i pf s = Some (tr (atc_bits s') (atc_map s') a, pf', s')"
      using e(1) k(1) temp r(1) e'(1) fb by (simp add: atc_nvm_hit_run_def Let_def)
    then show ?thesis using fin [OF _ r(2) mv r(4)] T e'(3) by simp
  next
    case wr
    have "att_Translate a (mach_base (ent (atc_att s) i)) (atc_att s1) = Some (tr (atc_bits s1) (atc_map s1) a)"
      using translate_ok [OF k1(1) a1, of ?st] e(3) k1(2,5) by simp
    then have "atc_nvm_hit_run ms a sz i pf s = Some (tr (atc_bits s1) (atc_map s1) a, pf, s1)"
      using e(1) k(1) wr by (auto simp: atc_nvm_hit_run_def Let_def)
    then show ?thesis using fin [OF _ _ keeps_moved [OF keeps_refl [OF k1(1)]] h1] wr k(3) by simp
  next
    case stained
    have t1: "att_state (ent (atc_att s1) i) = STAINED" using stained k(3) by simp
    obtain n pf' s' where r: "atc_DirtyStained ms i ?mv None pf s1 = Some (vb_addr (atc_nvm s1) n, None, pf', s')"
        "ignore_latency pf' = ignore_latency pf"
        "block_step ?mv ?t (Some (DIRTY, vb_addr (atc_nvm s1) n)) s1 s'" "att_holds (atc_att s') i ?t"
      using DirtyStained_ok [OF k1(1) run1 h1 t1, of ?mv None pf] by simp blast
    note mv = block_step_moved [OF r(3)]
    note m = movedD [OF mv] and e' = entry_facts [OF movedD(1) [OF mv] r(4)]
    have T: "atc_map s' ?t = Some (DIRTY, vb_addr (atc_nvm s1) n)" using r(3) by (simp add: block_step_def)
    have "att_Translate a (vb_addr (atc_nvm s1) n) (atc_att s') = Some (tr (atc_bits s') (atc_map s') a)"
      using translate_ok [OF m(1), of a DIRTY] T m(2,4) a1 k1(5) by simp
    then have "atc_nvm_hit_run ms a sz i pf s = Some (tr (atc_bits s') (atc_map s') a, pf', s')"
      using e(1) k(1) stained r(1) fb by (simp add: atc_nvm_hit_run_def Let_def)
    then show ?thesis using fin [OF _ r(2) mv r(4)] T e'(3) by simp
  next
    case clean
    have t1: "att_state (ent (atc_att s1) i) = CLEAN" using clean k(3) by simp
    obtain pf' s' where r: "atc_HideClean ms i ?mv pf s1 = Some (pf', s')" "ignore_latency pf' = ignore_latency pf"
        "block_step ?mv ?t (Some (HIDDEN, push_bit (atc_bits s1) ?t)) s1 s'" "att_holds (atc_att s') i ?t"
      using HideClean_ok [OF k1(1) atc_stats_budget [OF k1(9) [OF bk]] run1 h1 t1, of ?mv pf] by auto
    note mv = block_step_moved [OF r(3)]
    note m = movedD [OF mv] and e' = entry_facts [OF movedD(1) [OF mv] r(4)]
    have T: "atc_map s' ?t = Some (HIDDEN, push_bit (atc_bits s1) ?t)" using r(3) by (simp add: block_step_def)
    have "tr (atc_bits s') (atc_map s') a = a" using T m(4) k1(5) by (simp add: tr_def)
    then have "atc_nvm_hit_run ms a sz i pf s = Some (tr (atc_bits s') (atc_map s') a, pf', s')"
      using e(1) k(1) clean r(1) fb by (simp add: atc_nvm_hit_run_def Let_def)
    then show ?thesis using fin [OF _ r(2) mv r(4)] T e'(3) by simp
  qed
qed

text \<open>The same during checkpointing.\<close>

lemma nvm_hit_ckpt_ok:
  assumes s: "sys_inv s" and ck: "atc_ckpt s" and a: "a < atc_phy_range s"
    and h: "att_holds (atc_att s) i (drop_bit (atc_bits s) a)" and d: "\<not> in_dram s (drop_bit (atc_bits s) a)"
  shows "\<exists>pf' s'. atc_nvm_hit_ckpt ms a sz i pf s = Some (tr (atc_bits s') (atc_map s') a, pf', s') \<and>
    ignore_latency pf' = ignore_latency pf \<and> moved (\<not> atc_FullBlock a sz s) (drop_bit (atc_bits s) a) s s' \<and>
    att_holds (atc_att s') i (drop_bit (atc_bits s') a) \<and>
    (att_state (ent (atc_att s') i) = TEMP \<or> att_state (ent (atc_att s') i) = STAINED)"
proof -
  let ?t = "drop_bit (atc_bits s) a" and ?mv = "\<not> atc_FullBlock a sz s"
  let ?st = "att_state (ent (atc_att s) i)"
  note e = entry_facts [OF s h]
  obtain s1 where k: "atc_hook (OnATTWriteHit ms ?st) s = Some s1" "keeps s s1" "atc_att s1 = atc_att s"
    using hook_ok(1) [OF s] by blast
  note k1 = keepsD [OF k(2)]
  have h1: "att_holds (atc_att s1) i ?t" and ck1: "atc_ckpt s1" and a1: "a < atc_phy_range s1"
    and fb: "atc_FullBlock a sz s1 = atc_FullBlock a sz s"
    using h ck a k(3) k1 by (simp_all add: atc_FullBlock_def)
  note blk = atc_blocksD [OF atc_invD(8) [OF sys_inv_atc [OF s]] e(3)]
  have nl: "?st \<noteq> LOAN" "?st \<noteq> FREE" "?st \<noteq> DIRTY" "?st \<noteq> HIDDEN"
    using blk(2) blk(4) [OF ck] d att_tbl_not_FREE [OF atc_invD(2) [OF sys_inv_atc [OF s]] e(3)] by auto
  have fin: ?thesis
    if r: "atc_nvm_hit_ckpt ms a sz i pf s = Some (tr (atc_bits s') (atc_map s') a, pf', s')"
      "ignore_latency pf' = ignore_latency pf" "moved ?mv ?t s1 s'" "att_holds (atc_att s') i ?t"
      "att_state (ent (atc_att s') i) = TEMP \<or> att_state (ent (atc_att s') i) = STAINED" for pf' s'
    using r moved_trans [OF keeps_moved [OF k(2)] r(3)] movedD(4) [OF r(3)] k1(5) by metis
  consider (wr) "?st = TEMP \<or> ?st = STAINED" | (clean) "?st = CLEAN"
    using nl by (cases ?st) simp_all
  then show ?thesis
  proof cases
    case wr
    have "att_Translate a (mach_base (ent (atc_att s) i)) (atc_att s1) = Some (tr (atc_bits s1) (atc_map s1) a)"
      using translate_ok [OF k1(1) a1, of ?st] e(3) k1(2,5) by simp
    then have "atc_nvm_hit_ckpt ms a sz i pf s = Some (tr (atc_bits s1) (atc_map s1) a, pf, s1)"
      using e(1) k(1) wr by (auto simp: atc_nvm_hit_ckpt_def)
    then show ?thesis using fin [OF _ _ keeps_moved [OF keeps_refl [OF k1(1)]] h1] wr k(3) by simp
  next
    case clean
    have t1: "att_state (ent (atc_att s1) i) = CLEAN" using clean k(3) by simp
    obtain n pf' s' where r: "atc_ResetClean ms i ?mv pf s1 = Some (vb_addr (atc_dram s1) n, pf', s')"
        "ignore_latency pf' = ignore_latency pf"
        "block_step ?mv ?t (Some (TEMP, vb_addr (atc_dram s1) n)) s1 s'" "att_holds (atc_att s') i ?t"
      using ResetClean_ok [OF k1(1) ck1 h1 t1, of ?mv pf] by blast
    note mv = block_step_moved [OF r(3)]
    note m = movedD [OF mv] and e' = entry_facts [OF movedD(1) [OF mv] r(4)]
    have T: "atc_map s' ?t = Some (TEMP, vb_addr (atc_dram s1) n)" using r(3) by (simp add: block_step_def)
    have "att_Translate a (vb_addr (atc_dram s1) n) (atc_att s') = Some (tr (atc_bits s') (atc_map s') a)"
      using translate_ok [OF m(1), of a TEMP] T m(2,4) a1 k1(5) by simp
    then have "atc_nvm_hit_ckpt ms a sz i pf s = Some (tr (atc_bits s') (atc_map s') a, pf', s')"
      using e(1) k(1) clean r(1) fb by (simp add: atc_nvm_hit_ckpt_def)
    then show ?thesis using fin [OF _ r(2) mv r(4)] T e'(3) by simp
  qed
qed

section \<open>Making room\<close>

text \<open>What an eviction leaves behind: a free entry, and no block that was not in the table before.\<close>

definition made_room :: "Tag \<Rightarrow> 'm ATC \<Rightarrow> 'm ATC \<Rightarrow> bool" where
  "made_room t s s' \<longleftrightarrow> moved True t s s' \<and> int (card (dom (atc_map s'))) < att_length (atc_att s') \<and>
     (\<forall>t'. atc_map s t' = None \<longrightarrow> atc_map s' t' = None)"

lemma made_room_evict:
  assumes s: "sys_inv s" and h: "att_holds (atc_att s) i t'" and st: "block_step True t' None s s'"
  shows "made_room t s s'"
proof -
  note mv = block_step_moved_other [OF st, of True t]
  have T: "atc_map s' = (atc_map s)(t' := None)" using st by (simp add: block_step_def)
  note ok = atc_invD(2) [OF sys_inv_atc [OF s]]
  have "t' \<in> dom (atc_map s)" using entry_facts(3) [OF s h] by auto
  then have "card (dom (atc_map s')) < card (dom (atc_map s))"
    unfolding T dom_fun_upd using map_finite [OF ok] card_Diff1_less [of "dom (atc_map s)" t'] by simp
  then show ?thesis
    using mv map_card [OF ok] movedD(5) [OF mv] T by (auto simp: made_room_def)
qed

lemma made_room_keeps: "made_room t s s' \<Longrightarrow> keeps s' s'' \<Longrightarrow> made_room t s s''"
  using keepsD [of s' s''] moved_trans [OF _ keeps_moved] by (auto simp: made_room_def)

lemma made_room_here: "sys_inv s \<Longrightarrow> int (card (dom (atc_map s))) < att_length (atc_att s) \<Longrightarrow> made_room t s s"
  using keeps_moved [OF keeps_refl] by (simp add: made_room_def)

lemma evict_clean:
  assumes s: "sys_inv s" and bk: "atc_stats s" and c: "tags (\<lambda>x. x = CLEAN) (atc_map s) \<noteq> {}"
  shows "\<exists>i pf' s'. att_GetFront CLEAN (atc_att s) = Some i \<and> atc_FreeClean ms i pf s = Some (pf', s') \<and>
    ignore_latency pf' = ignore_latency pf \<and> made_room t s s'"
proof -
  obtain i t' where i: "att_GetFront CLEAN (atc_att s) = Some i" "att_holds (atc_att s) i t'" "att_state (ent (atc_att s) i) = CLEAN"
    using map_GetFront [OF atc_invD(2) [OF sys_inv_atc [OF s]] _ c] by blast
  then show ?thesis using FreeClean_ok [OF s atc_stats_budget [OF bk] i(2,3), of pf] made_room_evict [OF s i(2)] by blast
qed

lemma evict_loan:
  assumes s: "sys_inv s" and run: "\<not> atc_ckpt s" and c: "tags (\<lambda>x. x = LOAN) (atc_map s) \<noteq> {}"
  shows "\<exists>i pf' s'. att_GetFront LOAN (atc_att s) = Some i \<and> atc_FreeLoan ms i True None pf s = Some (None, pf', s') \<and>
    ignore_latency pf' = ignore_latency pf \<and> made_room t s s'"
proof -
  obtain i t' where i: "att_GetFront LOAN (atc_att s) = Some i" "att_holds (atc_att s) i t'" "att_state (ent (atc_att s) i) = LOAN"
    using map_GetFront [OF atc_invD(2) [OF sys_inv_atc [OF s]] _ c] by blast
  obtain pf' s' where r: "atc_FreeLoan ms i True None pf s = Some (None, pf', s')" "ignore_latency pf' = ignore_latency pf"
      "block_step True t' None s s'"
    using FreeLoan_ok [OF s run i(2,3), of True None pf] by (auto simp: push_ckpt_def)
  then show ?thesis using i(1) made_room_evict [OF s i(2) r(3)] by blast
qed

lemma free_entry_ckpt_ok:
  assumes s: "sys_inv s" and bk: "atc_stats s"
    and room: "int (card (dom (atc_map s))) < att_length (atc_att s) \<or> tags (\<lambda>x. x = CLEAN) (atc_map s) \<noteq> {}"
  shows "\<exists>pf' s'. atc_free_entry_ckpt ms st pf s = Some (pf', s') \<and> ignore_latency pf' = ignore_latency pf \<and> made_room t s s'"
proof -
  note ok = atc_invD(2) [OF sys_inv_atc [OF s]]
  show ?thesis
  proof (cases "int (card (dom (atc_map s))) = att_length (atc_att s)")
    case True
    then have c: "tags (\<lambda>x. x = CLEAN) (atc_map s) \<noteq> {}" using room by simp
    obtain i pf' s1 where r: "att_GetFront CLEAN (atc_att s) = Some i" "atc_FreeClean ms i pf s = Some (pf', s1)"
        "ignore_latency pf' = ignore_latency pf" "made_room t s s1"
      using evict_clean [OF s bk c] by blast
    have s1: "sys_inv s1" using r(4) movedD(1) by (auto simp: made_room_def)
    obtain s2 where k: "atc_hook (OnATTWriteMiss ms st) s1 = Some s2" "keeps s1 s2" using hook_ok(2) [OF s1] by blast
    show ?thesis
      using r k made_room_keeps [OF r(4) k(2)] True c map_IsEmpty_FREE [OF ok] map_IsEmpty [OF ok, of CLEAN]
      by (simp add: atc_free_entry_ckpt_def)
  next
    case False
    then have lt: "int (card (dom (atc_map s))) < att_length (atc_att s)" using map_card [OF ok] by simp
    obtain s2 where k: "atc_hook (OnATTWriteHit ms st) s = Some s2" "keeps s s2" using hook_ok(1) [OF s] by blast
    show ?thesis
      using k made_room_keeps [OF made_room_here [OF s lt] k(2)] False map_IsEmpty_FREE [OF ok]
      by (simp add: atc_free_entry_ckpt_def)
  qed
qed

lemma free_entry_run_ok:
  assumes s: "sys_inv s" and bk: "atc_stats s" and run: "\<not> atc_ckpt s"
    and room: "int (card (dom (atc_map s))) < att_length (atc_att s) \<or> tags (\<lambda>x. x = LOAN) (atc_map s) \<noteq> {} \<or>
      tags (\<lambda>x. x = CLEAN) (atc_map s) \<noteq> {}"
  shows "\<exists>pf' s'. atc_free_entry_run ms pf s = Some (pf', s') \<and> ignore_latency pf' = ignore_latency pf \<and> made_room t s s'"
proof -
  note ok = atc_invD(2) [OF sys_inv_atc [OF s]]
  note emp = map_IsEmpty_FREE [OF ok] map_IsEmpty [OF ok, of CLEAN] map_IsEmpty [OF ok, of LOAN]
  have miss: ?thesis
    if full: "int (card (dom (atc_map s))) = att_length (atc_att s)"
      and r: "(do { no_loan \<leftarrow> att_IsEmpty LOAN (atc_att s);
         if \<not> no_loan then do { li \<leftarrow> att_GetFront LOAN (atc_att s); (bl, pf, s) \<leftarrow> atc_FreeLoan ms li True None pf s; Some (pf, s) }
         else do { no_clean \<leftarrow> att_IsEmpty CLEAN (atc_att s); cassert (\<not> no_clean); ci \<leftarrow> att_GetFront CLEAN (atc_att s);
                   atc_FreeClean ms ci pf s } }) = Some (pf', s1)"
      "ignore_latency pf' = ignore_latency pf" "made_room t s s1" for pf' s1
  proof -
    have s1: "sys_inv s1" using r(3) movedD(1) by (auto simp: made_room_def)
    obtain s2 where k: "atc_hook (OnATTWriteMiss ms DIRTY) s1 = Some s2" "keeps s1 s2" using hook_ok(2) [OF s1] by blast
    have "atc_free_entry_run ms pf s = Some (pf', s2)"
      using r(1) k(1) full emp by (auto simp: atc_free_entry_run_def split: Option.bind_splits if_splits prod.splits)
    then show ?thesis using r(2) made_room_keeps [OF r(3) k(2)] by blast
  qed
  consider (free) "int (card (dom (atc_map s))) \<noteq> att_length (atc_att s)"
    | (loan) "int (card (dom (atc_map s))) = att_length (atc_att s)" "tags (\<lambda>x. x = LOAN) (atc_map s) \<noteq> {}"
    | (clean) "int (card (dom (atc_map s))) = att_length (atc_att s)" "tags (\<lambda>x. x = LOAN) (atc_map s) = {}"
        "tags (\<lambda>x. x = CLEAN) (atc_map s) \<noteq> {}"
    using room by auto
  then show ?thesis
  proof cases
    case free
    then have lt: "int (card (dom (atc_map s))) < att_length (atc_att s)" using map_card [OF ok] by simp
    obtain s2 where k: "atc_hook (OnATTWriteHit ms DIRTY) s = Some s2" "keeps s s2" using hook_ok(1) [OF s] by blast
    show ?thesis
      using k made_room_keeps [OF made_room_here [OF s lt] k(2)] free emp by (simp add: atc_free_entry_run_def)
  next
    case loan
    then show ?thesis using evict_loan [OF s run loan(2), of pf t] miss [OF loan(1)] emp by auto
  next
    case clean
    then show ?thesis using evict_clean [OF s bk clean(3), of pf t] miss [OF clean(1)] emp by auto
  qed
qed

section \<open>Stores to NVM pages\<close>

text \<open>Setting up a new entry once there is room, in a running epoch and during checkpointing.\<close>

lemma new_entry_run:
  assumes s: "sys_inv s" and run: "\<not> atc_ckpt s" and a: "a < atc_phy_range s"
    and x: "atc_map s (drop_bit (atc_bits s) a) = None" "int (card (dom (atc_map s))) < att_length (atc_att s)"
      "\<not> in_dram s (drop_bit (atc_bits s) a)"
  shows "\<exists>b p N i pf' s'. vb_SlotAlloc pf (atc_nvm s) = Some (b, p, N) \<and>
    atc_Setup ms a b DIRTY mv pf (s\<lparr>atc_nvm := N\<rparr>) = Some (i, pf', s') \<and>
    att_Translate a b (atc_att s') = Some (tr (atc_bits s') (atc_map s') a) \<and> ignore_latency pf' = ignore_latency pf \<and>
    moved mv (drop_bit (atc_bits s) a) s s' \<and> att_holds (atc_att s') i (drop_bit (atc_bits s') a) \<and>
    att_state (ent (atc_att s') i) = DIRTY"
proof -
  let ?t = "drop_bit (atc_bits s) a"
  have "store_miss a ?t s" using a x valid_tag_drop [OF a] by (simp add: store_miss_def att_ToTag_def)
  then obtain k i pf' s' where r: "vb_SlotAlloc pf (atc_nvm s) = Some (vb_addr (atc_nvm s) k, pf_AddBufferOp pf, vb_move k VB_FREE IN_USE (atc_nvm s))"
      "atc_Setup ms a (vb_addr (atc_nvm s) k) DIRTY mv pf (s\<lparr>atc_nvm := vb_move k VB_FREE IN_USE (atc_nvm s)\<rparr>) = Some (i, pf', s')"
      "ignore_latency pf' = ignore_latency pf" "block_step mv ?t (Some (DIRTY, vb_addr (atc_nvm s) k)) s s'" "att_holds (atc_att s') i ?t"
    using SetupDirty_ok [OF s run _ x(3), of a mv pf] by blast
  note mv = block_step_moved [OF r(4)]
  note m = movedD [OF mv] and e = entry_facts [OF movedD(1) [OF mv] r(5)]
  have T: "atc_map s' ?t = Some (DIRTY, vb_addr (atc_nvm s) k)" using r(4) by (simp add: block_step_def)
  have "att_Translate a (vb_addr (atc_nvm s) k) (atc_att s') = Some (tr (atc_bits s') (atc_map s') a)"
    using translate_ok [OF m(1), of a DIRTY] T m(2,4) a by simp
  moreover have "att_state (ent (atc_att s') i) = DIRTY" using T e(3) by simp
  ultimately show ?thesis using r mv m(4) by (simp add: exI)
qed

lemma new_entry_dram:
  assumes s: "sys_inv s" and a: "a < atc_phy_range s"
    and x: "atc_map s (drop_bit (atc_bits s) a) = None" "int (card (dom (atc_map s))) < att_length (atc_att s)"
    and st: "st = (if in_dram s (drop_bit (atc_bits s) a) then LOAN else STAINED)"
  shows "\<exists>b p D i pf' s'. vb_SlotAlloc pf (atc_dram s) = Some (b, p, D) \<and>
    atc_Setup ms a b st mv pf (s\<lparr>atc_dram := D\<rparr>) = Some (i, pf', s') \<and>
    att_Translate a b (atc_att s') = Some (tr (atc_bits s') (atc_map s') a) \<and> ignore_latency pf' = ignore_latency pf \<and>
    moved mv (drop_bit (atc_bits s) a) s s' \<and> att_holds (atc_att s') i (drop_bit (atc_bits s') a) \<and>
    att_state (ent (atc_att s') i) = st"
proof -
  let ?t = "drop_bit (atc_bits s) a"
  have "store_miss a ?t s" using a x valid_tag_drop [OF a] by (simp add: store_miss_def att_ToTag_def)
  then obtain k i pf' s' where r: "vb_SlotAlloc pf (atc_dram s) = Some (vb_addr (atc_dram s) k, pf_AddBufferOp pf, vb_move k VB_FREE IN_USE (atc_dram s))"
      "atc_Setup ms a (vb_addr (atc_dram s) k) st mv pf (s\<lparr>atc_dram := vb_move k VB_FREE IN_USE (atc_dram s)\<rparr>) = Some (i, pf', s')"
      "ignore_latency pf' = ignore_latency pf" "block_step mv ?t (Some (st, vb_addr (atc_dram s) k)) s s'" "att_holds (atc_att s') i ?t"
    using SetupDram_ok [OF s _ st, of a mv pf] by blast
  note mv = block_step_moved [OF r(4)]
  note m = movedD [OF mv] and e = entry_facts [OF movedD(1) [OF mv] r(5)]
  have T: "atc_map s' ?t = Some (st, vb_addr (atc_dram s) k)" using r(4) by (simp add: block_step_def)
  have "att_Translate a (vb_addr (atc_dram s) k) (atc_att s') = Some (tr (atc_bits s') (atc_map s') a)"
    using translate_ok [OF m(1), of a st] T m(2,4) a by simp
  moreover have "att_state (ent (atc_att s') i) = st" using T e(3) by simp
  ultimately show ?thesis using r mv m(4) by (simp add: exI)
qed

lemma FullBlock_upd [simp]:
  "atc_FullBlock a sz (s\<lparr>atc_nvm := N\<rparr>) = atc_FullBlock a sz s" "atc_FullBlock a sz (s\<lparr>atc_dram := N\<rparr>) = atc_FullBlock a sz s"
  by (simp_all add: atc_FullBlock_def)

lemma FullBlock_moved: "moved mv t s s' \<Longrightarrow> atc_FullBlock a sz s' = atc_FullBlock a sz s"
  by (rule FullBlock_att) (simp add: moved_def)

lemma FullBlock_keeps: "keeps s s' \<Longrightarrow> atc_FullBlock a sz s' = atc_FullBlock a sz s"
  by (rule FullBlock_att) (simp add: keeps_def)

text \<open>The two halves of \<open>NVMStore\<close> up to its latency.\<close>

lemma nvm_place_run:
  assumes s: "sys_inv s" and bk: "atc_stats s" and run: "\<not> atc_ckpt s" and a: "a < atc_phy_range s"
    and d: "\<not> in_dram s (drop_bit (atc_bits s) a)" and room: "store_room (drop_bit (atc_bits s) a) s"
    and ix: "index = - EINVAL \<and> atc_map s (drop_bit (atc_bits s) a) = None \<or>
      index \<noteq> - EINVAL \<and> att_holds (atc_att s) index (drop_bit (atc_bits s) a)"
  shows "\<exists>i pf' s'. (if index \<noteq> - EINVAL then do {
           (mach_addr, pf, s) \<leftarrow> atc_nvm_hit_run ms a sz index pf s;
           Some (index, mach_addr, pf, s) }
         else do {
           (pf, s) \<leftarrow> atc_free_entry_run ms pf s;
           (base, overlap, nvm) \<leftarrow> vb_SlotAlloc pf (atc_nvm s);
           let s = s\<lparr>atc_nvm := nvm\<rparr>;
           (index, pf, s) \<leftarrow> atc_Setup ms a base DIRTY (\<not> atc_FullBlock a sz s) pf s;
           mach_addr \<leftarrow> att_Translate a base (atc_att s);
           Some (index, mach_addr, pf, s) }) = Some (i, tr (atc_bits s') (atc_map s') a, pf', s') \<and>
    ignore_latency pf' = ignore_latency pf \<and> moved (\<not> atc_FullBlock a sz s) (drop_bit (atc_bits s) a) s s' \<and>
    att_holds (atc_att s') i (drop_bit (atc_bits s') a) \<and>
    (att_state (ent (atc_att s') i) = DIRTY \<or> att_state (ent (atc_att s') i) = HIDDEN)"
proof (cases "index = - EINVAL")
  case False
  then show ?thesis using nvm_hit_run_ok [OF s bk run a _ d, of index sz pf] ix by auto
next
  case True
  let ?t = "drop_bit (atc_bits s) a" and ?mv = "\<not> atc_FullBlock a sz s"
  have T: "atc_map s ?t = None" using ix True by simp
  then have rm: "int (card (dom (atc_map s))) < att_length (atc_att s) \<or> tags (\<lambda>x. x = LOAN) (atc_map s) \<noteq> {} \<or>
      tags (\<lambda>x. x = CLEAN) (atc_map s) \<noteq> {}" using room d by (auto simp: store_room_def)
  obtain pf1 s1 where f: "atc_free_entry_run ms pf s = Some (pf1, s1)" "ignore_latency pf1 = ignore_latency pf" "made_room ?t s s1"
    using free_entry_run_ok [OF s bk run rm] by blast
  have mv1: "moved True ?t s s1" "moved ?mv ?t s s1" using f(3) by (auto simp: made_room_def moved_def)
  note m1 = movedD [OF mv1(1)]
  have x: "atc_map s1 (drop_bit (atc_bits s1) a) = None" "int (card (dom (atc_map s1))) < att_length (atc_att s1)"
      "\<not> in_dram s1 (drop_bit (atc_bits s1) a)" "\<not> atc_ckpt s1" "a < atc_phy_range s1"
    using f(3) T m1 d run a by (auto simp: made_room_def)
  obtain b p N i pf' s' where r: "vb_SlotAlloc pf1 (atc_nvm s1) = Some (b, p, N)"
      "atc_Setup ms a b DIRTY ?mv pf1 (s1\<lparr>atc_nvm := N\<rparr>) = Some (i, pf', s')"
      "att_Translate a b (atc_att s') = Some (tr (atc_bits s') (atc_map s') a)" "ignore_latency pf' = ignore_latency pf1"
      "moved ?mv (drop_bit (atc_bits s1) a) s1 s'" "att_holds (atc_att s') i (drop_bit (atc_bits s') a)"
      "att_state (ent (atc_att s') i) = DIRTY"
    using new_entry_run [OF m1(1) x(4,5,1-3), of pf1 ?mv] by blast
  have "moved ?mv ?t s s'" using moved_trans [OF mv1(2)] r(5) m1(4) by simp
  then show ?thesis using True f(1,2) r FullBlock_moved [OF mv1(1)] by (simp add: Let_def)
qed

lemma nvm_place_ckpt:
  assumes s: "sys_inv s" and bk: "atc_stats s" and ck: "atc_ckpt s" and a: "a < atc_phy_range s"
    and d: "\<not> in_dram s (drop_bit (atc_bits s) a)" and room: "store_room (drop_bit (atc_bits s) a) s"
    and ix: "index = - EINVAL \<and> atc_map s (drop_bit (atc_bits s) a) = None \<or>
      index \<noteq> - EINVAL \<and> att_holds (atc_att s) index (drop_bit (atc_bits s) a)"
  shows "\<exists>i pf' s'. (if index \<noteq> - EINVAL then do {
           (mach_addr, pf, s) \<leftarrow> atc_nvm_hit_ckpt ms a sz index pf s;
           Some (index, mach_addr, pf, s) }
         else do {
           (pf, s) \<leftarrow> atc_free_entry_ckpt ms STAINED pf s;
           (base, overlap, dram) \<leftarrow> vb_SlotAlloc pf (atc_dram s);
           let s = s\<lparr>atc_dram := dram\<rparr>;
           (index, pf, s) \<leftarrow> atc_Setup ms a base STAINED (\<not> atc_FullBlock a sz s) pf s;
           mach_addr \<leftarrow> att_Translate a base (atc_att s);
           Some (index, mach_addr, pf, s) }) = Some (i, tr (atc_bits s') (atc_map s') a, pf', s') \<and>
    ignore_latency pf' = ignore_latency pf \<and> moved (\<not> atc_FullBlock a sz s) (drop_bit (atc_bits s) a) s s' \<and>
    att_holds (atc_att s') i (drop_bit (atc_bits s') a) \<and>
    (att_state (ent (atc_att s') i) = TEMP \<or> att_state (ent (atc_att s') i) = STAINED)"
proof (cases "index = - EINVAL")
  case False
  then show ?thesis using nvm_hit_ckpt_ok [OF s ck a _ d, of index sz pf] ix by auto
next
  case True
  let ?t = "drop_bit (atc_bits s) a" and ?mv = "\<not> atc_FullBlock a sz s"
  have T: "atc_map s ?t = None" using ix True by simp
  then have rm: "int (card (dom (atc_map s))) < att_length (atc_att s) \<or> tags (\<lambda>x. x = CLEAN) (atc_map s) \<noteq> {}"
    using room ck by (auto simp: store_room_def)
  obtain pf1 s1 where f: "atc_free_entry_ckpt ms STAINED pf s = Some (pf1, s1)" "ignore_latency pf1 = ignore_latency pf" "made_room ?t s s1"
    using free_entry_ckpt_ok [OF s bk rm] by blast
  have mv1: "moved True ?t s s1" "moved ?mv ?t s s1" using f(3) by (auto simp: made_room_def moved_def)
  note m1 = movedD [OF mv1(1)]
  have x: "atc_map s1 (drop_bit (atc_bits s1) a) = None" "int (card (dom (atc_map s1))) < att_length (atc_att s1)"
      "STAINED = (if in_dram s1 (drop_bit (atc_bits s1) a) then LOAN else STAINED)" "a < atc_phy_range s1"
    using f(3) T m1 d a by (auto simp: made_room_def)
  obtain b p D i pf' s' where r: "vb_SlotAlloc pf1 (atc_dram s1) = Some (b, p, D)"
      "atc_Setup ms a b STAINED ?mv pf1 (s1\<lparr>atc_dram := D\<rparr>) = Some (i, pf', s')"
      "att_Translate a b (atc_att s') = Some (tr (atc_bits s') (atc_map s') a)" "ignore_latency pf' = ignore_latency pf1"
      "moved ?mv (drop_bit (atc_bits s1) a) s1 s'" "att_holds (atc_att s') i (drop_bit (atc_bits s') a)"
      "att_state (ent (atc_att s') i) = STAINED"
    using new_entry_dram [OF m1(1) x(4,1,2,3), of pf1 ?mv] by blast
  have "moved ?mv ?t s s'" using moved_trans [OF mv1(2)] r(5) m1(4) by simp
  then show ?thesis using True f(1,2) r FullBlock_moved [OF mv1(1)] by (simp add: Let_def)
qed

lemma Lookup_any:
  assumes s: "sys_inv s"
  shows "\<exists>i att'. att_Lookup t pf (atc_att s) = Some (i, pf_AddTableOp pf, att') \<and> keeps s (s\<lparr>atc_att := att'\<rparr>) \<and>
    (i = - EINVAL \<and> tbl att' t = None \<or> i \<noteq> - EINVAL \<and> att_holds att' i t)"
proof (cases "atc_map s t")
  case None
  then show ?thesis using map_Lookup_miss [OF None] keeps_refl [OF s] by simp
next
  case (Some v)
  then show ?thesis using Lookup_ok [OF s Some, of pf] by blast
qed

lemma store_room_keeps: "keeps s s' \<Longrightarrow> store_room t s' = store_room t s"
  using keepsD [of s s'] by (simp add: store_room_def)

lemma NVMStore_ok:
  assumes s: "sys_inv s" and bk: "atc_stats s" and a: "a < atc_phy_range s" and pf: "\<not> ignore_latency pf"
    and d: "\<not> in_dram s (drop_bit (atc_bits s) a)" and room: "store_room (drop_bit (atc_bits s) a) s"
  shows "\<exists>pf' s'. atc_NVMStore ms a sz pf s = Some (tr (atc_bits s') (atc_map s') a, pf', s') \<and>
    moved (\<not> atc_FullBlock a sz s) (drop_bit (atc_bits s) a) s s' \<and> \<not> ignore_latency pf'"
proof -
  let ?t = "drop_bit (atc_bits s) a" and ?mv = "\<not> atc_FullBlock a sz s" and ?pf = "pf_AddTableOp pf"
  obtain i att1 where l: "att_Lookup ?t pf (atc_att s) = Some (i, ?pf, att1)" "keeps s (s\<lparr>atc_att := att1\<rparr>)"
      "i = - EINVAL \<and> tbl att1 ?t = None \<or> i \<noteq> - EINVAL \<and> att_holds att1 i ?t"
    using Lookup_any [OF s, of ?t pf] by blast
  define s1 where "s1 = s\<lparr>atc_att := att1\<rparr>"
  note l2 = l(2) [folded s1_def]
  note k1 = keepsD [OF l2]
  have x: "a < atc_phy_range s1" "\<not> in_dram s1 (drop_bit (atc_bits s1) a)" "store_room (drop_bit (atc_bits s1) a) s1"
      "i = - EINVAL \<and> atc_map s1 (drop_bit (atc_bits s1) a) = None \<or> i \<noteq> - EINVAL \<and> att_holds (atc_att s1) i (drop_bit (atc_bits s1) a)"
      "atc_FullBlock a sz s1 = atc_FullBlock a sz s"
    using a d room l(3) k1 store_room_keeps [OF l2] FullBlock_keeps [OF l2] by (simp_all add: s1_def)
  have tg: "drop_bit (atc_bits s1) a = ?t" "att_ToTag a (atc_att s) = ?t" using k1(5) by (simp_all add: att_ToTag_def)
  show ?thesis
  proof (cases "atc_ckpt s")
    case False
    then have run: "\<not> atc_ckpt s1" using k1(4) by simp
    obtain j pf2 s2 where p: "(if i \<noteq> - EINVAL then do { (mach_addr, pf, s) \<leftarrow> atc_nvm_hit_run ms a sz i ?pf s1; Some (i, mach_addr, pf, s) }
         else do { (pf, s) \<leftarrow> atc_free_entry_run ms ?pf s1; (base, overlap, nvm) \<leftarrow> vb_SlotAlloc pf (atc_nvm s); let s = s\<lparr>atc_nvm := nvm\<rparr>;
           (index, pf, s) \<leftarrow> atc_Setup ms a base DIRTY (\<not> atc_FullBlock a sz s) pf s;
           mach_addr \<leftarrow> att_Translate a base (atc_att s); Some (index, mach_addr, pf, s) }) = Some (j, tr (atc_bits s2) (atc_map s2) a, pf2, s2)"
        "ignore_latency pf2 = ignore_latency ?pf" "moved ?mv ?t s1 s2" "att_holds (atc_att s2) j (drop_bit (atc_bits s2) a)"
        "att_state (ent (atc_att s2) j) = DIRTY \<or> att_state (ent (atc_att s2) j) = HIDDEN"
      using nvm_place_run [OF k1(1) k1(9) [OF bk] run x(1-4), of sz ?pf] unfolding x(5) tg by blast
    note m2 = movedD [OF p(3)]
    have st: "att_active (ent (atc_att s2) j)" "att_state (ent (atc_att s2) j) \<noteq> LOAN" "False = dram_state (att_state (ent (atc_att s2) j))"
      using p(5) by (auto simp: att_active_def)
    obtain pf3 s3 att3 where f: "atc_WriteLatency ms (tr (atc_bits s2) (atc_map s2) a) False None pf2 s2 = Some (pf3, s3)"
        "att_AddBlockWrite j (atc_att s3) = Some att3" "keeps s2 (s3\<lparr>atc_att := att3\<rparr>)" "\<not> ignore_latency pf3"
      using store_finish [OF m2(1) _ p(4) st, of pf2] m2(2) x(1) p(2) pf by auto
    have "atc_NVMStore ms a sz pf s = Some (tr (atc_bits s2) (atc_map s2) a, pf3, s3\<lparr>atc_att := att3\<rparr>)"
      unfolding atc_NVMStore_def tg using False l(1) run p(1) f(1,2) by (simp add: s1_def [symmetric] cong: if_cong split del: if_split)
    moreover have "moved ?mv ?t s (s3\<lparr>atc_att := att3\<rparr>)"
      using moved_trans [OF moved_trans [OF keeps_moved [OF l2] p(3)] keeps_moved [OF f(3)]] .
    ultimately show ?thesis using keepsD(2,5) [OF f(3)] f(4) by auto
  next
    case True
    then have ck: "atc_ckpt s1" using k1(4) by simp
    obtain j pf2 s2 where p: "(if i \<noteq> - EINVAL then do { (mach_addr, pf, s) \<leftarrow> atc_nvm_hit_ckpt ms a sz i ?pf s1; Some (i, mach_addr, pf, s) }
         else do { (pf, s) \<leftarrow> atc_free_entry_ckpt ms STAINED ?pf s1; (base, overlap, dram) \<leftarrow> vb_SlotAlloc pf (atc_dram s); let s = s\<lparr>atc_dram := dram\<rparr>;
           (index, pf, s) \<leftarrow> atc_Setup ms a base STAINED (\<not> atc_FullBlock a sz s) pf s;
           mach_addr \<leftarrow> att_Translate a base (atc_att s); Some (index, mach_addr, pf, s) }) = Some (j, tr (atc_bits s2) (atc_map s2) a, pf2, s2)"
        "ignore_latency pf2 = ignore_latency ?pf" "moved ?mv ?t s1 s2" "att_holds (atc_att s2) j (drop_bit (atc_bits s2) a)"
        "att_state (ent (atc_att s2) j) = TEMP \<or> att_state (ent (atc_att s2) j) = STAINED"
      using nvm_place_ckpt [OF k1(1) k1(9) [OF bk] ck x(1-4), of sz ?pf] unfolding x(5) tg by blast
    note m2 = movedD [OF p(3)]
    have st: "att_active (ent (atc_att s2) j)" "att_state (ent (atc_att s2) j) \<noteq> LOAN" "True = dram_state (att_state (ent (atc_att s2) j))"
      using p(5) by (auto simp: att_active_def)
    obtain pf3 s3 att3 where f: "atc_WriteLatency ms (tr (atc_bits s2) (atc_map s2) a) True None pf2 s2 = Some (pf3, s3)"
        "att_AddBlockWrite j (atc_att s3) = Some att3" "keeps s2 (s3\<lparr>atc_att := att3\<rparr>)" "\<not> ignore_latency pf3"
      using store_finish [OF m2(1) _ p(4) st, of pf2] m2(2) x(1) p(2) pf by auto
    have "atc_NVMStore ms a sz pf s = Some (tr (atc_bits s2) (atc_map s2) a, pf3, s3\<lparr>atc_att := att3\<rparr>)"
      unfolding atc_NVMStore_def tg using True l(1) ck p(1) f(1,2) by (simp add: s1_def [symmetric] cong: if_cong split del: if_split)
    moreover have "moved ?mv ?t s (s3\<lparr>atc_att := att3\<rparr>)"
      using moved_trans [OF moved_trans [OF keeps_moved [OF l2] p(3)] keeps_moved [OF f(3)]] .
    ultimately show ?thesis using keepsD(2,5) [OF f(3)] f(4) by auto
  qed
qed

section \<open>Stores to DRAM pages\<close>

text \<open>
  A store to a page in DRAM. It works in every case but one: during checkpointing, when the block is on
  loan already, the source asks for the latency of the untranslated address as if it were in the DRAM
  buffer, which the store refuses.
\<close>

lemma DRAMStore_ok:
  assumes s: "sys_inv s" and bk: "atc_stats s" and a: "a < atc_phy_range s" and pf: "\<not> ignore_latency pf"
    and d: "in_dram s (drop_bit (atc_bits s) a)" and room: "store_room (drop_bit (atc_bits s) a) s"
    and nb: "\<not> (atc_ckpt s \<and> atc_map s (drop_bit (atc_bits s) a) \<noteq> None)"
    and pg: "latency_pre geo a True (Some page)"
  shows "\<exists>pf' s'. atc_DRAMStore ms a sz page pf s = Some (tr (atc_bits s') (atc_map s') a, pf', s') \<and>
    moved (\<not> atc_FullBlock a sz s) (drop_bit (atc_bits s) a) s s' \<and> \<not> ignore_latency pf'"
proof -
  let ?t = "drop_bit (atc_bits s) a" and ?mv = "\<not> atc_FullBlock a sz s" and ?pf = "pf_AddTableOp pf"
  obtain i att1 where l: "att_Lookup ?t pf (atc_att s) = Some (i, ?pf, att1)" "keeps s (s\<lparr>atc_att := att1\<rparr>)"
      "i = - EINVAL \<and> tbl att1 ?t = None \<or> i \<noteq> - EINVAL \<and> att_holds att1 i ?t"
    using Lookup_any [OF s, of ?t pf] by blast
  define s1 where "s1 = s\<lparr>atc_att := att1\<rparr>"
  note l2 = l(2) [folded s1_def]
  note k1 = keepsD [OF l2]
  have x: "a < atc_phy_range s1" "in_dram s1 ?t" "store_room ?t s1" "drop_bit (atc_bits s1) a = ?t" "att_ToTag a (atc_att s) = ?t"
      "atc_FullBlock a sz s1 = atc_FullBlock a sz s"
    using a d room k1 store_room_keeps [OF l2] FullBlock_keeps [OF l2] by (simp_all add: att_ToTag_def)
  have pf1: "\<not> ignore_latency ?pf" using pf by simp
  consider (hit) "i \<noteq> - EINVAL" "att_holds (atc_att s1) i ?t" "\<not> atc_ckpt s1"
    | (loan) "i = - EINVAL" "atc_map s1 ?t = None" "atc_ckpt s1" | (direct) "i = - EINVAL" "atc_map s1 ?t = None" "\<not> atc_ckpt s1"
    using l(3) nb k1(2,4) att_holds_tbl [of att1 i ?t] by (auto simp: s1_def)
  then show ?thesis
  proof cases
    case hit
    note e = entry_facts [OF k1(1) hit(2)]
    obtain s2 where k: "atc_hook (OnATTWriteHit ms (att_state (ent (atc_att s1) i))) s1 = Some s2" "keeps s1 s2" "atc_att s2 = atc_att s1"
      using hook_ok(1) [OF k1(1)] by blast
    note k2 = keepsD [OF k(2)]
    have st: "att_state (ent (atc_att s2) i) = LOAN"
      using atc_blocksD(2) [OF atc_invD(8) [OF sys_inv_atc [OF k1(1)]] e(3)] x(2) k(3) by simp
    obtain pf3 s3 where r: "atc_FreeLoan ms i ?mv None ?pf s2 = Some (None, pf3, s3)" "ignore_latency pf3 = ignore_latency ?pf"
        "block_step ?mv ?t None s2 s3"
      using FreeLoan_ok [OF k2(1) _ _ st, of ?t ?mv None ?pf] hit(2,3) k(3) k2(4) by simp blast
    note mv = block_step_moved [OF r(3)]
    note m3 = movedD [OF mv]
    obtain pf4 s4 where w: "atc_WriteLatency ms a True (Some page) pf3 s3 = Some (pf4, s4)" "keeps s3 s4" "\<not> ignore_latency pf4"
      using latency_ok(2) [OF m3(1) pg] r(2) pf1 by blast
    have T: "tr (atc_bits s4) (atc_map s4) a = a"
      using r(3) keepsD(2,5) [OF w(2)] m3(4) k2(5) x(4) by (simp add: block_step_def tr_def)
    have fb: "atc_FullBlock a sz s2 = atc_FullBlock a sz s" using x(6) k(3) by (simp add: atc_FullBlock_def)
    have ck2: "\<not> atc_ckpt s2" using k2(4) hit(3) by simp
    have e1: "att_At i att1 = Some (ent (atc_att s1) i)" using e(1) by (simp add: s1_def)
    have "atc_DRAMStore ms a sz page pf s = Some (a, pf4, s4)"
      unfolding atc_DRAMStore_def x(5) using l(1) hit(1) e1 k(1) ck2 r(1) fb w(1) by (simp add: s1_def [symmetric])
    moreover have "moved ?mv ?t s s4"
      using moved_trans [OF moved_trans [OF keeps_moved [OF keeps_trans [OF l2 k(2)]] mv] keeps_moved [OF w(2)]] .
    ultimately show ?thesis using T w(3) by auto
  next
    case loan
    have rm: "int (card (dom (atc_map s1))) < att_length (atc_att s1) \<or> tags (\<lambda>x. x = CLEAN) (atc_map s1) \<noteq> {}"
      using x(3) loan by (auto simp: store_room_def)
    obtain pf2 s2 where f: "atc_free_entry_ckpt ms LOAN ?pf s1 = Some (pf2, s2)" "ignore_latency pf2 = ignore_latency ?pf" "made_room ?t s1 s2"
      using free_entry_ckpt_ok [OF k1(1) k1(9) [OF bk] rm] by blast
    have mv2: "moved True ?t s1 s2" "moved ?mv ?t s1 s2" using f(3) by (auto simp: made_room_def moved_def)
    note m2 = movedD [OF mv2(1)]
    have y: "atc_map s2 (drop_bit (atc_bits s2) a) = None" "int (card (dom (atc_map s2))) < att_length (atc_att s2)"
        "LOAN = (if in_dram s2 (drop_bit (atc_bits s2) a) then LOAN else STAINED)" "a < atc_phy_range s2" "drop_bit (atc_bits s2) a = ?t"
      using f(3) loan(2) m2 x by (auto simp: made_room_def)
    obtain b p D j pf3 s3 where r: "vb_SlotAlloc pf2 (atc_dram s2) = Some (b, p, D)"
        "atc_Setup ms a b LOAN ?mv pf2 (s2\<lparr>atc_dram := D\<rparr>) = Some (j, pf3, s3)"
        "att_Translate a b (atc_att s3) = Some (tr (atc_bits s3) (atc_map s3) a)" "ignore_latency pf3 = ignore_latency pf2"
        "moved ?mv ?t s2 s3" "att_holds (atc_att s3) j (drop_bit (atc_bits s3) a)" "att_state (ent (atc_att s3) j) = LOAN"
      using new_entry_dram [OF m2(1) y(4,1-3), of pf2 ?mv] unfolding y(5) by blast
    note m3 = movedD [OF r(5)] and e3 = entry_facts [OF movedD(1) [OF r(5)] r(6)]
    have "latency_pre geo (tr (atc_bits s3) (atc_map s3) a) True None"
      using latency_hit(1) [OF m3(1) _ e3(3)] e3(3) r(7) y(4) m3(2) by (simp add: tr_def)
    then obtain pf4 s4 where w: "atc_WriteLatency ms (tr (atc_bits s3) (atc_map s3) a) True None pf3 s3 = Some (pf4, s4)" "keeps s3 s4"
        "\<not> ignore_latency pf4"
      using latency_ok(2) [OF m3(1)] r(4) f(2) pf1 by blast
    have ck: "atc_ckpt s" "atc_ckpt s1" using loan k1(4) by simp_all
    have fb: "atc_FullBlock a sz s2 = atc_FullBlock a sz s" using FullBlock_moved [OF mv2(1)] x(6) by simp
    have "atc_DRAMStore ms a sz page pf s = Some (tr (atc_bits s3) (atc_map s3) a, pf4, s4)"
      unfolding atc_DRAMStore_def x(5) using l(1) loan(1) ck f(1) r(1,2,3) w(1) fb by (simp add: s1_def [symmetric] Let_def)
    moreover have "moved ?mv ?t s s4"
      using moved_trans [OF moved_trans [OF moved_trans [OF keeps_moved [OF l2] mv2(2)] r(5)] keeps_moved [OF w(2)]] .
    ultimately show ?thesis using keepsD(2,5) [OF w(2)] w(3) by auto
  next
    case direct
    obtain s2 where k: "atc_hook (ckDRAMWriteHit ms) s1 = Some s2" "keeps s1 s2" using hook_ok(6) [OF k1(1)] by blast
    note k2 = keepsD [OF k(2)]
    obtain pf4 s4 where w: "atc_WriteLatency ms a True (Some page) ?pf s2 = Some (pf4, s4)" "keeps s2 s4" "\<not> ignore_latency pf4"
      using latency_ok(2) [OF k2(1) pg pf1] by blast
    have T: "tr (atc_bits s4) (atc_map s4) a = a"
      using direct(2) keepsD(2,5) [OF w(2)] k2(2,5) x(4) by (simp add: tr_def)
    have "atc_DRAMStore ms a sz page pf s = Some (a, pf4, s4)"
      unfolding atc_DRAMStore_def x(5) using l(1) direct k(1) w(1) k1(4) by (simp add: s1_def [symmetric])
    then show ?thesis using T w(3) keeps_moved [OF keeps_trans [OF l2 keeps_trans [OF k(2) w(2)]]] by auto
  qed
qed

section \<open>The two entry points of a write\<close>

text \<open>Counting a write on a DRAM page and marking the page dirty, taken together.\<close>

definition mark_page :: "PTTEntry \<Rightarrow> Profiler \<Rightarrow> MigrationController \<Rightarrow> (PTTEntry \<times> Profiler \<times> MigrationController) option" where
  "mark_page page pf mc = do {
     mc \<leftarrow> mc_AddDRAMPageWrite (pt_mach_base page) mc;
     if pt_state page = CLEAN_STATIC then do {
       (pf, mc) \<leftarrow> mc_ShiftState (pt_mach_base page) DIRTY_DIRECT pf mc;
       Some (page\<lparr>pt_state := DIRTY_DIRECT\<rparr>, pf, mc) }
     else if pt_state page = CLEAN_DIRECT then do {
       (pf, mc) \<leftarrow> mc_ShiftState (pt_mach_base page) DIRTY_STATIC pf mc;
       Some (page\<lparr>pt_state := DIRTY_STATIC\<rparr>, pf, mc) }
     else Some (page, pf, mc) }"

lemma mark_page_ok:
  assumes s: "sys_inv s" and e: "mc_find k (atc_mc s) = Some e"
  shows "\<exists>page pf' mc'. mark_page e pf (atc_mc s) = Some (page, pf', mc') \<and> pt_index page = pt_index e \<and>
    ignore_latency pf' = ignore_latency pf \<and> keeps s (s\<lparr>atc_mc := mc'\<rparr>) \<and>
    mc_find k mc' = Some (e\<lparr>pt_epoch_writes := pt_epoch_writes e + 1, pt_state := mc_mark (pt_state e)\<rparr>)"
proof -
  note inv = sys_inv_atc [OF s]
  note ent = mc_inv_entry [OF atc_invD(6) [OF inv] e]
  let ?e1 = "e\<lparr>pt_epoch_writes := pt_epoch_writes e + 1\<rparr>"
  obtain mc1 where m1: "mc_AddDRAMPageWrite k (atc_mc s) = Some mc1" "mc_inv mc1" "mc_same (atc_mc s) mc1"
      "\<And>x. mc_find x mc1 = (if x = k then Some ?e1 else mc_find x (atc_mc s))"
    using mc_AddDRAMPageWrite_ok [OF atc_geoD(5) [OF sys_inv_geo [OF s]] atc_invD(6) [OF inv] e] by blast
  have fin: "keeps s (s\<lparr>atc_mc := mc'\<rparr>)"
    if "mc_inv mc'" "mc_same mc1 mc'" "\<And>x. mc_find x mc' = (if x = k then Some (?e1\<lparr>pt_state := st\<rparr>) else mc_find x mc1)" "ptt_dirty st" for mc' st
  proof (rule keeps_mc [OF s that(1) _ mc_same_trans [OF m1(3) that(2)]])
    show "mc_counted mc'"
      using atc_invD(7) [OF inv] that(3,4) m1(4) e ent(5) unfolding mc_counted_def by auto
    show "mc_find x mc' = None \<longleftrightarrow> mc_find x (atc_mc s) = None" for x using that(3) m1(4) e by auto
  qed
  have e1: "mc_find k mc1 = Some ?e1" using m1(4) by simp
  have g1: "mc_geometry mc1" using mc_same_geometry [OF m1(3)] atc_geoD(5) [OF sys_inv_geo [OF s]] by simp
  show ?thesis
  proof (cases "ptt_dirty (pt_state e)")
    case True
    then have "mark_page e pf (atc_mc s) = Some (e, pf, mc1)" using m1(1) ent(2) by (auto simp: mark_page_def ptt_dirty_def)
    moreover have "keeps s (s\<lparr>atc_mc := mc1\<rparr>)" using fin [of mc1 "pt_state e"] m1(2,4) True by auto
    moreover have "mc_find k mc1 = Some (e\<lparr>pt_epoch_writes := pt_epoch_writes e + 1, pt_state := mc_mark (pt_state e)\<rparr>)"
      using e1 True by (auto simp: mc_mark_def ptt_dirty_def)
    ultimately show ?thesis by auto
  next
    case False
    then consider "pt_state e = CLEAN_STATIC" | "pt_state e = CLEAN_DIRECT" by (cases "pt_state e") (simp_all add: ptt_dirty_def)
    then show ?thesis
    proof cases
      case 1
      then have st: "\<not> ptt_dirty (pt_state ?e1)" "ptt_dirty DIRTY_DIRECT" using False by (simp_all add: ptt_dirty_def)
      obtain mc2 where m2: "mc_ShiftState k DIRTY_DIRECT pf mc1 = Some (pf_AddTableOp pf, mc2)" "mc_inv mc2" "mc_same mc1 mc2"
          "\<And>x. mc_find x mc2 = (if x = k then Some (?e1\<lparr>pt_state := DIRTY_DIRECT\<rparr>) else mc_find x mc1)"
        using mc_ShiftState_ok [OF g1 m1(2) e1 st, of pf] by blast
      have "mark_page e pf (atc_mc s) = Some (e\<lparr>pt_state := DIRTY_DIRECT\<rparr>, pf_AddTableOp pf, mc2)"
        using m1(1) m2(1) ent(2) 1 by (simp add: mark_page_def)
      then show ?thesis using fin [OF m2(2,3,4) st(2)] m2(4) 1 by (simp add: mc_mark_def)
    next
      case 2
      then have st: "\<not> ptt_dirty (pt_state ?e1)" "ptt_dirty DIRTY_STATIC" using False by (simp_all add: ptt_dirty_def)
      obtain mc2 where m2: "mc_ShiftState k DIRTY_STATIC pf mc1 = Some (pf_AddTableOp pf, mc2)" "mc_inv mc2" "mc_same mc1 mc2"
          "\<And>x. mc_find x mc2 = (if x = k then Some (?e1\<lparr>pt_state := DIRTY_STATIC\<rparr>) else mc_find x mc1)"
        using mc_ShiftState_ok [OF g1 m1(2) e1 st, of pf] by blast
      have "mark_page e pf (atc_mc s) = Some (e\<lparr>pt_state := DIRTY_STATIC\<rparr>, pf_AddTableOp pf, mc2)"
        using m1(1) m2(1) ent(2) 2 by (simp add: mark_page_def)
      then show ?thesis using fin [OF m2(2,3,4) st(2)] m2(4) 2 by (simp add: mc_mark_def)
    qed
  qed
qed

lemma StoreAddr_page:
  assumes "atc_CheckValid a sz s" "a < atc_phy_range s" "mc_LookupPage a pf (atc_mc s) = (e, pf1)" "0 \<le> pt_index e"
    "mark_page e pf1 (atc_mc s) = Some (page, pf2, mc)" "atc_hook (statsDRAMWrites ms 1) (s\<lparr>atc_mc := mc\<rparr>) = Some s1"
  shows "atc_StoreAddr ms a sz pf s = atc_DRAMStore ms a sz page pf2 s1"
  using assms unfolding mark_page_def atc_StoreAddr_def
  by (auto split: Option.bind_splits if_splits prod.splits)

theorem StoreAddr_ok:
  assumes s: "sys_inv s" and bk: "atc_stats s" and a: "a < atc_phy_range s" "atc_CheckValid a sz s" and pf: "\<not> ignore_latency pf"
    and room: "store_room (drop_bit (atc_bits s) a) s"
    and nb: "\<not> (atc_ckpt s \<and> in_dram s (drop_bit (atc_bits s) a) \<and> atc_map s (drop_bit (atc_bits s) a) \<noteq> None)"
  shows "\<exists>pf' s'. atc_StoreAddr ms a sz pf s = Some (tr (atc_bits s') (atc_map s') a, pf', s') \<and>
    moved (\<not> atc_FullBlock a sz s) (drop_bit (atc_bits s) a) s s' \<and> \<not> ignore_latency pf'"
proof (cases "in_dram s (drop_bit (atc_bits s) a)")
  case False
  obtain s1 where k: "atc_hook (statsNVMWrites ms 1) s = Some s1" "keeps s s1" using hook_ok(4) [OF s] by blast
  note k1 = keepsD [OF k(2)]
  obtain pf' s' where r: "atc_NVMStore ms a sz (pf_AddTableOp pf) s1 = Some (tr (atc_bits s') (atc_map s') a, pf', s')"
      "moved (\<not> atc_FullBlock a sz s) (drop_bit (atc_bits s) a) s1 s'" "\<not> ignore_latency pf'"
    using NVMStore_ok [OF k1(1) k1(9) [OF bk], of a "pf_AddTableOp pf" sz] a(1) pf False room k1 store_room_keeps [OF k(2)] FullBlock_keeps [OF k(2)]
    by auto
  have "atc_StoreAddr ms a sz pf s = Some (tr (atc_bits s') (atc_map s') a, pf', s')"
    using a LookupPage_miss [OF s False] k(1) r(1) by (simp add: atc_StoreAddr_def)
  then show ?thesis using moved_trans [OF keeps_moved [OF k(2)] r(2)] r(3) by blast
next
  case True
  obtain q e where P: "mc_LookupPage a pf (atc_mc s) = (e, pf_AddTableOp pf)" "mc_find q (atc_mc s) = Some e"
      "0 \<le> pt_index e" "\<And>e'. pt_index e' = pt_index e \<Longrightarrow> latency_pre geo a True (Some e')"
    using LookupPage_hit [OF s a(1) True] by metis
  obtain page pf1 mc where m: "mark_page e (pf_AddTableOp pf) (atc_mc s) = Some (page, pf1, mc)" "pt_index page = pt_index e"
      "ignore_latency pf1 = ignore_latency (pf_AddTableOp pf)" "keeps s (s\<lparr>atc_mc := mc\<rparr>)"
    using mark_page_ok [OF s P(2), of "pf_AddTableOp pf"] by blast
  obtain s1 where k: "atc_hook (statsDRAMWrites ms 1) (s\<lparr>atc_mc := mc\<rparr>) = Some s1" "keeps (s\<lparr>atc_mc := mc\<rparr>) s1"
    using hook_ok(5) [OF keepsD(1) [OF m(4)]] by blast
  note ks = keeps_trans [OF m(4) k(2)]
  note k1 = keepsD [OF ks]
  obtain pf' s' where r: "atc_DRAMStore ms a sz page pf1 s1 = Some (tr (atc_bits s') (atc_map s') a, pf', s')"
      "moved (\<not> atc_FullBlock a sz s) (drop_bit (atc_bits s) a) s1 s'" "\<not> ignore_latency pf'"
    using DRAMStore_ok [OF k1(1) k1(9) [OF bk], of a pf1 page sz] a(1) pf True room nb k1 m(2,3) P(4) store_room_keeps [OF ks] FullBlock_keeps [OF ks]
    by auto
  have "atc_StoreAddr ms a sz pf s = Some (tr (atc_bits s') (atc_map s') a, pf', s')"
    using StoreAddr_page [OF a(2,1) P(1,3) m(1) k(1)] r(1) by simp
  then show ?thesis using moved_trans [OF keeps_moved [OF ks] r(2)] r(3) by blast
qed

text \<open>The probe never fails, and where its table test is right its consent means that there is room.\<close>

lemma Contains_in_dram: "sys_inv s \<Longrightarrow> mc_Contains a (atc_mc s) \<longleftrightarrow> in_dram s (drop_bit (atc_bits s) a)"
  using mc_Contains_iff [OF atc_geoD(5) [OF sys_inv_geo]] page_of_tag [of s a] by (simp add: in_dram_def)

lemma no_room_eq:
  assumes "sys_inv s"
  shows "atc_no_room s = Some (int (card (dom (atc_map s))) = att_length (atc_att s) \<and> tags (\<lambda>x. x = CLEAN) (atc_map s) = {})"
  using map_IsEmpty_FREE [OF atc_invD(2) [OF sys_inv_atc [OF assms]]] map_IsEmpty [OF atc_invD(2) [OF sys_inv_atc [OF assms]], of CLEAN]
  by (simp add: atc_no_room_def)

lemma dirty_room:
  assumes s: "sys_inv s"
    and n: "int (card (tags (\<lambda>x. x = DIRTY \<or> x = HIDDEN \<or> x = TEMP \<or> x = STAINED) (atc_map s))) \<noteq> att_length (atc_att s)"
  shows "int (card (dom (atc_map s))) < att_length (atc_att s) \<or> tags (\<lambda>x. x = CLEAN) (atc_map s) \<noteq> {} \<or> tags (\<lambda>x. x = LOAN) (atc_map s) \<noteq> {}"
proof (rule ccontr)
  note ok = atc_invD(2) [OF sys_inv_atc [OF s]]
  assume no: "\<not> ?thesis"
  have "x = DIRTY \<or> x = HIDDEN \<or> x = TEMP \<or> x = STAINED" if "atc_map s t = Some (x, b)" for t x b
  proof -
    have "x \<noteq> CLEAN" "x \<noteq> LOAN" using no that unfolding tags_def by blast+
    then show ?thesis using att_tbl_not_FREE [OF ok that] by (cases x) simp_all
  qed
  then have "tags (\<lambda>x. x = DIRTY \<or> x = HIDDEN \<or> x = TEMP \<or> x = STAINED) (atc_map s) = dom (atc_map s)"
    unfolding tags_def dom_def by auto
  then show False using n no map_card [OF ok] by simp
qed

theorem Probe_ok:
  assumes s: "sys_inv s"
  shows "\<exists>c. atc_Probe a s = Some c"
    and "att_Contains a (atc_att s) \<longleftrightarrow> atc_map s (drop_bit (atc_bits s) a) \<noteq> None \<Longrightarrow>
      atc_Probe a s = Some REG_WRITE \<Longrightarrow> store_room (drop_bit (atc_bits s) a) s"
proof -
  note ok = atc_invD(2) [OF sys_inv_atc [OF s]]
  note run = Contains_in_dram [OF s] no_room_eq [OF s] map_GetLength(3) [OF ok]
  show "\<exists>c. atc_Probe a s = Some c" by (simp add: atc_Probe_def run)
  assume c: "att_Contains a (atc_att s) \<longleftrightarrow> atc_map s (drop_bit (atc_bits s) a) \<noteq> None" and p: "atc_Probe a s = Some REG_WRITE"
  show "store_room (drop_bit (atc_bits s) a) s"
  proof (rule ccontr)
    assume n: "\<not> store_room (drop_bit (atc_bits s) a) s"
    then have x: "\<not> att_Contains a (atc_att s)" "\<not> (in_dram s (drop_bit (atc_bits s) a) \<and> \<not> atc_ckpt s)"
        "int (card (dom (atc_map s))) = att_length (atc_att s)" "tags (\<lambda>x. x = CLEAN) (atc_map s) = {}"
        "\<not> atc_ckpt s \<Longrightarrow> tags (\<lambda>x. x = LOAN) (atc_map s) = {}"
      using c map_card [OF ok] by (auto simp: store_room_def)
    show False
    proof (cases "atc_ckpt s")
      case True
      then show ?thesis using p x by (simp add: atc_Probe_def run split: if_splits)
    next
      case False
      then have "int (card (tags (\<lambda>x. x = DIRTY \<or> x = HIDDEN \<or> x = TEMP \<or> x = STAINED) (atc_map s))) = att_length (atc_att s)"
        using dirty_room [OF s] x by auto
      then show ?thesis using p x False by (simp add: atc_Probe_def run split: if_splits)
    qed
  qed
qed

end

end
