(* ===== verification/Controller_Epoch.thy ===== *)
theory Controller_Epoch
  imports Controller_Store
begin

text \<open>
  The end of an epoch: \<open>BeginCheckpointing\<close> flushes the block table with the visitor \<open>DirtyCleaner\<close>, starts
  the checkpointing phase and clears the statistics; \<open>FinishCheckpointing\<close> retires the old backups. Both
  keep the logical memory. The visitor \<open>LoanRevoker\<close> of the migration pass is here as well.
\<close>

section \<open>Visiting a queue of the table\<close>

text \<open>
  A visitor that takes the visited entry out of the queue and leaves the rest of the queue alone is run on
  every entry, and the queue is empty afterwards.
\<close>

lemma VisitQueue_total:
  assumes rep: "att_rep (table s) qs" and st: "att_code st \<le> att_code DIRTY" and J: "J s"
    and visit: "\<And>w ws s qs. J s \<Longrightarrow> att_rep (table s) qs \<Longrightarrow> qs (StateIndex st) = w # ws \<Longrightarrow>
      \<exists>s' qs'. visit w s = Some s' \<and> J s' \<and> att_rep (table s') qs' \<and> qs' (StateIndex st) = ws"
  shows "\<exists>s' qs'. att_VisitQueue table st visit s = Some (int (length (qs (StateIndex st))), s') \<and> J s' \<and>
    att_rep (table s') qs' \<and> qs' (StateIndex st) = []"
proof -
  define I where "I = (\<lambda>ws s. J s \<and> (\<exists>qs. att_rep (table s) qs \<and> qs (StateIndex st) = ws))"
  have "\<exists>s'. iq_Accept (\<lambda>s. arr_at att_array (att_entries (table s))) visit (att_GetQueue st (table s)) s =
      Some (int (length (qs (StateIndex st))), s') \<and> I [] s'"
  proof (rule Accept_total)
    show "queue_rep (arr_at att_array (att_entries (table s))) (att_GetQueue st (table s)) (qs (StateIndex st))"
      by (rule att_linked_queue [OF att_rep_linked [OF rep]])
    show "I (qs (StateIndex st)) s" using rep J by (auto simp: I_def)
  next
    fix w ws s assume "I (w # ws) s"
    then obtain qs where q: "att_rep (table s) qs" "qs (StateIndex st) = w # ws" by (auto simp: I_def)
    then have "queue_rep (arr_at att_array (att_entries (table s))) (att_GetQueue st (table s)) (w # ws)"
      using att_linked_queue [OF att_rep_linked [OF q(1)], of st] by simp
    then show "w \<noteq> - EINVAL \<and> (\<exists>node. arr_at att_array (att_entries (table s)) w = Some node \<and> nnext node = hd_or (- EINVAL) ws)"
      by (simp add: queue_rep_def)
  next
    fix w ws s assume "I (w # ws) s"
    then show "\<exists>s'. visit w s = Some s' \<and> I ws s'" using visit [of s _ w ws] by (auto simp: I_def)
  qed
  then show ?thesis using st by (auto simp: att_VisitQueue_def I_def)
qed

lemma queue_distinct: "att_rep att qs \<Longrightarrow> k < 4 \<Longrightarrow> distinct (qs k)"
  using att_rep_linked [of att qs] by (auto simp: att_linked_def intro: queue_rep_distinct)

text \<open>Taking the first entry out of its queue, at once or after a turn at its back.\<close>

lemma requeue_front:
  assumes "qs k = w # ws" "distinct (qs k)" "k' \<noteq> k"
  shows "requeue k k' w qs k = ws" "requeue k k' w (requeue k k w qs) k = ws"
  using assms by (simp_all add: requeue_def Let_def remove1_append)

lemma queue_holds:
  assumes "att_rep att qs" "k < 4" "k \<noteq> StateIndex FREE" "w \<in> set (qs k)"
  shows "att_holds att w (phy_tag (ent att w))" "StateIndex (att_state (ent att w)) = k"
  using att_rep_queue_state [OF assms(1,2,4,3)] att_holds_live [OF assms(1)] by simp_all

context mem_store
begin

section \<open>Flushing steps\<close>

definition flushed :: "'m ATC \<Rightarrow> 'm ATC \<Rightarrow> bool" where
  "flushed s s' \<longleftrightarrow> sys_inv s' \<and> atc_frame s s' \<and> (\<forall>a < atc_phy_range s. vw s' a = vw s a)"

lemma flushed_refl: "sys_inv s \<Longrightarrow> flushed s s"
  by (simp add: flushed_def)

lemma flushed_trans: "flushed s s' \<Longrightarrow> flushed s' s'' \<Longrightarrow> flushed s s''"
  using atc_frame_trans [of s s' s''] by (simp add: flushed_def atc_frame_def)

lemma block_step_flushed: "block_step True t v s s' \<Longrightarrow> flushed s s'"
  by (simp add: flushed_def block_step_def)

text \<open>A change of state that leaves the block where it is.\<close>

lemma relabel_flushed:
  assumes s: "sys_inv s" and t: "atc_map s t = Some (st, m)" and run: "\<not> atc_ckpt s"
    and v: "st = DIRTY \<and> v = Some (CLEAN, m) \<or> st = HIDDEN \<and> v = None"
    and a: "att_ready att'" "att_consts att' = att_consts (atc_att s)" "tbl att' = (atc_map s)(t := v)"
  shows "flushed s (s\<lparr>atc_att := att'\<rparr>)"
proof -
  let ?s = "s\<lparr>atc_att := att'\<rparr>"
  note inv = sys_inv_atc [OF s]
  note blk = atc_invD(8) [OF inv]
  note b = atc_blocksD [OF blk t]
  have fr: "atc_frame s ?s" using a(2) by (simp add: atc_frame_def)
  have own: "owns (atc_nvm s) nvm_state ((atc_map s)(t := v))" "owns (atc_dram s) dram_state ((atc_map s)(t := v))"
    using v owns_keep [OF atc_owns(1) [OF blk] t, of CLEAN] owns_other [OF atc_owns(1) [OF blk], of t v]
      owns_other [OF atc_owns(2) [OF blk], of t v] t by auto
  have inv': "atc_inv ?s"
  proof (rule atc_inv_step [OF inv fr, where t = t and v = v])
    show "entry_fits s t v" using v b run by (auto simp: entry_fits_def)
    show "atc_counts ?s" using atc_invD(9) [OF inv] run a(2) by (simp add: atc_counts_def att_consts_def)
  qed (use own a atc_invD(4,5) [OF inv] in \<open>simp_all add: att_ready_def\<close>)
  have "tr (atc_bits s) ((atc_map s)(t := v)) x = tr (atc_bits s) (atc_map s) x" for x
    using v b(3) t by (auto simp: tr_def)
  then have "vw ?s x = vw s x" for x using a(3) atc_frameD(4) [OF fr] by (simp add: vw_def)
  then show ?thesis using inv' fr s geometry_of_frame [OF fr] by (simp add: flushed_def sys_inv_def)
qed

lemma clean_dirty_ok:
  assumes s: "sys_inv s" and run: "\<not> atc_ckpt s" and h: "att_holds (atc_att s) i t"
    and st: "att_state (ent (atc_att s) i) = DIRTY"
  shows "\<exists>att'. att_ShiftState i CLEAN pf (atc_att s) = Some (pf_AddTableOp pf, att') \<and> flushed s (s\<lparr>atc_att := att'\<rparr>) \<and>
    tbl att' = (atc_map s)(t \<mapsto> (CLEAN, mach_base (ent (atc_att s) i))) \<and>
    (\<forall>qs. att_rep (atc_att s) qs \<longrightarrow> att_rep att' (requeue (StateIndex DIRTY) (StateIndex CLEAN) i qs))"
proof -
  note e = entry_facts [OF s h]
  obtain att' where a: "att_ShiftState i CLEAN pf (atc_att s) = Some (pf_AddTableOp pf, att')" "att_ready att'"
      "att_consts att' = att_consts (atc_att s)" "tbl att' = (atc_map s)(t \<mapsto> (CLEAN, mach_base (ent (atc_att s) i)))"
      "\<forall>qs. att_rep (atc_att s) qs \<longrightarrow> att_rep att' (requeue (StateIndex DIRTY) (StateIndex CLEAN) i qs)"
    using ready_ShiftState [OF e(6) h, of CLEAN pf] st by auto
  then show ?thesis using relabel_flushed [OF s e(3) run _ a(2-4)] st by auto
qed

lemma drop_hidden_ok:
  assumes s: "sys_inv s" and run: "\<not> atc_ckpt s" and h: "att_holds (atc_att s) i t"
    and st: "att_state (ent (atc_att s) i) = HIDDEN"
  shows "\<exists>att'. att_ShiftState i FREE pf (atc_att s) = Some (pf_AddTableOp pf, att') \<and> flushed s (s\<lparr>atc_att := att'\<rparr>) \<and>
    tbl att' = (atc_map s)(t := None) \<and>
    (\<forall>qs. att_rep (atc_att s) qs \<longrightarrow> att_rep att' (requeue (StateIndex HIDDEN) (StateIndex FREE) i qs))"
proof -
  note e = entry_facts [OF s h]
  obtain att' where a: "att_ShiftState i FREE pf (atc_att s) = Some (pf_AddTableOp pf, att')" "att_ready att'"
      "att_consts att' = att_consts (atc_att s)" "tbl att' = (atc_map s)(t := None)"
      "\<forall>qs. att_rep (atc_att s) qs \<longrightarrow> att_rep att' (requeue (StateIndex HIDDEN) (StateIndex FREE) i qs)"
    using ready_ShiftState [OF e(6) h, of FREE pf] st by auto
  then show ?thesis using relabel_flushed [OF s e(3) run _ a(2-4)] st by auto
qed

section \<open>The visitors\<close>

text \<open>What holds during the flush: nothing visible has changed, and no block is on loan.\<close>

definition flushing :: "'m ATC \<Rightarrow> Profiler \<Rightarrow> 'm visit \<Rightarrow> bool" where
  "flushing s0 pf0 v \<longleftrightarrow> (case v of (bl, pf, s) \<Rightarrow>
     bl \<noteq> None \<and> ignore_latency pf = ignore_latency pf0 \<and> flushed s0 s \<and> tags (\<lambda>x. x = LOAN) (atc_map s) = {})"

lemma no_loan_upd: "tags (\<lambda>x. x = LOAN) T = {} \<Longrightarrow> outside (\<lambda>x. x = LOAN) v \<Longrightarrow> tags (\<lambda>x. x = LOAN) (T(t := v)) = {}"
  by (auto simp: tags_upd outside_def split: option.splits)

lemma StateIndex_three [simp]: "StateIndex HIDDEN = StateIndex DIRTY" "StateIndex TEMP = StateIndex DIRTY" "StateIndex STAINED = StateIndex DIRTY"
  by (simp_all add: StateIndex_def)

lemma DirtyCleaner_ok:
  assumes f: "flushing s0 pf0 (bl, pf, s)" and run: "\<not> atc_ckpt s0"
    and rep: "att_rep (atc_att s) qs" and q: "qs (StateIndex DIRTY) = w # ws"
  shows "\<exists>v' qs'. atc_DirtyCleaner_Visit ms w (bl, pf, s) = Some v' \<and> flushing s0 pf0 v' \<and>
    att_rep (atc_att (snd (snd v'))) qs' \<and> qs' (StateIndex DIRTY) = ws"
proof -
  have s: "sys_inv s" and fl: "flushed s0 s" and nl: "tags (\<lambda>x. x = LOAN) (atc_map s) = {}" and bl: "bl \<noteq> None"
      and pf: "ignore_latency pf = ignore_latency pf0"
    using f by (auto simp: flushing_def flushed_def)
  have ck: "\<not> atc_ckpt s" using fl run atc_frameD(2) by (auto simp: flushed_def)
  have k: "StateIndex DIRTY \<noteq> StateIndex FREE" "StateIndex CLEAN \<noteq> StateIndex DIRTY" "StateIndex FREE \<noteq> StateIndex DIRTY"
    by (simp_all add: StateIndex_def)
  let ?t = "phy_tag (ent (atc_att s) w)" and ?st = "att_state (ent (atc_att s) w)"
  have h: "att_holds (atc_att s) w ?t" and si: "StateIndex ?st = StateIndex DIRTY"
    using queue_holds [OF rep StateIndex_less k(1), of w] q by simp_all
  note e = entry_facts [OF s h] and dq = queue_distinct [OF rep StateIndex_less, of DIRTY]
  have push: "push_ckpt x bl \<noteq> None" for x using bl by (simp add: push_ckpt_def)
  consider (dirty) "?st = DIRTY" | (hidden) "?st = HIDDEN" | (temp) "?st = TEMP" | (stained) "?st = STAINED"
    using si by auto
  then show ?thesis
  proof cases
    case dirty
    obtain att' where a: "att_ShiftState w CLEAN pf (atc_att s) = Some (pf_AddTableOp pf, att')" "flushed s (s\<lparr>atc_att := att'\<rparr>)"
        "tbl att' = (atc_map s)(?t \<mapsto> (CLEAN, mach_base (ent (atc_att s) w)))" "att_rep att' (requeue (StateIndex DIRTY) (StateIndex CLEAN) w qs)"
      using clean_dirty_ok [OF s ck h dirty, of pf] rep by blast
    have "atc_DirtyCleaner_Visit ms w (bl, pf, s) = Some (bl, pf, s\<lparr>atc_att := att'\<rparr>)"
      using e(1) dirty a(1) by (simp add: atc_DirtyCleaner_Visit_def)
    then show ?thesis
      using a flushed_trans [OF fl a(2)] no_loan_upd [OF nl] bl pf requeue_front(1) [where qs = qs, OF q dq k(2)]
      by (intro exI [of _ "(bl, pf, s\<lparr>atc_att := att'\<rparr>)"] exI [of _ "requeue (StateIndex DIRTY) (StateIndex CLEAN) w qs"])
        (simp add: flushing_def)
  next
    case hidden
    obtain att' where a: "att_ShiftState w FREE pf (atc_att s) = Some (pf_AddTableOp pf, att')" "flushed s (s\<lparr>atc_att := att'\<rparr>)"
        "tbl att' = (atc_map s)(?t := None)" "att_rep att' (requeue (StateIndex DIRTY) (StateIndex FREE) w qs)"
      using drop_hidden_ok [OF s ck h hidden, of pf] rep by auto
    have "atc_DirtyCleaner_Visit ms w (bl, pf, s) = Some (bl, pf, s\<lparr>atc_att := att'\<rparr>)"
      using e(1) hidden a(1) by (simp add: atc_DirtyCleaner_Visit_def)
    then show ?thesis
      using a flushed_trans [OF fl a(2)] no_loan_upd [OF nl] bl pf requeue_front(1) [where qs = qs, OF q dq k(3)]
      by (intro exI [of _ "(bl, pf, s\<lparr>atc_att := att'\<rparr>)"] exI [of _ "requeue (StateIndex DIRTY) (StateIndex FREE) w qs"])
        (simp add: flushing_def)
  next
    case temp
    obtain pf1 s1 where r: "atc_HideTemp ms w True bl pf s = Some (push_ckpt (push_bit (atc_bits s) ?t) bl, pf1, s1)"
        "ignore_latency pf1 = ignore_latency pf" "block_step True ?t (Some (HIDDEN, push_bit (atc_bits s) ?t)) s s1"
        "att_holds (atc_att s1) w ?t" "att_rep (atc_att s1) (requeue (StateIndex DIRTY) (StateIndex DIRTY) w qs)"
      using HideTemp_ok [OF s ck h temp, of True bl pf] rep by auto
    note m1 = movedD [OF block_step_moved [OF r(3)]] and e1 = entry_facts [OF movedD(1) [OF block_step_moved [OF r(3)]] r(4)]
    have T1: "atc_map s1 = (atc_map s)(?t \<mapsto> (HIDDEN, push_bit (atc_bits s) ?t))" using r(3) by (simp add: block_step_def)
    have h1: "att_state (ent (atc_att s1) w) = HIDDEN" using e1(3) T1 by simp
    obtain att' where a: "att_ShiftState w FREE pf1 (atc_att s1) = Some (pf_AddTableOp pf1, att')" "flushed s1 (s1\<lparr>atc_att := att'\<rparr>)"
        "tbl att' = (atc_map s1)(?t := None)" "att_rep att' (requeue (StateIndex DIRTY) (StateIndex FREE) w (requeue (StateIndex DIRTY) (StateIndex DIRTY) w qs))"
      using drop_hidden_ok [OF m1(1) _ r(4) h1, of pf1] r(5) ck m1(3) by auto
    have "atc_DirtyCleaner_Visit ms w (bl, pf, s) = Some (push_ckpt (push_bit (atc_bits s) ?t) bl, pf1, s1\<lparr>atc_att := att'\<rparr>)"
      using e(1) temp r(1) e1(1) h1 a(1) by (simp add: atc_DirtyCleaner_Visit_def)
    moreover have "flushed s0 (s1\<lparr>atc_att := att'\<rparr>)"
      using flushed_trans [OF flushed_trans [OF fl block_step_flushed [OF r(3)]] a(2)] .
    ultimately show ?thesis
      using a T1 no_loan_upd [OF nl, of None ?t] push r(2) pf requeue_front(2) [where qs = qs, OF q dq k(3)]
      by (intro exI [of _ "(push_ckpt (push_bit (atc_bits s) ?t) bl, pf1, s1\<lparr>atc_att := att'\<rparr>)"]
          exI [of _ "requeue (StateIndex DIRTY) (StateIndex FREE) w (requeue (StateIndex DIRTY) (StateIndex DIRTY) w qs)"])
        (simp add: flushing_def)
  next
    case stained
    obtain n pf1 s1 where r: "atc_DirtyStained ms w True bl pf s = Some (vb_addr (atc_nvm s) n, push_ckpt (vb_addr (atc_nvm s) n) bl, pf1, s1)"
        "ignore_latency pf1 = ignore_latency pf" "block_step True ?t (Some (DIRTY, vb_addr (atc_nvm s) n)) s s1"
        "att_holds (atc_att s1) w ?t" "att_rep (atc_att s1) (requeue (StateIndex DIRTY) (StateIndex DIRTY) w qs)"
      using DirtyStained_ok [OF s ck h stained, of True bl pf] rep by auto
    note m1 = movedD [OF block_step_moved [OF r(3)]] and e1 = entry_facts [OF movedD(1) [OF block_step_moved [OF r(3)]] r(4)]
    have T1: "atc_map s1 = (atc_map s)(?t \<mapsto> (DIRTY, vb_addr (atc_nvm s) n))" using r(3) by (simp add: block_step_def)
    have h1: "att_state (ent (atc_att s1) w) = DIRTY" using e1(3) T1 by simp
    obtain att' where a: "att_ShiftState w CLEAN pf1 (atc_att s1) = Some (pf_AddTableOp pf1, att')" "flushed s1 (s1\<lparr>atc_att := att'\<rparr>)"
        "tbl att' = (atc_map s1)(?t \<mapsto> (CLEAN, mach_base (ent (atc_att s1) w)))"
        "att_rep att' (requeue (StateIndex DIRTY) (StateIndex CLEAN) w (requeue (StateIndex DIRTY) (StateIndex DIRTY) w qs))"
      using clean_dirty_ok [OF m1(1) _ r(4) h1, of pf1] r(5) ck m1(3) by auto
    have "atc_DirtyCleaner_Visit ms w (bl, pf, s) = Some (push_ckpt (vb_addr (atc_nvm s) n) bl, pf1, s1\<lparr>atc_att := att'\<rparr>)"
      using e(1) stained r(1) e1(1) h1 a(1) by (simp add: atc_DirtyCleaner_Visit_def)
    moreover have "flushed s0 (s1\<lparr>atc_att := att'\<rparr>)"
      using flushed_trans [OF flushed_trans [OF fl block_step_flushed [OF r(3)]] a(2)] .
    ultimately show ?thesis
      using a T1 no_loan_upd [OF nl, of "Some (CLEAN, mach_base (ent (atc_att s1) w))" ?t] push r(2) pf requeue_front(2) [where qs = qs, OF q dq k(2)]
      by (intro exI [of _ "(push_ckpt (vb_addr (atc_nvm s) n) bl, pf1, s1\<lparr>atc_att := att'\<rparr>)"]
          exI [of _ "requeue (StateIndex DIRTY) (StateIndex CLEAN) w (requeue (StateIndex DIRTY) (StateIndex DIRTY) w qs)"])
        (simp add: flushing_def)
  qed
qed

text \<open>The revocation of loans, which the migration pass begins with.\<close>

definition revoking :: "'m ATC \<Rightarrow> Profiler \<Rightarrow> 'm visit \<Rightarrow> bool" where
  "revoking s0 pf0 v \<longleftrightarrow> (case v of (bl, pf, s) \<Rightarrow>
     bl \<noteq> None \<and> ignore_latency pf = ignore_latency pf0 \<and> flushed s0 s \<and> (atc_stats s0 \<longrightarrow> atc_stats s))"

lemma LoanRevoker_ok:
  assumes f: "revoking s0 pf0 (bl, pf, s)" and run: "\<not> atc_ckpt s0"
    and rep: "att_rep (atc_att s) qs" and q: "qs (StateIndex LOAN) = w # ws"
  shows "\<exists>v' qs'. atc_LoanRevoker_Visit ms w (bl, pf, s) = Some v' \<and> revoking s0 pf0 v' \<and>
    att_rep (atc_att (snd (snd v'))) qs' \<and> qs' (StateIndex LOAN) = ws"
proof -
  have s: "sys_inv s" and fl: "flushed s0 s" and bl: "bl \<noteq> None" and pf: "ignore_latency pf = ignore_latency pf0"
      and st: "atc_stats s0 \<longrightarrow> atc_stats s"
    using f by (auto simp: revoking_def flushed_def)
  have ck: "\<not> atc_ckpt s" using fl run atc_frameD(2) by (auto simp: flushed_def)
  have k: "StateIndex LOAN \<noteq> StateIndex FREE" "StateIndex FREE \<noteq> StateIndex LOAN" by (simp_all add: StateIndex_def)
  let ?t = "phy_tag (ent (atc_att s) w)"
  have h: "att_holds (atc_att s) w ?t" and lo: "att_state (ent (atc_att s) w) = LOAN"
    using queue_holds [OF rep StateIndex_less k(1), of w] q by simp_all
  note e = entry_facts [OF s h] and dq = queue_distinct [OF rep StateIndex_less, of LOAN]
  obtain pf1 s1 where r: "atc_FreeLoan ms w True bl pf s = Some (push_ckpt (push_bit (atc_bits s) ?t) bl, pf1, s1)"
      "ignore_latency pf1 = ignore_latency pf" "block_step True ?t None s s1"
      "att_rep (atc_att s1) (requeue (StateIndex LOAN) (StateIndex FREE) w qs)"
    using FreeLoan_ok [OF s ck h lo, of True bl pf] rep by auto
  have "atc_LoanRevoker_Visit ms w (bl, pf, s) = Some (push_ckpt (push_bit (atc_bits s) ?t) bl, pf1, s1)"
    using e(1) lo r(1) by (simp add: atc_LoanRevoker_Visit_def)
  moreover have "revoking s0 pf0 (push_ckpt (push_bit (atc_bits s) ?t) bl, pf1, s1)"
    using flushed_trans [OF fl block_step_flushed [OF r(3)]] bl pf r(2,3) st
    by (simp add: revoking_def push_ckpt_def block_step_def)
  ultimately show ?thesis
    using r(4) requeue_front(1) [where qs = qs, OF q dq k(2)]
    by (intro exI [of _ "(push_ckpt (push_bit (atc_bits s) ?t) bl, pf1, s1)"]
        exI [of _ "requeue (StateIndex LOAN) (StateIndex FREE) w qs"]) simp
qed

lemma revoke_loans:
  assumes s: "sys_inv s" and run: "\<not> atc_ckpt s"
  shows "\<exists>n bl' pf' s'. att_VisitQueue (\<lambda>v. atc_att (snd (snd v))) LOAN (atc_LoanRevoker_Visit ms) (Some bl, pf, s) =
      Some (n, Some bl', pf', s') \<and> ignore_latency pf' = ignore_latency pf \<and> flushed s s' \<and>
    (atc_stats s \<longrightarrow> atc_stats s') \<and> tags (\<lambda>x. x = LOAN) (atc_map s') = {}"
proof -
  obtain qs where rep: "att_rep (atc_att s) qs" using atc_invD(2) [OF sys_inv_atc [OF s]] by (auto simp: att_ok_def)
  have "\<exists>v' qs'. att_VisitQueue (\<lambda>v. atc_att (snd (snd v))) LOAN (atc_LoanRevoker_Visit ms) (Some bl, pf, s) =
      Some (int (length (qs (StateIndex LOAN))), v') \<and> revoking s pf v' \<and> att_rep (atc_att (snd (snd v'))) qs' \<and> qs' (StateIndex LOAN) = []"
  proof (rule VisitQueue_total)
    fix w ws v qs
    assume "revoking s pf v" "att_rep (atc_att (snd (snd v))) qs" "qs (StateIndex LOAN) = w # ws"
    then show "\<exists>s' qs'. atc_LoanRevoker_Visit ms w v = Some s' \<and> revoking s pf s' \<and> att_rep (atc_att (snd (snd s'))) qs' \<and> qs' (StateIndex LOAN) = ws"
      using LoanRevoker_ok [OF _ run] by (cases v) auto
  qed (use rep flushed_refl [OF s] in \<open>auto simp: revoking_def\<close>)
  then obtain bl' pf' s' qs' where r: "att_VisitQueue (\<lambda>v. atc_att (snd (snd v))) LOAN (atc_LoanRevoker_Visit ms) (Some bl, pf, s) =
      Some (int (length (qs (StateIndex LOAN))), Some bl', pf', s')" "revoking s pf (Some bl', pf', s')" "att_rep (atc_att s') qs'" "qs' (StateIndex LOAN) = []"
    by (auto simp: revoking_def)
  moreover have "tags (\<lambda>x. x = LOAN) (atc_map s') = {}"
    using tags_empty_iff [OF r(3) StateIndex_less, of LOAN] r(4) by simp
  ultimately show ?thesis by (auto simp: revoking_def)
qed

section \<open>Checkpoints\<close>

lemma flush_table:
  assumes s: "sys_inv s" and run: "\<not> atc_ckpt s" and nl: "tags (\<lambda>x. x = LOAN) (atc_map s) = {}"
  shows "\<exists>n bl' pf' s'. att_VisitQueue (\<lambda>v. atc_att (snd (snd v))) DIRTY (atc_DirtyCleaner_Visit ms) (Some bl, pf, s) =
      Some (n, Some bl', pf', s') \<and> ignore_latency pf' = ignore_latency pf \<and> flushed s s' \<and>
    (\<forall>t st m. atc_map s' t = Some (st, m) \<longrightarrow> st = CLEAN)"
proof -
  obtain qs where rep: "att_rep (atc_att s) qs" using atc_invD(2) [OF sys_inv_atc [OF s]] by (auto simp: att_ok_def)
  have "\<exists>v' qs'. att_VisitQueue (\<lambda>v. atc_att (snd (snd v))) DIRTY (atc_DirtyCleaner_Visit ms) (Some bl, pf, s) =
      Some (int (length (qs (StateIndex DIRTY))), v') \<and> flushing s pf v' \<and> att_rep (atc_att (snd (snd v'))) qs' \<and> qs' (StateIndex DIRTY) = []"
  proof (rule VisitQueue_total)
    fix w ws v qs
    assume "flushing s pf v" "att_rep (atc_att (snd (snd v))) qs" "qs (StateIndex DIRTY) = w # ws"
    then show "\<exists>s' qs'. atc_DirtyCleaner_Visit ms w v = Some s' \<and> flushing s pf s' \<and> att_rep (atc_att (snd (snd s'))) qs' \<and> qs' (StateIndex DIRTY) = ws"
      using DirtyCleaner_ok [OF _ run] by (cases v) auto
  qed (use rep flushed_refl [OF s] nl in \<open>auto simp: flushing_def\<close>)
  then obtain bl' pf' s' qs' where r: "att_VisitQueue (\<lambda>v. atc_att (snd (snd v))) DIRTY (atc_DirtyCleaner_Visit ms) (Some bl, pf, s) =
      Some (int (length (qs (StateIndex DIRTY))), Some bl', pf', s')" "flushing s pf (Some bl', pf', s')" "att_rep (atc_att s') qs'" "qs' (StateIndex DIRTY) = []"
    by (auto simp: flushing_def)
  have s': "sys_inv s'" using r(2) by (simp add: flushing_def flushed_def)
  have "st = CLEAN" if t: "atc_map s' t = Some (st, m)" for t st m
  proof -
    have d: "tags (\<lambda>x. StateIndex x = StateIndex DIRTY) (atc_map s') = {}"
      using tags_empty_iff [OF r(3) StateIndex_less, of DIRTY] r(4) by simp
    have l: "tags (\<lambda>x. x = LOAN) (atc_map s') = {}" using r(2) by (simp add: flushing_def)
    have "StateIndex st \<noteq> StateIndex DIRTY" "st \<noteq> LOAN" "st \<noteq> FREE"
      using d l t att_tbl_not_FREE [OF atc_invD(2) [OF sys_inv_atc [OF s']] t] unfolding tags_def by blast+
    then show ?thesis by (cases st) simp_all
  qed
  then show ?thesis using r by (auto simp: flushing_def)
qed

lemma clear_stats_ready:
  assumes "att_ready att"
  shows "att_ready (snd (att_ClearStats pf att))" "att_consts (snd (att_ClearStats pf att)) = att_consts att"
    "tbl (snd (att_ClearStats pf att)) = tbl att" "att_quiet (snd (att_ClearStats pf att))" "fst (att_ClearStats pf att) = pf_AddTableOp pf"
proof -
  let ?a = "snd (att_ClearStats pf att)"
  obtain qs where rep: "att_rep att qs" using assms by (auto simp: att_ready_def att_ok_def)
  note c = att_ClearStats_rep [OF rep, where pf = pf]
  show cc: "att_consts ?a = att_consts att" using c(4,5) by (simp add: att_consts_def)
  have rng: "0 \<le> i \<and> i < att_length att" if "att_tag_index att t = Some i" for i t
    using att_index_iff [OF rep] that by (auto simp: att_live_def)
  show "tbl ?a = tbl att"
  proof
    fix t show "tbl ?a t = tbl att t" using rng c(2,3) by (cases "att_tag_index att t") (auto simp: tbl_def)
  qed
  show "att_quiet ?a" unfolding att_quiet_def using c(2,4) by auto
  have "att_idle ?a"
    using assms c(2,3,4) unfolding att_ready_def att_idle_def att_holds_def att_active_def by auto
  then show "att_ready ?a" using c(1) by (auto simp: att_ready_def att_ok_def)
  show "fst (att_ClearStats pf att) = pf_AddTableOp pf" by (simp add: att_ClearStats_def)
qed

lemma pages_fit:
  assumes "sys_inv s" shows "mc_fits (atc_mc s)"
  unfolding mc_fits_def
proof (intro allI impI)
  note inv = sys_inv_atc [OF assms]
  note g = atc_geoD [OF atc_invD(1) [OF inv]]
  let ?p = "mc_page_bits (atc_mc s)"
  fix k assume k: "mc_find k (atc_mc s) \<noteq> None"
  then obtain e where e: "mc_find k (atc_mc s) = Some e" by blast
  have lt: "unat k < unat (atc_phy_range s)" using atc_invD(10) [OF inv k] by (simp add: word_less_nat_alt)
  obtain x y where x: "unat k = 2 ^ ?p * x" "unat (atc_phy_range s) = 2 ^ ?p * y"
    using mc_inv_entry(1) [OF atc_invD(6) [OF inv] e] g(12) unfolding aligned_unat by (auto elim!: dvdE)
  then have "x + 1 \<le> y" using lt by simp
  then have "2 ^ ?p * (x + 1) \<le> 2 ^ ?p * y" by (rule mult_le_mono2)
  then have "unat k + 2 ^ ?p \<le> unat (atc_phy_range s)" using x by (simp add: algebra_simps)
  moreover have "unat (atc_phy_range s) < 2 ^ LENGTH(64)" by (rule unsigned_less)
  ultimately have "unat k + 2 ^ ?p < 2 ^ LENGTH(64)" by (rule order.strict_trans1)
  then show "unat k + 2 ^ ?p < 2 ^ 64" by simp
qed

theorem BeginCheckpointing_ok:
  assumes s: "sys_inv s" and run: "\<not> atc_ckpt s" and nl: "tags (\<lambda>x. x = LOAN) (atc_map s) = {}"
  shows "\<exists>bl' pf' s'. atc_BeginCheckpointing ms bl pf s = Some (bl', pf', s') \<and> ignore_latency pf' = ignore_latency pf \<and>
    sys_inv s' \<and> atc_ckpt s' \<and> atc_stats s' \<and> atc_phy_range s' = atc_phy_range s \<and> in_dram s' = in_dram s \<and>
    att_consts (atc_att s') = att_consts (atc_att s) \<and>
    (\<forall>a < atc_phy_range s. vw s' a = vw s a) \<and> (\<forall>t st m. atc_map s' t = Some (st, m) \<longrightarrow> st = CLEAN)"
proof -
  obtain n bl1 pf1 s1 where v: "att_VisitQueue (\<lambda>v. atc_att (snd (snd v))) DIRTY (atc_DirtyCleaner_Visit ms) (Some bl, pf, s) = Some (n, Some bl1, pf1, s1)"
      "ignore_latency pf1 = ignore_latency pf" "flushed s s1" "\<And>t st m. atc_map s1 t = Some (st, m) \<Longrightarrow> st = CLEAN"
    using flush_table [OF s run nl, of bl pf] by blast
  have s1: "sys_inv s1" and fr: "atc_frame s s1" using v(3) by (simp_all add: flushed_def)
  note inv = sys_inv_atc [OF s1] and f = atc_frameD [OF fr]
  note g = atc_geoD [OF atc_invD(1) [OF inv]] and ok = atc_invD(2) [OF inv]
  have "tags (\<lambda>x. x = CLEAN) (atc_map s1) = dom (atc_map s1)" using v(4) by (auto simp: tags_def)
  then have len: "att_GetLength CLEAN (atc_att s1) = Some (int (card (dom (atc_map s1))))"
      "att_GetLength FREE (atc_att s1) = Some (att_length (atc_att s1) - int (card (dom (atc_map s1))))"
      and cl: "int (card (tags (\<lambda>x. x = CLEAN) (atc_map s1))) \<le> att_length (atc_att s1)"
    using map_GetLength(1,2) [OF ok] map_card [OF ok] by simp_all
  have rdy: "att_ready (atc_att s1)" using inv by (simp add: atc_inv_def att_ready_def)
  define att2 where "att2 = snd (att_ClearStats (pf_AddTableOp pf1) (atc_att s1))"
  note a = clear_stats_ready [OF rdy, of "pf_AddTableOp pf1", folded att2_def]
  obtain pf2 mc2 where m: "mc_Clear (pf_AddTableOp (pf_AddTableOp pf1)) bl1 (atc_mc s1) = Some (pf2, bl1 @ concat (map (writeback (atc_mc s1)) (map fst (mc_entries (atc_mc s1)))), mc2)"
      "ignore_latency pf2 = ignore_latency pf1" "mc_inv mc2" "mc_counted mc2" "mc_block_bits mc2 = mc_block_bits (atc_mc s1)"
      "mc_page_bits mc2 = mc_page_bits (atc_mc s1)" "mc_ptt_capacity mc2 = mc_ptt_capacity (atc_mc s1)"
      "mc_nvm_pages mc2 = []" "mc_nvm_heap mc2 = []" "mc_dram_heap mc2 = []" "\<not> mc_nvm_heap_filled mc2"
      "\<And>x. mc_find x mc2 = map_option pt_cleaned (mc_find x (atc_mc s1))"
    using mc_Clear_ok [OF g(5) atc_invD(6) [OF inv] pages_fit [OF s1], of "pf_AddTableOp (pf_AddTableOp pf1)" bl1] by auto
  define s' where "s' = s1\<lparr>atc_ckpt := True, atc_att := att2, atc_mc := mc2\<rparr>"
  have c2: "att_length att2 = att_length (atc_att s1)" "att_block_bits att2 = atc_bits s1" using a(2) by (simp_all add: att_consts_def)
  have d: "in_dram s' = in_dram s1" using m(6,12) c2 by (simp add: in_dram_def s'_def fun_eq_iff)
  have geo': "atc_geo s' = atc_geo s1" using c2 m(5,6) by (simp add: atc_geo_def s'_def mc_geometry_def)
  have cnt: "atc_counts s'"
    using atc_invD(9) [OF inv] run f(2) cl c2 a(3) by (simp add: atc_counts_def s'_def)
  have blk: "atc_blocks s'"
    unfolding atc_blocks_def d using atc_invD(8) [OF inv] v(4) c2 a(3) by (force simp: atc_blocks_def s'_def)
  have "atc_inv s'"
    unfolding atc_inv_def using inv geo' cnt blk a(1) m(3,4,12) by (auto simp: atc_inv_def s'_def att_ready_def)
  then have "sys_inv s'" using s1 c2 m(5,6,7) by (simp add: sys_inv_def geometry_of_def s'_def atc_Size_def)
  moreover have "vw s' x = vw s1 x" for x using c2 a(3) by (simp add: vw_def s'_def)
  moreover have "atc_stats s'" using a(4) m(8-11) by (simp add: atc_stats_def s'_def atc_budget_def)
  moreover have "atc_BeginCheckpointing ms bl pf s = Some (bl1 @ concat (map (writeback (atc_mc s1)) (map fst (mc_entries (atc_mc s1)))), pf2, s')"
    using run v(1) len m(1) a(5) by (simp add: atc_BeginCheckpointing_def Let_def split_beta att2_def [symmetric] s'_def)
  moreover have "in_dram s1 = in_dram s" using f(8) by auto
  ultimately show ?thesis
    using v m(2) f(1) d fr a(2,3) by (auto simp: flushed_def s'_def atc_frame_def)
qed

theorem FinishCheckpointing_ok:
  assumes s: "sys_inv s" and ck: "atc_ckpt s" and bk: "atc_stats s"
  shows "\<exists>s'. atc_FinishCheckpointing ms pf s = Some s' \<and> sys_inv s' \<and> \<not> atc_ckpt s' \<and> atc_stats s' \<and>
    atc_phy_range s' = atc_phy_range s \<and> in_dram s' = in_dram s \<and> atc_map s' = atc_map s \<and>
    att_consts (atc_att s') = att_consts (atc_att s) \<and> vw s' = vw s"
proof -
  note inv = sys_inv_atc [OF s]
  note g = atc_geoD [OF atc_invD(1) [OF inv]] and blk = atc_invD(8) [OF inv]
  have len: "0 \<le> vb_length (atc_nvm s)" using g(6) by (simp add: vb_geometry_def)
  let ?N = "vb_aged (atc_nvm s)"
  define s1 where "s1 = s\<lparr>atc_nvm := ?N, atc_ckpt := False\<rparr>"
  have sz: "vb_Size ?N = vb_Size (atc_nvm s)" by (simp add: vb_Size_def)
  have d: "in_dram s1 = in_dram s" by (simp add: in_dram_def s1_def fun_eq_iff)
  have "owns ?N nvm_state (atc_map s)" using atc_owns(1) [OF blk] by (simp add: owns_def)
  then have "atc_blocks s1" unfolding atc_blocks_def d using blk by (auto simp: atc_blocks_def s1_def)
  moreover have cnt: "int (card (vb_sets (atc_nvm s) BACKUP1) + card (tags (\<lambda>x. x = CLEAN) (atc_map s))) \<le> att_length (atc_att s)"
    using atc_invD(9) [OF inv] ck by (simp add: atc_counts_def)
  moreover have "atc_counts s1" using atc_invD(9) [OF inv] cnt by (simp add: atc_counts_def s1_def)
  moreover have "atc_geo s1" using atc_invD(1) [OF inv] sz by (simp add: atc_geo_def s1_def)
  ultimately have "atc_inv s1" using inv vb_inv_aged [OF atc_invD(4) [OF inv]] by (simp add: atc_inv_def s1_def)
  then have i1: "sys_inv s1" using s sz by (simp add: sys_inv_def geometry_of_def s1_def atc_Size_def)
  have b1: "atc_stats s1" using bk cnt by (simp add: atc_stats_def atc_budget_def s1_def)
  obtain s2 where k: "atc_hook (OnEpochEnd ms) s1 = Some s2" "keeps s1 s2" "atc_att s2 = atc_att s1" using hook_ok(3) [OF i1] by blast
  note k2 = keepsD [OF k(2)]
  have "vw s1 = vw s" by (simp add: vw_def [abs_def] s1_def)
  moreover have "atc_FinishCheckpointing ms pf s = Some s2"
    using ck k(1) vb_ClearBackup_eq [OF atc_invD(4) [OF inv] len, of pf] by (simp add: atc_FinishCheckpointing_def s1_def)
  ultimately show ?thesis using k2 k2(9) [OF b1] d k(3) by (simp add: s1_def)
qed

end

end
