(* ===== verification/Controller_Migrate.thy ===== *)
theory Controller_Migrate
  imports Controller_Epoch
begin

text \<open>
  Moving pages between NVM and DRAM: \<open>MigrateDRAM\<close>, \<open>MigrateNVM\<close> and the two loops of \<open>MigratePages\<close>. A page
  moves by changing the page table; before a page enters DRAM its blocks leave the block table, their data
  going home. The loops end because every turn takes a page out of a heap.
\<close>

section \<open>Pages and block numbers\<close>

lemma unat_page:
  assumes "aligned p k" "page_of p x = k"
  shows "unat k \<le> unat x" "unat x < unat k + 2 ^ p"
proof -
  obtain y where y: "unat k = 2 ^ p * y" using assms(1) unfolding aligned_unat by (auto elim!: dvdE)
  have "drop_bit p x = drop_bit p k" using assms(2) drop_page_of [of p x] by simp
  then have "unat x div 2 ^ p = unat k div 2 ^ p" using unat_drop [of p] by metis
  then have "unat x div 2 ^ p = y" using y by simp
  then have e: "unat x = unat k + unat x mod 2 ^ p"
    using y div_mult_mod_eq [of "unat x" "2 ^ p"] by (simp add: mult.commute)
  have m: "unat x mod 2 ^ p < 2 ^ p" by simp
  show "unat k \<le> unat x" "unat x < unat k + 2 ^ p" using e m by linarith+
qed

text \<open>The block numbers of a page are an interval.\<close>

lemma page_tags:
  assumes k: "aligned p k" "b \<le> p" and fits: "unat k + 2 ^ p < 2 ^ 64"
  shows "unat (drop_bit b (k + 2 ^ p)) = unat (drop_bit b k) + 2 ^ (p - b)"
    and "page_of p x = k \<Longrightarrow> drop_bit b k \<le> drop_bit b x \<and> drop_bit b x < drop_bit b (k + 2 ^ p)"
proof -
  have p: "p < 64"
  proof (rule ccontr)
    assume "\<not> p < 64"
    then have "(2 :: nat) ^ 64 \<le> 2 ^ p" by (intro power_increasing) simp_all
    then show False using fits by simp
  qed
  have u: "unat (k + 2 ^ p) = unat k + 2 ^ p"
    using unat_plus_of_nat [OF fits] by simp
  obtain y where y: "unat k = 2 ^ p * y" using k(1) unfolding aligned_unat by (auto elim!: dvdE)
  have pb: "(2 :: nat) ^ p = 2 ^ (p - b) * 2 ^ b" using k(2) by (simp add: power_add [symmetric])
  have d: "unat (drop_bit b k) = 2 ^ (p - b) * y"
    unfolding unat_drop y pb by (simp add: mult.assoc mult.commute)
  show n: "unat (drop_bit b (k + 2 ^ p)) = unat (drop_bit b k) + 2 ^ (p - b)"
  proof -
    have "unat (k + 2 ^ p) = (2 ^ (p - b) * y + 2 ^ (p - b)) * 2 ^ b" using u y pb by (simp add: algebra_simps)
    then show ?thesis unfolding unat_drop [of b "k + 2 ^ p"] d by simp
  qed
  assume x: "page_of p x = k"
  note r = unat_page [OF k(1) x]
  have "unat (drop_bit b k) \<le> unat (drop_bit b x)" unfolding unat_drop using r(1) by (rule div_le_mono)
  moreover have "unat (drop_bit b x) < unat (drop_bit b k) + 2 ^ (p - b)"
  proof -
    have "unat x < (2 ^ (p - b) * y + 2 ^ (p - b)) * 2 ^ b" using r(2) y pb by (simp add: algebra_simps)
    then show ?thesis unfolding d unat_drop [of b x] by (rule less_mult_imp_div_less)
  qed
  ultimately show "drop_bit b k \<le> drop_bit b x \<and> drop_bit b x < drop_bit b (k + 2 ^ p)"
    unfolding word_le_nat_alt word_less_nat_alt n by simp
qed

context mem_store
begin

section \<open>Sending a block home\<close>

lemma release_nvm_home:
  assumes s: "sys_inv s" and run: "\<not> atc_ckpt s" and h: "att_holds (atc_att s) i t"
    and st: "nvm_state (att_state (ent (atc_att s) i))" and nst: "\<not> atc_stats s"
    and j: "j \<in> vb_sets (atc_nvm s) IN_USE" "mach_base (ent (atc_att s) i) = vb_addr (atc_nvm s) j"
    and m: "ok m" "contents m = block_copy (atc_bits s) (push_bit (atc_bits s) t) (mach_base (ent (atc_att s) i)) (contents (atc_mem s))"
    and a: "att_ready att'" "att_consts att' = att_consts (atc_att s)" "tbl att' = (atc_map s)(t := None)"
    and s': "s' = s\<lparr>atc_mem := m, atc_nvm := vb_move j IN_USE VB_FREE (atc_nvm s), atc_att := att'\<rparr>"
  shows "block_step True t None s s'"
proof -
  note inv = sys_inv_atc [OF s] and e = entry_facts [OF s h]
  note g = atc_geoD [OF atc_invD(1) [OF inv]] and blk = atc_invD(8) [OF inv]
  have fr: "atc_frame s s'" using a(2) by (simp add: s' atc_frame_def)
  have out: "outside dram_state (atc_map s t)" using e(3) st by (auto simp: nvm_state_def)
  have own: "owns (atc_nvm s') nvm_state (atc_map s')" "owns (atc_dram s') dram_state (atc_map s')"
    using owns_release [OF atc_owns(1) [OF blk] g(6) atc_invD(4) [OF inv], of t "att_state (ent (atc_att s) i)" j VB_FREE None]
      owns_other [OF atc_owns(2) [OF blk] out, of None] st j e(3) a(3) by (simp_all add: s')
  have cnt: "atc_counts s' \<and> (atc_budget s \<longrightarrow> atc_budget s')"
    by (rule counts_keep [OF inv fr, where t = t and v = None])
      (use atc_invD(9) [OF inv] a(3) in \<open>simp_all add: s' vb_sets_move atc_counts_def\<close>)
  have "atc_inv s'"
  proof (rule atc_inv_step [OF inv fr, where t = t and v = None])
    show "atc_counts s'" using cnt by simp
    show "vb_inv (atc_nvm s')" using vb_inv_move [OF atc_invD(4) [OF inv] j(1)] by (simp add: s')
  qed (use own a atc_invD(5) [OF inv] in \<open>simp_all add: s' att_ready_def entry_fits_def\<close>)
  then show ?thesis
    using fresh_home [OF inv e(4)] m a(3) e(5) fr cnt nst
    by (intro block_stepI [OF s _ fr _ _ e(4)]) (auto simp: s' loc_def)
qed

lemma keeps_att_flushed: "keeps s (s\<lparr>atc_att := att'\<rparr>) \<Longrightarrow> flushed s (s\<lparr>atc_att := att'\<rparr>)"
  using keepsD(8) [of s "s\<lparr>atc_att := att'\<rparr>"] by (simp add: flushed_def keeps_def atc_frame_def)

text \<open>One block of a page that enters DRAM: afterwards it is not in the table.\<close>

lemma discard_nvm_ok:
  assumes s: "sys_inv s" and run: "\<not> atc_ckpt s" and h: "att_holds (atc_att s) i t"
    and st: "nvm_state (att_state (ent (atc_att s) i))" and nst: "\<not> atc_stats s"
  shows "\<exists>m pf' s'. atc_CopyBlockIntra ms (push_bit (atc_bits s) t) (mach_base (ent (atc_att s) i)) None pf s =
      Some (None, pf_AddBlockMoveIntra 1 pf, s\<lparr>atc_mem := m\<rparr>) \<and>
    atc_Discard i True (pf_AddBlockMoveIntra 1 pf) (s\<lparr>atc_mem := m\<rparr>) = Some (pf', s') \<and>
    ignore_latency pf' = ignore_latency pf \<and> block_step True t None s s'"
proof -
  let ?e = "ent (atc_att s) i" and ?h = "push_bit (atc_bits s) t"
  note inv = sys_inv_atc [OF s] and e = entry_facts [OF s h]
  note g = atc_geoD [OF atc_invD(1) [OF inv]]
  obtain j where j: "j \<in> vb_sets (atc_nvm s) IN_USE" "mach_base ?e = vb_addr (atc_nvm s) j"
      "geo_place geo (vb_addr (atc_nvm s) j)" "?h \<noteq> vb_addr (atc_nvm s) j"
    using nvm_entry [OF s h st] by blast
  obtain m where m: "atc_CopyBlockIntra ms ?h (mach_base ?e) None pf s = Some (None, pf_AddBlockMoveIntra 1 pf, s\<lparr>atc_mem := m\<rparr>)"
      "ok m" "contents m = block_copy (atc_bits s) ?h (mach_base ?e) (contents (atc_mem s))"
    using copy_ok [OF store_okI [OF s] place_home [OF s e(4)], of "mach_base ?e" None pf] j by (auto simp: push_ckpt_def)
  let ?N = "vb_move j IN_USE VB_FREE (atc_nvm s)" and ?pf = "pf_AddBlockMoveIntra 1 pf"
  have N: "vb_FreeSlot (mach_base ?e) IN_USE ?pf (atc_nvm s) = Some (pf_AddBufferOp ?pf, ?N)"
    unfolding j(2) by (rule vb_FreeSlot_eq [OF g(6) atc_invD(4) [OF inv] j(1)]) simp
  have "att_state ?e \<noteq> FREE" using st by auto
  then obtain att' where a: "att_ShiftState i FREE ?pf (atc_att s) = Some (pf_AddTableOp ?pf, att')"
      "att_ready att'" "att_consts att' = att_consts (atc_att s)" "tbl att' = (atc_map s)(t := None)"
    using ready_ShiftState [OF e(6) h, of FREE ?pf] by auto
  have "atc_Discard i True ?pf (s\<lparr>atc_mem := m\<rparr>) = Some (pf_AddTableOp ?pf, s\<lparr>atc_mem := m, atc_nvm := ?N, atc_att := att'\<rparr>)"
    using run e(1) N a(1) by (simp add: atc_Discard_def Let_def)
  then show ?thesis
    using m(1) release_nvm_home [OF s run h st nst j(1,2) m(2,3) a(2-4) refl] by auto
qed

lemma discard_dram_ok:
  assumes s: "sys_inv s" and run: "\<not> atc_ckpt s" and h: "att_holds (atc_att s) i t"
    and st: "dram_state (att_state (ent (atc_att s) i))" and nst: "\<not> atc_stats s"
  shows "\<exists>m pf' s'. atc_CopyBlockInter ms (push_bit (atc_bits s) t) (mach_base (ent (atc_att s) i)) None pf s =
      Some (None, pf_AddBlockMoveInter 1 pf, s\<lparr>atc_mem := m\<rparr>) \<and>
    atc_Discard i False (pf_AddBlockMoveInter 1 pf) (s\<lparr>atc_mem := m\<rparr>) = Some (pf', s') \<and>
    ignore_latency pf' = ignore_latency pf \<and> block_step True t None s s'"
proof -
  let ?e = "ent (atc_att s) i" and ?h = "push_bit (atc_bits s) t"
  note inv = sys_inv_atc [OF s] and e = entry_facts [OF s h]
  note g = atc_geoD [OF atc_invD(1) [OF inv]]
  obtain j where j: "j \<in> vb_sets (atc_dram s) IN_USE" "mach_base ?e = vb_addr (atc_dram s) j"
      "geo_place geo (vb_addr (atc_dram s) j)" "?h \<noteq> vb_addr (atc_dram s) j"
    using dram_entry [OF s h st] by blast
  obtain m where m: "atc_CopyBlockInter ms ?h (mach_base ?e) None pf s = Some (None, pf_AddBlockMoveInter 1 pf, s\<lparr>atc_mem := m\<rparr>)"
      "ok m" "contents m = block_copy (atc_bits s) ?h (mach_base ?e) (contents (atc_mem s))"
    using copy_ok [OF store_okI [OF s] place_home [OF s e(4)], of "mach_base ?e" None pf] j by (auto simp: push_ckpt_def)
  let ?D = "vb_move j IN_USE VB_FREE (atc_dram s)" and ?pf = "pf_AddBlockMoveInter 1 pf"
  have N: "vb_FreeSlot (mach_base ?e) IN_USE ?pf (atc_dram s) = Some (pf_AddBufferOp ?pf, ?D)"
    unfolding j(2) by (rule vb_FreeSlot_eq [OF g(7) atc_invD(5) [OF inv] j(1)]) simp
  have "att_state ?e \<noteq> FREE" using st by auto
  then obtain att' where a: "att_ShiftState i FREE ?pf (atc_att s) = Some (pf_AddTableOp ?pf, att')"
      "att_ready att'" "att_consts att' = att_consts (atc_att s)" "tbl att' = (atc_map s)(t := None)"
    using ready_ShiftState [OF e(6) h, of FREE ?pf] by auto
  have "atc_Discard i False ?pf (s\<lparr>atc_mem := m\<rparr>) = Some (pf_AddTableOp ?pf, s\<lparr>atc_mem := m, atc_dram := ?D, atc_att := att'\<rparr>)"
    using run e(1) N a(1) by (simp add: atc_Discard_def Let_def)
  then show ?thesis
    using m(1) release_dram_home [OF s run h st j(1,2) _ m(2) _ a(2-4) _ refl, of True] m(3) nst by auto
qed

lemma ignore_roundtrip:
  "\<not> ignore_latency pf \<Longrightarrow> pf_set_ignore_latency pf = Some (pf\<lparr>ignore_latency := True\<rparr>)"
  "ignore_latency pf \<Longrightarrow> pf_clear_ignore_latency pf = Some (pf\<lparr>ignore_latency := False\<rparr>)"
  by (simp_all add: pf_set_ignore_latency_def pf_clear_ignore_latency_def)

lemma filled_no_stats: "mc_nvm_heap_filled (atc_mc s) \<Longrightarrow> \<not> atc_stats s"
  by (simp add: atc_stats_def)

lemma migrate_block_ok:
  assumes s: "sys_inv s" and run: "\<not> atc_ckpt s" and fi: "mc_nvm_heap_filled (atc_mc s)" and pf: "\<not> ignore_latency pf"
    and nl: "tags (\<lambda>x. x = LOAN) (atc_map s) = {}"
  shows "\<exists>bl' pf' s'. atc_migrate_block ms t bl pf s = Some (bl', pf', s') \<and> \<not> ignore_latency pf' \<and>
    flushed s s' \<and> atc_map s' = (atc_map s)(t := None)"
proof (cases "atc_map s t")
  case None
  have "(atc_map s)(t := None) = atc_map s" using None by auto
  then show ?thesis
    using map_Lookup_miss [OF None, of pf] flushed_refl [OF s] pf by (simp add: atc_migrate_block_def)
next
  case (Some v)
  obtain i att1 where l: "att_Lookup t pf (atc_att s) = Some (i, pf_AddTableOp pf, att1)" "i \<noteq> - EINVAL"
      "keeps s (s\<lparr>atc_att := att1\<rparr>)" "att_holds att1 i t"
    using Lookup_ok [OF s Some, of pf] by blast
  define s1 where "s1 = s\<lparr>atc_att := att1\<rparr>"
  note k1 = keepsD [OF l(3) [folded s1_def]]
  have h: "att_holds (atc_att s1) i t" and run1: "\<not> atc_ckpt s1" using l(4) run by (simp_all add: s1_def)
  have f1: "flushed s s1" using keeps_att_flushed [OF l(3)] by (simp add: s1_def)
  have nst: "\<not> atc_stats s1" using filled_no_stats [of s1] fi by (simp add: s1_def)
  let ?e = "ent (atc_att s1) i" and ?pf = "(pf_AddTableOp pf)\<lparr>ignore_latency := True\<rparr>" and ?h = "push_bit (atc_bits s1) t"
  note e = entry_facts [OF k1(1) h]
  have pf1: "pf_set_ignore_latency (pf_AddTableOp pf) = Some ?pf" using ignore_roundtrip(1) [of "pf_AddTableOp pf"] pf by simp
  have At: "att_At i att1 = Some ?e" "att_block_bits att1 = atc_bits s1" "att1 = atc_att s1" using e(1) by (simp_all add: s1_def)
  have fin: ?thesis
    if r: "atc_migrate_block ms t bl pf s = (do { pf \<leftarrow> pf_clear_ignore_latency pf2; Some (bl2, pf, s2) })" "ignore_latency pf2"
      "flushed s1 s2" "atc_map s2 = (atc_map s1)(t := None)" for bl2 pf2 s2
    using r ignore_roundtrip(2) [OF r(2)] flushed_trans [OF f1 r(3)] k1(2) by simp
  have nf: "att_state ?e \<noteq> LOAN" "att_state ?e \<noteq> FREE"
    using nl e(3) k1(2) att_tbl_not_FREE [OF atc_invD(2) [OF sys_inv_atc [OF k1(1)]] e(3)] unfolding tags_def by auto
  consider (nvm) "att_state ?e = CLEAN \<or> att_state ?e = DIRTY" | (dram) "att_state ?e = STAINED \<or> att_state ?e = TEMP" | (hidden) "att_state ?e = HIDDEN"
    using nf by (cases "att_state ?e") simp_all
  then show ?thesis
  proof cases
    case nvm
    then have st: "nvm_state (att_state ?e)" by auto
    obtain m pf2 s2 where r: "atc_CopyBlockIntra ms ?h (mach_base ?e) None (pf_AddBlockMoveInter 1 ?pf) s1 =
          Some (None, pf_AddBlockMoveIntra 1 (pf_AddBlockMoveInter 1 ?pf), s1\<lparr>atc_mem := m\<rparr>)"
        "atc_Discard i True (pf_AddBlockMoveIntra 1 (pf_AddBlockMoveInter 1 ?pf)) (s1\<lparr>atc_mem := m\<rparr>) = Some (pf2, s2)"
        "ignore_latency pf2 = ignore_latency (pf_AddBlockMoveInter 1 ?pf)" "block_step True t None s1 s2"
      using discard_nvm_ok [OF k1(1) run1 h st nst, of "pf_AddBlockMoveInter 1 ?pf"] by blast
    have "atc_migrate_block ms t bl pf s = (do { pf \<leftarrow> pf_clear_ignore_latency pf2; Some (bl @ [?h], pf, s2) })"
      using l(1,2) At(1,2) pf1 nvm r(1,2) e(2) by (simp add: atc_migrate_block_def s1_def [symmetric] Let_def att_ToAddr_def)
    then show ?thesis using fin [OF _ _ block_step_flushed [OF r(4)]] r(3,4) by (simp add: block_step_def)
  next
    case dram
    then have st: "dram_state (att_state ?e)" by auto
    obtain m pf2 s2 where r: "atc_CopyBlockInter ms ?h (mach_base ?e) None (pf_AddBlockMoveIntra 1 ?pf) s1 =
          Some (None, pf_AddBlockMoveInter 1 (pf_AddBlockMoveIntra 1 ?pf), s1\<lparr>atc_mem := m\<rparr>)"
        "atc_Discard i False (pf_AddBlockMoveInter 1 (pf_AddBlockMoveIntra 1 ?pf)) (s1\<lparr>atc_mem := m\<rparr>) = Some (pf2, s2)"
        "ignore_latency pf2 = ignore_latency (pf_AddBlockMoveIntra 1 ?pf)" "block_step True t None s1 s2"
      using discard_dram_ok [OF k1(1) run1 h st nst, of "pf_AddBlockMoveIntra 1 ?pf"] by blast
    have "atc_migrate_block ms t bl pf s = (do { pf \<leftarrow> pf_clear_ignore_latency pf2; Some (bl @ [?h], pf, s2) })"
      using l(1,2) At(1,2) pf1 dram r(1,2) e(2) by (auto simp: atc_migrate_block_def s1_def [symmetric] Let_def att_ToAddr_def)
    then show ?thesis using fin [OF _ _ block_step_flushed [OF r(4)]] r(3,4) by (simp add: block_step_def)
  next
    case hidden
    obtain att2 where a: "att_ShiftState i FREE (pf_AddBlockMoveInter 1 ?pf) (atc_att s1) = Some (pf_AddTableOp (pf_AddBlockMoveInter 1 ?pf), att2)"
        "flushed s1 (s1\<lparr>atc_att := att2\<rparr>)" "tbl att2 = (atc_map s1)(t := None)"
      using drop_hidden_ok [OF k1(1) run1 h hidden, of "pf_AddBlockMoveInter 1 ?pf"] by blast
    have "atc_migrate_block ms t bl pf s = (do { pf \<leftarrow> pf_clear_ignore_latency (pf_AddTableOp (pf_AddBlockMoveInter 1 ?pf)); Some (bl, pf, s1\<lparr>atc_att := att2\<rparr>) })"
      using l(1,2) At(1,2) pf1 hidden a(1) by (simp add: atc_migrate_block_def s1_def [symmetric] Let_def At(3) [symmetric])
    then show ?thesis using fin [OF _ _ a(2)] a(3) by simp
  qed
qed

text \<open>The loop over the blocks of a page.\<close>

lemma migrate_blocks_ok:
  assumes "n = unat (next_page - t)" "t \<le> next_page" "sys_inv s" "\<not> atc_ckpt s" "mc_nvm_heap_filled (atc_mc s)" "\<not> ignore_latency pf"
    "tags (\<lambda>x. x = LOAN) (atc_map s) = {}"
  shows "\<exists>bl' pf' s'. atc_migrate_blocks ms next_page t bl pf s = Some (bl', pf', s') \<and> \<not> ignore_latency pf' \<and>
    flushed s s' \<and> atc_map s' = (\<lambda>x. if t \<le> x \<and> x < next_page then None else atc_map s x)"
  using assms
proof (induction n arbitrary: t bl pf s)
  case 0
  then have "t = next_page" using unat_0_iff [of "next_page - t"] by simp
  then have "atc_migrate_blocks ms next_page t bl pf s = Some (bl, pf, s)" by (subst atc_migrate_blocks.simps) simp
  then show ?case using \<open>t = next_page\<close> 0 flushed_refl [of s] by (auto simp: fun_eq_iff not_le)
next
  case (Suc n)
  have lt: "t < next_page" using Suc.prems(1,2) by (cases "t = next_page") simp_all
  obtain bl1 pf1 s1 where r: "atc_migrate_block ms t bl pf s = Some (bl1, pf1, s1)" "\<not> ignore_latency pf1" "flushed s s1"
      "atc_map s1 = (atc_map s)(t := None)"
    using migrate_block_ok [OF Suc.prems(3-7), of t bl] by blast
  have s1: "sys_inv s1" "\<not> atc_ckpt s1" "mc_nvm_heap_filled (atc_mc s1)"
    using r(3) Suc.prems(4,5) atc_frameD(2,3) [of s s1] by (simp_all add: flushed_def)
  have nl: "tags (\<lambda>x. x = LOAN) (atc_map s1) = {}" using Suc.prems(7) no_loan_upd [of "atc_map s" None t] r(4) by simp
  have step: "t + 1 \<le> next_page" "unat (next_page - (t + 1)) = n"
  proof -
    show "t + 1 \<le> next_page" using lt by (simp add: inc_le)
    have eq: "next_page - (t + 1) = next_page - t - 1" by simp
    have "unat (next_page - t - 1) = unat (next_page - t) - 1"
      using Suc.prems(1) by (intro unat_minus_one) auto
    then show "unat (next_page - (t + 1)) = n" unfolding eq using Suc.prems(1) by simp
  qed
  obtain bl2 pf2 s2 where r2: "atc_migrate_blocks ms next_page (t + 1) bl1 pf1 s1 = Some (bl2, pf2, s2)" "\<not> ignore_latency pf2"
      "flushed s1 s2" "atc_map s2 = (\<lambda>x. if t + 1 \<le> x \<and> x < next_page then None else atc_map s1 x)"
    using Suc.IH [OF step(2) [symmetric] step(1) s1 r(2) nl, of bl1] by blast
  have "atc_migrate_blocks ms next_page t bl pf s = Some (bl2, pf2, s2)"
    using lt r(1) r2(1) by (subst atc_migrate_blocks.simps) simp
  moreover have "atc_map s2 = (\<lambda>x. if t \<le> x \<and> x < next_page then None else atc_map s x)"
  proof
    fix x
    have "unat next_page < 2 ^ LENGTH(64)" by (rule unsigned_less)
    then have "unat t + 1 < 2 ^ 64" using lt by (simp add: word_less_nat_alt)
    then have "unat (t + 1) = unat t + 1" using unat_plus_of_nat [of t 1] by simp
    then have "t + 1 \<le> x \<longleftrightarrow> t < x" by (simp add: word_le_nat_alt word_less_nat_alt Suc_le_eq)
    then show "atc_map s2 x = (if t \<le> x \<and> x < next_page then None else atc_map s x)"
      using r2(4) r(4) lt by (auto simp: word_le_less_eq)
  qed
  ultimately show ?case using flushed_trans [OF r(3) r2(3)] r2(2) by blast
qed

lemma nvm_stats_addr: "map np_phy_addr (map (nvm_stats mc) ps) = map fst ps"
  by (simp add: nvm_stats_def)

lemma dram_stats_addr: "map dp_phy_addr (map (dram_stats mc) es) = map fst es"
  by (simp add: dram_stats_def)

section \<open>Moving a page\<close>

definition mig :: "'m ATC \<Rightarrow> 'm ATC \<Rightarrow> bool" where
  "mig s s' \<longleftrightarrow> sys_inv s' \<and> atc_phy_range s' = atc_phy_range s \<and> atc_ckpt s' = atc_ckpt s \<and>
     att_consts (atc_att s') = att_consts (atc_att s) \<and> tags (\<lambda>x. x = LOAN) (atc_map s') = {} \<and>
     (\<forall>a < atc_phy_range s. vw s' a = vw s a)"

lemma mig_trans: "mig s s' \<Longrightarrow> mig s' s'' \<Longrightarrow> mig s s''"
  by (simp add: mig_def)

lemma mig_refl: "sys_inv s \<Longrightarrow> tags (\<lambda>x. x = LOAN) (atc_map s) = {} \<Longrightarrow> mig s s"
  by (simp add: mig_def)

lemma migD:
  assumes "mig s s'"
  shows "sys_inv s'" "tags (\<lambda>x. x = LOAN) (atc_map s') = {}" "atc_phy_range s' = atc_phy_range s" "atc_ckpt s' = atc_ckpt s"
    "atc_bits s' = atc_bits s"
  using assms by (simp_all add: mig_def att_consts_def)

text \<open>A new page table fits when no block of the table lies in a page it lists.\<close>

lemma mig_mc:
  assumes s: "sys_inv s" and nl: "tags (\<lambda>x. x = LOAN) (atc_map s) = {}"
    and m: "mc_inv mc'" "mc_counted mc'" "mc_block_bits mc' = mc_block_bits (atc_mc s)" "mc_page_bits mc' = mc_page_bits (atc_mc s)"
      "mc_ptt_capacity mc' = mc_ptt_capacity (atc_mc s)"
    and rng: "\<And>k. mc_find k mc' \<noteq> None \<Longrightarrow> k < atc_phy_range s"
    and free: "\<And>t. atc_map s t \<noteq> None \<Longrightarrow> mc_find (page_of (mc_page_bits (atc_mc s)) (push_bit (atc_bits s) t)) mc' = None"
  shows "mig s (s\<lparr>atc_mc := mc'\<rparr>)"
proof -
  let ?s = "s\<lparr>atc_mc := mc'\<rparr>"
  note inv = sys_inv_atc [OF s]
  have d: "\<not> in_dram ?s t" if "atc_map s t \<noteq> None" for t using free [OF that] m(4) by (simp add: in_dram_def)
  have l: "st \<noteq> LOAN" if "atc_map s t = Some (st, a)" for t st a using nl that unfolding tags_def by blast
  have "atc_blocks ?s"
    unfolding atc_blocks_def
  proof (intro conjI allI impI)
    fix t st a assume "atc_map ?s t = Some (st, a)"
    then have t: "atc_map s t = Some (st, a)" by simp
    note b = atc_blocksD [OF atc_invD(8) [OF inv] t]
    show "valid_tag (atc_bits ?s) (atc_phy_range ?s) t" "st = HIDDEN \<Longrightarrow> a = push_bit (atc_bits ?s) t"
      "atc_ckpt ?s \<Longrightarrow> st \<noteq> DIRTY" "atc_ckpt ?s \<Longrightarrow> st \<noteq> HIDDEN" using b by simp_all
    show "st = LOAN \<longleftrightarrow> in_dram ?s t" using d [of t] l [OF t] t by simp
  qed (use atc_owns [OF atc_invD(8) [OF inv]] in simp_all)
  moreover have "atc_geo ?s" using atc_invD(1) [OF inv] m(3,4) by (simp add: atc_geo_def mc_geometry_def)
  moreover have "atc_counts ?s" using atc_invD(9) [OF inv] by (simp add: atc_counts_def split: if_splits)
  ultimately have "atc_inv ?s" using inv m(1,2) rng by (auto simp: atc_inv_def)
  then show ?thesis using s m(4,5) nl by (simp add: mig_def sys_inv_def geometry_of_def atc_Size_def vw_def)
qed

lemma no_block_in_dram:
  assumes s: "sys_inv s" and nl: "tags (\<lambda>x. x = LOAN) (atc_map s) = {}" and t: "atc_map s t \<noteq> None"
  shows "mc_find (page_of (mc_page_bits (atc_mc s)) (push_bit (atc_bits s) t)) (atc_mc s) = None"
proof -
  obtain st a where v: "atc_map s t = Some (st, a)" using t by auto
  have "st \<noteq> LOAN" using nl v unfolding tags_def by blast
  then show ?thesis using atc_blocksD(2) [OF atc_invD(8) [OF sys_inv_atc [OF s]] v] by (simp add: in_dram_def)
qed

lemma page_fits:
  assumes s: "sys_inv s" and k: "aligned (mc_page_bits (atc_mc s)) k" "k < atc_phy_range s"
  shows "unat k + 2 ^ mc_page_bits (atc_mc s) < 2 ^ 64" "page_of (mc_page_bits (atc_mc s)) x = k \<Longrightarrow> x < atc_phy_range s"
proof -
  note g = atc_geoD [OF sys_inv_geo [OF s]]
  let ?p = "mc_page_bits (atc_mc s)"
  obtain x y where x: "unat k = 2 ^ ?p * x" "unat (atc_phy_range s) = 2 ^ ?p * y"
    using k(1) g(12) unfolding aligned_unat by (auto elim!: dvdE)
  then have "x + 1 \<le> y" using k(2) by (simp add: word_less_nat_alt)
  then have "2 ^ ?p * (x + 1) \<le> 2 ^ ?p * y" by (rule mult_le_mono2)
  then have le: "unat k + 2 ^ ?p \<le> unat (atc_phy_range s)" using x by (simp add: algebra_simps)
  have "unat (atc_phy_range s) < 2 ^ LENGTH(64)" by (rule unsigned_less)
  with le have "unat k + 2 ^ ?p < 2 ^ LENGTH(64)" by (rule order.strict_trans1)
  then show "unat k + 2 ^ ?p < 2 ^ 64" by simp
  show "x < atc_phy_range s" if "page_of ?p x = k" for x
    using unat_page(2) [OF k(1) that] le by (simp add: word_less_nat_alt)
qed

lemma MigrateDRAM_ok:
  assumes s: "sys_inv s" and nl: "tags (\<lambda>x. x = LOAN) (atc_map s) = {}" and e: "mc_find (dp_phy_addr d) (atc_mc s) = Some e"
  shows "\<exists>bl' pf' mc'. atc_MigrateDRAM d bl pf s = Some (bl', pf', s\<lparr>atc_mc := mc'\<rparr>) \<and> ignore_latency pf' = ignore_latency pf \<and>
    mig s (s\<lparr>atc_mc := mc'\<rparr>) \<and> mc_same (atc_mc s) mc' \<and> mc_num_entries mc' < mc_ptt_capacity mc' \<and>
    (\<forall>x. mc_find x mc' = (if x = dp_phy_addr d then None else mc_find x (atc_mc s)))"
proof -
  let ?k = "dp_phy_addr d"
  note inv = sys_inv_atc [OF s]
  note g = atc_geoD(5) [OF sys_inv_geo [OF s]] and en = mc_inv_entry [OF atc_invD(6) [OF inv] e]
  have fits: "unat ?k + 2 ^ mc_page_bits (atc_mc s) < 2 ^ 64"
    using pages_fit [OF s] e by (simp add: mc_fits_def)
  note add = mc_AddToBlockList_eq [OF g en(1) fits]
  obtain bl1 pf1 where l: "(if dp_state d = CLEAN_STATIC then do { bl \<leftarrow> mc_AddToBlockList ?k bl (atc_mc s); Some (bl, pf_AddPageMoveIntra 1 pf) }
       else if dp_state d = DIRTY_DIRECT then do { bl \<leftarrow> mc_AddToBlockList ?k bl (atc_mc s); Some (bl, pf_AddPageMoveInter 1 pf) }
       else if dp_state d = DIRTY_STATIC then do { bl \<leftarrow> mc_AddToBlockList ?k bl (atc_mc s); bl \<leftarrow> mc_AddToBlockList ?k bl (atc_mc s);
         Some (bl, pf_AddPageMoveInter 1 (pf_AddPageMoveIntra 1 pf)) }
       else Some (bl, pf)) = Some (bl1, pf1)" "ignore_latency pf1 = ignore_latency pf"
    by (cases "dp_state d") (simp_all add: add)
  obtain mc' where m: "mc_Free ?k pf1 (atc_mc s) = Some (pf_AddTableOp pf1, mc')" "mc_inv mc'" "mc_same (atc_mc s) mc'"
      "\<And>x. mc_find x mc' = (if x = ?k then None else mc_find x (atc_mc s))" "mc_free_slots mc' = mc_free_slots (atc_mc s) @ [pt_index e]"
    using mc_Free_ok [OF g atc_invD(6) [OF inv] e, of pf1] by blast
  have "mc_counted mc'" using atc_invD(7) [OF inv] m(4) by (simp add: mc_counted_def)
  moreover have "mc_find k mc' \<noteq> None \<Longrightarrow> k < atc_phy_range s" for k
    using m(4) atc_invD(10) [OF inv, of k] by (simp split: if_splits)
  ultimately have "mig s (s\<lparr>atc_mc := mc'\<rparr>)"
    using m(2,3,4) no_block_in_dram [OF s nl] by (intro mig_mc [OF s nl]) (auto simp: mc_same_def)
  moreover have "mc_num_entries mc' < mc_ptt_capacity mc'"
    using mc_inv_balanced [OF m(2)] m(5) by (simp add: mc_slots_balanced_def mc_num_entries_def)
  moreover have "atc_MigrateDRAM d bl pf s = Some (bl1, pf_AddTableOp pf1, s\<lparr>atc_mc := mc'\<rparr>)"
    unfolding atc_MigrateDRAM_def l(1) using m(1) by simp
  ultimately show ?thesis using m(3,4) l(2) by auto
qed

lemma MigrateNVM_ok:
  assumes s: "sys_inv s" and run: "\<not> atc_ckpt s" and fi: "mc_nvm_heap_filled (atc_mc s)" and pf: "\<not> ignore_latency pf"
    and nl: "tags (\<lambda>x. x = LOAN) (atc_map s) = {}" and k: "aligned (mc_page_bits (atc_mc s)) (np_phy_addr n)" "np_phy_addr n < atc_phy_range s"
      "mc_find (np_phy_addr n) (atc_mc s) = None" and room: "mc_num_entries (atc_mc s) < mc_ptt_capacity (atc_mc s)"
  shows "\<exists>bl' pf' s'. atc_MigrateNVM ms n bl pf s = Some (bl', pf', s') \<and> \<not> ignore_latency pf' \<and> mig s s' \<and>
    mc_same (atc_mc s) (atc_mc s') \<and> (\<forall>x. mc_find x (atc_mc s') = None \<longleftrightarrow> x \<noteq> np_phy_addr n \<and> mc_find x (atc_mc s) = None)"
proof -
  let ?k = "np_phy_addr n" and ?p = "mc_page_bits (atc_mc s)" and ?b = "atc_bits s"
  note g = atc_geoD [OF sys_inv_geo [OF s]]
  have pb: "?b \<le> ?p" "?p \<le> 30" using g(4,5) by (simp_all add: mc_geometry_def)
  note fits = page_fits [OF s k(1,2)]
  note pt = page_tags [OF k(1) pb(1) fits(1)]
  have nx: "word_of_int (mc_page_size (atc_mc s)) = (2 :: Addr) ^ ?p" using mc_page_size_eq [OF g(5)] by simp
  let ?t = "drop_bit ?b ?k" and ?n = "drop_bit ?b (?k + 2 ^ ?p)"
  have le: "?t \<le> ?n" using pt(1) by (simp add: word_le_nat_alt)
  have df: "?n - ?t = word_of_int (mc_page_blocks (atc_mc s))"
  proof -
    have "?n = of_nat (unat ?t + 2 ^ (?p - ?b))" unfolding pt(1) [symmetric] by simp
    then have "?n - ?t = 2 ^ (?p - ?b)" by simp
    then show ?thesis using mc_page_blocks_eq [OF g(5)] g(4) by simp
  qed
  obtain bl1 pf1 s1 where r: "atc_migrate_blocks ms ?n ?t bl pf s = Some (bl1, pf1, s1)" "\<not> ignore_latency pf1" "flushed s s1"
      "atc_map s1 = (\<lambda>x. if ?t \<le> x \<and> x < ?n then None else atc_map s x)"
    using migrate_blocks_ok [OF refl le s run fi pf nl, of bl] by blast
  have s1: "sys_inv s1" and fr: "atc_frame s s1" using r(3) by (simp_all add: flushed_def)
  note f = atc_frameD [OF fr] and inv1 = sys_inv_atc [OF s1]
  have nl1: "tags (\<lambda>x. x = LOAN) (atc_map s1) = {}" using nl r(4) by (auto simp: tags_def split: if_splits)
  let ?st = "if np_dirty_ratio n > 1 / 2 then CLEAN_STATIC else CLEAN_DIRECT"
  have nd: "\<not> ptt_dirty ?st" by (simp add: ptt_dirty_def)
  obtain mc2 i where m: "mc_Setup ?k ?st pf1 (atc_mc s1) = Some (pf_AddTableOp pf1, mc2)" "mc_inv mc2" "mc_same (atc_mc s1) mc2"
      "\<And>x. mc_find x mc2 = (if x = ?k then Some (PTTEntry_init\<lparr>pt_index := i, pt_state := ?st, pt_mach_base := ?k\<rparr>) else mc_find x (atc_mc s1))"
    using mc_Setup_ok [OF atc_geoD(5) [OF sys_inv_geo [OF s1]] atc_invD(6) [OF inv1] _ _ _ nd, of ?k pf1] k f(3) room
    by (auto simp: mc_num_entries_def)
  have ct: "mc_counted mc2" using atc_invD(7) [OF inv1] m(4) nd by (auto simp: mc_counted_def PTTEntry_init_def)
  have M: "mig s1 (s1\<lparr>atc_mc := mc2\<rparr>)"
  proof (rule mig_mc [OF s1 nl1 m(2) ct])
    show "mc_find x mc2 \<noteq> None \<Longrightarrow> x < atc_phy_range s1" for x
      using m(4) k(2) f(1) atc_invD(10) [OF inv1, of x] by (simp split: if_splits)
    fix t assume t: "atc_map s1 t \<noteq> None"
    then obtain st a where v: "atc_map s1 t = Some (st, a)" by auto
    have "\<not> (?t \<le> t \<and> t < ?n)" using t r(4) by (auto split: if_splits)
    moreover have "drop_bit ?b (push_bit ?b t) = t"
      using atc_blocksD(1) [OF atc_invD(8) [OF inv1] v] f(4) by (simp add: valid_tag_def)
    ultimately have "page_of ?p (push_bit ?b t) \<noteq> ?k" using pt(2) [of "push_bit ?b t"] by auto
    then show "mc_find (page_of (mc_page_bits (atc_mc s1)) (push_bit (atc_bits s1) t)) mc2 = None"
      using m(4) no_block_in_dram [OF s1 nl1 t] f(3,4) by simp
  qed (use m(3) in \<open>simp_all add: mc_same_def\<close>)
  define s' where "s' = s1\<lparr>atc_mc := mc2, atc_pages_to_dram := atc_pages_to_dram s1 + 1\<rparr>"
  have g2: "mc_geometry mc2" "mc_page_bits mc2 = ?p" using mc_same_geometry [OF m(3)] g(5) m(3) f(3) by (simp_all add: mc_same_def)
  have add: "mc_AddToBlockList ?k bl1 mc2 = Some (bl1 @ page_block_list mc2 ?k)"
    using mc_AddToBlockList_eq [OF g2(1), of ?k bl1] k(1) fits(1) g2(2) by simp
  have "atc_inv s' = atc_inv (s1\<lparr>atc_mc := mc2\<rparr>)"
    by (simp add: s'_def atc_inv_def atc_geo_def atc_blocks_def atc_counts_def in_dram_def)
  then have "mig s1 s'" using M by (simp add: mig_def sys_inv_def s'_def geometry_of_def atc_Size_def vw_def)
  then have "mig s s'"
    using r(3) f(1,2) fr by (simp add: mig_def flushed_def atc_frame_def)
  moreover have "atc_MigrateNVM ms n bl pf s = Some (bl1 @ page_block_list mc2 ?k, pf_AddTableOp pf1, s')"
    using df r(1) m(1) add by (simp add: atc_MigrateNVM_def Let_def att_ToTag_def nx s'_def)
  ultimately show ?thesis using r(2) m(3,4) f(3) by (auto simp: s'_def)
qed

section \<open>The loops\<close>

text \<open>
  What the two heaps hold while pages move: every candidate to move in is a page of the address space that the page
  table does not list, every candidate to move out is one it lists, and no page is listed twice.
\<close>

definition mig_heaps :: "'m ATC \<Rightarrow> bool" where
  "mig_heaps s \<longleftrightarrow> mc_nvm_heap_filled (atc_mc s) \<and> mc_dram_heap_filled (atc_mc s) \<and>
     is_heap nvm_less (mc_nvm_heap (atc_mc s)) \<and> is_heap dram_less (mc_dram_heap (atc_mc s)) \<and>
     distinct (map np_phy_addr (mc_nvm_heap (atc_mc s))) \<and> distinct (map dp_phy_addr (mc_dram_heap (atc_mc s))) \<and>
     (\<forall>n \<in> set (mc_nvm_heap (atc_mc s)). aligned (mc_page_bits (atc_mc s)) (np_phy_addr n) \<and>
        np_phy_addr n < atc_phy_range s \<and> mc_find (np_phy_addr n) (atc_mc s) = None) \<and>
     (\<forall>d \<in> set (mc_dram_heap (atc_mc s)). mc_find (dp_phy_addr d) (atc_mc s) \<noteq> None)"

lemma mset_pop:
  assumes "mset xs = add_mset x (mset ys)"
  shows "set xs = insert x (set ys)" "length xs = Suc (length ys)"
    "distinct (map f xs) \<Longrightarrow> distinct (map f ys) \<and> f x \<notin> f ` set ys"
proof -
  have m: "mset xs = mset (x # ys)" using assms by simp
  show "set xs = insert x (set ys)" using mset_eq_setD [OF m] by simp
  show "length xs = Suc (length ys)" using mset_eq_length [OF m] by simp
  have "mset (map f xs) = mset (map f (x # ys))" using m by (metis mset_map)
  then show "distinct (map f xs) \<Longrightarrow> distinct (map f ys) \<and> f x \<notin> f ` set ys"
    using mset_eq_imp_distinct_iff by fastforce
qed

lemma mig_heap:
  assumes s: "sys_inv s" and nl: "tags (\<lambda>x. x = LOAN) (atc_map s) = {}" and c: "mc_core mc' = mc_core (atc_mc s)"
  shows "mig s (s\<lparr>atc_mc := mc'\<rparr>)"
  using atc_invD(6,7,10) [OF sys_inv_atc [OF s]] no_block_in_dram [OF s nl] mc_core_fields [OF c]
  by (intro mig_mc [OF s nl]) auto

lemma pop_nvm:
  assumes s: "sys_inv s" and nl: "tags (\<lambda>x. x = LOAN) (atc_map s) = {}" and h: "mig_heaps s"
  shows "mc_ExtractNVMPage pf (atc_mc s) = Some (None, pf, atc_mc s) \<or>
    (\<exists>n heap. mc_ExtractNVMPage pf (atc_mc s) = Some (Some n, pf_AddTableOp pf, (atc_mc s)\<lparr>mc_nvm_heap := heap\<rparr>) \<and>
      mig s (s\<lparr>atc_mc := (atc_mc s)\<lparr>mc_nvm_heap := heap\<rparr>\<rparr>) \<and> mig_heaps (s\<lparr>atc_mc := (atc_mc s)\<lparr>mc_nvm_heap := heap\<rparr>\<rparr>) \<and>
      length (mc_nvm_heap (atc_mc s)) = Suc (length heap) \<and> np_phy_addr n \<notin> np_phy_addr ` set heap \<and>
      aligned (mc_page_bits (atc_mc s)) (np_phy_addr n) \<and> np_phy_addr n < atc_phy_range s \<and> mc_find (np_phy_addr n) (atc_mc s) = None)"
proof -
  consider (none) "mc_ExtractNVMPage pf (atc_mc s) = Some (None, pf, atc_mc s)"
    | (one) n heap where "mc_ExtractNVMPage pf (atc_mc s) = Some (Some n, pf_AddTableOp pf, (atc_mc s)\<lparr>mc_nvm_heap := heap\<rparr>)"
      "mset (mc_nvm_heap (atc_mc s)) = add_mset n (mset heap)" "is_heap nvm_less heap"
    using mc_ExtractNVMPage_ok [of "atc_mc s" pf] h by (auto simp: mig_heaps_def)
  then show ?thesis
  proof cases
    case one
    note p = mset_pop [OF one(2)]
    have "mig s (s\<lparr>atc_mc := (atc_mc s)\<lparr>mc_nvm_heap := heap\<rparr>\<rparr>)" by (rule mig_heap [OF s nl]) (simp add: mc_core_def)
    moreover have "mig_heaps (s\<lparr>atc_mc := (atc_mc s)\<lparr>mc_nvm_heap := heap\<rparr>\<rparr>)"
      using h one(3) p(1) p(3) [of np_phy_addr] by (simp add: mig_heaps_def mc_find_def)
    ultimately show ?thesis using one(1) p(1,2) p(3) [of np_phy_addr] h by (auto simp: mig_heaps_def)
  qed simp
qed

lemma pop_dram:
  assumes s: "sys_inv s" and nl: "tags (\<lambda>x. x = LOAN) (atc_map s) = {}" and h: "mig_heaps s"
  shows "mc_ExtractDRAMPage pf (atc_mc s) = Some (None, pf, atc_mc s) \<or>
    (\<exists>d heap. mc_ExtractDRAMPage pf (atc_mc s) = Some (Some d, pf_AddTableOp pf, (atc_mc s)\<lparr>mc_dram_heap := heap\<rparr>) \<and>
      mig s (s\<lparr>atc_mc := (atc_mc s)\<lparr>mc_dram_heap := heap\<rparr>\<rparr>) \<and> mig_heaps (s\<lparr>atc_mc := (atc_mc s)\<lparr>mc_dram_heap := heap\<rparr>\<rparr>) \<and>
      length (mc_dram_heap (atc_mc s)) = Suc (length heap) \<and> dp_phy_addr d \<notin> dp_phy_addr ` set heap \<and>
      mc_find (dp_phy_addr d) (atc_mc s) \<noteq> None)"
proof -
  consider (none) "mc_ExtractDRAMPage pf (atc_mc s) = Some (None, pf, atc_mc s)"
    | (one) d heap where "mc_ExtractDRAMPage pf (atc_mc s) = Some (Some d, pf_AddTableOp pf, (atc_mc s)\<lparr>mc_dram_heap := heap\<rparr>)"
      "mset (mc_dram_heap (atc_mc s)) = add_mset d (mset heap)" "is_heap dram_less heap"
    using mc_ExtractDRAMPage_ok [of "atc_mc s" pf] h by (auto simp: mig_heaps_def)
  then show ?thesis
  proof cases
    case one
    note p = mset_pop [OF one(2)]
    have "mig s (s\<lparr>atc_mc := (atc_mc s)\<lparr>mc_dram_heap := heap\<rparr>\<rparr>)" by (rule mig_heap [OF s nl]) (simp add: mc_core_def)
    moreover have "mig_heaps (s\<lparr>atc_mc := (atc_mc s)\<lparr>mc_dram_heap := heap\<rparr>\<rparr>)"
      using h one(3) p(1) p(3) [of dp_phy_addr] by (simp add: mig_heaps_def mc_find_def)
    ultimately show ?thesis using one(1) p(1,2) p(3) [of dp_phy_addr] h by (auto simp: mig_heaps_def)
  qed simp
qed

text \<open>A page that enters or leaves the page table leaves the candidates that are left as they were.\<close>

lemma mig_heaps_move:
  assumes "mig_heaps s" "mc_same (atc_mc s) (atc_mc s')" "atc_phy_range s' = atc_phy_range s"
    and "\<And>x. x \<in> np_phy_addr ` set (mc_nvm_heap (atc_mc s)) \<Longrightarrow> mc_find x (atc_mc s) = None \<Longrightarrow> mc_find x (atc_mc s') = None"
    and "\<And>x. x \<in> dp_phy_addr ` set (mc_dram_heap (atc_mc s)) \<Longrightarrow> mc_find x (atc_mc s) \<noteq> None \<Longrightarrow> mc_find x (atc_mc s') \<noteq> None"
  shows "mig_heaps s'"
  using assms by (simp add: mig_heaps_def mc_same_def)

definition mig_ready :: "'m ATC \<Rightarrow> Profiler \<Rightarrow> bool" where
  "mig_ready s pf \<longleftrightarrow> sys_inv s \<and> \<not> atc_ckpt s \<and> \<not> ignore_latency pf \<and> tags (\<lambda>x. x = LOAN) (atc_map s) = {} \<and> mig_heaps s"

lemma mig_readyD:
  assumes "mig_ready s pf"
  shows "sys_inv s" "\<not> atc_ckpt s" "\<not> ignore_latency pf" "tags (\<lambda>x. x = LOAN) (atc_map s) = {}" "mig_heaps s"
    "mc_nvm_heap_filled (atc_mc s)"
  using assms by (simp_all add: mig_ready_def mig_heaps_def)

lemma mig_ready_step: "mig_ready s pf \<Longrightarrow> mig s s' \<Longrightarrow> mig_heaps s' \<Longrightarrow> \<not> ignore_latency pf' \<Longrightarrow> mig_ready s' pf'"
  by (simp add: mig_ready_def mig_def)

lemma move_in:
  assumes r: "mig_ready s pf" and k: "aligned (mc_page_bits (atc_mc s)) (np_phy_addr n)" "np_phy_addr n < atc_phy_range s"
      "mc_find (np_phy_addr n) (atc_mc s) = None" "np_phy_addr n \<notin> np_phy_addr ` set (mc_nvm_heap (atc_mc s))"
    and room: "mc_num_entries (atc_mc s) < mc_ptt_capacity (atc_mc s)"
  shows "\<exists>bl' pf' s'. atc_MigrateNVM ms n bl pf s = Some (bl', pf', s') \<and> mig s s' \<and> mig_ready s' pf' \<and>
    mc_same (atc_mc s) (atc_mc s')"
proof -
  note d = mig_readyD [OF r]
  obtain bl' pf' s' where m: "atc_MigrateNVM ms n bl pf s = Some (bl', pf', s')" "\<not> ignore_latency pf'" "mig s s'"
      "mc_same (atc_mc s) (atc_mc s')" "\<And>x. mc_find x (atc_mc s') = None \<longleftrightarrow> x \<noteq> np_phy_addr n \<and> mc_find x (atc_mc s) = None"
    using MigrateNVM_ok [OF d(1,2,6,3,4) k(1,2,3) room, of bl] by blast
  have "mig_heaps s'" using m(5) k(4) by (intro mig_heaps_move [OF d(5) m(4) migD(3) [OF m(3)]]) metis+
  then show ?thesis using m mig_ready_step [OF r m(3)] by blast
qed

lemma move_out:
  assumes r: "mig_ready s pf" and e: "mc_find (dp_phy_addr d) (atc_mc s) \<noteq> None" "dp_phy_addr d \<notin> dp_phy_addr ` set (mc_dram_heap (atc_mc s))"
  shows "\<exists>bl' pf' mc'. atc_MigrateDRAM d bl (pf\<lparr>ignore_latency := True\<rparr>) s = Some (bl', pf', s\<lparr>atc_mc := mc'\<rparr>) \<and>
    pf_clear_ignore_latency pf' = Some (pf'\<lparr>ignore_latency := False\<rparr>) \<and>
    mig s (s\<lparr>atc_mc := mc'\<rparr>) \<and> mig_ready (s\<lparr>atc_mc := mc'\<rparr>) (pf'\<lparr>ignore_latency := False\<rparr>) \<and> mc_same (atc_mc s) mc' \<and>
    mc_num_entries mc' < mc_ptt_capacity mc' \<and> (\<forall>x. mc_find x (atc_mc s) = None \<longrightarrow> mc_find x mc' = None)"
proof -
  note d = mig_readyD [OF r]
  obtain v where "mc_find (dp_phy_addr d) (atc_mc s) = Some v" using e(1) by auto
  then obtain bl' pf' mc' where m: "atc_MigrateDRAM d bl (pf\<lparr>ignore_latency := True\<rparr>) s = Some (bl', pf', s\<lparr>atc_mc := mc'\<rparr>)"
      "ignore_latency pf'" "mig s (s\<lparr>atc_mc := mc'\<rparr>)" "mc_same (atc_mc s) mc'" "mc_num_entries mc' < mc_ptt_capacity mc'"
      "\<And>x. mc_find x mc' = (if x = dp_phy_addr d then None else mc_find x (atc_mc s))"
    using MigrateDRAM_ok [OF d(1,4), of d _ bl "pf\<lparr>ignore_latency := True\<rparr>"] by force
  have "mig_heaps (s\<lparr>atc_mc := mc'\<rparr>)" using m(4,6) e(2) by (intro mig_heaps_move [OF d(5)]) (simp_all, metis)
  then show ?thesis using m mig_ready_step [OF r m(3), of "pf'\<lparr>ignore_latency := False\<rparr>"] ignore_roundtrip(2) [OF m(2)] by auto
qed

lemma swap_pages:
  assumes r: "mig_ready s pf" and e: "mc_find (dp_phy_addr d) (atc_mc s) \<noteq> None" "dp_phy_addr d \<notin> dp_phy_addr ` set (mc_dram_heap (atc_mc s))"
    and k: "aligned (mc_page_bits (atc_mc s)) (np_phy_addr n)" "np_phy_addr n < atc_phy_range s"
      "mc_find (np_phy_addr n) (atc_mc s) = None" "np_phy_addr n \<notin> np_phy_addr ` set (mc_nvm_heap (atc_mc s))"
  shows "\<exists>bl' pf' s'. do { pf \<leftarrow> pf_set_ignore_latency pf; (bl, pf, s) \<leftarrow> atc_MigrateDRAM d bl pf s; pf \<leftarrow> pf_clear_ignore_latency pf;
      atc_MigrateNVM ms n bl pf s } = Some (bl', pf', s') \<and> mig s s' \<and> mig_ready s' pf' \<and> mc_nvm_heap (atc_mc s') = mc_nvm_heap (atc_mc s)"
proof -
  obtain bl3 pf3 mc3 where o: "atc_MigrateDRAM d bl (pf\<lparr>ignore_latency := True\<rparr>) s = Some (bl3, pf3, s\<lparr>atc_mc := mc3\<rparr>)"
      "pf_clear_ignore_latency pf3 = Some (pf3\<lparr>ignore_latency := False\<rparr>)" "mig s (s\<lparr>atc_mc := mc3\<rparr>)"
      "mig_ready (s\<lparr>atc_mc := mc3\<rparr>) (pf3\<lparr>ignore_latency := False\<rparr>)" "mc_same (atc_mc s) mc3"
      "mc_num_entries mc3 < mc_ptt_capacity mc3" "\<And>x. mc_find x (atc_mc s) = None \<Longrightarrow> mc_find x mc3 = None"
    using move_out [OF r e, of bl] by blast
  obtain bl' pf' s' where m: "atc_MigrateNVM ms n bl3 (pf3\<lparr>ignore_latency := False\<rparr>) (s\<lparr>atc_mc := mc3\<rparr>) = Some (bl', pf', s')"
      "mig (s\<lparr>atc_mc := mc3\<rparr>) s'" "mig_ready s' pf'" "mc_same mc3 (atc_mc s')"
    using move_in [OF o(4), of n bl3] o(5,6) o(7) [OF k(3)] k by (auto simp: mc_same_def)
  show ?thesis using o(1,2,5) m mig_trans [OF o(3) m(2)] mig_readyD(3) [OF r] by (simp add: ignore_roundtrip mc_same_def)
qed

lemma migrate_in_step_ok:
  assumes r: "mig_ready s pf"
  shows "\<exists>v bl' pf' s'. atc_migrate_in_step ms dr bl pf s = Some (v, bl', pf', s') \<and> mig s s' \<and> mig_ready s' pf' \<and>
    (v = None \<longrightarrow> length (mc_nvm_heap (atc_mc s')) < length (mc_nvm_heap (atc_mc s))) \<and>
    (\<forall>b d. v = Some (b, Some d) \<longrightarrow> mc_find (dp_phy_addr d) (atc_mc s') \<noteq> None \<and>
       dp_phy_addr d \<notin> dp_phy_addr ` set (mc_dram_heap (atc_mc s')))"
proof -
  note d = mig_readyD [OF r]
  consider (none) "mc_ExtractNVMPage pf (atc_mc s) = Some (None, pf, atc_mc s)"
    | (one) n heap where "mc_ExtractNVMPage pf (atc_mc s) = Some (Some n, pf_AddTableOp pf, (atc_mc s)\<lparr>mc_nvm_heap := heap\<rparr>)"
      "mig s (s\<lparr>atc_mc := (atc_mc s)\<lparr>mc_nvm_heap := heap\<rparr>\<rparr>)" "mig_heaps (s\<lparr>atc_mc := (atc_mc s)\<lparr>mc_nvm_heap := heap\<rparr>\<rparr>)"
      "length (mc_nvm_heap (atc_mc s)) = Suc (length heap)" "np_phy_addr n \<notin> np_phy_addr ` set heap"
      "aligned (mc_page_bits (atc_mc s)) (np_phy_addr n)" "np_phy_addr n < atc_phy_range s" "mc_find (np_phy_addr n) (atc_mc s) = None"
    using pop_nvm [OF d(1,4,5), of pf] by blast
  then show ?thesis
  proof cases
    case none
    then show ?thesis using r mig_refl [OF d(1,4)] by (auto simp: atc_migrate_in_step_def)
  next
    case (one n heap)
    let ?pf = "pf_AddTableOp pf"
    note k = one(5,6,7) and len = one(4)
    define s1 where "s1 = s\<lparr>atc_mc := (atc_mc s)\<lparr>mc_nvm_heap := heap\<rparr>\<rparr>"
    have m1: "mig s s1" "mig_heaps s1" using one(2,3) by (simp_all add: s1_def)
    have r1: "mig_ready s1 ?pf" using mig_ready_step [OF r m1] d(3) by simp
    note d1 = mig_readyD [OF r1]
    have p1: "atc_mc s1 = (atc_mc s)\<lparr>mc_nvm_heap := heap\<rparr>" "mc_nvm_heap (atc_mc s1) = heap" "atc_phy_range s1 = atc_phy_range s"
      "mc_page_bits (atc_mc s1) = mc_page_bits (atc_mc s)" "mc_find (np_phy_addr n) (atc_mc s1) = None"
      using one(8) by (simp_all add: s1_def mc_find_def)
    note run = atc_migrate_in_step_def [of ms dr bl pf s, unfolded one(1), simplified, folded s1_def]
    show ?thesis
    proof (cases "np_dirty_ratio n < dr")
      case True
      then show ?thesis using run m1 r1 by simp
    next
      case False
      note low = this
      show ?thesis
      proof (cases "mc_num_entries (atc_mc s1) = mc_ptt_capacity (atc_mc s1)")
        case False
        have "mc_num_entries (atc_mc s1) < mc_ptt_capacity (atc_mc s1)"
          using False mc_inv_balanced [OF atc_invD(6) [OF sys_inv_atc [OF d1(1)]]] by (simp add: mc_slots_balanced_def mc_num_entries_def)
        then obtain bl' pf' s' where m: "atc_MigrateNVM ms n bl ?pf s1 = Some (bl', pf', s')" "mig s1 s'" "mig_ready s' pf'" "mc_same (atc_mc s1) (atc_mc s')"
          using move_in [OF r1, of n bl] one(5,6,7) p1 by auto
        have "atc_migrate_in_step ms dr bl pf s = Some (None, bl', pf', s')" using run low False m(1) p1(1) by simp
        then show ?thesis using mig_trans [OF m1(1) m(2)] m(3,4) one(4) p1(2) by (simp add: mc_same_def)
      next
        case True
        note full = this
        consider (none) "mc_ExtractDRAMPage ?pf (atc_mc s1) = Some (None, ?pf, atc_mc s1)"
          | (one) d h where "mc_ExtractDRAMPage ?pf (atc_mc s1) = Some (Some d, pf_AddTableOp ?pf, (atc_mc s1)\<lparr>mc_dram_heap := h\<rparr>)"
            "mig s1 (s1\<lparr>atc_mc := (atc_mc s1)\<lparr>mc_dram_heap := h\<rparr>\<rparr>)" "mig_heaps (s1\<lparr>atc_mc := (atc_mc s1)\<lparr>mc_dram_heap := h\<rparr>\<rparr>)"
            "dp_phy_addr d \<notin> dp_phy_addr ` set h" "mc_find (dp_phy_addr d) (atc_mc s1) \<noteq> None"
          using pop_dram [OF d1(1,4,5), of ?pf] by blast
        then show ?thesis
        proof cases
          case none
          then show ?thesis using run low full m1 r1 p1(1) by (simp add: s1_def)
        next
          case (one d h)
          define s2 where "s2 = s1\<lparr>atc_mc := (atc_mc s1)\<lparr>mc_dram_heap := h\<rparr>\<rparr>"
          have m2: "mig s1 s2" "mig_heaps s2" using one(2,3) by (simp_all add: s2_def)
          have r2: "mig_ready s2 ?pf" using mig_ready_step [OF r1 m2] d1(3) by simp
          have p2: "mc_find x (atc_mc s2) = mc_find x (atc_mc s1)" "mc_dram_heap (atc_mc s2) = h" "mc_nvm_heap (atc_mc s2) = heap"
            "mc_page_bits (atc_mc s2) = mc_page_bits (atc_mc s)" "atc_phy_range s2 = atc_phy_range s" for x
            using p1 by (simp_all add: s2_def mc_find_def)
          have run2: "atc_migrate_in_step ms dr bl pf s =
             (if dp_write_ratio d > 0 then Some (Some (True, Some d), bl, ?pf, s2)
              else do { pf \<leftarrow> pf_set_ignore_latency ?pf; (bl, pf, s) \<leftarrow> atc_MigrateDRAM d bl pf s2; pf \<leftarrow> pf_clear_ignore_latency pf;
                        (bl, pf, s) \<leftarrow> atc_MigrateNVM ms n bl pf s; Some (None, bl, pf, s) })"
            using run low full one(1) p1(1) by (simp add: s2_def)
          show ?thesis
          proof (cases "dp_write_ratio d > 0")
            case True
            then show ?thesis using run2 mig_trans [OF m1(1) m2(1)] r2 one(4,5) p2 by simp
          next
            case False
            obtain bl' pf' s' where m: "do { pf \<leftarrow> pf_set_ignore_latency ?pf; (bl, pf, s) \<leftarrow> atc_MigrateDRAM d bl pf s2; pf \<leftarrow> pf_clear_ignore_latency pf;
                atc_MigrateNVM ms n bl pf s } = Some (bl', pf', s')" "mig s2 s'" "mig_ready s' pf'" "mc_nvm_heap (atc_mc s') = heap"
              using swap_pages [OF r2, of d n bl] one(4,5) k p1(5) p2 by auto
            have "atc_migrate_in_step ms dr bl pf s = Some (None, bl', pf', s')"
              using run2 False m(1) by (auto simp: Option.bind_assoc split_beta split: bind_splits)
            then show ?thesis using mig_trans [OF m1(1) mig_trans [OF m2(1) m(2)]] m(3,4) len by simp
          qed
        qed
      qed
    qed
  qed
qed

text \<open>The first loop ends: each turn that goes on takes a page from the heap of NVM pages.\<close>

lemma migrate_in_ok:
  assumes "mig_ready s pf"
  shows "\<exists>b d bl' pf' s'. atc_migrate_in ms dr bl pf s = Some ((b, d), bl', pf', s') \<and> mig s s' \<and> mig_ready s' pf' \<and>
    (\<forall>d'. d = Some d' \<longrightarrow> mc_find (dp_phy_addr d') (atc_mc s') \<noteq> None \<and>
       dp_phy_addr d' \<notin> dp_phy_addr ` set (mc_dram_heap (atc_mc s')))"
  using assms
proof (induction "length (mc_nvm_heap (atc_mc s))" arbitrary: bl pf s rule: less_induct)
  case less
  note r = less.prems
  obtain v bl1 pf1 s1 where st: "atc_migrate_in_step ms dr bl pf s = Some (v, bl1, pf1, s1)" "mig s s1" "mig_ready s1 pf1"
      "v = None \<Longrightarrow> length (mc_nvm_heap (atc_mc s1)) < length (mc_nvm_heap (atc_mc s))"
      "\<And>b d. v = Some (b, Some d) \<Longrightarrow> mc_find (dp_phy_addr d) (atc_mc s1) \<noteq> None \<and> dp_phy_addr d \<notin> dp_phy_addr ` set (mc_dram_heap (atc_mc s1))"
    using migrate_in_step_ok [OF r, of dr bl] by blast
  show ?case
  proof (cases v)
    case None
    have "atc_migrate_in ms dr bl pf s = atc_migrate_in ms dr bl1 pf1 s1"
      by (subst atc_migrate_in.simps) (simp add: st(1) None)
    then show ?thesis using less.hyps [OF st(4) [OF None] st(3), of bl1] mig_trans [OF st(2)] by metis
  next
    case (Some w)
    obtain b d where w: "w = (b, d)" by (cases w)
    have "atc_migrate_in ms dr bl pf s = Some ((b, d), bl1, pf1, s1)"
      by (subst atc_migrate_in.simps) (simp add: st(1) Some w)
    then show ?thesis using st(2,3) st(5) [of b] Some w by simp
  qed
qed

lemma sys_inv_count: "sys_inv (s\<lparr>atc_pages_to_nvm := n\<rparr>) = sys_inv s"
proof -
  have "in_dram (s\<lparr>atc_pages_to_nvm := n\<rparr>) = in_dram s" by (simp add: fun_eq_iff in_dram_def)
  then have "atc_inv (s\<lparr>atc_pages_to_nvm := n\<rparr>) = atc_inv s"
    unfolding atc_inv_def atc_geo_def atc_blocks_def atc_counts_def by simp
  then show ?thesis unfolding sys_inv_def geometry_of_def atc_Size_def by simp
qed

lemma mig_count: "mig s s' \<Longrightarrow> mig s (s'\<lparr>atc_pages_to_nvm := n\<rparr>)"
  by (simp add: mig_def sys_inv_count vw_def)

lemma mig_ready_count: "mig_ready s pf \<Longrightarrow> mig_ready (s\<lparr>atc_pages_to_nvm := n\<rparr>) pf"
  using mig_count [OF mig_refl [of s], of n] by (auto simp: mig_ready_def mig_def mig_heaps_def)

definition out_ready :: "'m ATC \<Rightarrow> Profiler \<Rightarrow> DRAMPageStats \<Rightarrow> bool" where
  "out_ready s pf d \<longleftrightarrow> mig_ready s pf \<and> mc_find (dp_phy_addr d) (atc_mc s) \<noteq> None \<and>
     dp_phy_addr d \<notin> dp_phy_addr ` set (mc_dram_heap (atc_mc s))"

lemma migrate_out_body_ok:
  assumes r: "out_ready s pf d"
  shows "\<exists>more limit' bl' pf' s'. atc_migrate_out_body wr limit d bl pf s = Some (more, limit', bl', pf', s') \<and>
    mig s s' \<and> mig_ready s' pf' \<and> mc_dram_heap (atc_mc s') = mc_dram_heap (atc_mc s)"
proof -
  have r0: "mig_ready s pf" and e: "mc_find (dp_phy_addr d) (atc_mc s) \<noteq> None" "dp_phy_addr d \<notin> dp_phy_addr ` set (mc_dram_heap (atc_mc s))"
    using r by (simp_all add: out_ready_def)
  note d = mig_readyD [OF r0]
  obtain bl3 pf3 mc3 where o: "atc_MigrateDRAM d bl (pf\<lparr>ignore_latency := True\<rparr>) s = Some (bl3, pf3, s\<lparr>atc_mc := mc3\<rparr>)"
      "pf_clear_ignore_latency pf3 = Some (pf3\<lparr>ignore_latency := False\<rparr>)" "mig s (s\<lparr>atc_mc := mc3\<rparr>)"
      "mig_ready (s\<lparr>atc_mc := mc3\<rparr>) (pf3\<lparr>ignore_latency := False\<rparr>)" "mc_same (atc_mc s) mc3"
    using move_out [OF r0 e, of bl] by blast
  show ?thesis
    using o(1,2,5) mig_count [OF o(3)] mig_ready_count [OF o(4)] mig_refl [OF d(1,4)] r0 d(3)
    by (auto simp: atc_migrate_out_body_def ignore_roundtrip mc_same_def)
qed

lemma migrate_out_step_ok:
  assumes r: "out_ready s pf d"
  shows "\<exists>d' limit' bl' pf' s'. atc_migrate_out_step wr limit d bl pf s = Some (d', limit', bl', pf', s') \<and>
    mig s s' \<and> mig_ready s' pf' \<and>
    (\<forall>x. d' = Some x \<longrightarrow> out_ready s' pf' x \<and> length (mc_dram_heap (atc_mc s')) < length (mc_dram_heap (atc_mc s)))"
proof -
  obtain more limit1 bl1 pf1 s1 where b: "atc_migrate_out_body wr limit d bl pf s = Some (more, limit1, bl1, pf1, s1)"
      "mig s s1" "mig_ready s1 pf1" "mc_dram_heap (atc_mc s1) = mc_dram_heap (atc_mc s)"
    using migrate_out_body_ok [OF r, of wr limit bl] by blast
  note d = mig_readyD [OF b(3)]
  show ?thesis
  proof (cases "more \<and> limit1 \<noteq> 0")
    case False
    then show ?thesis using b by (auto simp: atc_migrate_out_step_def atc_migrate_out_cond_def)
  next
    case True
    consider (none) "mc_ExtractDRAMPage pf1 (atc_mc s1) = Some (None, pf1, atc_mc s1)"
      | (one) d' h where "mc_ExtractDRAMPage pf1 (atc_mc s1) = Some (Some d', pf_AddTableOp pf1, (atc_mc s1)\<lparr>mc_dram_heap := h\<rparr>)"
        "mig s1 (s1\<lparr>atc_mc := (atc_mc s1)\<lparr>mc_dram_heap := h\<rparr>\<rparr>)" "mig_heaps (s1\<lparr>atc_mc := (atc_mc s1)\<lparr>mc_dram_heap := h\<rparr>\<rparr>)"
        "length (mc_dram_heap (atc_mc s1)) = Suc (length h)"
        "dp_phy_addr d' \<notin> dp_phy_addr ` set h" "mc_find (dp_phy_addr d') (atc_mc s1) \<noteq> None"
      using pop_dram [OF d(1,4,5), of pf1] by blast
    then show ?thesis
    proof cases
      case none
      then show ?thesis using True b by (simp add: atc_migrate_out_step_def atc_migrate_out_cond_def)
    next
      case (one d' h)
      let ?s = "s1\<lparr>atc_mc := (atc_mc s1)\<lparr>mc_dram_heap := h\<rparr>\<rparr>" and ?pf = "if dp_write_ratio d = 0 then pf1 else pf_AddTableOp pf1"
      have "mig_ready ?s ?pf" using mig_ready_step [OF b(3) one(2,3)] d(3) by simp
      then have "out_ready ?s ?pf d'" using one(5,6) by (simp add: out_ready_def mc_find_def)
      moreover have "atc_migrate_out_step wr limit d bl pf s = Some (Some d', limit1, bl1, ?pf, ?s)"
        using True b(1) one(1) by (simp add: atc_migrate_out_step_def atc_migrate_out_cond_def)
      ultimately show ?thesis using mig_trans [OF b(2) one(2)] one(4) b(4) by (auto simp: out_ready_def)
    qed
  qed
qed

lemma migrate_out_ok:
  assumes "out_ready s pf d"
  shows "\<exists>bl' pf' s'. atc_migrate_out wr limit d bl pf s = Some (bl', pf', s') \<and> mig s s' \<and> mig_ready s' pf'"
  using assms
proof (induction "length (mc_dram_heap (atc_mc s))" arbitrary: limit d bl pf s rule: less_induct)
  case less
  obtain d1 limit1 bl1 pf1 s1 where st: "atc_migrate_out_step wr limit d bl pf s = Some (d1, limit1, bl1, pf1, s1)" "mig s s1" "mig_ready s1 pf1"
      "\<And>x. d1 = Some x \<Longrightarrow> out_ready s1 pf1 x \<and> length (mc_dram_heap (atc_mc s1)) < length (mc_dram_heap (atc_mc s))"
    using migrate_out_step_ok [OF less.prems, of wr limit bl] by blast
  show ?case
  proof (cases d1)
    case None
    have "atc_migrate_out wr limit d bl pf s = Some (bl1, pf1, s1)"
      by (subst atc_migrate_out.simps) (simp add: st(1) None)
    then show ?thesis using st(2,3) by blast
  next
    case (Some x)
    have "atc_migrate_out wr limit d bl pf s = atc_migrate_out wr limit1 x bl1 pf1 s1"
      by (subst atc_migrate_out.simps) (simp add: st(1) Some)
    then show ?thesis
      using less.hyps [OF conjunct2 [OF st(4) [OF Some]] conjunct1 [OF st(4) [OF Some]], of limit1 bl1] mig_trans [OF st(2)] by metis
  qed
qed

text \<open>The pages of the active blocks: none is in DRAM once the loans are back.\<close>

lemma active_page:
  assumes s: "sys_inv s" and nl: "tags (\<lambda>x. x = LOAN) (atc_map s) = {}"
    and e: "e \<in> set (att_entries (atc_att s))" "in_page (atc_mc s) k e"
  shows "aligned (mc_page_bits (atc_mc s)) k \<and> k < atc_phy_range s \<and> mc_find k (atc_mc s) = None"
proof -
  note inv = sys_inv_atc [OF s]
  note g = atc_geoD [OF sys_inv_geo [OF s]] and ok = atc_invD(2) [OF inv]
  obtain j where j: "j < length (att_entries (atc_att s))" "att_entries (atc_att s) ! j = e"
    using e(1) by (auto simp: in_set_conv_nth)
  then have i: "ent (atc_att s) (int j) = e" "int j < att_length (atc_att s)" using att_ok_length [OF ok] by (simp_all add: ent_def)
  then obtain t where t: "att_holds (atc_att s) (int j) t"
    using atc_invD(3) [OF inv] e(2) unfolding att_idle_def in_page_def by (metis of_nat_0_le_iff)
  have v: "atc_map s t = Some (att_state e, mach_base e)" "phy_tag e = t"
    using att_holds_tbl [OF t] att_holds_tag [OF ok t] i(1) by simp_all
  have k: "k = page_of (mc_page_bits (atc_mc s)) (push_bit (atc_bits s) t)"
    using e(2) v(2) g(4) by (simp add: in_page_def entry_block_def mc_PageAlign_eq [OF g(5)])
  have "push_bit (atc_bits s) t < atc_phy_range s"
    using atc_blocksD(1) [OF atc_invD(8) [OF inv] v(1)] by (simp add: valid_tag_def)
  moreover have al: "aligned (mc_page_bits (atc_mc s)) k" unfolding k by simp
  ultimately have "k < atc_phy_range s" using unat_page(1) [OF al k [symmetric]] by (simp add: word_less_nat_alt)
  then show ?thesis using no_block_in_dram [OF s nl, of t] v(1) k al by simp
qed

lemma input_heaps:
  assumes s: "sys_inv s" and nl: "tags (\<lambda>x. x = LOAN) (atc_map s) = {}" and st: "atc_stats s"
  shows "\<exists>mc'. mc_InputBlocks (att_entries (atc_att s)) (atc_mc s) = Some mc' \<and> mc_core mc' = mc_core (atc_mc s) \<and>
    mig_heaps (s\<lparr>atc_mc := mc'\<rparr>)"
proof -
  let ?mc = "atc_mc s" and ?es = "att_entries (atc_att s)"
  note inv = sys_inv_atc [OF s]
  have w: "epoch_writes e = 0" if e: "e \<in> set ?es" "\<not> att_active e" for e
  proof -
    obtain j where "j < length ?es" "?es ! j = e" using e(1) by (auto simp: in_set_conv_nth)
    then have "ent (atc_att s) (int j) = e" "int j < att_length (atc_att s)"
      using att_ok_length [OF atc_invD(2) [OF inv]] by (simp_all add: ent_def)
    then show ?thesis using st e(2) unfolding atc_stats_def att_quiet_def by (metis of_nat_0_le_iff)
  qed
  obtain mc' ps where m: "mc_InputBlocks ?es ?mc = Some mc'" "mc_core mc' = mc_core ?mc" "mc_nvm_heap_filled mc'" "mc_dram_heap_filled mc'"
      "is_heap nvm_less (mc_nvm_heap mc')" "is_heap dram_less (mc_dram_heap mc')" "nvm_pages_rep ?mc ?es ps"
      "mset (mc_nvm_heap mc') = mset (map (nvm_stats ?mc) ps)" "mset (mc_dram_heap mc') = mset (map (dram_stats ?mc) (mc_entries ?mc))"
    using mc_InputBlocks_ok [OF atc_geoD(5) [OF sys_inv_geo [OF s]] atc_invD(6,7) [OF inv], of ?es] w st
    unfolding atc_stats_def by metis
  note c = mc_core_fields [OF m(2)]
  have "mset (map np_phy_addr (mc_nvm_heap mc')) = mset (map fst ps)"
    using m(8) by (metis (no_types, lifting) mset_map nvm_stats_addr)
  then have dn: "distinct (map np_phy_addr (mc_nvm_heap mc'))"
    using m(7) mset_eq_imp_distinct_iff unfolding nvm_pages_rep_def by blast
  have "mset (map dp_phy_addr (mc_dram_heap mc')) = mset (map fst (mc_entries ?mc))"
    using m(9) by (metis (no_types, lifting) mset_map dram_stats_addr)
  then have dd: "distinct (map dp_phy_addr (mc_dram_heap mc'))"
    using atc_invD(6) [OF inv] mset_eq_imp_distinct_iff unfolding mc_inv_def by blast
  have pn: "aligned (mc_page_bits ?mc) (np_phy_addr n) \<and> np_phy_addr n < atc_phy_range s \<and> mc_find (np_phy_addr n) ?mc = None"
    if "n \<in> set (mc_nvm_heap mc')" for n
  proof -
    have "n \<in> set (map (nvm_stats ?mc) ps)" using that mset_eq_setD [OF m(8)] by simp
    then obtain k p where k: "(k, p) \<in> set ps" "np_phy_addr n = k" by (auto simp: nvm_stats_def)
    then have "map_of ps k = Some p" using m(7) unfolding nvm_pages_rep_def by (intro map_of_is_SomeI) simp_all
    then have "\<exists>e \<in> set ?es. in_page ?mc k e" using m(7) unfolding nvm_pages_rep_def by (metis option.distinct(1))
    then show ?thesis using active_page [OF s nl] k(2) by blast
  qed
  have pd: "mc_find (dp_phy_addr d) ?mc \<noteq> None" if "d \<in> set (mc_dram_heap mc')" for d
  proof -
    have "d \<in> set (map (dram_stats ?mc) (mc_entries ?mc))" using that mset_eq_setD [OF m(9)] by simp
    then obtain k v where "(k, v) \<in> set (mc_entries ?mc)" "dp_phy_addr d = k" by (auto simp: dram_stats_def)
    then show ?thesis by (auto simp: mc_find_def map_of_eq_None_iff intro: rev_image_eqI)
  qed
  have "mig_heaps (s\<lparr>atc_mc := mc'\<rparr>)" using m(3-6) dn dd pn pd c(2,8) by (simp add: mig_heaps_def)
  then show ?thesis using m(1,2) by blast
qed

theorem MigratePages_ok:
  assumes s: "sys_inv s" and run: "\<not> atc_ckpt s" and st: "atc_stats s" and pf: "\<not> ignore_latency pf"
  shows "\<exists>bl' pf' s'. atc_MigratePages ms dr wr bl pf s = Some (bl', pf', s') \<and> \<not> ignore_latency pf' \<and> mig s s'"
proof -
  obtain n bl1 pf1 s1 where v: "att_VisitQueue (\<lambda>v. atc_att (snd (snd v))) LOAN (atc_LoanRevoker_Visit ms) (Some bl, pf, s) = Some (n, Some bl1, pf1, s1)"
      "\<not> ignore_latency pf1" "flushed s s1" "atc_stats s1" "tags (\<lambda>x. x = LOAN) (atc_map s1) = {}"
    using revoke_loans [OF s run, of bl pf] st pf by blast
  have s1: "sys_inv s1" and fr: "atc_frame s s1" using v(3) by (simp_all add: flushed_def)
  note f = atc_frameD [OF fr]
  have m1: "mig s s1" using v(3,5) f(1,2) fr by (simp add: mig_def flushed_def atc_frame_def)
  obtain mc' where i: "mc_InputBlocks (att_entries (atc_att s1)) (atc_mc s1) = Some mc'" "mc_core mc' = mc_core (atc_mc s1)"
      "mig_heaps (s1\<lparr>atc_mc := mc'\<rparr>)"
    using input_heaps [OF s1 v(5,4)] by blast
  define s2 where "s2 = s1\<lparr>atc_mc := mc'\<rparr>"
  have m2: "mig s s2" using mig_trans [OF m1 mig_heap [OF s1 v(5) i(2)]] by (simp add: s2_def)
  then have r2: "mig_ready s2 pf1" using i(3) run v(2) by (simp add: mig_ready_def mig_def s2_def)
  obtain b d bl3 pf3 s3 where l: "atc_migrate_in ms dr bl1 pf1 s2 = Some ((b, d), bl3, pf3, s3)" "mig s2 s3" "mig_ready s3 pf3"
      "\<And>d'. d = Some d' \<Longrightarrow> mc_find (dp_phy_addr d') (atc_mc s3) \<noteq> None \<and> dp_phy_addr d' \<notin> dp_phy_addr ` set (mc_dram_heap (atc_mc s3))"
    using migrate_in_ok [OF r2, of dr bl1] by blast
  note m3 = mig_trans [OF m2 l(2)] and d3 = mig_readyD [OF l(3)]
  have run: "atc_MigratePages ms dr wr bl pf s = (if \<not> b then Some (bl3, pf3, s3)
      else do { (d, pf, s) \<leftarrow> (case d of Some d \<Rightarrow> Some (Some d, pf3, s3)
            | None \<Rightarrow> do { (d, pf, mc) \<leftarrow> mc_ExtractDRAMPage pf3 (atc_mc s3); Some (d, pf, s3\<lparr>atc_mc := mc\<rparr>) });
          (case d of None \<Rightarrow> Some (bl3, pf, s)
           | Some d \<Rightarrow> atc_migrate_out wr (mc_ptt_capacity (atc_mc s) - mc_ptt_length (atc_mc s)) d bl3 pf s) })"
    using v(1) run i(1) l(1) map_IsEmpty [OF atc_invD(2) [OF sys_inv_atc [OF s1]], of LOAN] v(5)
    by (simp add: atc_MigratePages_def Let_def s2_def)
  have out: ?thesis if "atc_MigratePages ms dr wr bl pf s = atc_migrate_out wr lim d bl3 pf4 s4" "mig s s4" "out_ready s4 pf4 d" for lim d pf4 s4
    using migrate_out_ok [OF that(3), of wr lim bl3] that(1) mig_trans [OF that(2)] mig_readyD(3) by metis
  show ?thesis
  proof (cases "b \<and> d = None")
    case True
    consider (none) "mc_ExtractDRAMPage pf3 (atc_mc s3) = Some (None, pf3, atc_mc s3)"
      | (one) d' h where "mc_ExtractDRAMPage pf3 (atc_mc s3) = Some (Some d', pf_AddTableOp pf3, (atc_mc s3)\<lparr>mc_dram_heap := h\<rparr>)"
        "mig s3 (s3\<lparr>atc_mc := (atc_mc s3)\<lparr>mc_dram_heap := h\<rparr>\<rparr>)" "mig_heaps (s3\<lparr>atc_mc := (atc_mc s3)\<lparr>mc_dram_heap := h\<rparr>\<rparr>)"
        "dp_phy_addr d' \<notin> dp_phy_addr ` set h" "mc_find (dp_phy_addr d') (atc_mc s3) \<noteq> None"
      using pop_dram [OF d3(1,4,5), of pf3] by blast
    then show ?thesis
    proof cases
      case none
      then show ?thesis using run True m3 d3(3) by simp
    next
      case (one d' h)
      let ?s = "s3\<lparr>atc_mc := (atc_mc s3)\<lparr>mc_dram_heap := h\<rparr>\<rparr>"
      have "mig_ready ?s (pf_AddTableOp pf3)" using mig_ready_step [OF l(3) one(2,3)] d3(3) by simp
      then have "out_ready ?s (pf_AddTableOp pf3) d'" using one(4,5) by (simp add: out_ready_def mc_find_def)
      then show ?thesis using run True one(1) mig_trans [OF m3 one(2)] by (intro out) simp_all
    qed
  next
    case False
    show ?thesis
    proof (cases b)
      case True
      then obtain d' where d': "d = Some d'" using False by auto
      then have "out_ready s3 pf3 d'" using l(3,4) by (simp add: out_ready_def)
      then show ?thesis using run True d' m3 by (intro out) simp_all
    qed (use run m3 d3(3) in simp)
  qed
qed

end

end
