(* ===== verification/Host_Memory.thy ===== *)
theory Host_Memory
  imports Dram_Banks Controller_Migrate
begin

text \<open>
  The memory store of the simulator: \<open>AbstractMemory\<close> (\<open>src/gem5-stable/src/mem/abstract_mem.cc\<close>, \<open>abstract_mem.hh\<close>)
  implements the copying and the event hooks of \<open>MemStore\<close> on the host memory \<open>pmemAddr\<close>, \<open>SimpleMemory\<close>
  (\<open>simple_mem.cc\<close>, \<open>simple_mem.hh\<close>) implements the latencies on the bank model. The controller \<open>addrController\<close> is a
  member of the memory and the memory reads its constants, so the functions take it as an argument \<open>c\<close>.
\<close>

section \<open>Definitions\<close>

record SimpleMemoryParams =
  par_latency :: "64 word"
  par_latency_miss :: "64 word"
  par_lat_nvm_read :: "64 word"
  par_lat_nvm_write :: "64 word"

text \<open>The members that the callbacks change: host memory, banks and statistics.\<close>

record HostStore =
  host :: bytes
  hs_banks :: DRAMBanks
  numEpochs :: int
  numATTWriteHits :: int
  numATTWriteMisses :: int
  numNVMWrites :: int
  numDRAMWrites :: int
  ckDRAMWriteHits :: int
  regCaches :: int
  readRowHits :: int
  writeRowHits :: int
  readRowMisses :: int
  writeRowMisses :: int

text \<open>\<open>memcpy\<close> out of and into host memory.\<close>

definition read_bytes :: "Addr \<Rightarrow> nat \<Rightarrow> bytes \<Rightarrow> byte list" where
  "read_bytes a n mem = map (\<lambda>i. mem (a + of_nat i)) [0 ..< n]"

definition write_bytes :: "Addr \<Rightarrow> byte list \<Rightarrow> bytes \<Rightarrow> bytes" where
  "write_bytes a bs mem = (\<lambda>x. if unat (x - a) < length bs then bs ! unat (x - a) else mem x)"

definition hostSize :: "'a ATC \<Rightarrow> 64 word" where
  "hostSize c = atc_Size c"

definition hostAddr :: "Addr \<Rightarrow> 'a ATC \<Rightarrow> Addr option" where
  "hostAddr local_addr c = do {
     cassert (local_addr < hostSize c);
     Some local_addr }"

definition am_MemCopy :: "'a ATC \<Rightarrow> Addr \<Rightarrow> Addr \<Rightarrow> int \<Rightarrow> HostStore \<Rightarrow> HostStore option" where
  "am_MemCopy c direct_addr mach_addr sz st = do {
     cassert (direct_addr \<noteq> mach_addr);
     d \<leftarrow> hostAddr direct_addr c;
     s \<leftarrow> hostAddr mach_addr c;
     Some (st\<lparr>host := memcpy d s sz (host st)\<rparr>) }"

definition am_MemSwap :: "'a ATC \<Rightarrow> Addr \<Rightarrow> Addr \<Rightarrow> int \<Rightarrow> HostStore \<Rightarrow> HostStore option" where
  "am_MemSwap c direct_addr mach_addr sz st = do {
     cassert (direct_addr \<noteq> mach_addr);
     d \<leftarrow> hostAddr direct_addr c;
     s \<leftarrow> hostAddr mach_addr c;
     let data = read_bytes d (nat sz) (host st);
     let mem = memcpy d s sz (host st);
     Some (st\<lparr>host := write_bytes s data mem\<rparr>) }"

definition GetVirtRegionBase :: "'a ATC \<Rightarrow> DRAMBanks \<Rightarrow> Addr" where
  "GetVirtRegionBase c db =
     ((atc_Size c - 1) AND NOT (word_of_int (db_row_buffer_size db - 1))) + word_of_int (db_row_buffer_size db)"

definition GetVirtMachAddr :: "'a ATC \<Rightarrow> DRAMBanks \<Rightarrow> Addr \<Rightarrow> bool \<Rightarrow> PTTEntry option \<Rightarrow> Addr option" where
  "GetVirtMachAddr c db mach_addr is_dram page = do {
     cassert (page \<noteq> None \<or> is_dram \<or> mach_addr < atc_phy_range c + vb_Size (atc_nvm c));
     cassert (page \<noteq> None \<or> \<not> is_dram \<or> vb_Contains mach_addr (atc_dram c));
     let backup_base = GetVirtRegionBase c db;
     cassert (atc_Size c \<le> backup_base);
     let cache_base = backup_base + mc_dram_capacity (atc_mc c);
     let cache_limit = cache_base + mc_dram_capacity (atc_mc c);
     (case page of
        None \<Rightarrow> Some mach_addr
      | Some p \<Rightarrow> do {
          cassert (mach_addr < atc_phy_range c);
          if is_dram then do {
            let mach_base = cache_base + word_of_int (int32 (pt_index p * mc_page_size (atc_mc c)));
            mach_addr \<leftarrow> mc_Translate mach_addr mach_base (atc_mc c);
            cassert (cache_base \<le> mach_addr \<and> mach_addr < cache_limit);
            Some mach_addr }
          else if pt_state p = DIRTY_STATIC then do {
            let mach_base = backup_base + word_of_int (int32 (pt_index p * mc_page_size (atc_mc c)));
            mach_addr \<leftarrow> mc_Translate mach_addr mach_base (atc_mc c);
            cassert (backup_base \<le> mach_addr \<and> mach_addr < cache_base);
            Some mach_addr }
          else do {
            cassert (pt_state p = DIRTY_DIRECT);
            Some mach_addr } }) }"

text \<open>A \<open>Tick\<close> is returned as \<open>int64_t\<close>.\<close>

definition sm_GetReadLatency ::
  "SimpleMemoryParams \<Rightarrow> 'a ATC \<Rightarrow> Addr \<Rightarrow> bool \<Rightarrow> PTTEntry option \<Rightarrow> HostStore \<Rightarrow> (int \<times> HostStore) option" where
  "sm_GetReadLatency p c mach_addr is_dram page st = do {
     mach_addr \<leftarrow> GetVirtMachAddr c (hs_banks st) mach_addr is_dram page;
     (bank, hit, db) \<leftarrow> db_Access mach_addr (hs_banks st);
     let st = st\<lparr>hs_banks := db\<rparr>;
     if hit then Some (sint (par_latency p), st\<lparr>readRowHits := readRowHits st + 1\<rparr>)
     else Some (sint (if is_dram then par_latency_miss p else par_lat_nvm_read p), st\<lparr>readRowMisses := readRowMisses st + 1\<rparr>) }"

definition sm_GetWriteLatency ::
  "SimpleMemoryParams \<Rightarrow> 'a ATC \<Rightarrow> Addr \<Rightarrow> bool \<Rightarrow> PTTEntry option \<Rightarrow> HostStore \<Rightarrow> (int \<times> HostStore) option" where
  "sm_GetWriteLatency p c mach_addr is_dram page st = do {
     mach_addr \<leftarrow> GetVirtMachAddr c (hs_banks st) mach_addr is_dram page;
     (bank, hit, db) \<leftarrow> db_Access mach_addr (hs_banks st);
     let st = st\<lparr>hs_banks := db\<rparr>;
     if hit then Some (sint (par_latency p), st\<lparr>writeRowHits := writeRowHits st + 1\<rparr>)
     else Some (sint (if is_dram then par_latency_miss p else par_lat_nvm_write p), st\<lparr>writeRowMisses := writeRowMisses st + 1\<rparr>) }"

definition am_OnEpochEnd :: "HostStore \<Rightarrow> HostStore option" where
  "am_OnEpochEnd st = Some (st\<lparr>numEpochs := numEpochs st + 1\<rparr>)"

definition am_OnATTWriteHit :: "ATTState \<Rightarrow> HostStore \<Rightarrow> HostStore option" where
  "am_OnATTWriteHit state st = Some (st\<lparr>numATTWriteHits := numATTWriteHits st + 1\<rparr>)"

definition am_OnATTWriteMiss :: "ATTState \<Rightarrow> HostStore \<Rightarrow> HostStore option" where
  "am_OnATTWriteMiss state st = Some (st\<lparr>numATTWriteMisses := numATTWriteMisses st + 1\<rparr>)"

definition am_OnCacheRegister :: "HostStore \<Rightarrow> HostStore option" where
  "am_OnCacheRegister st = Some (st\<lparr>regCaches := regCaches st + 1\<rparr>)"

definition am_statsNVMWrites :: "int \<Rightarrow> HostStore \<Rightarrow> HostStore option" where
  "am_statsNVMWrites n st = Some (st\<lparr>numNVMWrites := numNVMWrites st + n\<rparr>)"

definition am_statsDRAMWrites :: "int \<Rightarrow> HostStore \<Rightarrow> HostStore option" where
  "am_statsDRAMWrites n st = Some (st\<lparr>numDRAMWrites := numDRAMWrites st + n\<rparr>)"

definition am_ckDRAMWriteHit :: "HostStore \<Rightarrow> HostStore option" where
  "am_ckDRAMWriteHit st = Some (st\<lparr>ckDRAMWriteHits := ckDRAMWriteHits st + 1\<rparr>)"

text \<open>The virtual functions as the controller sees them.\<close>

definition SimpleMemory_store :: "SimpleMemoryParams \<Rightarrow> 'a ATC \<Rightarrow> HostStore MemStore" where
  "SimpleMemory_store p c = \<lparr>
     MemCopy = am_MemCopy c, MemSwap = am_MemSwap c,
     GetReadLatency = sm_GetReadLatency p c, GetWriteLatency = sm_GetWriteLatency p c,
     OnEpochEnd = am_OnEpochEnd, OnATTWriteHit = am_OnATTWriteHit, OnATTWriteMiss = am_OnATTWriteMiss,
     OnCacheRegister = am_OnCacheRegister, statsNVMWrites = am_statsNVMWrites, statsDRAMWrites = am_statsDRAMWrites,
     ckDRAMWriteHit = am_ckDRAMWriteHit\<rparr>"

section \<open>Host memory\<close>

lemma read_bytes_length [simp]: "length (read_bytes a n mem) = n"
  by (simp add: read_bytes_def)

lemma read_bytes_nth [simp]: "i < n \<Longrightarrow> read_bytes a n mem ! i = mem (a + of_nat i)"
  by (simp add: read_bytes_def)

lemma read_bytes_eq_iff: "read_bytes a n mem = read_bytes a' n mem' \<longleftrightarrow> (\<forall>i < n. mem (a + of_nat i) = mem' (a' + of_nat i))"
  by (auto simp: list_eq_iff_nth_eq)

lemma write_bytes_this:
  assumes "i < length bs" "length bs \<le> 2 ^ 64"
  shows "write_bytes a bs mem (a + of_nat i) = bs ! i"
proof -
  have "unat (of_nat i :: 64 word) = i" using assms by (intro unat_of_nat_small) simp
  then show ?thesis using assms(1) by (simp add: write_bytes_def)
qed

lemma read_write_bytes: "length bs \<le> 2 ^ 64 \<Longrightarrow> read_bytes a (length bs) (write_bytes a bs mem) = bs"
  by (rule nth_equalityI) (simp_all add: write_bytes_this)

text \<open>Writing the old contents of one block over another is a block copy.\<close>

lemma write_read_block:
  assumes "b \<le> 30" "aligned b d"
  shows "write_bytes d (read_bytes s (2 ^ b) mem0) mem = (\<lambda>x. if drop_bit b x = drop_bit b d then mem0 (rebase b x s) else mem x)"
proof
  fix x :: Addr
  have off: "unat (x AND mask b) < 2 ^ b" unfolding unat_offset by simp
  have "unat ((2 :: Addr) ^ b) = 2 ^ b" using assms(1) by (intro unat_pow2) simp
  then have "unat (x - d) < 2 ^ b \<longleftrightarrow> x - d < 2 ^ b" by (simp add: word_less_nat_alt)
  also have "\<dots> \<longleftrightarrow> drop_bit b x = drop_bit b d" using assms by (intro in_block_iff) simp_all
  finally show "write_bytes d (read_bytes s (2 ^ b) mem0) mem x = (if drop_bit b x = drop_bit b d then mem0 (rebase b x s) else mem x)"
    using offset_in_block [of b x d] assms(2) off by (simp add: write_bytes_def rebase_def)
qed

lemma am_MemCopy_block:
  assumes "atc_bits c \<le> 30" "geo_place (geometry_of c) d" "geo_place (geometry_of c) s" "d \<noteq> s"
  shows "am_MemCopy c d s (2 ^ atc_bits c) st = Some (st\<lparr>host := block_copy (atc_bits c) d s (host st)\<rparr>)"
  using assms memcpy_block [of "atc_bits c" d s "host st"]
  by (simp add: am_MemCopy_def hostAddr_def hostSize_def geo_place_def geometry_of_def)

lemma am_MemSwap_block:
  assumes "atc_bits c \<le> 30" "geo_place (geometry_of c) d" "geo_place (geometry_of c) s" "d \<noteq> s"
  shows "am_MemSwap c d s (2 ^ atc_bits c) st = Some (st\<lparr>host := block_swap (atc_bits c) d s (host st)\<rparr>)"
proof -
  let ?b = "atc_bits c"
  have al: "aligned ?b d" "aligned ?b s" "d < atc_Size c" "s < atc_Size c" using assms(2,3) by (simp_all add: geo_place_def geometry_of_def)
  have ne: "drop_bit ?b d \<noteq> drop_bit ?b s" using assms(4) al(1,2) by (metis push_drop_aligned)
  have "write_bytes s (read_bytes d (2 ^ ?b) (host st)) (block_copy ?b d s (host st)) = block_swap ?b d s (host st)"
    unfolding write_read_block [OF assms(1) al(2)] block_swap_def block_copy_def using ne by (auto simp: fun_eq_iff)
  then show ?thesis
    using assms(4) al memcpy_block [OF assms(1) al(1)] by (simp add: am_MemSwap_def hostAddr_def hostSize_def nat_power_eq)
qed

section \<open>The virtual regions of the latency model\<close>

text \<open>
  Above the machine memory the latency model lays out two regions of the size of the DRAM cache. The layout is sound when
  the sums do not wrap around and the regions start at a page.
\<close>

definition virt_ok :: "'a ATC \<Rightarrow> DRAMBanks \<Rightarrow> bool" where
  "virt_ok c db \<longleftrightarrow> mc_geometry (atc_mc c) \<and> 0 \<le> mc_ptt_capacity (atc_mc c) \<and>
     mc_ptt_capacity (atc_mc c) * 2 ^ mc_page_bits (atc_mc c) < 2 ^ 31 \<and>
     atc_Size c \<le> GetVirtRegionBase c db \<and> aligned (mc_page_bits (atc_mc c)) (GetVirtRegionBase c db) \<and>
     unat (GetVirtRegionBase c db) + 2 * nat (mc_ptt_capacity (atc_mc c) * 2 ^ mc_page_bits (atc_mc c)) < 2 ^ 64"

lemma region_page:
  assumes g: "mc_geometry mc" and i: "0 \<le> i" "i < n" "n * 2 ^ mc_page_bits mc < 2 ^ 31"
    and b: "aligned (mc_page_bits mc) base" "unat base + nat (n * 2 ^ mc_page_bits mc) < 2 ^ 64"
  shows "\<exists>x. mc_Translate a (base + word_of_int (int32 (i * mc_page_size mc))) mc = Some x \<and>
    unat base \<le> unat x \<and> unat x < unat base + nat (n * 2 ^ mc_page_bits mc)"
proof -
  let ?p = "mc_page_bits mc"
  define o1 where "o1 = nat i * 2 ^ ?p"
  define o2 where "o2 = unat (a AND mask ?p)"
  have p30: "?p \<le> 30" using g by (simp add: mc_geometry_def)
  have "(i + 1) * 2 ^ ?p \<le> n * 2 ^ ?p" using i(2) by (intro mult_right_mono) simp_all
  then have le: "i * 2 ^ ?p + 2 ^ ?p \<le> n * 2 ^ ?p" by (simp add: algebra_simps)
  have "i * 2 ^ ?p + 2 ^ ?p = int (o1 + 2 ^ ?p)" using i(1) by (simp add: o1_def)
  then have l1: "o1 + 2 ^ ?p \<le> nat (n * 2 ^ ?p)" using le by linarith
  have o2: "o2 < 2 ^ ?p" unfolding o2_def unat_offset by simp
  have "0 \<le> i * 2 ^ ?p" "0 < (2 :: int) ^ ?p" using i(1) by simp_all
  then have "- (2 ^ 31) \<le> i * 2 ^ ?p" "i * 2 ^ ?p < 2 ^ 31" using le i(3) by linarith+
  then have "int32 (i * mc_page_size mc) = i * 2 ^ ?p" unfolding mc_page_size_eq [OF g] by (rule int32_id)
  then have "int32 (i * mc_page_size mc) = int o1" using i(1) by (simp add: o1_def)
  then have w1: "word_of_int (int32 (i * mc_page_size mc)) = (of_nat o1 :: Addr)" by simp
  have u1: "unat (of_nat o1 :: Addr) = o1" using l1 b(2) by (intro unat_of_nat_small) simp
  then have ub: "unat (base + of_nat o1) = unat base + o1" using iffD1 [OF unat_add_lem, of base "of_nat o1"] l1 b(2) by simp
  have al: "aligned ?p (base + of_nat o1)" using b(1) unfolding aligned_unat ub by (simp add: o1_def)
  have "unat (base + of_nat o1 + (a AND mask ?p)) = unat base + o1 + o2"
    using iffD1 [OF unat_add_lem, of "base + of_nat o1" "a AND mask ?p"] ub l1 o2 b(2) by (simp add: o2_def)
  moreover have "mc_Translate a (base + of_nat o1) mc = Some (base + of_nat o1 + (a AND mask ?p))"
    using al by (simp add: mc_Translate_def mc_page_mask_eq [OF g] aligned_def)
  ultimately show ?thesis using l1 o2 w1 by simp
qed

lemma GetVirtMachAddr_ok:
  assumes v: "virt_ok c db" and l: "latency_pre (geometry_of c) a dram page"
  shows "\<exists>x. GetVirtMachAddr c db a dram page = Some x"
proof -
  let ?base = "GetVirtRegionBase c db" and ?cap = "mc_ptt_capacity (atc_mc c) * 2 ^ mc_page_bits (atc_mc c)"
  note v' = v [unfolded virt_ok_def]
  have cw: "mc_dram_capacity (atc_mc c) = of_nat (nat ?cap)" using v' by (simp add: mc_dram_capacity_def int32_id order.trans [of _ 0])
  have "unat (of_nat (nat ?cap) :: Addr) = nat ?cap" using v' by (intro unat_of_nat_small) simp
  then have cb: "unat (?base + of_nat (nat ?cap)) = unat ?base + nat ?cap" "unat (?base + of_nat (nat ?cap) + of_nat (nat ?cap)) = unat ?base + nat ?cap + nat ?cap"
    using iffD1 [OF unat_add_lem, of ?base "of_nat (nat ?cap)"] iffD1 [OF unat_add_lem, of "?base + of_nat (nat ?cap)" "of_nat (nat ?cap)"] v' by simp_all
  show ?thesis
  proof (cases page)
    case None
    then show ?thesis using l v' by (auto simp: GetVirtMachAddr_def latency_pre_def geometry_of_def Let_def split: if_splits)
  next
    case (Some p)
    then have p: "dram" "a < atc_phy_range c" "0 \<le> pt_index p" "pt_index p < mc_ptt_capacity (atc_mc c)"
      using l by (simp_all add: latency_pre_def geometry_of_def)
    have "2 ^ mc_page_bits (atc_mc c) dvd nat ?cap" using v' by (simp add: nat_mult_distrib nat_power_eq)
    then have al: "aligned (mc_page_bits (atc_mc c)) (?base + of_nat (nat ?cap))" using v' unfolding aligned_unat cb(1) by simp
    have "unat (?base + of_nat (nat ?cap)) + nat ?cap < 2 ^ 64" using v' cb(1) by simp
    then obtain x where x: "mc_Translate a (?base + of_nat (nat ?cap) + word_of_int (int32 (pt_index p * mc_page_size (atc_mc c)))) (atc_mc c) = Some x"
      "unat (?base + of_nat (nat ?cap)) \<le> unat x" "unat x < unat (?base + of_nat (nat ?cap)) + nat ?cap"
      using region_page [OF _ p(3,4) _ al, of a] v' by blast
    then show ?thesis
      using Some p v' cb by (simp add: GetVirtMachAddr_def Let_def cw word_le_nat_alt word_less_nat_alt)
  qed
qed

section \<open>The contract\<close>

text \<open>The configuration and the banks are sound: what the controller relies on when it uses this store.\<close>

definition sim_ok :: "SimpleMemoryParams \<Rightarrow> 'a ATC \<Rightarrow> HostStore \<Rightarrow> bool" where
  "sim_ok p c st \<longleftrightarrow> db_ok (hs_banks st) \<and> virt_ok c (hs_banks st) \<and> atc_bits c \<le> 30 \<and>
     0 < int32 (sint (par_latency p)) \<and> 0 < int32 (sint (par_latency_miss p)) \<and>
     0 < int32 (sint (par_lat_nvm_read p)) \<and> 0 < int32 (sint (par_lat_nvm_write p))"

lemma virt_ok_banks: "db_row_buffer_size db' = db_row_buffer_size db \<Longrightarrow> virt_ok c db' = virt_ok c db"
  by (simp add: virt_ok_def GetVirtRegionBase_def)

lemma bank_access_sim:
  assumes ok: "sim_ok p c st" and l: "latency_pre (geometry_of c) a dram page"
  shows "\<exists>x ij hit db'. GetVirtMachAddr c (hs_banks st) a dram page = Some x \<and> db_Access x (hs_banks st) = Some (ij, hit, db') \<and>
    sim_ok p c (st\<lparr>hs_banks := db'\<rparr>)"
proof -
  have b: "db_ok (hs_banks st)" "virt_ok c (hs_banks st)" using ok by (simp_all add: sim_ok_def)
  obtain x where x: "GetVirtMachAddr c (hs_banks st) a dram page = Some x" using GetVirtMachAddr_ok [OF b(2) l] by blast
  obtain ij hit db' where d: "db_Access x (hs_banks st) = Some (ij, hit, db')" "db_ok db'" "db_row_buffer_size db' = db_row_buffer_size (hs_banks st)"
    using db_Access_ok [OF b(1), of x x] by auto
  have "sim_ok p c (st\<lparr>hs_banks := db'\<rparr>)" using d(2) virt_ok_banks [OF d(3), of c] ok by (simp add: sim_ok_def)
  then show ?thesis using x d(1) by blast
qed

lemma sim_read:
  assumes "sim_ok p c st" "latency_pre (geometry_of c) a dram page"
  shows "\<exists>lat st'. sm_GetReadLatency p c a dram page st = Some (lat, st') \<and> 0 < int32 lat \<and> sim_ok p c st' \<and> host st' = host st"
proof -
  obtain x ij hit db' where x: "GetVirtMachAddr c (hs_banks st) a dram page = Some x" "db_Access x (hs_banks st) = Some (ij, hit, db')"
    "sim_ok p c (st\<lparr>hs_banks := db'\<rparr>)" using bank_access_sim [OF assms] by blast
  then show ?thesis by (cases hit; cases dram) (simp_all add: sm_GetReadLatency_def sim_ok_def Let_def)
qed

lemma sim_write:
  assumes "sim_ok p c st" "latency_pre (geometry_of c) a dram page"
  shows "\<exists>lat st'. sm_GetWriteLatency p c a dram page st = Some (lat, st') \<and> 0 < int32 lat \<and> sim_ok p c st' \<and> host st' = host st"
proof -
  obtain x ij hit db' where x: "GetVirtMachAddr c (hs_banks st) a dram page = Some x" "db_Access x (hs_banks st) = Some (ij, hit, db')"
    "sim_ok p c (st\<lparr>hs_banks := db'\<rparr>)" using bank_access_sim [OF assms] by blast
  then show ?thesis by (cases hit; cases dram) (simp_all add: sm_GetWriteLatency_def sim_ok_def Let_def)
qed

lemma sim_ok_host: "sim_ok p c (st\<lparr>host := h\<rparr>) = sim_ok p c st"
  by (simp add: sim_ok_def)

lemma geo_bits_of: "geo_block_bits (geometry_of c) = atc_bits c"
  by (simp add: geometry_of_def)

interpretation sim: mem_store "SimpleMemory_store p c" "geometry_of c" "sim_ok p c" host
  for p :: SimpleMemoryParams and c :: "HostStore ATC"
proof
  fix m d s assume a: "sim_ok p c m" "geo_place (geometry_of c) d" "geo_place (geometry_of c) s" "d \<noteq> s"
  have b: "atc_bits c \<le> 30" using a(1) by (simp add: sim_ok_def)
  show "\<exists>m'. MemCopy (SimpleMemory_store p c) d s (2 ^ geo_block_bits (geometry_of c)) m = Some m' \<and> sim_ok p c m' \<and>
      host m' = block_copy (geo_block_bits (geometry_of c)) d s (host m)"
    using am_MemCopy_block [OF b a(2-4)] a(1) by (simp add: SimpleMemory_store_def geo_bits_of sim_ok_host)
  show "\<exists>m'. MemSwap (SimpleMemory_store p c) d s (2 ^ geo_block_bits (geometry_of c)) m = Some m' \<and> sim_ok p c m' \<and>
      host m' = block_swap (geo_block_bits (geometry_of c)) d s (host m)"
    using am_MemSwap_block [OF b a(2-4)] a(1) by (simp add: SimpleMemory_store_def geo_bits_of sim_ok_host)
next
  fix m a dram page assume a: "sim_ok p c m" "latency_pre (geometry_of c) a dram page"
  show "\<exists>lat m'. GetReadLatency (SimpleMemory_store p c) a dram page m = Some (lat, m') \<and> 0 < int32 lat \<and> sim_ok p c m' \<and> host m' = host m"
    using sim_read [OF a] by (simp add: SimpleMemory_store_def)
  show "\<exists>lat m'. GetWriteLatency (SimpleMemory_store p c) a dram page m = Some (lat, m') \<and> 0 < int32 lat \<and> sim_ok p c m' \<and> host m' = host m"
    using sim_write [OF a] by (simp add: SimpleMemory_store_def)
qed (simp_all add: SimpleMemory_store_def am_OnEpochEnd_def am_OnATTWriteHit_def am_OnATTWriteMiss_def am_statsNVMWrites_def
    am_statsDRAMWrites_def am_ckDRAMWriteHit_def sim_ok_def)

end
