(* ===== verification/Flat_Memory.thy ===== *)
theory Flat_Memory
  imports Host_Memory
begin

text \<open>
  The memory a program sees. The controller with the simulator's store behind it is a flat byte array: \<open>logical s\<close>
  reads the host memory through the translation, \<open>mem_inv\<close> is the invariant of controller, store and configuration, and
  the operations of the controller are restated here over \<open>logical\<close>, through the interpretation \<open>sim\<close>.
\<close>

section \<open>State\<close>

definition logical :: "HostStore ATC \<Rightarrow> bytes" where
  "logical s a = host (atc_mem s) (tr (atc_bits s) (atc_map s) a)"

definition mem_inv :: "SimpleMemoryParams \<Rightarrow> HostStore ATC \<Rightarrow> bool" where
  "mem_inv p s \<longleftrightarrow> atc_inv s \<and> sim_ok p s (atc_mem s)"

lemma logical_vw: "logical = sim.vw"
  by (simp add: fun_eq_iff logical_def sim.vw_def)

lemma mem_inv_sys: "mem_inv p s \<longleftrightarrow> sim.sys_inv s p s"
  by (simp add: mem_inv_def sim.sys_inv_def)

text \<open>The store reads only constants of the controller.\<close>

lemma geometry_store:
  assumes "geometry_of s' = geometry_of (s :: HostStore ATC)"
  shows "SimpleMemory_store p s' = SimpleMemory_store p s" "GetVirtRegionBase s' = GetVirtRegionBase s"
proof -
  have g: "atc_Size s' = atc_Size s" "atc_phy_range s' = atc_phy_range s" "vb_Size (atc_nvm s') = vb_Size (atc_nvm s)"
      "mc_page_bits (atc_mc s') = mc_page_bits (atc_mc s)" "mc_ptt_capacity (atc_mc s') = mc_ptt_capacity (atc_mc s)"
    "\<And>a. vb_Contains a (atc_dram s') = vb_Contains a (atc_dram s)"
    using assms by (simp_all add: geometry_of_def fun_eq_iff)
  have m: "mc_dram_capacity (atc_mc s') = mc_dram_capacity (atc_mc s)" "mc_page_size (atc_mc s') = mc_page_size (atc_mc s)"
    "mc_page_mask (atc_mc s') = mc_page_mask (atc_mc s)"
    using g by (simp_all add: mc_dram_capacity_def mc_page_size_def mc_page_mask_def)
  show r: "GetVirtRegionBase s' = GetVirtRegionBase s" by (simp add: fun_eq_iff GetVirtRegionBase_def g(1))
  have v: "GetVirtMachAddr s' = GetVirtMachAddr s"
    unfolding fun_eq_iff GetVirtMachAddr_def r g m mc_Translate_def by simp
  have h: "hostAddr a s' = hostAddr a s" for a by (simp add: hostAddr_def hostSize_def g(1))
  have c: "am_MemCopy s' = am_MemCopy s" "am_MemSwap s' = am_MemSwap s"
    unfolding fun_eq_iff am_MemCopy_def am_MemSwap_def h by simp_all
  have l: "sm_GetReadLatency p s' = sm_GetReadLatency p s" "sm_GetWriteLatency p s' = sm_GetWriteLatency p s"
    unfolding fun_eq_iff sm_GetReadLatency_def sm_GetWriteLatency_def v by simp_all
  show "SimpleMemory_store p s' = SimpleMemory_store p s" unfolding SimpleMemory_store_def c l by simp
qed

text \<open>The invariant relative to the state an operation started in is the invariant.\<close>

lemma sys_inv_mem:
  assumes "sim.sys_inv c p s"
  shows "mem_inv p s" "geometry_of s = geometry_of c" "SimpleMemory_store p s = SimpleMemory_store p c"
proof -
  have g: "geometry_of s = geometry_of c" "sim_ok p c (atc_mem s)" "atc_inv s" using assms by (simp_all add: sim.sys_inv_def)
  show "geometry_of s = geometry_of c" "SimpleMemory_store p s = SimpleMemory_store p c" using g(1) geometry_store by simp_all
  have "atc_geo s" using g(3) by (rule atc_invD)
  then have "mc_geometry (atc_mc s)" by (rule atc_geoD)
  then have "virt_ok s (hs_banks (atc_mem s))"
    using g(1,2) geometry_store(2) [OF g(1)] by (simp add: sim_ok_def virt_ok_def geometry_of_def)
  then show "mem_inv p s" using g by (simp add: mem_inv_def sim_ok_def geometry_of_def)
qed

section \<open>The translation is one to one\<close>

lemma loc_fresh:
  assumes inv: "atc_inv s" and t: "valid_tag (atc_bits s) (atc_phy_range s) t"
  shows "fresh_base (atc_bits s) (atc_phy_range s) (atc_map s) t (loc (atc_bits s) (atc_map s) t)"
proof (cases rule: loc_cases [OF inv t, case_names home nvm dram])
  case home
  then show ?thesis using fresh_home [OF inv t] by simp
next
  case (nvm st j)
  have "t' = t" if "nvm_state st'" "atc_map s t' = Some (st', vb_addr (atc_nvm s) j)" for t' st'
    using owns_inj [OF atc_owns(1) [OF atc_invD(8) [OF inv]] that(2,1) nvm(1,2)] .
  then show ?thesis unfolding nvm(4) using in_use_range(1) [OF inv nvm(3)] by (intro fresh_nvm [OF inv]) blast+
next
  case (dram st j)
  have "t' = t" if "dram_state st'" "atc_map s t' = Some (st', vb_addr (atc_dram s) j)" for t' st'
    using owns_inj [OF atc_owns(2) [OF atc_invD(8) [OF inv]] that(2,1) dram(1,2)] .
  then show ?thesis unfolding dram(4) using in_use_range(2) [OF inv dram(3)] by (intro fresh_dram [OF inv]) blast+
qed

text \<open>Different blocks are at different places, and a block keeps the order of its bytes.\<close>

lemma tr_block:
  assumes inv: "atc_inv s" and a: "a < atc_phy_range s" "x < atc_phy_range s"
  shows "drop_bit (atc_bits s) (tr (atc_bits s) (atc_map s) x) = drop_bit (atc_bits s) (tr (atc_bits s) (atc_map s) a) \<longleftrightarrow>
      drop_bit (atc_bits s) x = drop_bit (atc_bits s) a"
    and "drop_bit (atc_bits s) x = drop_bit (atc_bits s) a \<Longrightarrow>
      tr (atc_bits s) (atc_map s) x - tr (atc_bits s) (atc_map s) a = x - a"
    and "tr (atc_bits s) (atc_map s) a AND mask (atc_bits s) = a AND mask (atc_bits s)"
proof -
  let ?b = "atc_bits s" and ?T = "atc_map s"
  note ta = valid_tag_drop [OF a(1), of ?b] and tx = valid_tag_drop [OF a(2), of ?b]
  note la = loc_aligned [OF inv ta] and lx = loc_aligned [OF inv tx]
  show o: "tr ?b ?T a AND mask ?b = a AND mask ?b" using la by (simp add: tr_loc)
  have d: "drop_bit ?b (tr ?b ?T y) = drop_bit ?b (loc ?b ?T (drop_bit ?b y))" if "y < atc_phy_range s" for y
    using loc_aligned [OF inv valid_tag_drop [OF that, of ?b]] by (simp add: tr_loc)
  show "drop_bit ?b (tr ?b ?T x) = drop_bit ?b (tr ?b ?T a) \<longleftrightarrow> drop_bit ?b x = drop_bit ?b a"
    unfolding d [OF a(1)] d [OF a(2)] using fresh_drop [OF loc_fresh [OF inv ta] tx] by auto
  assume e: "drop_bit ?b x = drop_bit ?b a"
  have "x - a = (x AND mask ?b) - (a AND mask ?b)"
    using rebase_push_drop [of ?b x] rebase_push_drop [of ?b a] e unfolding rebase_def by (metis add_diff_cancel_left)
  then show "tr ?b ?T x - tr ?b ?T a = x - a" unfolding tr_loc e rebase_def by simp
qed

lemma tr_inj:
  assumes inv: "atc_inv s" and a: "a < atc_phy_range s" "x < atc_phy_range s"
    and e: "tr (atc_bits s) (atc_map s) x = tr (atc_bits s) (atc_map s) a"
  shows "x = a"
  using tr_block(1,2) [OF inv a] e by simp

lemma tr_in_memory:
  assumes inv: "atc_inv s" and a: "a < atc_phy_range s"
  shows "push_bit (atc_bits s) (drop_bit (atc_bits s) (tr (atc_bits s) (atc_map s) a)) < atc_Size s"
proof -
  let ?b = "atc_bits s" and ?T = "atc_map s"
  note t = valid_tag_drop [OF a, of ?b] and g = atc_invD(1) [OF inv]
  have "loc ?b ?T (drop_bit ?b a) < atc_Size s"
  proof (cases rule: loc_cases [OF inv t, case_names home nvm dram])
    case home
    then show ?thesis using t atc_Size_bounds(1) [OF g] by (simp add: valid_tag_def)
  next
    case (nvm st j)
    then show ?thesis using atc_Size_bounds(2) [OF g in_use_range(1) [OF inv nvm(3)]] by simp
  next
    case (dram st j)
    then show ?thesis using atc_Size_bounds(3) [OF g in_use_range(2) [OF inv dram(3)]] by simp
  qed
  then show ?thesis using loc_aligned [OF inv t] by (simp add: tr_loc)
qed

section \<open>Host accesses\<close>

lemma phy_aligned:
  assumes "atc_geo s"
  shows "aligned (atc_bits s) (atc_phy_range s)"
proof -
  note g = atc_geoD [OF assms]
  have "(2 :: int) ^ atc_bits s dvd 2 ^ mc_page_bits (atc_mc s)"
    using g(4,5) by (intro le_imp_power_dvd) (simp add: mc_geometry_def)
  then show ?thesis using g(12) unfolding aligned_uint by (rule dvd_trans)
qed

lemma Size_aligned: "atc_geo s \<Longrightarrow> aligned (atc_bits s) (atc_Size s)"
proof -
  assume geo: "atc_geo s"
  note g = atc_geoD [OF geo]
  have 1: "2 ^ atc_bits s dvd uint (atc_phy_range s)" using phy_aligned [OF geo] unfolding aligned_uint .
  have d: "(2 :: int) ^ atc_bits s dvd uint (vb_Size v)" if "vb_geometry v" "vb_block_bits v = atc_bits s" for v
    using that(2) by (simp add: uint_vb_Size [OF that(1)])
  have lt: "uint (atc_phy_range s) + uint (vb_Size (atc_nvm s)) < 2 ^ 64" "uint (vb_addr_base (atc_dram s)) + uint (vb_Size (atc_dram s)) < 2 ^ 64"
    using g(6,7,10) uint_vb_Size [OF g(6)] uint_vb_Size [OF g(7)] by (simp_all add: vb_geometry_def)
  have "uint (atc_Size s) = uint (atc_phy_range s) + uint (vb_Size (atc_nvm s)) + uint (vb_Size (atc_dram s))"
    using lt uint_add_lem [of "atc_phy_range s" "vb_Size (atc_nvm s)"]
      uint_add_lem [of "atc_phy_range s + vb_Size (atc_nvm s)" "vb_Size (atc_dram s)"] g(11) by (simp add: atc_Size_def)
  then show ?thesis using 1 d [OF g(6,2)] d [OF g(7,3)] by (simp add: aligned_uint)
qed

lemma block_below:
  assumes "b < 64" "aligned b m" "aligned b n" "m < n"
  shows "rebase b x m < n"
proof -
  obtain i j where ij: "unat m = 2 ^ b * i" "unat n = 2 ^ b * j" using assms(2,3) unfolding aligned_unat by (auto elim!: dvdE)
  then have "i + 1 \<le> j" using assms(4) by (simp add: word_less_nat_alt)
  then have "2 ^ b * (i + 1) \<le> 2 ^ b * j" by (rule mult_le_mono2)
  then have le: "unat m + 2 ^ b \<le> unat n" using ij by (simp add: algebra_simps)
  have off: "unat (x AND mask b) < 2 ^ b" unfolding unat_offset by simp
  have "unat m + unat (x AND mask b) < 2 ^ LENGTH(64)" using le off unsigned_less [of n, where ?'a = nat] by simp
  then have "unat (m + (x AND mask b)) = unat m + unat (x AND mask b)" by (rule iffD1 [OF unat_add_lem])
  then show ?thesis using le off by (simp add: word_less_nat_alt rebase_def)
qed

lemma tr_below:
  assumes inv: "atc_inv s" and a: "a < atc_phy_range s"
  shows "tr (atc_bits s) (atc_map s) a < atc_Size s"
proof -
  let ?b = "atc_bits s" and ?T = "atc_map s"
  note g = atc_invD(1) [OF inv]
  have "rebase ?b a (push_bit ?b (drop_bit ?b (tr ?b ?T a))) < atc_Size s"
    using atc_geoD(1) [OF g] tr_in_memory [OF inv a] Size_aligned [OF g] by (intro block_below) simp_all
  then show ?thesis using loc_aligned [OF inv valid_tag_drop [OF a, of ?b]] by (simp add: tr_loc)
qed

text \<open>A range of bytes that does not cross the end of its block stays in it.\<close>

lemma range_in_block:
  fixes y c :: Addr
  assumes "b < 64" "unat (c AND mask b) + n \<le> 2 ^ b" "unat (y - c) < n"
  shows "drop_bit b y = drop_bit b c"
proof -
  define k where "k = unat (y - c)"
  have y: "y = c + of_nat k" by (simp add: k_def)
  define q where "q = unat c div 2 ^ b"
  have c: "unat c = q * 2 ^ b + unat c mod 2 ^ b" unfolding q_def by (rule div_mult_mod_eq [symmetric])
  have off: "unat c mod 2 ^ b + k < 2 ^ b" using assms(2,3) by (simp add: k_def unat_offset)
  have "unat c < 2 ^ LENGTH(64)" by (rule unsigned_less)
  then have "q * 2 ^ b < 2 ^ 64" using c by simp
  moreover have "(2 :: nat) ^ 64 = 2 ^ (64 - b) * 2 ^ b" using assms(1) by (simp add: power_add [symmetric])
  ultimately have "q < 2 ^ (64 - b)" by (metis mult_less_cancel2)
  then have "(q + 1) * 2 ^ b \<le> 2 ^ (64 - b) * 2 ^ b" by (intro mult_le_mono1) simp
  also have "\<dots> = 2 ^ 64" using assms(1) by (simp add: power_add [symmetric])
  finally have "unat c + k < 2 ^ 64" using c off by simp
  then have "unat y = unat c + k" unfolding y by (rule unat_plus_of_nat)
  then have "unat y div 2 ^ b = q"
    using c off by (intro div_nat_eqI) (simp_all add: algebra_simps)
  then have "unat (drop_bit b y) = unat (drop_bit b c)" by (simp add: unat_drop q_def)
  then show ?thesis by (simp add: word_unat_eq_iff)
qed

section \<open>Reading and writing through the controller\<close>

text \<open>\<open>n\<close> bytes from \<open>a\<close> on lie in one block of the memory.\<close>

definition in_block :: "'m ATC \<Rightarrow> Addr \<Rightarrow> nat \<Rightarrow> bool" where
  "in_block s a n \<longleftrightarrow> a < atc_phy_range s \<and> 0 < n \<and> unat (a AND mask (atc_bits s)) + n \<le> 2 ^ atc_bits s"

definition write_host :: "Addr \<Rightarrow> byte list \<Rightarrow> HostStore ATC \<Rightarrow> HostStore ATC" where
  "write_host a bs s = s\<lparr>atc_mem := (atc_mem s)\<lparr>host := write_bytes a bs (host (atc_mem s))\<rparr>\<rparr>"

lemma in_block_valid:
  assumes "in_block s a n" "atc_bits s \<le> 30"
  shows "atc_CheckValid a (int n) s"
proof -
  have n: "unat (a AND mask (atc_bits s)) + n \<le> 2 ^ atc_bits s" "0 < n" using assms(1) by (simp_all add: in_block_def)
  have "(2 :: nat) ^ atc_bits s \<le> 2 ^ 30" using assms(2) by (intro power_increasing) simp_all
  then have "unat (of_nat (n - 1) :: Addr) = n - 1" using n(1) by (intro unat_of_nat_small) simp
  moreover have "a + word_of_int (int n) - 1 = a + of_nat (n - 1)" using n(2) by (simp add: of_nat_diff)
  ultimately have "unat (a + word_of_int (int n) - 1 - a) < n" using n(2) by simp
  then have "drop_bit (atc_bits s) (a + word_of_int (int n) - 1) = drop_bit (atc_bits s) a"
    using assms(2) by (intro range_in_block [OF _ n(1)]) simp_all
  then show ?thesis by (simp add: atc_CheckValid_def att_ToTag_def)
qed

lemma write_bytes_other: "n = length bs \<Longrightarrow> \<not> unat (x - a) < n \<Longrightarrow> write_bytes a bs mem x = mem x"
  by (simp add: write_bytes_def)

text \<open>Bytes written at the translated address are written at the address.\<close>

lemma write_host_logical:
  assumes inv: "atc_inv s" and fit: "in_block s a (length bs)" and x: "x < atc_phy_range s"
  shows "logical (write_host (tr (atc_bits s) (atc_map s) a) bs s) x = write_bytes a bs (logical s) x"
proof -
  let ?b = "atc_bits s" and ?T = "atc_map s"
  have a: "a < atc_phy_range s" "unat (a AND mask ?b) + length bs \<le> 2 ^ ?b" using fit by (simp_all add: in_block_def)
  note t = tr_block [OF inv a(1) x]
  have b: "?b < 64" using atc_geoD(1) [OF atc_invD(1) [OF inv]] by simp
  have l: "logical (write_host (tr ?b ?T a) bs s) x = write_bytes (tr ?b ?T a) bs (host (atc_mem s)) (tr ?b ?T x)"
    by (simp add: logical_def write_host_def)
  show ?thesis
  proof (cases "drop_bit ?b x = drop_bit ?b a")
    case True
    then show ?thesis unfolding l using t(2) by (simp add: write_bytes_def logical_def)
  next
    case False
    have "\<not> unat (tr ?b ?T x - tr ?b ?T a) < length bs"
      using range_in_block [OF b, of "tr ?b ?T a" "length bs" "tr ?b ?T x"] t(1,3) a(2) False by auto
    moreover have "\<not> unat (x - a) < length bs" using range_in_block [OF b a(2), of x] False by auto
    ultimately show ?thesis unfolding l by (simp add: write_bytes_def logical_def)
  qed
qed

lemma write_host_inv [simp]:
  "atc_inv (write_host a bs s) = atc_inv s" "atc_stats (write_host a bs s) = atc_stats s" "geometry_of (write_host a bs s) = geometry_of s"
  "atc_ckpt (write_host a bs s) = atc_ckpt s" "atc_map (write_host a bs s) = atc_map s" "in_dram (write_host a bs s) = in_dram s"
  "atc_phy_range (write_host a bs s) = atc_phy_range s" "atc_bits (write_host a bs s) = atc_bits s"
proof -
  show d: "in_dram (write_host a bs s) = in_dram s" by (simp add: fun_eq_iff in_dram_def write_host_def)
  show "atc_inv (write_host a bs s) = atc_inv s"
    unfolding atc_inv_def atc_geo_def atc_blocks_def atc_counts_def d by (simp add: write_host_def)
qed (simp_all add: write_host_def atc_stats_def atc_budget_def geometry_of_def atc_Size_def)

lemma write_host_mem_inv [simp]: "mem_inv p (write_host a bs s) = mem_inv p s"
proof -
  have "virt_ok (write_host a bs s) = virt_ok s"
    unfolding fun_eq_iff virt_ok_def GetVirtRegionBase_def by (simp add: write_host_def atc_Size_def)
  then have "sim_ok p (write_host a bs s) (atc_mem (write_host a bs s)) = sim_ok p s (atc_mem s)"
    unfolding sim_ok_def by (simp add: write_host_def)
  then show ?thesis by (simp add: mem_inv_def)
qed

text \<open>A step that keeps the flat memory, except perhaps for one block.\<close>

definition flat_step :: "SimpleMemoryParams \<Rightarrow> HostStore ATC \<Rightarrow> HostStore ATC \<Rightarrow> bool" where
  "flat_step p s s' \<longleftrightarrow> mem_inv p s' \<and> geometry_of s' = geometry_of s \<and> (\<forall>a < atc_phy_range s. logical s' a = logical s a)"

lemma geometry_fields:
  "geometry_of s' = geometry_of s \<Longrightarrow> atc_phy_range s' = atc_phy_range s \<and> atc_bits s' = atc_bits s \<and> atc_Size s' = atc_Size s \<and>
     mc_page_bits (atc_mc s') = mc_page_bits (atc_mc s) \<and> mc_ptt_capacity (atc_mc s') = mc_ptt_capacity (atc_mc s)"
  by (simp add: geometry_of_def)

lemma flat_step_trans: "flat_step p s s' \<Longrightarrow> flat_step p s' s'' \<Longrightarrow> flat_step p s s''"
  using geometry_fields [of s' s] by (simp add: flat_step_def)

lemma flat_step_refl: "mem_inv p s \<Longrightarrow> flat_step p s s"
  by (simp add: flat_step_def)

lemma load_flat:
  assumes inv: "mem_inv p s" and a: "a < atc_phy_range s" and pf: "\<not> ignore_latency pf"
  shows "\<exists>pf' s'. atc_LoadAddr (SimpleMemory_store p s) a pf s = Some (tr (atc_bits s) (atc_map s) a, pf', s') \<and>
    flat_step p s s' \<and> \<not> ignore_latency pf' \<and> atc_map s' = atc_map s \<and> host (atc_mem s') = host (atc_mem s) \<and>
    atc_ckpt s' = atc_ckpt s \<and> in_dram s' = in_dram s \<and> (atc_stats s \<longrightarrow> atc_stats s')"
proof -
  have s: "sim.sys_inv s p s" using inv by (simp add: mem_inv_sys)
  obtain pf' s' where r: "atc_LoadAddr (SimpleMemory_store p s) a pf s = Some (tr (atc_bits s) (atc_map s) a, pf', s')"
      "sim.keeps s p s s'" "\<not> ignore_latency pf'"
    using sim.LoadAddr_ok [OF s a pf] by blast
  note k = sim.keepsD [OF r(2)]
  have "host (atc_mem s') = host (atc_mem s)" using r(2) by (simp add: sim.keeps_def)
  then show ?thesis using r(1,3) k sys_inv_mem [OF k(1)] by (simp add: flat_step_def logical_vw)
qed

lemma full_block:
  assumes "in_block s a n" "atc_FullBlock a (int n) s" "atc_bits s \<le> 30"
  shows "n = 2 ^ atc_bits s" "drop_bit (atc_bits s) x = drop_bit (atc_bits s) a \<Longrightarrow> unat (x - a) < n"
proof -
  have bs: "att_block_size (atc_att s) = 2 ^ atc_bits s" using assms(3) by (simp add: att_block_size_def int32_pow2)
  have "int n = 2 ^ atc_bits s" using assms(2) by (simp add: atc_FullBlock_def bs)
  then show n: "n = 2 ^ atc_bits s" by (metis of_nat_eq_iff of_nat_numeral of_nat_power)
  have al: "aligned (atc_bits s) a"
    using assms(2) by (simp add: atc_FullBlock_def bs aligned_def mask_eq_exp_minus_1)
  assume "drop_bit (atc_bits s) x = drop_bit (atc_bits s) a"
  then have "x - a = x AND mask (atc_bits s)" using al by (rule offset_in_block)
  then show "unat (x - a) < n" by (simp add: n unat_offset)
qed

lemma store_flat:
  assumes inv: "mem_inv p s" and st: "atc_stats s" and fit: "in_block s a (length bs)" and pf: "\<not> ignore_latency pf"
    and room: "store_room (drop_bit (atc_bits s) a) s"
    and nb: "\<not> (atc_ckpt s \<and> in_dram s (drop_bit (atc_bits s) a) \<and> atc_map s (drop_bit (atc_bits s) a) \<noteq> None)"
  shows "\<exists>x pf' s'. atc_StoreAddr (SimpleMemory_store p s) a (int (length bs)) pf s = Some (x, pf', s') \<and> \<not> ignore_latency pf' \<and>
    x < atc_Size s \<and> x = tr (atc_bits s') (atc_map s') a \<and> mem_inv p s' \<and> geometry_of s' = geometry_of s \<and> atc_stats s' \<and> atc_ckpt s' = atc_ckpt s \<and>
    (\<forall>y < atc_phy_range s. logical (write_host x bs s') y = write_bytes a bs (logical s) y)"
proof -
  let ?b = "atc_bits s"
  have s: "sim.sys_inv s p s" using inv by (simp add: mem_inv_sys)
  have b30: "?b \<le> 30" using inv by (simp add: mem_inv_def sim_ok_def)
  have a: "a < atc_phy_range s" using fit by (simp add: in_block_def)
  obtain pf' s' where r: "atc_StoreAddr (SimpleMemory_store p s) a (int (length bs)) pf s = Some (tr (atc_bits s') (atc_map s') a, pf', s')"
      "sim.moved s p (\<not> atc_FullBlock a (int (length bs)) s) (drop_bit ?b a) s s'" "\<not> ignore_latency pf'"
    using sim.StoreAddr_ok [OF s st a in_block_valid [OF fit b30] pf room nb] by blast
  note m = sim.movedD [OF r(2)] and i = sys_inv_mem [OF sim.movedD(1) [OF r(2)]]
  have inv': "atc_inv s'" using i(1) by (simp add: mem_inv_def)
  note g = geometry_fields [OF i(2)]
  have fit': "in_block s' a (length bs)" using fit g by (simp add: in_block_def)
  have "logical (write_host (tr (atc_bits s') (atc_map s') a) bs s') y = write_bytes a bs (logical s) y" if y: "y < atc_phy_range s" for y
  proof -
    have "logical (write_host (tr (atc_bits s') (atc_map s') a) bs s') y = write_bytes a bs (logical s') y"
      using write_host_logical [OF inv' fit'] y g by simp
    also have "\<dots> = write_bytes a bs (logical s) y"
    proof (cases "atc_FullBlock a (int (length bs)) s \<and> drop_bit ?b y = drop_bit ?b a")
      case True
      then show ?thesis using full_block(2) [OF fit _ b30] by (simp add: write_bytes_def)
    next
      case False
      then have "logical s' y = logical s y" using r(2) y by (simp add: sim.moved_def logical_vw)
      then show ?thesis by (simp add: write_bytes_def)
    qed
    finally show ?thesis .
  qed
  moreover have "tr (atc_bits s') (atc_map s') a < atc_Size s" using tr_below [OF inv', of a] a g by simp
  ultimately show ?thesis using r(1,3) i m(3) m(7) [OF st] by blast
qed

lemma migrate_flat:
  assumes "mem_inv p s" "\<not> atc_ckpt s" "atc_stats s" "\<not> ignore_latency pf"
  shows "\<exists>bl' pf' s'. atc_MigratePages (SimpleMemory_store p s) dr wr bl pf s = Some (bl', pf', s') \<and> flat_step p s s' \<and>
    \<not> atc_ckpt s' \<and> tags (\<lambda>x. x = LOAN) (atc_map s') = {}"
proof -
  have s: "sim.sys_inv s p s" using assms(1) by (simp add: mem_inv_sys)
  obtain bl' pf' s' where r: "atc_MigratePages (SimpleMemory_store p s) dr wr bl pf s = Some (bl', pf', s')" "sim.mig s p s s'"
    using sim.MigratePages_ok [OF s assms(2,3,4), of dr wr bl] by blast
  note m = sim.migD [OF r(2)]
  have "\<forall>a < atc_phy_range s. logical s' a = logical s a" using r(2) by (simp add: sim.mig_def logical_vw)
  then show ?thesis using r(1) m(2,4) assms(2) sys_inv_mem [OF m(1)] by (simp add: flat_step_def)
qed

lemma begin_flat:
  assumes "mem_inv p s" "\<not> atc_ckpt s" "tags (\<lambda>x. x = LOAN) (atc_map s) = {}"
  shows "\<exists>bl' pf' s'. atc_BeginCheckpointing (SimpleMemory_store p s) bl pf s = Some (bl', pf', s') \<and> flat_step p s s' \<and>
    atc_ckpt s' \<and> atc_stats s' \<and> (\<forall>t st m. atc_map s' t = Some (st, m) \<longrightarrow> st = CLEAN)"
proof -
  have s: "sim.sys_inv s p s" using assms(1) by (simp add: mem_inv_sys)
  obtain bl' pf' s' where r: "atc_BeginCheckpointing (SimpleMemory_store p s) bl pf s = Some (bl', pf', s')" "sim.sys_inv s p s'"
      "atc_ckpt s'" "atc_stats s'" "\<forall>a < atc_phy_range s. sim.vw s' a = sim.vw s a" "\<forall>t st m. atc_map s' t = Some (st, m) \<longrightarrow> st = CLEAN"
    using sim.BeginCheckpointing_ok [OF s assms(2,3), of bl pf] by blast
  then show ?thesis using sys_inv_mem [OF r(2)] by (simp add: flat_step_def logical_vw)
qed

lemma finish_flat:
  assumes "mem_inv p s" "atc_ckpt s" "atc_stats s"
  shows "\<exists>s'. atc_FinishCheckpointing (SimpleMemory_store p s) pf s = Some s' \<and> flat_step p s s' \<and> \<not> atc_ckpt s' \<and> atc_stats s' \<and>
    atc_map s' = atc_map s"
proof -
  have s: "sim.sys_inv s p s" using assms(1) by (simp add: mem_inv_sys)
  obtain s' where r: "atc_FinishCheckpointing (SimpleMemory_store p s) pf s = Some s'" "sim.sys_inv s p s'" "\<not> atc_ckpt s'" "atc_stats s'"
      "atc_map s' = atc_map s" "sim.vw s' = sim.vw s"
    using sim.FinishCheckpointing_ok [OF s assms(2,3), of pf] by blast
  then show ?thesis using sys_inv_mem [OF r(2)] by (simp add: flat_step_def logical_vw)
qed

end
