(* ===== verification/Controller_Abort.thy ===== *)
theory Controller_Abort
  imports Flat_Memory
begin

text \<open>
  When a store stops at an \<open>assert\<close>: there is no room in the table for a new entry, or the block is a loan of a page in
  DRAM while a checkpoint is under way, because the latency of that write is asked for at the physical address, which
  is not in the DRAM buffer.
\<close>

context mem_store
begin

lemma no_entry_aborts:
  assumes s: "sys_inv s" and full: "int (card (dom (atc_map s))) = att_length (atc_att s)" "tags (\<lambda>x. x = CLEAN) (atc_map s) = {}"
  shows "atc_free_entry_ckpt ms st pf s = None"
    and "tags (\<lambda>x. x = LOAN) (atc_map s) = {} \<Longrightarrow> atc_free_entry_run ms pf s = None"
proof -
  note ok = atc_invD(2) [OF sys_inv_atc [OF s]]
  note e = map_IsEmpty_FREE [OF ok] map_IsEmpty [OF ok, of CLEAN] map_IsEmpty [OF ok, of LOAN]
  show "atc_free_entry_ckpt ms st pf s = None" using e full by (simp add: atc_free_entry_ckpt_def)
  show "tags (\<lambda>x. x = LOAN) (atc_map s) = {} \<Longrightarrow> atc_free_entry_run ms pf s = None"
    using e full by (simp add: atc_free_entry_run_def)
qed

text \<open>The state in which \<open>DRAMStore\<close> runs, when the block is in a page in DRAM.\<close>

lemma StoreAddr_dram:
  assumes s: "sys_inv s" and a: "a < atc_phy_range s" "atc_CheckValid a sz s" and d: "in_dram s (drop_bit (atc_bits s) a)"
  obtains page pf1 s1 where "atc_StoreAddr ms a sz pf s = atc_DRAMStore ms a sz page pf1 s1" "keeps s s1"
proof -
  obtain q e where P: "mc_LookupPage a pf (atc_mc s) = (e, pf_AddTableOp pf)" "mc_find q (atc_mc s) = Some e" "0 \<le> pt_index e"
    using LookupPage_hit [OF s a(1) d] by metis
  obtain page pf1 mc where m: "mark_page e (pf_AddTableOp pf) (atc_mc s) = Some (page, pf1, mc)" "keeps s (s\<lparr>atc_mc := mc\<rparr>)"
    using mark_page_ok [OF s P(2), of "pf_AddTableOp pf"] by blast
  obtain s1 where k: "atc_hook (statsDRAMWrites ms 1) (s\<lparr>atc_mc := mc\<rparr>) = Some s1" "keeps (s\<lparr>atc_mc := mc\<rparr>) s1"
    using hook_ok(5) [OF keepsD(1) [OF m(2)]] by blast
  show thesis using that StoreAddr_page [OF a(2,1) P(1,3) m(1) k(1)] keeps_trans [OF m(2) k(2)] by blast
qed

lemma StoreAddr_no_room:
  assumes s: "sys_inv s" and a: "a < atc_phy_range s" "atc_CheckValid a sz s" and no: "\<not> store_room (drop_bit (atc_bits s) a) s"
  shows "atc_StoreAddr ms a sz pf s = None"
proof -
  let ?t = "drop_bit (atc_bits s) a"
  have n: "atc_map s ?t = None" "in_dram s ?t \<Longrightarrow> atc_ckpt s" "int (card (dom (atc_map s))) = att_length (atc_att s)"
      "tags (\<lambda>x. x = CLEAN) (atc_map s) = {}" "\<not> atc_ckpt s \<Longrightarrow> tags (\<lambda>x. x = LOAN) (atc_map s) = {}"
    using no map_card [OF atc_invD(2) [OF sys_inv_atc [OF s]]] unfolding store_room_def by (auto simp del: not_None_eq)
  have f: "atc_free_entry_ckpt ms st pf' s1 = None" "\<not> atc_ckpt s \<Longrightarrow> atc_free_entry_run ms pf' s1 = None"
    if "keeps s s1" for st pf' s1
    using no_entry_aborts [OF keepsD(1) [OF that]] keepsD(2,6) [OF that] n(3,4,5) by auto
  show ?thesis
  proof (cases "in_dram s ?t")
    case True
    obtain page pf1 s1 where r: "atc_StoreAddr ms a sz pf s = atc_DRAMStore ms a sz page pf1 s1" "keeps s s1"
      by (rule StoreAddr_dram [OF s a True])
    note k = keepsD [OF r(2)]
    have l: "att_Lookup (att_ToTag a (atc_att s1)) pf1 (atc_att s1) = Some (- EINVAL, pf_AddTableOp pf1, atc_att s1)"
      using map_Lookup_miss [of "atc_att s1" ?t pf1] n(1) k(2,5) by (simp add: att_ToTag_def)
    show ?thesis using r(1) l n(2) [OF True] k(4) f(1) [OF r(2)] by (simp add: atc_DRAMStore_def)
  next
    case False
    obtain s1 where k: "atc_hook (statsNVMWrites ms 1) s = Some s1" "keeps s s1" using hook_ok(4) [OF s] by blast
    note k1 = keepsD [OF k(2)]
    have l: "att_Lookup (att_ToTag a (atc_att s1)) (pf_AddTableOp pf) (atc_att s1) = Some (- EINVAL, pf_AddTableOp (pf_AddTableOp pf), atc_att s1)"
      using map_Lookup_miss [of "atc_att s1" ?t "pf_AddTableOp pf"] n(1) k1(2,5) by (simp add: att_ToTag_def)
    have "atc_NVMStore ms a sz (pf_AddTableOp pf) s1 = None"
      using l k1(4) f [OF k(2)] by (cases "atc_ckpt s") (simp_all add: atc_NVMStore_def)
    then show ?thesis using a LookupPage_miss [OF s False] k(1) by (simp add: atc_StoreAddr_def)
  qed
qed

lemma StoreAddr_loan_ckpt:
  assumes s: "sys_inv s" and a: "a < atc_phy_range s" "atc_CheckValid a sz s" and ck: "atc_ckpt s"
    and d: "in_dram s (drop_bit (atc_bits s) a)" and h: "atc_map s (drop_bit (atc_bits s) a) \<noteq> None"
    and lat: "\<And>m. ok m \<Longrightarrow> GetWriteLatency ms a True None m = None"
  shows "atc_StoreAddr ms a sz pf s = None"
proof -
  let ?t = "drop_bit (atc_bits s) a"
  obtain page pf1 s1 where r: "atc_StoreAddr ms a sz pf s = atc_DRAMStore ms a sz page pf1 s1" "keeps s s1"
    by (rule StoreAddr_dram [OF s a d])
  note k = keepsD [OF r(2)]
  obtain v where "atc_map s1 ?t = Some v" using h k(2) by auto
  then obtain i att2 where l: "att_Lookup ?t pf1 (atc_att s1) = Some (i, pf_AddTableOp pf1, att2)" "i \<noteq> - EINVAL"
      "keeps s1 (s1\<lparr>atc_att := att2\<rparr>)" "att_holds att2 i ?t"
    using Lookup_ok [OF k(1), of ?t v pf1] by blast
  define s2 where "s2 = s1\<lparr>atc_att := att2\<rparr>"
  note k2 = keepsD [OF l(3) [folded s2_def]]
  have at: "att_At i att2 = Some (ent att2 i)" using att_holds_At [OF atc_invD(2) [OF sys_inv_atc [OF k2(1)]], of i ?t] l(4) by (simp add: s2_def)
  obtain s3 where h3: "atc_hook (OnATTWriteHit ms (att_state (ent att2 i))) s2 = Some s3" "keeps s2 s3" using hook_ok(1) [OF k2(1)] by blast
  note k3 = keepsD [OF h3(2)]
  have "ok (atc_mem s3)" using k3(1) by (simp add: sys_inv_def)
  then have "atc_WriteLatency ms a True None pf' s3 = None" for pf' using lat by (simp add: atc_WriteLatency_def)
  then have "atc_DRAMStore ms a sz page pf1 s1 = None"
    using l(1,2) at h3(1) k3(4) k2(4) k(4,5) ck by (simp add: atc_DRAMStore_def att_ToTag_def s2_def [symmetric])
  then show ?thesis using r(1) by simp
qed

end

text \<open>The latency model refuses a DRAM address below the buffers when there is no page.\<close>

lemma write_latency_home:
  assumes inv: "atc_inv c" and a: "a < atc_phy_range c"
  shows "GetWriteLatency (SimpleMemory_store p c) a True None m = None"
proof -
  have "atc_phy_range c \<le> vb_addr_base (atc_dram c)"
    using dram_base_uint [OF atc_invD(1) [OF inv]] atc_geoD(6) [OF atc_invD(1) [OF inv]] by (simp add: word_le_def vb_geometry_def)
  then have "\<not> vb_Contains a (atc_dram c)" using a by (auto simp: vb_Contains_def)
  then show ?thesis by (simp add: SimpleMemory_store_def sm_GetWriteLatency_def GetVirtMachAddr_def)
qed

text \<open>So a store aborts exactly in these two cases.\<close>

definition loan_in_ckpt :: "Tag \<Rightarrow> 'm ATC \<Rightarrow> bool" where
  "loan_in_ckpt t s \<longleftrightarrow> atc_ckpt s \<and> in_dram s t \<and> atc_map s t \<noteq> None"

lemma store_aborts_iff:
  assumes inv: "mem_inv p s" and st: "atc_stats s" and fit: "in_block s a n" and pf: "\<not> ignore_latency pf"
  shows "atc_StoreAddr (SimpleMemory_store p s) a (int n) pf s = None \<longleftrightarrow>
    \<not> store_room (drop_bit (atc_bits s) a) s \<or> loan_in_ckpt (drop_bit (atc_bits s) a) s"
proof
  let ?t = "drop_bit (atc_bits s) a"
  have s: "sim.sys_inv s p s" using inv by (simp add: mem_inv_sys)
  have a: "a < atc_phy_range s" "atc_CheckValid a (int n) s"
    using fit in_block_valid [OF fit] inv by (simp_all add: in_block_def mem_inv_def sim_ok_def)
  show "\<not> store_room ?t s \<or> loan_in_ckpt ?t s" if "atc_StoreAddr (SimpleMemory_store p s) a (int n) pf s = None"
    using sim.StoreAddr_ok [OF s st a pf] that by (auto simp: loan_in_ckpt_def)
  show "atc_StoreAddr (SimpleMemory_store p s) a (int n) pf s = None" if "\<not> store_room ?t s \<or> loan_in_ckpt ?t s"
    using that sim.StoreAddr_no_room [OF s a] sim.StoreAddr_loan_ckpt [OF s a]
      write_latency_home [OF _ a(1), of p] inv by (auto simp: loan_in_ckpt_def mem_inv_def)
qed

section \<open>Room after a checkpoint\<close>

text \<open>The geometry determines the number of entries.\<close>

lemma geometry_entries:
  assumes "mem_inv p s" "mem_inv p s'" "geometry_of s' = geometry_of (s :: HostStore ATC)"
  shows "att_length (atc_att s') = att_length (atc_att s)"
proof -
  have g: "atc_geo s" "atc_geo s'" using assms(1,2) by (simp_all add: mem_inv_def atc_inv_def)
  have "geo_nvm_size (geometry_of s') = geo_nvm_size (geometry_of s)" by (simp only: assms(3))
  then have z: "vb_Size (atc_nvm s') = vb_Size (atc_nvm s)" by (simp add: geometry_of_def)
  have b: "atc_bits s' = atc_bits s" using geometry_fields [OF assms(3)] by blast
  have v: "uint (vb_Size (atc_nvm x)) = 2 * att_length (atc_att x) * 2 ^ atc_bits x" if "atc_geo x" for x :: "HostStore ATC"
    using uint_vb_Size [OF atc_geoD(6) [OF that]] atc_geoD(2,8) [OF that] by simp
  have "2 * att_length (atc_att s') * 2 ^ atc_bits s = 2 * att_length (atc_att s) * 2 ^ atc_bits s"
    using v [OF g(1)] v [OF g(2)] unfolding z b by simp
  then show ?thesis by simp
qed

lemma clean_room:
  assumes "0 < att_length (atc_att s)" "\<And>t st m. atc_map s t = Some (st, m) \<Longrightarrow> st = CLEAN"
  shows "store_room t s"
proof (cases "dom (atc_map s) = {}")
  case True
  then show ?thesis using assms(1) by (simp add: store_room_def)
next
  case False
  then obtain u where "atc_map s u \<noteq> None" by (auto simp: dom_def)
  then obtain st m where "atc_map s u = Some (st, m)" by (cases "atc_map s u") auto
  then have "u \<in> tags (\<lambda>x. x = CLEAN) (atc_map s)" using assms(2) by (auto simp: tags_def)
  then show ?thesis by (auto simp: store_room_def)
qed

end
