(* ===== verification/Controller_Init.thy ===== *)
theory Controller_Init
  imports Flat_Memory
begin

text \<open>
  The constructor of the controller establishes the invariant. The parameters must describe a layout without
  wrap-around, and the states that the constructor of a table entry leaves as they are must not look active: the
  statistics pass reads them.
\<close>

definition atc_config :: "64 word \<Rightarrow> 64 word \<Rightarrow> int \<Rightarrow> nat \<Rightarrow> nat \<Rightarrow> bool" where
  "atc_config phy_range dram_size att_len block_bits page_bits \<longleftrightarrow>
     block_bits \<le> page_bits \<and> page_bits \<le> 30 \<and> 0 \<le> att_len \<and> 2 * att_len * 2 ^ block_bits < 2 ^ 31 \<and>
     aligned page_bits phy_range \<and> dram_size \<le> phy_range \<and>
     uint phy_range + 3 * att_len * 2 ^ block_bits < 2 ^ 64 \<and> uint (drop_bit page_bits dram_size) < 2 ^ 31"

definition raw_idle :: "int \<Rightarrow> (nat \<Rightarrow> ATTEntry) \<Rightarrow> bool" where
  "raw_idle len raw \<longleftrightarrow> (\<forall>k < nat len. \<not> att_active (raw k))"

lemma vb_init_geometry:
  assumes "bits \<le> 30" "0 \<le> len" "len * 2 ^ bits < 2 ^ 31" "uint base + len * 2 ^ bits < 2 ^ 64" "aligned bits base"
  shows "vb_geometry (vb_set_addr_base base (VersionBuffer_init len bits))"
    "uint (vb_Size (vb_set_addr_base base (VersionBuffer_init len bits))) = len * 2 ^ bits"
proof -
  show g: "vb_geometry (vb_set_addr_base base (VersionBuffer_init len bits))"
    using assms by (simp add: vb_geometry_def vb_set_addr_base_def VersionBuffer_init_def)
  show "uint (vb_Size (vb_set_addr_base base (VersionBuffer_init len bits))) = len * 2 ^ bits"
    unfolding uint_vb_Size [OF g] by (simp add: vb_set_addr_base_def VersionBuffer_init_def)
qed

lemma vb_init_sets:
  "vb_sets (vb_set_addr_base base (VersionBuffer_init len bits)) IN_USE = {}"
  "vb_sets (vb_set_addr_base base (VersionBuffer_init len bits)) BACKUP0 = {}"
  "vb_sets (vb_set_addr_base base (VersionBuffer_init len bits)) BACKUP1 = {}"
  by (simp_all add: vb_set_addr_base_def VersionBuffer_init_def)

lemma vb_init_fields:
  "vb_block_bits (vb_set_addr_base base (VersionBuffer_init len bits)) = bits"
  "vb_length (vb_set_addr_base base (VersionBuffer_init len bits)) = len"
  "vb_addr_base (vb_set_addr_base base (VersionBuffer_init len bits)) = base"
  by (simp_all add: vb_set_addr_base_def VersionBuffer_init_def)

lemma att_init_ok:
  assumes len: "0 \<le> len" and raw: "raw_idle len raw"
  shows "\<exists>att. AddrTransTable_init len bits raw = Some att \<and> att_ok att \<and> att_idle att \<and> att_quiet att \<and>
    tbl att = (\<lambda>_. None) \<and> att_length att = len \<and> att_block_bits att = bits"
proof -
  obtain att where a: "AddrTransTable_init len bits raw = Some att" "att_rep att ((\<lambda>_. [])(StateIndex FREE := [0 .. len - 1]))"
      "att_length att = len" "att_block_bits att = bits" "att_tag_index att = (\<lambda>_. None)"
      "\<And>i. 0 \<le> i \<and> i < len \<Longrightarrow> payload1 (ent att i) = payload1 (ATTEntry_init (raw (nat i)))"
    using AddrTransTable_init_rep [OF len, of bits raw] by blast
  have e: "att_state (ent att i) = att_state (raw (nat i))" "epoch_writes (ent att i) = 0" if "0 \<le> i" "i < len" for i
    using arg_cong [OF a(6), of i att_state] arg_cong [OF a(6), of i epoch_writes] that by (simp_all add: payload1_def ATTEntry_init_def)
  have "att_idle att" unfolding att_idle_def a(3)
    using raw e(1) by (auto simp: raw_idle_def att_active_def nat_less_iff)
  moreover have "att_quiet att" unfolding att_quiet_def a(3) using e(2) by auto
  moreover have "att_ok att" using a(2) by (auto simp: att_ok_def)
  ultimately show ?thesis using a(1,3,4,5) by (auto simp: tbl_def)
qed

theorem AddrTransController_init_ok:
  assumes cfg: "atc_config phy_range dram_size att_len block_bits page_bits" and raw: "raw_idle att_len raw"
  shows "\<exists>s. AddrTransController_init phy_range dram_size att_len block_bits page_bits raw m = Some s \<and>
    atc_inv s \<and> atc_stats s \<and> \<not> atc_ckpt s \<and> atc_map s = (\<lambda>_. None) \<and> atc_mem s = m \<and> atc_phy_range s = phy_range \<and>
    atc_bits s = block_bits \<and> att_length (atc_att s) = att_len \<and> mc_page_bits (atc_mc s) = page_bits \<and>
    mc_ptt_length (atc_mc s) = uint (drop_bit page_bits dram_size) \<and>
    mc_ptt_capacity (atc_mc s) = uint (drop_bit page_bits dram_size) + uint (drop_bit page_bits dram_size) div 16 \<and>
    uint (atc_Size s) = uint phy_range + 3 * att_len * 2 ^ block_bits"
proof -
  have c: "block_bits \<le> page_bits" "page_bits \<le> 30" "0 \<le> att_len" "2 * att_len * 2 ^ block_bits < 2 ^ 31" "aligned page_bits phy_range"
      "dram_size \<le> phy_range" "uint phy_range + 3 * att_len * 2 ^ block_bits < 2 ^ 64" "uint (drop_bit page_bits dram_size) < 2 ^ 31"
    using cfg by (simp_all add: atc_config_def)
  let ?n = "uint (drop_bit page_bits dram_size)" and ?sz = "att_len * 2 ^ block_bits"
  define nvm where "nvm = vb_set_addr_base phy_range (VersionBuffer_init (2 * att_len) block_bits)"
  define dram where "dram = vb_set_addr_base (vb_addr_base nvm + vb_Size nvm) (VersionBuffer_init att_len block_bits)"
  have sz: "0 \<le> ?sz" using c(3) by simp
  have s3: "2 * att_len * 2 ^ block_bits = 2 * ?sz" "3 * att_len * 2 ^ block_bits = 3 * ?sz" by simp_all
  have ald: "(2 :: int) ^ block_bits dvd uint phy_range"
    using c(1,5) unfolding aligned_uint by (meson dvd_trans le_imp_power_dvd)
  have bb: "block_bits \<le> 30" using c(1,2) by simp
  have n1: "2 * att_len * 2 ^ block_bits < 2 ^ 31" "uint phy_range + 2 * att_len * 2 ^ block_bits < 2 ^ 64" "aligned block_bits phy_range"
    using c(4,7) sz s3 ald by (simp_all add: aligned_uint)
  have "0 \<le> 2 * att_len" using c(3) by simp
  note gn' = vb_init_geometry [OF bb this n1]
  have gn: "vb_geometry nvm" "uint (vb_Size nvm) = 2 * ?sz" using gn' by (simp_all add: nvm_def)
  have base: "uint (phy_range + vb_Size nvm) = uint phy_range + 2 * ?sz"
    using uint_add_lem [of phy_range "vb_Size nvm"] gn(2) c(7) sz s3 by simp
  have nb: "vb_addr_base nvm = phy_range" by (simp add: nvm_def vb_init_fields)
  have d1: "att_len * 2 ^ block_bits < 2 ^ 31" "uint (phy_range + vb_Size nvm) + att_len * 2 ^ block_bits < 2 ^ 64" "aligned block_bits (phy_range + vb_Size nvm)"
    using c(4,7) sz s3 ald base by (simp_all add: aligned_uint)
  note gd' = vb_init_geometry [OF bb c(3) d1]
  have gd: "vb_geometry dram" "uint (vb_Size dram) = ?sz" using gd' by (simp_all add: dram_def nb)
  obtain att where a: "AddrTransTable_init att_len block_bits raw = Some att" "att_ok att" "att_idle att" "att_quiet att"
      "tbl att = (\<lambda>_. None)" "att_length att = att_len" "att_block_bits att = block_bits"
    using att_init_ok [OF c(3) raw] by blast
  have i32: "int32 ?n = ?n" using c(8) by (intro int32_id) (simp_all add: order_trans [of _ 0])
  obtain mc where m: "MigrationController_init block_bits page_bits ?n = Some mc" "mc_inv mc" "mc_counted mc" "mc_block_bits mc = block_bits"
      "mc_page_bits mc = page_bits" "mc_ptt_length mc = ?n" "mc_ptt_capacity mc = ?n + ?n div 16" "mc_entries mc = []" "mc_nvm_pages mc = []"
      "mc_nvm_heap mc = []" "mc_dram_heap mc = []" "\<not> mc_nvm_heap_filled mc"
    using MigrationController_init_ok [of ?n block_bits page_bits] by auto
  define s where "s = \<lparr>atc_att = att, atc_nvm = nvm, atc_dram = dram, atc_mc = mc, atc_phy_range = phy_range,
           atc_mem = m, atc_ckpt = False, atc_pages_to_dram = 0, atc_pages_to_nvm = 0\<rparr>"
  have run: "AddrTransController_init phy_range dram_size att_len block_bits page_bits raw m = Some s"
    using a(1) m(1) c(6) by (simp add: AddrTransController_init_def i32 Let_def s_def nvm_def dram_def)
  have f: "atc_att s = att" "atc_nvm s = nvm" "atc_dram s = dram" "atc_mc s = mc" "atc_phy_range s = phy_range" "atc_mem s = m" "\<not> atc_ckpt s"
    by (simp_all add: s_def)
  have vb: "vb_block_bits nvm = block_bits" "vb_length nvm = 2 * att_len" "vb_block_bits dram = block_bits" "vb_length dram = att_len"
      "vb_addr_base dram = phy_range + vb_Size nvm"
    unfolding dram_def nb by (simp_all add: nvm_def vb_init_fields)
  have em: "vb_sets nvm IN_USE = {}" "vb_sets dram IN_USE = {}" "vb_sets nvm BACKUP0 = {}" "vb_sets nvm BACKUP1 = {}"
      "vb_sets dram BACKUP0 = {}" "vb_sets dram BACKUP1 = {}"
    by (simp_all add: nvm_def dram_def vb_init_sets)
  have "atc_geo s" using c a(6,7) gn(1) gd(1) vb nb m(4,5) by (simp add: atc_geo_def f mc_geometry_def)
  moreover have "atc_blocks s" using a(5) em by (simp add: atc_blocks_def f owns_def)
  moreover have "atc_counts s" using a(5,6) em c(3) by (simp add: atc_counts_def f tags_def)
  moreover have "vb_inv nvm" "vb_inv dram" by (simp_all add: nvm_def dram_def VersionBuffer_init_inv)
  ultimately have "atc_inv s" using a(2,3) m(2,3,8) by (simp add: atc_inv_def f mc_find_def)
  moreover have "atc_stats s" using a(4,5,6) m(9-12) em c(3) by (simp add: atc_stats_def atc_budget_def f tags_def)
  moreover have "uint (atc_Size s) = uint phy_range + 3 * att_len * 2 ^ block_bits"
    using uint_add_lem [of "phy_range + vb_Size nvm" "vb_Size dram"] base gd(2) c(7) s3 by (simp add: atc_Size_def f)
  ultimately show ?thesis using run a(5,6,7) m(5,6,7) by (intro exI [of _ s]) (simp add: f)
qed

end
