(* ===== verification/Memory_Run.thy ===== *)
theory Memory_Run
  imports Controller_Abort Controller_Init
begin

text \<open>
  Runs of the memory. A step relation interleaves the accesses of programs with the phases of the controller, in the
  order in which \<open>SimpleMemory\<close> drives them: an epoch runs; pages migrate; a checkpoint begins; it finishes and the next
  epoch runs. Loads are served in every phase, stores while an epoch or a checkpoint is under way. The runs refine a
  flat array of bytes: what is read is what was written last.
\<close>

section \<open>Steps\<close>

datatype phase = RUN | MIGRATED | CKPT

datatype event = Read Addr "byte list" | Write Addr "byte list" | Internal

type_synonym config = "phase \<times> HostStore ATC"

inductive mem_step :: "SimpleMemoryParams \<Rightarrow> event \<Rightarrow> config \<Rightarrow> config \<Rightarrow> bool" for p where
  load: "in_block s a n \<Longrightarrow> \<not> ignore_latency pf \<Longrightarrow>
    atc_LoadAddr (SimpleMemory_store p s) a pf s = Some (x, pf', s') \<Longrightarrow>
    mem_step p (Read a (read_bytes x n (host (atc_mem s')))) (ph, s) (ph, s')"
| poke: "in_block s a (length bs) \<Longrightarrow> \<not> ignore_latency pf \<Longrightarrow>
    atc_LoadAddr (SimpleMemory_store p s) a pf s = Some (x, pf', s') \<Longrightarrow>
    mem_step p (Write a bs) (ph, s) (ph, write_host x bs s')"
| store: "ph \<noteq> MIGRATED \<Longrightarrow> in_block s a (length bs) \<Longrightarrow> \<not> ignore_latency pf \<Longrightarrow>
    atc_StoreAddr (SimpleMemory_store p s) a (int (length bs)) pf s = Some (x, pf', s') \<Longrightarrow>
    mem_step p (Write a bs) (ph, s) (ph, write_host x bs s')"
| migrate: "\<not> ignore_latency pf \<Longrightarrow>
    atc_MigratePages (SimpleMemory_store p s) dr wr bl pf s = Some (bl', pf', s') \<Longrightarrow>
    mem_step p Internal (RUN, s) (MIGRATED, s')"
| checkpoint: "atc_BeginCheckpointing (SimpleMemory_store p s) bl pf s = Some (bl', pf', s') \<Longrightarrow>
    mem_step p Internal (MIGRATED, s) (CKPT, s')"
| finish: "atc_FinishCheckpointing (SimpleMemory_store p s) pf s = Some s' \<Longrightarrow>
    mem_step p Internal (CKPT, s) (RUN, s')"

inductive mem_run :: "SimpleMemoryParams \<Rightarrow> config \<Rightarrow> event list \<Rightarrow> config \<Rightarrow> bool" for p where
  none: "mem_run p c [] c"
| one: "mem_run p c es c' \<Longrightarrow> mem_step p e c' c'' \<Longrightarrow> mem_run p c (es @ [e]) c''"

section \<open>The flat memory\<close>

text \<open>The specification: an array of bytes, and the traces it allows.\<close>

primrec flat_apply :: "event \<Rightarrow> bytes \<Rightarrow> bytes" where
  "flat_apply (Read a bs) mem = mem"
| "flat_apply (Write a bs) mem = write_bytes a bs mem"
| "flat_apply Internal mem = mem"

primrec flat_allows :: "event \<Rightarrow> bytes \<Rightarrow> bool" where
  "flat_allows (Read a bs) mem = (bs = read_bytes a (length bs) mem)"
| "flat_allows (Write a bs) mem = True"
| "flat_allows Internal mem = True"

primrec flat_trace :: "event list \<Rightarrow> bytes \<Rightarrow> bool" where
  "flat_trace [] mem = True"
| "flat_trace (e # es) mem = (flat_allows e mem \<and> flat_trace es (flat_apply e mem))"

definition flat_result :: "event list \<Rightarrow> bytes \<Rightarrow> bytes" where
  "flat_result es mem = foldl (\<lambda>m e. flat_apply e m) mem es"

lemma flat_trace_snoc: "flat_trace (es @ [e]) mem \<longleftrightarrow> flat_trace es mem \<and> flat_allows e (flat_result es mem)"
  by (induction es arbitrary: mem) (simp_all add: flat_result_def)

lemma flat_result_snoc [simp]: "flat_result (es @ [e]) mem = flat_apply e (flat_result es mem)" "flat_result [] mem = mem"
  by (simp_all add: flat_result_def)

section \<open>The invariant of a run\<close>

definition run_inv :: "SimpleMemoryParams \<Rightarrow> config \<Rightarrow> bool" where
  "run_inv p c \<longleftrightarrow> mem_inv p (snd c) \<and>
     (case fst c of
        RUN \<Rightarrow> \<not> atc_ckpt (snd c) \<and> atc_stats (snd c)
      | MIGRATED \<Rightarrow> \<not> atc_ckpt (snd c) \<and> tags (\<lambda>x. x = LOAN) (atc_map (snd c)) = {}
      | CKPT \<Rightarrow> atc_ckpt (snd c) \<and> atc_stats (snd c))"

definition agrees :: "bytes \<Rightarrow> HostStore ATC \<Rightarrow> bool" where
  "agrees mem s \<longleftrightarrow> (\<forall>a < atc_phy_range s. logical s a = mem a)"

lemma block_range:
  assumes inv: "atc_inv s" and fit: "in_block s a n" and i: "i < n"
  shows "a + of_nat i < atc_phy_range s" "tr (atc_bits s) (atc_map s) (a + of_nat i) = tr (atc_bits s) (atc_map s) a + of_nat i"
proof -
  let ?b = "atc_bits s"
  note g = atc_geoD [OF atc_invD(1) [OF inv]]
  have f: "a < atc_phy_range s" "unat (a AND mask ?b) + n \<le> 2 ^ ?b" using fit by (simp_all add: in_block_def)
  have b: "?b < 64" using g(1) by simp
  have "(2 :: nat) ^ ?b \<le> 2 ^ 30" using g(1) by (intro power_increasing) simp_all
  then have "unat (of_nat i :: Addr) = i" using i f(2) by (intro unat_of_nat_small) simp
  then have d: "drop_bit ?b (a + of_nat i) = drop_bit ?b a" using i by (intro range_in_block [OF b f(2)]) simp
  have al: "aligned ?b (atc_phy_range s)" by (rule phy_aligned [OF atc_invD(1) [OF inv]])
  have "push_bit ?b (drop_bit ?b a) < atc_phy_range s" using valid_tag_drop [OF f(1), of ?b] by (simp add: valid_tag_def)
  then have "rebase ?b (a + of_nat i) (push_bit ?b (drop_bit ?b a)) < atc_phy_range s" using al b by (intro block_below) simp_all
  then show lt: "a + of_nat i < atc_phy_range s" using rebase_push_drop [of ?b "a + of_nat i"] d by simp
  show "tr ?b (atc_map s) (a + of_nat i) = tr ?b (atc_map s) a + of_nat i"
    using tr_block(2) [OF inv f(1) lt d] by (simp add: algebra_simps)
qed

lemma read_logical:
  assumes inv: "atc_inv s" and fit: "in_block s a n" and ag: "agrees mem s"
  shows "read_bytes (tr (atc_bits s) (atc_map s) a) n (host (atc_mem s)) = read_bytes a n mem"
proof -
  have "host (atc_mem s) (tr (atc_bits s) (atc_map s) a + of_nat i) = mem (a + of_nat i)" if "i < n" for i
    using block_range [OF inv fit that] ag unfolding agrees_def logical_def by metis
  then show ?thesis by (simp add: read_bytes_eq_iff)
qed

text \<open>Each kind of step keeps the invariant and acts on the flat memory as its event says.\<close>

definition step_ok :: "SimpleMemoryParams \<Rightarrow> event \<Rightarrow> config \<Rightarrow> config \<Rightarrow> bool" where
  "step_ok p e c c' \<longleftrightarrow> run_inv p c' \<and> geometry_of (snd c') = geometry_of (snd c) \<and>
     (\<forall>mem. agrees mem (snd c) \<longrightarrow> flat_allows e mem \<and> agrees (flat_apply e mem) (snd c'))"

lemma run_inv_mem: "run_inv p c \<Longrightarrow> mem_inv p (snd c)"
  by (simp add: run_inv_def)

lemma run_inv_stats: "run_inv p (ph, s) \<Longrightarrow> ph \<noteq> MIGRATED \<Longrightarrow> atc_stats s"
  by (cases ph) (simp_all add: run_inv_def)

lemma run_inv_same:
  assumes "run_inv p (ph, s)" "mem_inv p s'" "atc_ckpt s' = atc_ckpt s" "atc_stats s \<longrightarrow> atc_stats s'"
    "ph = MIGRATED \<Longrightarrow> atc_map s' = atc_map s"
  shows "run_inv p (ph, s')"
  using assms by (cases ph) (simp_all add: run_inv_def)

lemma agrees_same: "agrees mem s \<Longrightarrow> flat_step p s s' \<Longrightarrow> agrees mem s'"
  using geometry_fields [of s' s] by (simp add: agrees_def flat_step_def)

lemma load_step_ok:
  assumes inv: "run_inv p (ph, s)" and fit: "in_block s a n" and pf: "\<not> ignore_latency pf"
    and r: "atc_LoadAddr (SimpleMemory_store p s) a pf s = Some (x, pf', s')"
  shows "run_inv p (ph, s')" "flat_step p s s'" "x = tr (atc_bits s') (atc_map s') a" "in_block s' a n" "atc_inv s'"
proof -
  have a: "a < atc_phy_range s" using fit by (simp add: in_block_def)
  have mi: "mem_inv p s" using run_inv_mem [OF inv] by simp
  have l: "x = tr (atc_bits s) (atc_map s) a" "flat_step p s s'" "atc_map s' = atc_map s" "atc_ckpt s' = atc_ckpt s" "atc_stats s \<longrightarrow> atc_stats s'"
    using load_flat [OF mi a pf] r by auto
  then have g: "mem_inv p s'" "geometry_of s' = geometry_of s" by (simp_all add: flat_step_def)
  show "run_inv p (ph, s')" using run_inv_same [OF inv g(1) l(4,5)] l(3) by blast
  show "flat_step p s s'" by (rule l(2))
  show "x = tr (atc_bits s') (atc_map s') a" using l(1,3) geometry_fields [OF g(2)] by simp
  show "in_block s' a n" using fit geometry_fields [OF g(2)] by (simp add: in_block_def)
  show "atc_inv s'" using g(1) by (simp add: mem_inv_def)
qed

lemma run_inv_write_host [simp]: "run_inv p (ph, write_host x bs s) = run_inv p (ph, s)"
  by (cases ph) (simp_all add: run_inv_def)

lemma mem_step_ok:
  assumes "mem_step p e c c'" "run_inv p c"
  shows "step_ok p e c c'"
  using assms
proof (cases rule: mem_step.cases)
  case (load s a n pf x pf' s' ph)
  have i: "run_inv p (ph, s)" using assms(2) load(2) by simp
  note l = load_step_ok [OF i load(4,5,6)]
  have "read_bytes x n (host (atc_mem s')) = read_bytes a n mem" if "agrees mem s" for mem
    using read_logical [OF l(5,4) agrees_same [OF that l(2)]] l(3) by simp
  then show ?thesis using l(1,2) load agrees_same by (auto simp: step_ok_def flat_step_def)
next
  case (poke s a bs pf x pf' s' ph)
  have i: "run_inv p (ph, s)" using assms(2) poke(2) by simp
  note l = load_step_ok [OF i poke(4,5,6)]
  have g: "geometry_of s' = geometry_of s" using l(2) by (simp add: flat_step_def)
  have "agrees (write_bytes a bs mem) (write_host x bs s')" if "agrees mem s" for mem
    using write_host_logical [OF l(5,4)] agrees_same [OF that l(2)] l(3) by (simp add: agrees_def write_bytes_def)
  then show ?thesis using l(1) g poke by (simp add: step_ok_def)
next
  case (store ph s a bs pf x pf' s')
  have i: "run_inv p (ph, s)" using assms(2) store(2) by simp
  have mi: "mem_inv p s" and st: "atc_stats s" using run_inv_mem [OF i] run_inv_stats [OF i store(4)] by simp_all
  have "store_room (drop_bit (atc_bits s) a) s" "\<not> loan_in_ckpt (drop_bit (atc_bits s) a) s"
    using store_aborts_iff [OF mi st store(5,6)] store(7) by auto
  then have w: "mem_inv p s'" "geometry_of s' = geometry_of s" "atc_stats s'" "atc_ckpt s' = atc_ckpt s"
    "\<And>y. y < atc_phy_range s \<Longrightarrow> logical (write_host x bs s') y = write_bytes a bs (logical s) y"
    using store_flat [OF mi st store(5,6)] store(7) by (auto simp: loan_in_ckpt_def)
  have "agrees (write_bytes a bs mem) (write_host x bs s')" if "agrees mem s" for mem
    using w(5) geometry_fields [OF w(2)] that by (simp add: agrees_def write_bytes_def)
  moreover have "run_inv p (ph, s')" using run_inv_same [OF i w(1,4)] w(3) store(4) by blast
  ultimately show ?thesis using store w(2) by (simp add: step_ok_def)
next
  case (migrate pf s dr wr bl bl' pf' s')
  have i: "mem_inv p s" "\<not> atc_ckpt s" "atc_stats s" using assms(2) migrate(2) by (simp_all add: run_inv_def)
  have "flat_step p s s'" "\<not> atc_ckpt s'" "tags (\<lambda>x. x = LOAN) (atc_map s') = {}"
    using migrate_flat [OF i migrate(4), of dr wr bl] migrate(5) by auto
  then show ?thesis using migrate agrees_same by (auto simp: step_ok_def run_inv_def flat_step_def)
next
  case (checkpoint s bl pf bl' pf' s')
  have i: "mem_inv p s" "\<not> atc_ckpt s" "tags (\<lambda>x. x = LOAN) (atc_map s) = {}" using assms(2) checkpoint(2) by (simp_all add: run_inv_def)
  have "flat_step p s s'" "atc_ckpt s'" "atc_stats s'" using begin_flat [OF i, of bl pf] checkpoint(4) by auto
  then show ?thesis using checkpoint agrees_same by (auto simp: step_ok_def run_inv_def flat_step_def)
next
  case (finish s pf s')
  have i: "mem_inv p s" "atc_ckpt s" "atc_stats s" using assms(2) finish(2) by (simp_all add: run_inv_def)
  have "flat_step p s s'" "\<not> atc_ckpt s'" "atc_stats s'" using finish_flat [OF i, of pf] finish(4) by auto
  then show ?thesis using finish agrees_same by (auto simp: step_ok_def run_inv_def flat_step_def)
qed

section \<open>Refinement\<close>

theorem run_refines:
  assumes "mem_run p c es c'" "run_inv p c" "agrees mem (snd c)"
  shows "run_inv p c' \<and> geometry_of (snd c') = geometry_of (snd c) \<and> flat_trace es mem \<and> agrees (flat_result es mem) (snd c')"
  using assms
proof (induction rule: mem_run.induct)
  case (one c es c' e c'')
  then have h: "run_inv p c'" "geometry_of (snd c') = geometry_of (snd c)" "flat_trace es mem" "agrees (flat_result es mem) (snd c')" by auto
  have "step_ok p e c' c''" by (rule mem_step_ok [OF one.hyps(2) h(1)])
  then show ?case using h by (simp add: step_ok_def flat_trace_snoc)
qed simp

section \<open>Progress\<close>

lemma mem_run_append: "mem_run p c' es' c'' \<Longrightarrow> mem_run p c es c' \<Longrightarrow> mem_run p c (es @ es') c''"
  by (induction rule: mem_run.induct) (simp_all add: mem_run.one flip: append_assoc)

lemma mem_run_step: "mem_step p e c c' \<Longrightarrow> mem_run p c [e] c'"
  using mem_run.one [OF mem_run.none, of p e c c'] by simp

lemma run_inv_run: "mem_run p c es c' \<Longrightarrow> run_inv p c \<Longrightarrow> run_inv p c'"
  by (induction rule: mem_run.induct) (use mem_step_ok step_ok_def in blast)+

text \<open>From every state of the running phase the memory can close the epoch: no assertion of the three operations fails.\<close>

lemma epoch_run:
  assumes "run_inv p (RUN, s)"
  shows "\<exists>s'. mem_run p (RUN, s) [Internal, Internal, Internal] (RUN, s')"
proof -
  define pf where "pf = Profiler_init 0 0"
  have pf: "\<not> ignore_latency pf" by (simp add: pf_def Profiler_init_def)
  have i: "mem_inv p s" "\<not> atc_ckpt s" "atc_stats s" using assms by (simp_all add: run_inv_def)
  obtain bl1 pf1 s1 where m: "atc_MigratePages (SimpleMemory_store p s) 0 0 [] pf s = Some (bl1, pf1, s1)" "flat_step p s s1"
      "\<not> atc_ckpt s1" "tags (\<lambda>x. x = LOAN) (atc_map s1) = {}"
    using migrate_flat [OF i pf] by blast
  obtain bl2 pf2 s2 where b: "atc_BeginCheckpointing (SimpleMemory_store p s1) bl1 pf1 s1 = Some (bl2, pf2, s2)" "flat_step p s1 s2"
      "atc_ckpt s2" "atc_stats s2"
    using begin_flat [OF _ m(3,4)] m(2) unfolding flat_step_def by blast
  obtain s3 where f: "atc_FinishCheckpointing (SimpleMemory_store p s2) pf2 s2 = Some s3"
    using finish_flat [OF _ b(3,4)] b(2) unfolding flat_step_def by blast
  have "mem_run p (RUN, s) ([Internal] @ [Internal] @ [Internal]) (RUN, s3)"
    using mem_run_step [OF mem_step.migrate [OF pf m(1)]] mem_run_step [OF mem_step.checkpoint [OF b(1)]] mem_run_step [OF mem_step.finish [OF f]]
    by (blast intro: mem_run_append)
  then show ?thesis by auto
qed

lemma load_run:
  assumes "run_inv p (ph, s)" "in_block s a n"
  shows "\<exists>bs s'. mem_run p (ph, s) [Read a bs] (ph, s') \<and> length bs = n"
proof -
  have pf: "\<not> ignore_latency (Profiler_init 0 0)" by (simp add: Profiler_init_def)
  have i: "mem_inv p s" "a < atc_phy_range s" using assms by (simp_all add: run_inv_def in_block_def)
  obtain x pf' s' where r: "atc_LoadAddr (SimpleMemory_store p s) a (Profiler_init 0 0) s = Some (x, pf', s')"
    using load_flat [OF i pf] by blast
  show ?thesis using mem_run_step [OF mem_step.load [OF assms(2) pf r, of ph]] by (auto simp: read_bytes_def)
qed

lemma store_run:
  assumes inv: "run_inv p (ph, s)" and ph: "ph \<noteq> MIGRATED" and fit: "in_block s a (length bs)"
    and ok: "store_room (drop_bit (atc_bits s) a) s" "\<not> loan_in_ckpt (drop_bit (atc_bits s) a) s"
  shows "\<exists>s'. mem_run p (ph, s) [Write a bs] (ph, s')"
proof -
  have pf: "\<not> ignore_latency (Profiler_init 0 0)" by (simp add: Profiler_init_def)
  have i: "mem_inv p s" using run_inv_mem [OF inv] by simp
  have "atc_StoreAddr (SimpleMemory_store p s) a (int (length bs)) (Profiler_init 0 0) s \<noteq> None"
    using store_aborts_iff [OF i run_inv_stats [OF inv ph] fit pf] ok by simp
  then obtain x pf' s' where r: "atc_StoreAddr (SimpleMemory_store p s) a (int (length bs)) (Profiler_init 0 0) s = Some (x, pf', s')"
    by (auto simp del: not_None_eq)
  show ?thesis using mem_run_step [OF mem_step.store [OF ph fit pf r]] by blast
qed

end
