(* ===== verification/Abstract_Memory.thy ===== *)
theory Abstract_Memory
  imports Packet_Functional Addr_Ranges Memory_Run
begin

text \<open>
  \<open>AbstractMemory\<close> (\<open>src/gem5-stable/src/mem/abstract_mem.cc\<close> and \<open>abstract_mem.hh\<close>): the untimed accesses of the memory
  behind the controller, with load-locked reservations and statistics. \<open>pmemAddr\<close> is null exactly when \<open>am_pmem\<close> is false.
  The size of an integer register and of a page of the simulated machine are chosen by the build: arguments \<open>isz\<close> and
  \<open>page_bytes\<close>. The host that runs the simulator is little-endian. Tracing and the \<open>MEMCK\<close> shadow memory are left out.
\<close>

section \<open>State\<close>

record LockedAddr =
  la_addr :: Addr
  la_contextId :: int

record AbstractMemory =
  am_range :: AddrRange
  am_profBase :: Profiler
  am_ctrl :: "HostStore ATC"
  am_pmem :: bool
  am_locked :: "LockedAddr list"
  am_bytesRead :: "MasterID \<Rightarrow> int"
  am_bytesInstRead :: "MasterID \<Rightarrow> int"
  am_bytesWritten :: "MasterID \<Rightarrow> int"
  am_numReads :: "MasterID \<Rightarrow> int"
  am_numWrites :: "MasterID \<Rightarrow> int"
  am_numOther :: "MasterID \<Rightarrow> int"
  am_bytesChannel :: int
  am_bytesInterChannel :: int
  am_ckBusUtil :: "64 word"

definition AbstractMemory_init ::
  "64 word \<Rightarrow> AddrRange \<Rightarrow> 64 word \<Rightarrow> int \<Rightarrow> nat \<Rightarrow> nat \<Rightarrow> (nat \<Rightarrow> ATTEntry) \<Rightarrow> HostStore \<Rightarrow> AbstractMemory option" where
  "AbstractMemory_init page_bytes rng dram_size att_len block_bits page_bits raw st = do {
     c \<leftarrow> AddrTransController_init (ar_size rng) dram_size att_len block_bits page_bits raw st;
     cassert (ar_size rng mod page_bytes = 0);
     Some \<lparr>am_range = rng, am_profBase = Profiler_init block_bits page_bits, am_ctrl = c, am_pmem = False, am_locked = [],
       am_bytesRead = (\<lambda>_. 0), am_bytesInstRead = (\<lambda>_. 0), am_bytesWritten = (\<lambda>_. 0), am_numReads = (\<lambda>_. 0),
       am_numWrites = (\<lambda>_. 0), am_numOther = (\<lambda>_. 0), am_bytesChannel = 0, am_bytesInterChannel = 0, am_ckBusUtil = 0\<rparr> }"

definition setBackingStore :: "AbstractMemory \<Rightarrow> AbstractMemory" where
  "setBackingStore m = m\<lparr>am_pmem := True\<rparr>"

definition am_localAddr :: "Packet \<Rightarrow> AbstractMemory \<Rightarrow> Addr option" where
  "am_localAddr pkt m = do { a \<leftarrow> getAddr pkt; Some (a - ar_start (am_range m)) }"

section \<open>Reservations\<close>

definition la_mask :: "Addr \<Rightarrow> Addr" where
  "la_mask paddr = paddr AND NOT 0xf"

definition LockedAddr_of :: "Request \<Rightarrow> LockedAddr option" where
  "LockedAddr_of req = do {
     a \<leftarrow> getPaddr req;
     c \<leftarrow> contextId req;
     Some \<lparr>la_addr = la_mask a, la_contextId = c\<rparr> }"

definition matchesContext :: "Request \<Rightarrow> LockedAddr \<Rightarrow> bool option" where
  "matchesContext req l = do { c \<leftarrow> contextId req; Some (la_contextId l = c) }"

text \<open>The loop of \<open>trackLoadLocked\<close>: \<open>Some\<close> list if a record of the context was found and moved to the address.\<close>

primrec relock :: "Request \<Rightarrow> Addr \<Rightarrow> LockedAddr list \<Rightarrow> LockedAddr list option option" where
  "relock req paddr [] = Some None"
| "relock req paddr (l # ls) = do {
     b \<leftarrow> matchesContext req l;
     if b then Some (Some (l\<lparr>la_addr := paddr\<rparr> # ls))
     else do { r \<leftarrow> relock req paddr ls; Some (map_option ((#) l) r) } }"

definition trackLoadLocked :: "Packet \<Rightarrow> AbstractMemory \<Rightarrow> AbstractMemory option" where
  "trackLoadLocked pkt m = do {
     a \<leftarrow> getPaddr (pk_req pkt);
     r \<leftarrow> relock (pk_req pkt) (la_mask a) (am_locked m);
     (case r of
        Some ls \<Rightarrow> Some (m\<lparr>am_locked := ls\<rparr>)
      | None \<Rightarrow> do { l \<leftarrow> LockedAddr_of (pk_req pkt); Some (m\<lparr>am_locked := l # am_locked m\<rparr>) }) }"

text \<open>The first loop of \<open>checkLockedAddrList\<close>: does the context of the request hold the address?\<close>

primrec sc_holds :: "Request \<Rightarrow> Addr \<Rightarrow> LockedAddr list \<Rightarrow> bool option" where
  "sc_holds req paddr [] = Some False"
| "sc_holds req paddr (l # ls) =
     (if la_addr l = paddr then do {
        b \<leftarrow> matchesContext req l;
        if b then Some True else sc_holds req paddr ls }
      else sc_holds req paddr ls)"

definition set_extra :: "64 word \<Rightarrow> Packet \<Rightarrow> Packet" where
  "set_extra x pkt = pkt\<lparr>pk_req := setExtraData x (pk_req pkt)\<rparr>"

definition checkLockedAddrList :: "Packet \<Rightarrow> AbstractMemory \<Rightarrow> (bool \<times> Packet \<times> AbstractMemory) option" where
  "checkLockedAddrList pkt m = do {
     a \<leftarrow> getPaddr (pk_req pkt);
     let paddr = la_mask a;
     let isLLSC = cmd_isLLSC (pk_cmd pkt);
     allowStore \<leftarrow> (if isLLSC then sc_holds (pk_req pkt) paddr (am_locked m) else Some True);
     let pkt = (if isLLSC then set_extra (if allowStore then 1 else 0) pkt else pkt);
     let m = (if allowStore then m\<lparr>am_locked := filter (\<lambda>l. la_addr l \<noteq> paddr) (am_locked m)\<rparr> else m);
     Some (allowStore, pkt, m) }"

definition writeOK :: "Packet \<Rightarrow> AbstractMemory \<Rightarrow> (bool \<times> Packet \<times> AbstractMemory) option" where
  "writeOK pkt m =
     (if am_locked m = [] then
        Some (\<not> cmd_isLLSC (pk_cmd pkt), if cmd_isLLSC (pk_cmd pkt) then set_extra 0 pkt else pkt, m)
      else checkLockedAddrList pkt m)"

section \<open>Accesses\<close>

text \<open>Byte \<open>i\<close> of a value in host memory.\<close>

definition host_bytes :: "nat \<Rightarrow> 64 word \<Rightarrow> byte list" where
  "host_bytes n x = map (\<lambda>i. ucast (drop_bit (8 * i) x)) [0 ..< n]"

text \<open>\<open>memcpy\<close> between the packet's data and host memory, \<open>getSize()\<close> bytes.\<close>

definition packet_load :: "Addr \<Rightarrow> Packet \<Rightarrow> AbstractMemory \<Rightarrow> Packet option" where
  "packet_load x pkt m = do {
     sz \<leftarrow> getSize pkt;
     d \<leftarrow> getPtr pkt;
     d \<leftarrow> blit d 0 (read_bytes x (unat sz) (host (atc_mem (am_ctrl m)))) 0 (uint sz);
     Some (pkt\<lparr>pk_data := Some d\<rparr>) }"

definition packet_bytes :: "Packet \<Rightarrow> byte list option" where
  "packet_bytes pkt = do {
     sz \<leftarrow> getSize pkt;
     d \<leftarrow> getPtr pkt;
     cassert (unat sz \<le> length d);
     Some (take (unat sz) d) }"

definition am_LoadAddr :: "SimpleMemoryParams \<Rightarrow> Addr \<Rightarrow> Profiler \<Rightarrow> AbstractMemory \<Rightarrow> (Addr \<times> Profiler \<times> AbstractMemory) option" where
  "am_LoadAddr p a pf m = do {
     (x, pf, c) \<leftarrow> atc_LoadAddr (SimpleMemory_store p (am_ctrl m)) a pf (am_ctrl m);
     Some (x, pf, m\<lparr>am_ctrl := c\<rparr>) }"

definition am_StoreAddr :: "SimpleMemoryParams \<Rightarrow> Addr \<Rightarrow> int \<Rightarrow> Profiler \<Rightarrow> AbstractMemory \<Rightarrow> (Addr \<times> Profiler \<times> AbstractMemory) option" where
  "am_StoreAddr p a sz pf m = do {
     (x, pf, c) \<leftarrow> atc_StoreAddr (SimpleMemory_store p (am_ctrl m)) a sz pf (am_ctrl m);
     Some (x, pf, m\<lparr>am_ctrl := c\<rparr>) }"

definition am_write :: "Addr \<Rightarrow> byte list \<Rightarrow> AbstractMemory \<Rightarrow> AbstractMemory" where
  "am_write x bs m = m\<lparr>am_ctrl := write_host x bs (am_ctrl m)\<rparr>"

definition am_in_range :: "Packet \<Rightarrow> AbstractMemory \<Rightarrow> bool option" where
  "am_in_range pkt m = do {
     a \<leftarrow> getAddr pkt;
     sz \<leftarrow> getSize pkt;
     ar_isSubset (AddrRange_of a (a + ucast sz - 1)) (am_range m) }"

definition access_swap :: "nat \<Rightarrow> SimpleMemoryParams \<Rightarrow> Packet \<Rightarrow> Profiler \<Rightarrow> AbstractMemory \<Rightarrow> (Packet \<times> Profiler \<times> AbstractMemory) option" where
  "access_swap isz p pkt pf m = do {
     cassert (am_pmem m);
     sz \<leftarrow> getSize pkt;
     cassert (unat sz \<le> isz);
     overwrite_val \<leftarrow> packet_bytes pkt;
     a \<leftarrow> am_localAddr pkt m;
     (x, pf, m) \<leftarrow> am_LoadAddr p a pf m;
     x \<leftarrow> hostAddr x (am_ctrl m);
     pkt \<leftarrow> packet_load x pkt m;
     overwrite_mem \<leftarrow> (if isCondSwap (pk_req pkt) then do {
         cassert (sz = 8 \<or> sz = 4);
         e \<leftarrow> getExtraData (pk_req pkt);
         Some (host_bytes (unat sz) e = read_bytes x (unat sz) (host (atc_mem (am_ctrl m)))) }
       else Some True);
     (pf, m) \<leftarrow> (if overwrite_mem then do {
         (x, pf, m) \<leftarrow> am_LoadAddr p a pf m;
         x \<leftarrow> hostAddr x (am_ctrl m);
         Some (pf, am_write x overwrite_val m) }
       else Some (pf, m));
     cassert (\<not> isInstFetch (pk_req pkt));
     let i = rq_masterId (pk_req pkt);
     Some (pkt, pf, m\<lparr>am_numOther := (am_numOther m)(i := am_numOther m i + 1)\<rparr>) }"

definition access_read :: "SimpleMemoryParams \<Rightarrow> Packet \<Rightarrow> Profiler \<Rightarrow> AbstractMemory \<Rightarrow> (Packet \<times> Profiler \<times> AbstractMemory) option" where
  "access_read p pkt pf m = do {
     cassert (\<not> cmd_isWrite (pk_cmd pkt));
     m \<leftarrow> (if cmd_isLLSC (pk_cmd pkt) then trackLoadLocked pkt m else Some m);
     sz \<leftarrow> getSize pkt;
     (pkt, pf, m) \<leftarrow> (if am_pmem m then do {
         cassert (uint sz = att_block_size (atc_att (am_ctrl m)));
         a \<leftarrow> am_localAddr pkt m;
         (x, pf, m) \<leftarrow> am_LoadAddr p a pf m;
         x \<leftarrow> hostAddr x (am_ctrl m);
         pkt \<leftarrow> packet_load x pkt m;
         Some (pkt, pf, m) }
       else Some (pkt, pf, m));
     let i = rq_masterId (pk_req pkt);
     let m = m\<lparr>am_numReads := (am_numReads m)(i := am_numReads m i + 1), am_bytesRead := (am_bytesRead m)(i := am_bytesRead m i + uint sz)\<rparr>;
     Some (pkt, pf, if isInstFetch (pk_req pkt)
                    then m\<lparr>am_bytesInstRead := (am_bytesInstRead m)(i := am_bytesInstRead m i + uint sz)\<rparr> else m) }"

definition access_write :: "SimpleMemoryParams \<Rightarrow> Packet \<Rightarrow> Profiler \<Rightarrow> AbstractMemory \<Rightarrow> (Packet \<times> Profiler \<times> AbstractMemory) option" where
  "access_write p pkt pf m = do {
     (ok, pkt, m) \<leftarrow> writeOK pkt m;
     if ok then do {
       sz \<leftarrow> getSize pkt;
       (pf, m) \<leftarrow> (if am_pmem m then do {
           cassert (uint sz = att_block_size (atc_att (am_ctrl m)));
           a \<leftarrow> am_localAddr pkt m;
           (x, pf, m) \<leftarrow> am_StoreAddr p a (uint sz) pf m;
           x \<leftarrow> hostAddr x (am_ctrl m);
           bs \<leftarrow> packet_bytes pkt;
           Some (pf_AddBlockMoveInter 1 pf, am_write x bs m) }
         else Some (pf, m));
       cassert (\<not> isInstFetch (pk_req pkt));
       let i = rq_masterId (pk_req pkt);
       Some (pkt, pf, m\<lparr>am_numWrites := (am_numWrites m)(i := am_numWrites m i + 1),
                        am_bytesWritten := (am_bytesWritten m)(i := am_bytesWritten m i + uint sz)\<rparr>) }
     else Some (pkt, pf, m) }"

definition am_access :: "nat \<Rightarrow> SimpleMemoryParams \<Rightarrow> Packet \<Rightarrow> Profiler \<Rightarrow> AbstractMemory \<Rightarrow> (Packet \<times> Profiler \<times> AbstractMemory) option" where
  "am_access isz p pkt pf m = do {
     inr \<leftarrow> am_in_range pkt m;
     cassert inr;
     if memInhibitAsserted pkt then Some (pkt, pf, m)
     else do {
       (pkt, pf, m) \<leftarrow>
         (if pk_cmd pkt = SwapReq then access_swap isz p pkt pf m
          else if cmd_isRead (pk_cmd pkt) then access_read p pkt pf m
          else if cmd_isWrite (pk_cmd pkt) then access_write p pkt pf m
          else if cmd_isInvalidate (pk_cmd pkt) then Some (pkt, pf, m)
          else None);
       pkt \<leftarrow> (if cmd_needsResponse (pk_cmd pkt) then makeResponse pkt else Some pkt);
       Some (pkt, pf, m) } }"

text \<open>A print request prints the byte: output only, once the state of the request is there.\<close>

definition functionalAccess :: "(nat \<Rightarrow> bool) \<Rightarrow> SimpleMemoryParams \<Rightarrow> Packet \<Rightarrow> AbstractMemory \<Rightarrow> (Packet \<times> AbstractMemory) option" where
  "functionalAccess isPrintReqState p pkt m = do {
     inr \<leftarrow> am_in_range pkt m;
     cassert inr;
     a \<leftarrow> am_localAddr pkt m;
     (x, null, m) \<leftarrow> am_LoadAddr p a (Profiler_init 0 0) m;
     x \<leftarrow> hostAddr x (am_ctrl m);
     if cmd_isRead (pk_cmd pkt) then do {
       pkt \<leftarrow> (if am_pmem m then packet_load x pkt m else Some pkt);
       pkt \<leftarrow> makeResponse pkt;
       Some (pkt, m) }
     else if cmd_isWrite (pk_cmd pkt) then do {
       m \<leftarrow> (if am_pmem m then do { bs \<leftarrow> packet_bytes pkt; Some (am_write x bs m) } else Some m);
       pkt \<leftarrow> makeResponse pkt;
       Some (pkt, m) }
     else if cmd_isPrint (pk_cmd pkt) then do {
       cassert (case senderState pkt of [] \<Rightarrow> False | s # _ \<Rightarrow> isPrintReqState s);
       Some (pkt, m) }
     else None }"

end
