(* ===== verification/Reservations.thy ===== *)
theory Reservations
  imports Abstract_Memory
begin

text \<open>
  Load-locked and store-conditional. The list of records implements a map from contexts to the granule they hold: one
  reservation per context; a load-locked moves it; a store that takes place removes every reservation of its granule; a
  store-conditional takes place exactly when its context holds the granule.
\<close>

section \<open>The abstract monitor\<close>

type_synonym monitor = "int \<Rightarrow> Addr option"

definition mon_lock :: "int \<Rightarrow> Addr \<Rightarrow> monitor \<Rightarrow> monitor" where
  "mon_lock c g R = R(c \<mapsto> g)"

definition mon_store :: "Addr \<Rightarrow> monitor \<Rightarrow> monitor" where
  "mon_store g R = (\<lambda>c. if R c = Some g then None else R c)"

text \<open>The contract between the memory and its monitor: any implementation of these three operations.\<close>

locale exclusive_monitor =
  fixes holds :: "'s \<Rightarrow> monitor" and wf :: "'s \<Rightarrow> bool"
    and lock :: "int \<Rightarrow> Addr \<Rightarrow> 's \<Rightarrow> 's" and store :: "Addr \<Rightarrow> 's \<Rightarrow> 's"
  assumes lock_wf: "wf s \<Longrightarrow> wf (lock c g s)" and store_wf: "wf s \<Longrightarrow> wf (store g s)"
    and lock_holds: "wf s \<Longrightarrow> holds (lock c g s) = mon_lock c g (holds s)"
    and store_holds: "wf s \<Longrightarrow> holds (store g s) = mon_store g (holds s)"
begin

text \<open>What a context does between its load-locked and its store-conditional: other contexts lock, stores happen.\<close>

fun between :: "(int \<times> Addr + Addr) list \<Rightarrow> 's \<Rightarrow> 's" where
  "between [] s = s"
| "between (Inl (c, g) # es) s = between es (lock c g s)"
| "between (Inr g # es) s = between es (store g s)"

lemma between_wf: "wf s \<Longrightarrow> wf (between es s)"
  by (induction es s rule: between.induct) (simp_all add: lock_wf store_wf)

text \<open>The reservation is still there exactly if no store hit the granule and the context locked no other one.\<close>

lemma reservation_survives:
  assumes "wf s" "holds s c = Some g" "\<forall>c' g'. Inl (c', g') \<in> set es \<longrightarrow> c' \<noteq> c"
  shows "holds (between es s) c = Some g \<longleftrightarrow> Inr g \<notin> set es"
proof -
  have gone: "holds (between es s) c = None" if "wf s" "holds s c = None" "\<forall>c' g'. Inl (c', g') \<in> set es \<longrightarrow> c' \<noteq> c" for es s
    using that
  proof (induction es s rule: between.induct)
    case (2 c' g' es s)
    have n: "c' \<noteq> c" "\<forall>c' g'. Inl (c', g') \<in> set es \<longrightarrow> c' \<noteq> c" using "2.prems"(3) by auto
    have "holds (lock c' g' s) c = None" using "2.prems"(1,2) n(1) by (simp add: lock_holds mon_lock_def)
    then show ?case using "2.IH" [OF lock_wf [OF "2.prems"(1)] _ n(2)] by simp
  next
    case (3 g' es s)
    then show ?case by (auto simp: store_wf store_holds mon_store_def)
  qed simp
  show ?thesis using assms
  proof (induction es s rule: between.induct)
    case (2 c' g' es s)
    have n: "c' \<noteq> c" "\<forall>c' g'. Inl (c', g') \<in> set es \<longrightarrow> c' \<noteq> c" using "2.prems"(3) by auto
    have "holds (lock c' g' s) c = Some g" using "2.prems"(1,2) n(1) by (simp add: lock_holds mon_lock_def)
    then show ?case using "2.IH" [OF lock_wf [OF "2.prems"(1)] _ n(2)] by simp
  next
    case (3 g' es s)
    show ?case
    proof (cases "g' = g")
      case True
      have "holds (store g' s) c = None" using 3 True by (simp add: store_holds mon_store_def)
      then have "holds (between es (store g' s)) c = None" using 3 by (intro gone) (auto simp: store_wf)
      then show ?thesis using True by simp
    next
      case False
      have "holds (store g' s) c = Some g" using 3 False by (simp add: store_holds mon_store_def)
      then show ?thesis using 3 False by (auto simp: store_wf)
    qed
  qed simp
qed

end

section \<open>The list of records\<close>

definition reserved :: "LockedAddr list \<Rightarrow> monitor" where
  "reserved ls = map_of (map (\<lambda>l. (la_contextId l, la_addr l)) ls)"

definition one_each :: "LockedAddr list \<Rightarrow> bool" where
  "one_each ls \<longleftrightarrow> distinct (map la_contextId ls)"

definition ls_lock :: "int \<Rightarrow> Addr \<Rightarrow> LockedAddr list \<Rightarrow> LockedAddr list" where
  "ls_lock c g ls =
     (if c \<in> la_contextId ` set ls then map (\<lambda>l. if la_contextId l = c then l\<lparr>la_addr := g\<rparr> else l) ls
      else \<lparr>la_addr = g, la_contextId = c\<rparr> # ls)"

definition ls_store :: "Addr \<Rightarrow> LockedAddr list \<Rightarrow> LockedAddr list" where
  "ls_store g ls = filter (\<lambda>l. la_addr l \<noteq> g) ls"

lemma reserved_simps [simp]:
  "reserved [] = Map.empty" "reserved (l # ls) = (reserved ls)(la_contextId l \<mapsto> la_addr l)"
  by (simp_all add: reserved_def)

lemma reserved_None: "reserved ls c = None \<longleftrightarrow> c \<notin> la_contextId ` set ls"
  by (induction ls) auto

lemma lock_map: "la_contextId (if la_contextId l = c then l\<lparr>la_addr := g\<rparr> else l) = la_contextId l"
  by simp

lemma reserved_relocked:
  assumes "c \<in> la_contextId ` set ls"
  shows "reserved (map (\<lambda>l. if la_contextId l = c then l\<lparr>la_addr := g\<rparr> else l) ls) = (reserved ls)(c \<mapsto> g)"
proof
  fix x
  have "reserved (map (\<lambda>l. if la_contextId l = c then l\<lparr>la_addr := g\<rparr> else l) ls) x =
      (if x = c \<and> c \<in> la_contextId ` set ls then Some g else reserved ls x)"
    by (induction ls) auto
  then show "reserved (map (\<lambda>l. if la_contextId l = c then l\<lparr>la_addr := g\<rparr> else l) ls) x = ((reserved ls)(c \<mapsto> g)) x"
    using assms by simp
qed

lemma reserved_filter:
  assumes "one_each ls"
  shows "reserved (ls_store g ls) = mon_store g (reserved ls)"
  using assms
proof (induction ls)
  case (Cons l ls)
  have n: "reserved ls (la_contextId l) = None" using Cons.prems by (simp add: reserved_None one_each_def)
  have "reserved (ls_store g ls) = mon_store g (reserved ls)" using Cons by (simp add: one_each_def)
  then show ?case using n by (auto simp: ls_store_def mon_store_def fun_eq_iff)
qed (simp add: ls_store_def mon_store_def fun_eq_iff)

interpretation ll: exclusive_monitor reserved one_each ls_lock ls_store
proof
  fix ls c g
  assume w: "one_each ls"
  have "map la_contextId (map (\<lambda>l. if la_contextId l = c then l\<lparr>la_addr := g\<rparr> else l) ls) = map la_contextId ls" by simp
  then show "one_each (ls_lock c g ls)" using w by (auto simp: one_each_def ls_lock_def simp del: map_map)
  show "one_each (ls_store g ls)" using w by (simp add: one_each_def ls_store_def distinct_map inj_on_def)
  show "reserved (ls_lock c g ls) = mon_lock c g (reserved ls)"
    by (simp add: ls_lock_def mon_lock_def reserved_relocked)
  show "reserved (ls_store g ls) = mon_store g (reserved ls)" by (rule reserved_filter [OF w])
qed

section \<open>The code\<close>

lemma matches_run: "contextId req = Some c \<Longrightarrow> matchesContext req l = Some (la_contextId l = c)"
  by (simp add: matchesContext_def)

lemma relock_eq:
  assumes "contextId req = Some c" "one_each ls"
  shows "relock req g ls = Some (if c \<in> la_contextId ` set ls then Some (ls_lock c g ls) else None)"
  using assms(2)
proof (induction ls)
  case (Cons l ls)
  show ?case
  proof (cases "la_contextId l = c")
    case True
    have "map (\<lambda>l. if la_contextId l = c then l\<lparr>la_addr := g\<rparr> else l) ls = ls"
      using Cons.prems True by (intro map_idI) (metis (no_types, lifting) distinct.simps(2) image_eqI list.map(2) one_each_def set_map)
    then show ?thesis using True assms(1) by (simp add: matches_run ls_lock_def)
  next
    case False
    then show ?thesis using Cons assms(1) by (auto simp: matches_run ls_lock_def one_each_def)
  qed
qed simp

lemma trackLoadLocked_eq:
  assumes "getPaddr (pk_req pkt) = Some a" "contextId (pk_req pkt) = Some c" "one_each (am_locked m)"
  shows "trackLoadLocked pkt m = Some (m\<lparr>am_locked := ls_lock c (la_mask a) (am_locked m)\<rparr>)"
  using assms by (simp add: trackLoadLocked_def relock_eq LockedAddr_of_def ls_lock_def)

lemma sc_holds_eq:
  assumes "contextId req = Some c" "one_each ls"
  shows "sc_holds req g ls = Some (reserved ls c = Some g)"
  using assms(2)
proof (induction ls)
  case (Cons l ls)
  then have "reserved ls (la_contextId l) = None" by (simp add: reserved_None one_each_def)
  then show ?case using Cons assms(1) by (auto simp: matches_run one_each_def)
qed simp

definition sc_allowed :: "Packet \<Rightarrow> int \<Rightarrow> Addr \<Rightarrow> AbstractMemory \<Rightarrow> bool" where
  "sc_allowed pkt c a m \<longleftrightarrow> \<not> cmd_isLLSC (pk_cmd pkt) \<or> reserved (am_locked m) c = Some (la_mask a)"

lemma writeOK_eq:
  assumes "getPaddr (pk_req pkt) = Some a" "contextId (pk_req pkt) = Some c" "one_each (am_locked m)"
  shows "writeOK pkt m = Some (sc_allowed pkt c a m,
      if cmd_isLLSC (pk_cmd pkt) then set_extra (if sc_allowed pkt c a m then 1 else 0) pkt else pkt,
      if sc_allowed pkt c a m then m\<lparr>am_locked := ls_store (la_mask a) (am_locked m)\<rparr> else m)"
  using assms by (auto simp: writeOK_def checkLockedAddrList_def sc_holds_eq sc_allowed_def ls_store_def Let_def)

end
