(* ===== verification/Memory_Access.thy ===== *)
theory Memory_Access
  imports Reservations
begin

text \<open>
  What an access does to the memory. Every access that returns is a sequence of loads and stores of the controller, with
  the bytes the packet carries: the events of \<open>Memory_Run\<close>. Reads of well-formed packets always return.
\<close>

section \<open>Packets of the memory\<close>

definition am_ok :: "AbstractMemory \<Rightarrow> bool" where
  "am_ok m \<longleftrightarrow> am_pmem m \<and> \<not> ar_interleaved (am_range m) \<and>
     uint (ar_start (am_range m)) + uint (atc_phy_range (am_ctrl m)) \<le> 2 ^ 64 \<and>
     ar_end (am_range m) = ar_start (am_range m) + atc_phy_range (am_ctrl m) - 1 \<and> one_each (am_locked m)"

text \<open>The packet asks for \<open>n\<close> bytes at local address \<open>a\<close>, within one block, and has room for them.\<close>

definition packet_in :: "AbstractMemory \<Rightarrow> Addr \<Rightarrow> nat \<Rightarrow> Packet \<Rightarrow> bool" where
  "packet_in m a n pkt \<longleftrightarrow> getAddr pkt = Some (ar_start (am_range m) + a) \<and> (\<exists>w. getSize pkt = Some w \<and> unat w = n) \<and>
     (\<exists>d. getPtr pkt = Some d \<and> length d = n) \<and> in_block (am_ctrl m) a n"

lemma packet_inD:
  assumes "packet_in m a n pkt"
  obtains w d where "getAddr pkt = Some (ar_start (am_range m) + a)" "getSize pkt = Some w" "unat w = n" "uint w = int n"
    "getPtr pkt = Some d" "length d = n" "packet_bytes pkt = Some d" "in_block (am_ctrl m) a n" "am_localAddr pkt m = Some a"
  using assms by (auto simp: packet_in_def packet_bytes_def am_localAddr_def)

lemma packet_in_cong:
  assumes "packet_in m a n pkt" "am_range m' = am_range m" "geometry_of (am_ctrl m') = geometry_of (am_ctrl m)"
    "getAddr pkt' = getAddr pkt" "getSize pkt' = getSize pkt" "getPtr pkt' = Some d" "length d = n"
  shows "packet_in m' a n pkt'"
  using assms geometry_fields [OF assms(3)] by (auto simp: packet_in_def in_block_def)

lemma load_packet:
  assumes "packet_in m a n pkt" "packet_load x pkt m' = Some pkt'"
  shows "pkt' = pkt\<lparr>pk_data := Some (read_bytes x n (host (atc_mem (am_ctrl m'))))\<rparr>"
    "packet_bytes pkt' = Some (read_bytes x n (host (atc_mem (am_ctrl m'))))"
proof -
  obtain w d where w: "getSize pkt = Some w" "unat w = n" "uint w = int n" "getPtr pkt = Some d" "length d = n"
    using assms(1) by (rule packet_inD)
  then show e: "pkt' = pkt\<lparr>pk_data := Some (read_bytes x n (host (atc_mem (am_ctrl m'))))\<rparr>"
    using assms(2) by (simp add: packet_load_def blit_def)
  have "getSize pkt' = Some w" "getPtr pkt' = Some (read_bytes x n (host (atc_mem (am_ctrl m'))))"
    using w(1,4) by (auto simp: e getSize_def getPtr_def cassert_def split: if_splits)
  then show "packet_bytes pkt' = Some (read_bytes x n (host (atc_mem (am_ctrl m'))))" using w(2) by (simp add: packet_bytes_def)
qed

lemma load_packet_runs:
  assumes "packet_in m a n pkt"
  shows "packet_load x pkt m' \<noteq> None"
  using assms by (auto elim!: packet_inD simp: packet_load_def blit_def)

lemma response_packet:
  assumes "makeResponse pkt = Some pkt'"
  shows "packet_bytes pkt' = packet_bytes pkt" "pk_data pkt' = pk_data pkt" "pk_req pkt' = pk_req pkt"
    "pk_cmd pkt' = responseCommand (pk_cmd pkt)" "getAddr pkt' = getAddr pkt" "getSize pkt' = getSize pkt" "getPtr pkt' = getPtr pkt"
proof -
  have c: "cmd_needsResponse (pk_cmd pkt)" "cmd_isRequest (pk_cmd pkt)"
    using assms by (auto simp: makeResponse_def cassert_def split: if_splits)
  then have e: "pkt' = clearSrc (pkt\<lparr>pk_origCmd := pk_cmd pkt, pk_cmd := responseCommand (pk_cmd pkt),
      pk_flags := flags_clear EXPRESS_SNOOP (pk_flags pkt), pk_dest := pk_src pkt\<rparr>)"
    using assms by (simp add: makeResponse_def)
  show g: "getSize pkt' = getSize pkt" "getPtr pkt' = getPtr pkt" "getAddr pkt' = getAddr pkt" "pk_data pkt' = pk_data pkt" "pk_req pkt' = pk_req pkt"
    "pk_cmd pkt' = responseCommand (pk_cmd pkt)"
    by (simp_all add: e clearSrc_def getSize_def getPtr_def getAddr_def isSet_clear packet_flags)
  show "packet_bytes pkt' = packet_bytes pkt" by (simp add: packet_bytes_def g)
qed

lemma response_runs: "cmd_needsResponse (pk_cmd pkt) \<Longrightarrow> makeResponse pkt \<noteq> None"
  using response_wf(1) [of "pk_cmd pkt"] by (simp add: makeResponse_def)

section \<open>Range\<close>

lemma in_block_no_wrap:
  fixes a :: Addr
  assumes "b < 64" "unat (a AND mask b) + n \<le> 2 ^ b"
  shows "unat a + n \<le> 2 ^ 64"
proof -
  have m: "unat (a AND mask b) = unat a mod 2 ^ b" by (simp add: unat_offset)
  have p: "(2 :: nat) ^ 64 = 2 ^ b * 2 ^ (64 - b)" using assms(1) by (simp flip: power_add)
  have "unat a < 2 ^ LENGTH(64)" by (rule unsigned_less)
  then have "unat a < 2 ^ b * 2 ^ (64 - b)" using p by simp
  then have "unat a div 2 ^ b < 2 ^ (64 - b)" by (simp add: less_mult_imp_div_less mult.commute)
  then have "2 ^ b * (unat a div 2 ^ b + 1) \<le> 2 ^ b * 2 ^ (64 - b)" by (intro mult_le_mono2) simp
  moreover have "2 ^ b * (unat a div 2 ^ b + 1) = 2 ^ b * (unat a div 2 ^ b) + 2 ^ b" by (simp add: algebra_simps)
  moreover have "2 ^ b * (unat a div 2 ^ b) + unat a mod 2 ^ b = unat a" by (rule mult_div_mod_eq)
  ultimately show ?thesis using assms(2) unfolding m p by linarith
qed

lemma in_range_ok:
  assumes ok: "am_ok m" and inv: "atc_inv (am_ctrl m)" and pk: "packet_in m a n pkt"
  shows "am_in_range pkt m = Some True"
proof -
  let ?s = "ar_start (am_range m)" and ?R = "atc_phy_range (am_ctrl m)" and ?b = "atc_bits (am_ctrl m)"
  obtain w where w: "getAddr pkt = Some (?s + a)" "getSize pkt = Some w" "uint w = int n" "in_block (am_ctrl m) a n"
    using pk by (rule packet_inD)
  have n: "0 < n" "a < ?R" "unat (a AND mask ?b) + n \<le> 2 ^ ?b" using w(4) by (simp_all add: in_block_def)
  have o: "uint ?s + uint ?R \<le> 2 ^ 64" "ar_end (am_range m) = ?s + ?R - 1" using ok by (simp_all add: am_ok_def)
  have "?b < 64" using atc_geoD(1) [OF atc_invD(1) [OF inv]] by simp
  then have "unat a + n \<le> 2 ^ 64" using n(3) by (rule in_block_no_wrap)
  then have "int (unat a + n) \<le> int (2 ^ 64)" by (simp only: of_nat_le_iff)
  then have nw: "uint a + int n \<le> 2 ^ 64" by simp
  have l: "a + of_nat (n - 1) < ?R" using block_range(1) [OF inv w(4), of "n - 1"] n by simp
  have e: "a + of_nat (n - 1) = a + word_of_int (int n) - 1" using n(1) by (simp add: of_nat_diff)
  have "uint (a + of_nat (n - 1)) = uint a + int n - 1" unfolding e using n(1) by (intro range_end nw) simp
  then have la: "uint a + int n \<le> uint ?R" using l by (simp only: word_less_def)
  have u1: "uint (?s + a) = uint ?s + uint a" using o(1) la n(1) by (intro uint_add_lem [THEN iffD1]) simp
  have e1: "uint (?s + a + ucast w - 1) = uint ?s + uint a + int n - 1"
    using range_end [of "int n" "?s + a"] n(1) u1 la o(1) w(3) by (simp add: ucast_eq)
  have "0 \<le> uint a" by simp
  then have "0 < uint ?R" using la n(1) by linarith
  then have e2: "uint (?s + ?R - 1) = uint ?s + uint ?R - 1" using range_end [of "uint ?R" ?s] o(1) by simp
  have "?s \<le> ?s + a" "?s + a + ucast w - 1 \<le> ?s + ?R - 1" using u1 e1 e2 la by (simp_all add: word_le_def)
  then show ?thesis using w(1,2) o(2) by (simp add: am_in_range_def ar_isSubset_def ar_interleaved_def AddrRange_of_def)
qed

section \<open>Accesses are runs\<close>

definition swap_writes :: "Packet \<Rightarrow> byte list \<Rightarrow> bool" where
  "swap_writes pkt old \<longleftrightarrow> \<not> isCondSwap (pk_req pkt) \<or>
     (case getExtraData (pk_req pkt) of None \<Rightarrow> False | Some e \<Rightarrow> host_bytes (length old) e = old)"

definition store_done :: "Packet \<Rightarrow> Packet \<Rightarrow> bool" where
  "store_done pkt pkt' \<longleftrightarrow> \<not> cmd_isLLSC (pk_cmd pkt) \<or> getExtraData (pk_req pkt') = Some 1"

text \<open>What a program sees of an access: the bytes of the response and the bytes of the request.\<close>

definition access_events :: "Addr \<Rightarrow> Packet \<Rightarrow> Packet \<Rightarrow> event list" where
  "access_events a pkt pkt' =
     (if memInhibitAsserted pkt then []
      else if pk_cmd pkt = SwapReq then
        Read a (the (packet_bytes pkt')) #
          (if swap_writes pkt (the (packet_bytes pkt')) then [Write a (the (packet_bytes pkt))] else [])
      else if cmd_isRead (pk_cmd pkt) then [Read a (the (packet_bytes pkt'))]
      else if cmd_isWrite (pk_cmd pkt) \<and> store_done pkt pkt' then [Write a (the (packet_bytes pkt))]
      else [])"

lemma load_step_run:
  assumes inv: "run_inv p (ph, am_ctrl m)" and pk: "packet_in m a n pkt" and pf: "\<not> ignore_latency pf"
    and r: "am_LoadAddr p a pf m = Some (x, pf', m')"
  shows "mem_step p (Read a (read_bytes x n (host (atc_mem (am_ctrl m'))))) (ph, am_ctrl m) (ph, am_ctrl m')"
    "length bs = n \<Longrightarrow> mem_step p (Write a bs) (ph, am_ctrl m) (ph, write_host x bs (am_ctrl m'))"
    "run_inv p (ph, am_ctrl m')" "geometry_of (am_ctrl m') = geometry_of (am_ctrl m)" "\<not> ignore_latency pf'"
    "m' = m\<lparr>am_ctrl := am_ctrl m'\<rparr>" "host (atc_mem (am_ctrl m')) = host (atc_mem (am_ctrl m))"
proof -
  have fit: "in_block (am_ctrl m) a n" using pk by (simp add: packet_in_def)
  obtain c where c: "atc_LoadAddr (SimpleMemory_store p (am_ctrl m)) a pf (am_ctrl m) = Some (x, pf', c)" "m' = m\<lparr>am_ctrl := c\<rparr>"
    using r by (auto simp: am_LoadAddr_def split: Option.bind_splits)
  show "m' = m\<lparr>am_ctrl := am_ctrl m'\<rparr>" using c(2) by simp
  show s: "mem_step p (Read a (read_bytes x n (host (atc_mem (am_ctrl m'))))) (ph, am_ctrl m) (ph, am_ctrl m')"
    using mem_step.load [OF fit pf c(1), of ph] c(2) by simp
  show "mem_step p (Write a bs) (ph, am_ctrl m) (ph, write_host x bs (am_ctrl m'))" if "length bs = n"
    using mem_step.poke [of "am_ctrl m" a bs pf p x pf' c ph] fit pf c that by simp
  show "run_inv p (ph, am_ctrl m')" "geometry_of (am_ctrl m') = geometry_of (am_ctrl m)"
    using mem_step_ok [OF s inv] by (simp_all add: step_ok_def)
  have mi: "mem_inv p (am_ctrl m)" "a < atc_phy_range (am_ctrl m)" using run_inv_mem [OF inv] fit by (simp_all add: in_block_def)
  show "\<not> ignore_latency pf'" "host (atc_mem (am_ctrl m')) = host (atc_mem (am_ctrl m))" using load_flat [OF mi pf] c by auto
qed

lemma track_partial:
  assumes "trackLoadLocked pkt m = Some m'" "one_each (am_locked m)"
  shows "m' = m\<lparr>am_locked := am_locked m'\<rparr>" "one_each (am_locked m')"
proof -
  obtain a r where a: "getPaddr (pk_req pkt) = Some a" "relock (pk_req pkt) (la_mask a) (am_locked m) = Some r"
      "(case r of Some ls \<Rightarrow> Some (m\<lparr>am_locked := ls\<rparr>)
        | None \<Rightarrow> do { l \<leftarrow> LockedAddr_of (pk_req pkt); Some (m\<lparr>am_locked := l # am_locked m\<rparr>) }) = Some m'"
    using assms(1) by (auto simp: trackLoadLocked_def split: Option.bind_splits)
  have "\<exists>c. contextId (pk_req pkt) = Some c"
  proof (cases "am_locked m")
    case Nil
    then have "r = None" using a(2) by simp
    then show ?thesis using a(3) by (auto simp: LockedAddr_of_def split: Option.bind_splits)
  next
    case (Cons l ls)
    then show ?thesis using a(2) by (auto simp: matchesContext_def split: Option.bind_splits)
  qed
  then obtain c where c: "contextId (pk_req pkt) = Some c" by blast
  have "m' = m\<lparr>am_locked := ls_lock c (la_mask a) (am_locked m)\<rparr>" using trackLoadLocked_eq [OF a(1) c assms(2)] assms(1) by simp
  then show "m' = m\<lparr>am_locked := am_locked m'\<rparr>" "one_each (am_locked m')" using ll.lock_wf [OF assms(2)] by simp_all
qed

lemma write_partial:
  assumes "writeOK pkt m = Some (b, pkt', m')" "one_each (am_locked m)"
  shows "m' = m\<lparr>am_locked := am_locked m'\<rparr> \<and> one_each (am_locked m') \<and> pkt' = pkt\<lparr>pk_req := pk_req pkt'\<rparr>" "b \<longleftrightarrow> store_done pkt pkt'"
    "rq_masterId (pk_req pkt') = rq_masterId (pk_req pkt)" "rq_flags (pk_req pkt') = rq_flags (pk_req pkt)"
proof -
  have e: "getExtraData (pk_req (set_extra x pkt)) = Some x" for x
    by (simp add: set_extra_def setExtraData_def getExtraData_def isSet_set request_flags isSet_numeral)
  show "m' = m\<lparr>am_locked := am_locked m'\<rparr> \<and> one_each (am_locked m') \<and> pkt' = pkt\<lparr>pk_req := pk_req pkt'\<rparr>"
    using assms ll.store_wf [OF assms(2)]
    by (auto simp: writeOK_def checkLockedAddrList_def Let_def set_extra_def ls_store_def split: if_splits Option.bind_splits)
  show "b \<longleftrightarrow> store_done pkt pkt'"
    using assms(1) by (auto simp: writeOK_def checkLockedAddrList_def Let_def store_done_def e split: if_splits Option.bind_splits)
  show "rq_masterId (pk_req pkt') = rq_masterId (pk_req pkt)" "rq_flags (pk_req pkt') = rq_flags (pk_req pkt)"
    using assms(1) by (auto simp: writeOK_def checkLockedAddrList_def Let_def set_extra_def setExtraData_def split: if_splits Option.bind_splits)
qed

lemma am_ok_cong:
  assumes "am_ok m" "am_range m' = am_range m" "am_pmem m' = am_pmem m" "one_each (am_locked m')"
    "geometry_of (am_ctrl m') = geometry_of (am_ctrl m)"
  shows "am_ok m'"
  using assms geometry_fields [OF assms(5)] by (simp add: am_ok_def)

lemma access_read_run:
  assumes inv: "run_inv p (ph, am_ctrl m)" and ok: "am_ok m" and pk: "packet_in m a n pkt" and pf: "\<not> ignore_latency pf"
    and r: "access_read p pkt pf m = Some (pkt', pf', m')"
  shows "mem_run p (ph, am_ctrl m) [Read a (the (packet_bytes pkt'))] (ph, am_ctrl m')" "am_ok m'" "\<not> ignore_latency pf'"
    "pk_cmd pkt' = pk_cmd pkt"
proof -
  obtain m1 where m1: "(if cmd_isLLSC (pk_cmd pkt) then trackLoadLocked pkt m else Some m) = Some m1"
    using r by (auto simp: access_read_def split: Option.bind_splits)
  have "m1 = m\<lparr>am_locked := am_locked m1\<rparr> \<and> one_each (am_locked m1)"
    using m1 track_partial [of pkt m m1] ok by (auto simp: am_ok_def split: if_splits)
  then have c1: "am_ctrl m1 = am_ctrl m" "am_range m1 = am_range m" "am_pmem m1 = am_pmem m" "one_each (am_locked m1)"
    by (metis AbstractMemory.select_convs AbstractMemory.update_convs(5) AbstractMemory.surjective)+
  have pk1: "packet_in m1 a n pkt" using pk c1 by (simp add: packet_in_def)
  obtain w where w: "am_localAddr pkt m1 = Some a" using pk1 by (rule packet_inD)
  have pm: "am_pmem m1" using ok c1(3) by (simp add: am_ok_def)
  obtain x m2 pkt1 sz where x: "am_LoadAddr p a pf m1 = Some (x, pf', m2)" "packet_load x pkt m2 = Some pkt'"
      "am_ctrl m' = am_ctrl m2" "am_range m' = am_range m2" "am_pmem m' = am_pmem m2" "am_locked m' = am_locked m2"
    using r m1 w pm by (auto simp: access_read_def Let_def hostAddr_def cassert_def split: Option.bind_splits if_splits)
  note l = load_step_run [OF _ pk1 pf x(1), of ph, unfolded c1(1), OF inv]
  note d = load_packet [OF pk1 x(2)]
  show "mem_run p (ph, am_ctrl m) [Read a (the (packet_bytes pkt'))] (ph, am_ctrl m')"
    using mem_run_step [OF l(1)] x(3) d(2) by simp
  have "am_range m2 = am_range m1" "am_pmem m2 = am_pmem m1" "am_locked m2 = am_locked m1" by (subst l(6), simp)+
  then show "am_ok m'" using am_ok_cong [OF ok, of m'] c1 x l(4) by simp
  show "\<not> ignore_latency pf'" by (rule l(5))
  show "pk_cmd pkt' = pk_cmd pkt" using d(1) by simp
qed

lemma am_write_fields [simp]:
  "am_ctrl (am_write x bs m) = write_host x bs (am_ctrl m)" "am_range (am_write x bs m) = am_range m"
  "am_pmem (am_write x bs m) = am_pmem m" "am_locked (am_write x bs m) = am_locked m"
  by (simp_all add: am_write_def)

lemma store_no_ignore:
  fixes bs :: "byte list"
  assumes inv: "run_inv p (ph, s)" and ph: "ph \<noteq> MIGRATED" and fit: "in_block s a (length bs)" and pf: "\<not> ignore_latency pf"
    and r: "atc_StoreAddr (SimpleMemory_store p s) a (int (length bs)) pf s = Some (x, pf', s')"
  shows "\<not> ignore_latency pf'"
proof -
  have mi: "mem_inv p s" and st: "atc_stats s" using run_inv_mem [OF inv] run_inv_stats [OF inv ph] by simp_all
  have "store_room (drop_bit (atc_bits s) a) s" "\<not> loan_in_ckpt (drop_bit (atc_bits s) a) s"
    using store_aborts_iff [OF mi st fit pf] r by auto
  then show ?thesis using store_flat [OF mi st fit pf] r by (auto simp: loan_in_ckpt_def)
qed

lemma locked_fields:
  assumes "m' = m\<lparr>am_locked := am_locked m'\<rparr>"
  shows "am_ctrl m' = am_ctrl m" "am_range m' = am_range m" "am_pmem m' = am_pmem m"
  by (subst assms, simp)+

lemma ctrl_fields:
  assumes "m' = m\<lparr>am_ctrl := am_ctrl m'\<rparr>"
  shows "am_range m' = am_range m" "am_pmem m' = am_pmem m" "am_locked m' = am_locked m" "am_profBase m' = am_profBase m"
  by (subst assms, simp)+

lemma access_write_run:
  assumes inv: "run_inv p (ph, am_ctrl m)" and ok: "am_ok m" and pk: "packet_in m a n pkt" and pf: "\<not> ignore_latency pf"
    and ph: "ph \<noteq> MIGRATED" and r: "access_write p pkt pf m = Some (pkt', pf', m')"
  shows "mem_run p (ph, am_ctrl m) (if store_done pkt pkt' then [Write a (the (packet_bytes pkt))] else []) (ph, am_ctrl m')" "am_ok m'"
    "\<not> ignore_latency pf'" "pk_cmd pkt' = pk_cmd pkt"
proof -
  obtain b m1 where w: "writeOK pkt m = Some (b, pkt', m1)"
    "b \<or> (m' = m1 \<and> pf' = pf)" using r by (auto simp: access_write_def Let_def split: Option.bind_splits if_splits)
  note wp = write_partial [OF w(1)]
  have one: "one_each (am_locked m)" using ok by (simp add: am_ok_def)
  have pkt': "pkt' = pkt\<lparr>pk_req := pk_req pkt'\<rparr>" and m1: "m1 = m\<lparr>am_locked := am_locked m1\<rparr>" "one_each (am_locked m1)" and b: "b \<longleftrightarrow> store_done pkt pkt'"
    using wp [OF one] by blast+
  note c1 = locked_fields [OF m1(1)]
  show "pk_cmd pkt' = pk_cmd pkt" by (subst pkt') simp
  have g: "getAddr pkt' = getAddr pkt" "getSize pkt' = getSize pkt" "getPtr pkt' = getPtr pkt" "packet_bytes pkt' = packet_bytes pkt"
    by (subst pkt', simp add: getAddr_def getSize_def getPtr_def packet_bytes_def)+
  show "mem_run p (ph, am_ctrl m) (if store_done pkt pkt' then [Write a (the (packet_bytes pkt))] else []) (ph, am_ctrl m')" "am_ok m'"
    "\<not> ignore_latency pf'"
  proof (atomize (full), cases b)
    case False
    then have "m' = m1" "pf' = pf" using w(2) by simp_all
    then show "mem_run p (ph, am_ctrl m) (if store_done pkt pkt' then [Write a (the (packet_bytes pkt))] else []) (ph, am_ctrl m') \<and> am_ok m' \<and>
        \<not> ignore_latency pf'"
      using False b c1 m1(2) pf mem_run.none am_ok_cong [OF ok, of m1] by simp
  next
    case True
    obtain d where d: "am_localAddr pkt' m1 = Some a" "packet_bytes pkt' = Some d" "length d = n" "in_block (am_ctrl m) a n"
      using pk g c1(2) by (auto elim!: packet_inD simp: am_localAddr_def)
    obtain sz where sz: "getSize pkt' = Some sz" "uint sz = int n" using pk g(2) by (auto elim!: packet_inD)
    have pm: "am_pmem m1" using ok c1(3) by (simp add: am_ok_def)
    obtain x pf1 m2 where x: "am_StoreAddr p a (int n) pf m1 = Some (x, pf1, m2)" "pf' = pf_AddBlockMoveInter 1 pf1"
        "am_ctrl m' = am_ctrl (am_write x d m2)" "am_range m' = am_range m2" "am_pmem m' = am_pmem m2" "am_locked m' = am_locked m2"
      using r w True d sz pm by (auto simp: access_write_def Let_def hostAddr_def cassert_def split: Option.bind_splits if_splits)
    obtain c where c: "atc_StoreAddr (SimpleMemory_store p (am_ctrl m)) a (int (length d)) pf (am_ctrl m) = Some (x, pf1, c)" "m2 = m1\<lparr>am_ctrl := c\<rparr>"
      using x(1) d(3) c1(1) by (auto simp: am_StoreAddr_def split: Option.bind_splits)
    have s: "mem_step p (Write a d) (ph, am_ctrl m) (ph, am_ctrl m')"
      using mem_step.store [OF ph _ pf c(1)] d(3,4) x(3) c(2) by simp
    have st: "geometry_of (am_ctrl m') = geometry_of (am_ctrl m)" using mem_step_ok [OF s inv] by (simp add: step_ok_def)
    have "am_ok m'" using x c c1 m1(2) st by (intro am_ok_cong [OF ok]) simp_all
    moreover have "\<not> ignore_latency pf1" using store_no_ignore [OF inv ph _ pf, of a d] c(1) d(3,4) by simp
    then have "\<not> ignore_latency pf'" using x(2) by simp
    ultimately show "mem_run p (ph, am_ctrl m) (if store_done pkt pkt' then [Write a (the (packet_bytes pkt))] else []) (ph, am_ctrl m') \<and> am_ok m' \<and>
        \<not> ignore_latency pf'"
      using True b d(2) g(4) mem_run_step [OF s] by simp
  qed
qed

lemma access_swap_run:
  assumes inv: "run_inv p (ph, am_ctrl m)" and ok: "am_ok m" and pk: "packet_in m a n pkt" and pf: "\<not> ignore_latency pf"
    and r: "access_swap isz p pkt pf m = Some (pkt', pf', m')"
  shows "mem_run p (ph, am_ctrl m) (Read a (the (packet_bytes pkt')) #
      (if swap_writes pkt (the (packet_bytes pkt')) then [Write a (the (packet_bytes pkt))] else [])) (ph, am_ctrl m')" "am_ok m'"
    "\<not> ignore_latency pf'" "pk_cmd pkt' = pk_cmd pkt"
proof -
  obtain w d where w: "getSize pkt = Some w" "unat w = n" "packet_bytes pkt = Some d" "length d = n" "am_localAddr pkt m = Some a"
    using pk by (rule packet_inD)
  obtain x pf1 m1 where x: "am_LoadAddr p a pf m = Some (x, pf1, m1)" "packet_load x pkt m1 = Some pkt'"
    using r w by (auto simp: access_swap_def Let_def hostAddr_def cassert_def split: Option.bind_splits if_splits)
  note l = load_step_run [OF inv pk pf x(1)]
  note ld = load_packet [OF pk x(2)]
  let ?old = "read_bytes x n (host (atc_mem (am_ctrl m1)))"
  have req: "pk_req pkt' = pk_req pkt" "pk_cmd pkt' = pk_cmd pkt" using ld(1) by simp_all
  obtain b m2 where b: "(if isCondSwap (pk_req pkt) then do { cassert (w = 8 \<or> w = 4); e \<leftarrow> getExtraData (pk_req pkt);
        Some (host_bytes n e = ?old) } else Some True) = Some b"
      "(if b then do { (x, pf, m) \<leftarrow> am_LoadAddr p a pf1 m1; x \<leftarrow> hostAddr x (am_ctrl m); Some (pf, am_write x d m) } else Some (pf1, m1)) = Some (pf', m2)"
      "am_ctrl m' = am_ctrl m2" "am_range m' = am_range m2" "am_pmem m' = am_pmem m2" "am_locked m' = am_locked m2"
    using r w x req by (auto simp: access_swap_def Let_def hostAddr_def cassert_def split: Option.bind_splits if_splits)
  have sw: "b \<longleftrightarrow> swap_writes pkt ?old"
    using b(1) by (auto simp: swap_writes_def cassert_def split: if_splits Option.bind_splits option.splits)
  have bytes: "the (packet_bytes pkt') = ?old" using ld(2) by simp
  show "pk_cmd pkt' = pk_cmd pkt" by (rule req)
  show "mem_run p (ph, am_ctrl m) (Read a (the (packet_bytes pkt')) #
      (if swap_writes pkt (the (packet_bytes pkt')) then [Write a (the (packet_bytes pkt))] else [])) (ph, am_ctrl m')" "am_ok m'"
    "\<not> ignore_latency pf'"
    unfolding bytes
  proof (atomize (full), cases b)
    case False
    then have e: "m2 = m1" "pf' = pf1" using b(2) by simp_all
    have "am_ok m'" using b(4-6) e ctrl_fields [OF l(6)] l(4) b(3) ok by (intro am_ok_cong [OF ok]) (simp_all add: am_ok_def)
    then show "mem_run p (ph, am_ctrl m) (Read a ?old # (if swap_writes pkt ?old then [Write a (the (packet_bytes pkt))] else [])) (ph, am_ctrl m') \<and>
        am_ok m' \<and> \<not> ignore_latency pf'"
      using False sw e b(3) l(5) mem_run_step [OF l(1)] by simp
  next
    case True
    then obtain y m3 where y: "am_LoadAddr p a pf1 m1 = Some (y, pf', m3)" "m2 = am_write y d m3"
      using b(2) by (auto simp: hostAddr_def cassert_def split: Option.bind_splits if_splits)
    have pk1: "packet_in m1 a n pkt" using pk ctrl_fields(1) [OF l(6)] geometry_fields [OF l(4)] by (simp add: packet_in_def in_block_def)
    note l2 = load_step_run [OF l(3) pk1 l(5) y(1)]
    have s: "mem_step p (Write a d) (ph, am_ctrl m1) (ph, am_ctrl m')" using l2(2) [OF w(4)] y(2) b(3) by simp
    have "geometry_of (am_ctrl m') = geometry_of (am_ctrl m)" using mem_step_ok [OF s l(3)] l(4) by (simp add: step_ok_def)
    then have "am_ok m'" using b(4-6) y(2) ctrl_fields [OF l(6)] ctrl_fields [OF l2(6)] ok by (intro am_ok_cong [OF ok]) (simp_all add: am_ok_def)
    then show "mem_run p (ph, am_ctrl m) (Read a ?old # (if swap_writes pkt ?old then [Write a (the (packet_bytes pkt))] else [])) (ph, am_ctrl m') \<and>
        am_ok m' \<and> \<not> ignore_latency pf'"
      using True sw l2(5) w(3) mem_run_append [OF mem_run_step [OF s] mem_run_step [OF l(1)]] by simp
  qed
qed

text \<open>In the phase between migration and checkpoint the memory accepts no plain stores.\<close>

lemma access_run:
  assumes inv: "run_inv p (ph, am_ctrl m)" and ok: "am_ok m" and pk: "packet_in m a n pkt" and pf: "\<not> ignore_latency pf"
    and ph: "cmd_isWrite (pk_cmd pkt) \<Longrightarrow> ph \<noteq> MIGRATED"
    and r: "am_access isz p pkt pf m = Some (pkt', pf', m')"
  shows "mem_run p (ph, am_ctrl m) (access_events a pkt pkt') (ph, am_ctrl m') \<and> am_ok m' \<and> \<not> ignore_latency pf'"
proof (cases "memInhibitAsserted pkt")
  case True
  then have "pkt' = pkt" "pf' = pf" "m' = m" using r by (auto simp: am_access_def cassert_def split: Option.bind_splits if_splits)
  then show ?thesis using True ok pf mem_run.none by (simp add: access_events_def)
next
  case False
  obtain pkt1 where b: "(if pk_cmd pkt = SwapReq then access_swap isz p pkt pf m
      else if cmd_isRead (pk_cmd pkt) then access_read p pkt pf m
      else if cmd_isWrite (pk_cmd pkt) then access_write p pkt pf m
      else if cmd_isInvalidate (pk_cmd pkt) then Some (pkt, pf, m) else None) = Some (pkt1, pf', m')"
      "(if cmd_needsResponse (pk_cmd pkt1) then makeResponse pkt1 else Some pkt1) = Some pkt'"
    using r False by (auto simp: am_access_def split: Option.bind_splits)
  have bt: "packet_bytes pkt' = packet_bytes pkt1" "pk_req pkt' = pk_req pkt1" using b(2) response_packet(1,3) [of pkt1 pkt'] by (auto split: if_splits)
  then have sd: "store_done pkt pkt' = store_done pkt pkt1" by (simp add: store_done_def)
  consider "pk_cmd pkt = SwapReq" | "pk_cmd pkt \<noteq> SwapReq" "cmd_isRead (pk_cmd pkt)"
    | "pk_cmd pkt \<noteq> SwapReq" "\<not> cmd_isRead (pk_cmd pkt)" "cmd_isWrite (pk_cmd pkt)"
    | "pk_cmd pkt \<noteq> SwapReq" "\<not> cmd_isRead (pk_cmd pkt)" "\<not> cmd_isWrite (pk_cmd pkt)" by blast
  then show ?thesis
  proof cases
    case 1
    then show ?thesis using False b(1) access_swap_run(1-3) [OF inv ok pk pf, of isz pkt1 pf' m'] by (simp add: access_events_def bt)
  next
    case 2
    then show ?thesis using False b(1) access_read_run(1-3) [OF inv ok pk pf, of pkt1 pf' m'] by (simp add: access_events_def bt)
  next
    case 3
    then show ?thesis using False b(1) access_write_run(1-3) [OF inv ok pk pf ph, of pkt1 pf' m'] by (simp add: access_events_def sd)
  next
    case 4
    then show ?thesis using False b(1) ok pf mem_run.none by (auto simp: access_events_def split: if_splits)
  qed
qed

text \<open>A functional access reads the bytes of memory or writes them in place, in every phase.\<close>

definition functional_events :: "Addr \<Rightarrow> Packet \<Rightarrow> Packet \<Rightarrow> event list" where
  "functional_events a pkt pkt' =
     (if cmd_isRead (pk_cmd pkt) then [Read a (the (packet_bytes pkt'))]
      else if cmd_isWrite (pk_cmd pkt) then [Write a (the (packet_bytes pkt))]
      else [])"

lemma functional_run:
  assumes inv: "run_inv p (ph, am_ctrl m)" and ok: "am_ok m" and pk: "packet_in m a n pkt"
    and c: "cmd_isRead (pk_cmd pkt) \<or> cmd_isWrite (pk_cmd pkt)"
    and r: "functionalAccess ps p pkt m = Some (pkt', m')"
  shows "mem_run p (ph, am_ctrl m) (functional_events a pkt pkt') (ph, am_ctrl m') \<and> am_ok m'"
proof -
  have pf: "\<not> ignore_latency (Profiler_init 0 0)" by (simp add: Profiler_init_def)
  obtain d where d: "am_localAddr pkt m = Some a" "packet_bytes pkt = Some d" "length d = n" using pk by (rule packet_inD)
  have pm: "am_pmem m" using ok by (simp add: am_ok_def)
  obtain x pf1 m1 where x: "am_LoadAddr p a (Profiler_init 0 0) m = Some (x, pf1, m1)"
    using r d by (auto simp: functionalAccess_def split: Option.bind_splits)
  note l = load_step_run [OF inv pk pf x]
  note f = ctrl_fields [OF l(6)]
  show ?thesis
  proof (cases "cmd_isRead (pk_cmd pkt)")
    case True
    obtain pkt1 where q: "packet_load x pkt m1 = Some pkt1" "makeResponse pkt1 = Some pkt'" "m' = m1"
      using r d x True f pm by (auto simp: functionalAccess_def hostAddr_def cassert_def split: Option.bind_splits if_splits)
    have "am_ok m'" using q(3) f l(4) ok by (intro am_ok_cong [OF ok]) (simp_all add: am_ok_def)
    then show ?thesis using True q load_packet(2) [OF pk q(1)] response_packet(1) [OF q(2)] mem_run_step [OF l(1)]
      by (simp add: functional_events_def)
  next
    case False
    then have q: "m' = am_write x d m1"
      using r d x f pm c by (auto simp: functionalAccess_def hostAddr_def cassert_def split: Option.bind_splits if_splits)
    have s: "mem_step p (Write a d) (ph, am_ctrl m) (ph, am_ctrl m')" using l(2) [OF d(3)] q by simp
    have "geometry_of (am_ctrl m') = geometry_of (am_ctrl m)" using mem_step_ok [OF s inv] by (simp add: step_ok_def)
    then have "am_ok m'" using q f ok by (intro am_ok_cong [OF ok]) (simp_all add: am_ok_def)
    then show ?thesis using False c d(2) mem_run_step [OF s] by (simp add: functional_events_def)
  qed
qed

section \<open>Accesses return\<close>

lemma load_runs:
  assumes "run_inv p (ph, am_ctrl m)" "packet_in m a n pkt" "\<not> ignore_latency pf"
  shows "\<exists>x pf' m'. am_LoadAddr p a pf m = Some (x, pf', m') \<and> hostAddr x (am_ctrl m') = Some x"
proof -
  have i: "mem_inv p (am_ctrl m)" "a < atc_phy_range (am_ctrl m)" using run_inv_mem [OF assms(1)] assms(2) by (simp_all add: packet_in_def in_block_def)
  then obtain pf' c where c: "atc_LoadAddr (SimpleMemory_store p (am_ctrl m)) a pf (am_ctrl m) =
      Some (tr (atc_bits (am_ctrl m)) (atc_map (am_ctrl m)) a, pf', c)" "flat_step p (am_ctrl m) c" using load_flat [OF i assms(3)] by blast
  have "atc_inv (am_ctrl m)" using i(1) by (simp add: mem_inv_def)
  then have "tr (atc_bits (am_ctrl m)) (atc_map (am_ctrl m)) a < atc_Size (am_ctrl m)" using i(2) by (rule tr_below)
  then have "hostAddr (tr (atc_bits (am_ctrl m)) (atc_map (am_ctrl m)) a) c = Some (tr (atc_bits (am_ctrl m)) (atc_map (am_ctrl m)) a)"
    using c(2) geometry_fields [of c "am_ctrl m"] by (simp add: hostAddr_def hostSize_def flat_step_def)
  then show ?thesis using c(1) by (simp add: am_LoadAddr_def)
qed

definition llsc_valid :: "Packet \<Rightarrow> bool" where
  "llsc_valid pkt \<longleftrightarrow> getPaddr (pk_req pkt) \<noteq> None \<and> contextId (pk_req pkt) \<noteq> None"

lemma access_read_total:
  assumes inv: "run_inv p (ph, am_ctrl m)" and ok: "am_ok m" and pk: "packet_in m a n pkt" and pf: "\<not> ignore_latency pf"
    and sz: "int n = att_block_size (atc_att (am_ctrl m))" and c: "cmd_isRead (pk_cmd pkt)" "\<not> cmd_isWrite (pk_cmd pkt)"
    and ll: "cmd_isLLSC (pk_cmd pkt) \<Longrightarrow> llsc_valid pkt"
  shows "am_access isz p pkt pf m \<noteq> None"
proof -
  have "atc_inv (am_ctrl m)" using run_inv_mem [OF inv] by (simp add: mem_inv_def)
  note ir = in_range_ok [OF ok this pk]
  have one: "one_each (am_locked m)" and pm: "am_pmem m" using ok by (simp_all add: am_ok_def)
  obtain m1 where m1: "(if cmd_isLLSC (pk_cmd pkt) then trackLoadLocked pkt m else Some m) = Some m1" "m1 = m\<lparr>am_locked := am_locked m1\<rparr>"
  proof (cases "cmd_isLLSC (pk_cmd pkt)")
    case True
    then obtain pa cid where "getPaddr (pk_req pkt) = Some pa" "contextId (pk_req pkt) = Some cid" using ll by (auto simp: llsc_valid_def)
    then show ?thesis using that True one trackLoadLocked_eq [of pkt pa cid m] by simp
  next
    case False
    then show ?thesis using that [of m] by simp
  qed
  note f = locked_fields [OF m1(2)]
  have pk1: "packet_in m1 a n pkt" using pk f by (simp add: packet_in_def)
  obtain w where w: "getSize pkt = Some w" "uint w = int n" "am_localAddr pkt m1 = Some a" using pk1 by (rule packet_inD)
  obtain x pf1 m2 where x: "am_LoadAddr p a pf m1 = Some (x, pf1, m2)" "hostAddr x (am_ctrl m2) = Some x"
    using load_runs [OF _ pk1 pf, of p ph] inv f(1) by (metis)
  obtain pkt1 where l: "packet_load x pkt m2 = Some pkt1" using load_packet_runs [OF pk1] by blast
  have "pk_cmd pkt1 = pk_cmd pkt" using load_packet(1) [OF pk1 l] by simp
  moreover obtain m3 where "access_read p pkt pf m = Some (pkt1, pf1, m3)"
    using c m1 w x l f pm sz by (auto simp: access_read_def Let_def)
  moreover have "pk_cmd pkt \<noteq> SwapReq" using c by (auto simp: cmd_defs)
  ultimately show ?thesis using ir c response_runs [of pkt1] by (auto simp: am_access_def split: Option.bind_splits)
qed

lemma access_write_aborts_iff:
  assumes inv: "run_inv p (ph, am_ctrl m)" and ph: "ph \<noteq> MIGRATED" and ok: "am_ok m" and pk: "packet_in m a n pkt" and pf: "\<not> ignore_latency pf"
    and sz: "int n = att_block_size (atc_att (am_ctrl m))" and c: "cmd_isWrite (pk_cmd pkt)" "\<not> cmd_isRead (pk_cmd pkt)"
    and ctx: "getPaddr (pk_req pkt) = Some pa" "contextId (pk_req pkt) = Some cid" and nf: "\<not> isInstFetch (pk_req pkt)" and ni: "\<not> memInhibitAsserted pkt"
  shows "am_access isz p pkt pf m = None \<longleftrightarrow> sc_allowed pkt cid pa m \<and>
    (\<not> store_room (drop_bit (atc_bits (am_ctrl m)) a) (am_ctrl m) \<or> loan_in_ckpt (drop_bit (atc_bits (am_ctrl m)) a) (am_ctrl m))"
proof -
  have mi: "mem_inv p (am_ctrl m)" and st: "atc_stats (am_ctrl m)" using run_inv_mem [OF inv] run_inv_stats [OF inv ph] by simp_all
  then have ai: "atc_inv (am_ctrl m)" by (simp add: mem_inv_def)
  note ir = in_range_ok [OF ok ai pk]
  have one: "one_each (am_locked m)" and pm: "am_pmem m" using ok by (simp_all add: am_ok_def)
  obtain pkt1 m1 where w1: "writeOK pkt m = Some (sc_allowed pkt cid pa m, pkt1, m1)" using writeOK_eq [OF ctx one] by blast
  note wp = write_partial [OF w1 one]
  have m1: "m1 = m\<lparr>am_locked := am_locked m1\<rparr>" and p1: "pkt1 = pkt\<lparr>pk_req := pk_req pkt1\<rparr>" using wp(1) by blast+
  note f = locked_fields [OF m1]
  have g: "getAddr pkt1 = getAddr pkt" "getSize pkt1 = getSize pkt" "getPtr pkt1 = getPtr pkt" "packet_bytes pkt1 = packet_bytes pkt" "pk_cmd pkt1 = pk_cmd pkt"
    by (subst p1, simp add: getAddr_def getSize_def getPtr_def packet_bytes_def)+
  obtain w d where w: "getSize pkt1 = Some w" "uint w = int n" "am_localAddr pkt1 m1 = Some a" "packet_bytes pkt1 = Some d" "length d = n" "in_block (am_ctrl m) a n"
    using pk g f by (auto elim!: packet_inD simp: am_localAddr_def)
  have nf1: "\<not> isInstFetch (pk_req pkt1)" using nf wp(4) by (simp add: isInstFetch_def)
  let ?S = "atc_StoreAddr (SimpleMemory_store p (am_ctrl m)) a (int n) pf (am_ctrl m)"
  have ab: "?S = None \<longleftrightarrow> \<not> store_room (drop_bit (atc_bits (am_ctrl m)) a) (am_ctrl m) \<or> loan_in_ckpt (drop_bit (atc_bits (am_ctrl m)) a) (am_ctrl m)"
    by (rule store_aborts_iff [OF mi st w(6) pf])
  have body: "access_write p pkt pf m = None \<longleftrightarrow> sc_allowed pkt cid pa m \<and> ?S = None"
  proof (cases ?S)
    case None
    then show ?thesis using w1 w f pm sz by (auto simp: access_write_def am_StoreAddr_def)
  next
    case (Some r)
    obtain x pf1 s1 where r: "r = (x, pf1, s1)" by (cases r)
    have "x < atc_Size (am_ctrl m)" "geometry_of s1 = geometry_of (am_ctrl m)"
      using store_flat [OF mi st _ pf, of a d] ab Some r w by (auto simp: loan_in_ckpt_def)
    then have "hostAddr x s1 = Some x" using geometry_fields [of s1 "am_ctrl m"] by (simp add: hostAddr_def hostSize_def)
    then show ?thesis using w1 w f pm sz Some r nf1 by (auto simp: access_write_def am_StoreAddr_def Let_def)
  qed
  have "pk_cmd pkt \<noteq> SwapReq" using c by (auto simp: cmd_defs)
  then have "am_access isz p pkt pf m = None \<longleftrightarrow> access_write p pkt pf m = None"
    using ir c ni by (auto simp: am_access_def dest: response_runs split: Option.bind_splits)
  then show ?thesis using body ab by simp
qed

end
