(* ===== verification/Int_Math.thy ===== *)
theory Int_Math
  imports Prelude
begin

text \<open>
  The integer helpers of \<open>src/gem5-stable/src/base/intmath.hh\<close> and \<open>intmath.cc\<close>, which size the memory banks and
  the address ranges. Templates are taken at the types the memory system uses them with: \<open>uint64_t\<close> for the bit tricks,
  \<open>int\<close> for the primes.
\<close>

section \<open>Definitions\<close>

definition leastSigBit :: "64 word \<Rightarrow> 64 word" where
  "leastSigBit n = n AND NOT (n - 1)"

definition isPowerOf2 :: "64 word \<Rightarrow> bool" where
  "isPowerOf2 n \<longleftrightarrow> n \<noteq> 0 \<and> leastSigBit n = n"

text \<open>\<open>power\<close>: \<open>e - 1\<close> multiplications in \<open>uint64_t\<close>; the warnings are output only.\<close>

primrec power_loop :: "nat \<Rightarrow> 32 word \<Rightarrow> 64 word \<Rightarrow> 64 word" where
  "power_loop 0 n result = result"
| "power_loop (Suc k) n result = power_loop k n (result * ucast n)"

definition uint_power :: "32 word \<Rightarrow> 32 word \<Rightarrow> 64 word" where
  "uint_power n e = (if e = 0 then 1 else power_loop (unat e - 1) n (ucast n))"

text \<open>One line of \<open>floorLog2\<close>: \<open>if (x & m) { y += k; x >>= k; }\<close>.\<close>

definition log_step :: "nat \<Rightarrow> 64 word \<Rightarrow> int \<times> 64 word \<Rightarrow> int \<times> 64 word" where
  "log_step k m yx = (if snd yx AND m \<noteq> 0 then (fst yx + int k, drop_bit k (snd yx)) else yx)"

definition floorLog2 :: "64 word \<Rightarrow> int option" where
  "floorLog2 x = do {
     cassert (x > 0);
     let (y, x) = log_step 32 0xffffffff00000000 (0, x);
     let (y, x) = log_step 16 0xffff0000 (y, x);
     let (y, x) = log_step 8 0xff00 (y, x);
     let (y, x) = log_step 4 0xf0 (y, x);
     let (y, x) = log_step 2 0xc (y, x);
     Some (if x AND 2 \<noteq> 0 then y + 1 else y) }"

text \<open>The signed overloads convert and call the unsigned one.\<close>

definition floorLog2_signed :: "64 word \<Rightarrow> int option" where
  "floorLog2_signed x = do {
     cassert (0 <s x);
     floorLog2 x }"

definition ceilLog2 :: "64 word \<Rightarrow> int option" where
  "ceilLog2 n = (if n = 1 then Some 0 else map_option (\<lambda>y. y + 1) (floorLog2 (n - 1)))"

definition floorPow2 :: "64 word \<Rightarrow> 64 word option" where
  "floorPow2 n = map_option (\<lambda>y. push_bit (nat y) 1) (floorLog2 n)"

definition ceilPow2 :: "64 word \<Rightarrow> 64 word option" where
  "ceilPow2 n = map_option (\<lambda>y. push_bit (nat y) 1) (ceilLog2 n)"

definition divCeil :: "64 word \<Rightarrow> 64 word \<Rightarrow> 64 word option" where
  "divCeil a b = (if b = 0 then None else Some ((a + b - 1) div b))"

definition roundUp :: "64 word \<Rightarrow> int \<Rightarrow> 64 word" where
  "roundUp val align = (let mask = word_of_int align - 1 in (val + mask) AND NOT mask)"

definition roundDown :: "64 word \<Rightarrow> int \<Rightarrow> 64 word" where
  "roundDown val align = (let mask = word_of_int align - 1 in val AND NOT mask)"

text \<open>Characters by their code.\<close>

definition isHex :: "nat \<Rightarrow> bool" where
  "isHex c \<longleftrightarrow> 48 \<le> c \<and> c \<le> 57 \<or> 65 \<le> c \<and> c \<le> 70 \<or> 97 \<le> c \<and> c \<le> 102"

definition isOct :: "nat \<Rightarrow> bool" where
  "isOct c \<longleftrightarrow> 48 \<le> c \<and> c \<le> 55"

definition isDec :: "nat \<Rightarrow> bool" where
  "isDec c \<longleftrightarrow> 48 \<le> c \<and> c \<le> 57"

definition hex2Int :: "nat \<Rightarrow> int" where
  "hex2Int c =
     (if 48 \<le> c \<and> c \<le> 57 then int c - 48
      else if 65 \<le> c \<and> c \<le> 70 then int c - 65 + 10
      else if 97 \<le> c \<and> c \<le> 102 then int c - 97 + 10
      else 0)"

text \<open>\<open>isPrime\<close>: trial division by \<open>i\<close> and \<open>i + 2\<close> for \<open>i = 5, 11, 17, \<dots>\<close>.\<close>

function isPrime_loop :: "int \<Rightarrow> int \<Rightarrow> bool" where
  "isPrime_loop n i =
     (if 0 < i \<and> i * i \<le> n
      then if n mod i = 0 \<or> n mod (i + 2) = 0 then False else isPrime_loop n (i + 6)
      else True)"
  by pat_completeness auto
termination
proof (relation "measure (\<lambda>(n, i). nat (n + 1 - i))")
  fix n i :: int
  assume "0 < i \<and> i * i \<le> n"
  then have "i * 1 \<le> i * i" "i * i \<le> n" by (auto intro: mult_left_mono)
  then show "((n, i + 6), n, i) \<in> measure (\<lambda>(n, i). nat (n + 1 - i))" by simp
qed simp

declare isPrime_loop.simps [simp del]

definition isPrime :: "int \<Rightarrow> bool" where
  "isPrime n \<longleftrightarrow> n = 2 \<or> n = 3 \<or> isPrime_loop n 5"

text \<open>
  \<open>prevPrime\<close>: candidates that neither \<open>2\<close> nor \<open>3\<close> divides. Everything below \<open>25\<close> passes the test, so the loop ends.
  \<open>%\<close> rounds towards zero.
\<close>

function prevPrime_loop :: "int \<Rightarrow> int \<Rightarrow> int" where
  "prevPrime_loop n decr =
     (if isPrime n \<or> \<not> (decr = 2 \<or> decr = 4) then n else prevPrime_loop (n - decr) (6 - decr))"
  by pat_completeness auto
termination
proof (relation "measure (\<lambda>(n, decr). nat n)")
  fix n decr :: int
  assume a: "\<not> (isPrime n \<or> \<not> (decr = 2 \<or> decr = 4))"
  have "25 \<le> n" using a by (cases "25 \<le> n") (auto simp: isPrime_def isPrime_loop.simps [of n 5])
  then show "((n - decr, 6 - decr), n, decr) \<in> measure (\<lambda>(n, decr). nat n)" using a by auto
qed simp

declare prevPrime_loop.simps [simp del]

definition prevPrime :: "int \<Rightarrow> int" where
  "prevPrime n =
     (let n = (if even n then n - 1 else n);
          r = (if 0 \<le> n then n mod 3 else - ((- n) mod 3));
          (n, decr) = (if r = 0 then (n - 2, 2) else if r = 1 then (n, 4) else (n, r))
      in prevPrime_loop n decr)"

section \<open>Logarithms\<close>

text \<open>The mask of a step tests whether a value of \<open>2 k\<close> bits needs more than \<open>k\<close> of them.\<close>

lemma high_half:
  fixes x :: "64 word"
  assumes "unat x < 2 ^ (2 * k)"
  shows "x AND push_bit k (mask k) \<noteq> 0 \<longleftrightarrow> 2 ^ k \<le> unat x"
proof -
  have "x AND push_bit k (mask k) = push_bit k (take_bit k (drop_bit k x))"
    by (rule bit_word_eqI) (auto simp: bit_simps)
  also have "take_bit k (drop_bit k x) = drop_bit k x"
  proof -
    have "unat x div 2 ^ k < 2 ^ k" using assms by (simp add: less_mult_imp_div_less mult_2 power_add)
    then have "unat (take_bit k (drop_bit k x)) = unat (drop_bit k x)"
      by (simp add: unsigned_take_bit_eq unat_drop take_bit_nat_eq_self)
    then show ?thesis by (simp add: word_unat_eq_iff)
  qed
  finally have e: "x AND push_bit k (mask k) = push_bit k (drop_bit k x)" .
  have "push_bit k (drop_bit k x) = 0 \<longleftrightarrow> drop_bit k x = 0"
  proof
    assume a: "push_bit k (drop_bit k x) = 0"
    have "drop_bit k (push_bit k (drop_bit k x)) = drop_bit k x"
      using bit_imp_le_length [of x] by (intro bit_word_eqI) (auto simp: bit_simps)
    then show "drop_bit k x = 0" using a by simp
  qed simp
  also have "\<dots> \<longleftrightarrow> unat x div 2 ^ k = 0" using unat_drop [of k x] by (metis unat_0_iff)
  also have "\<dots> \<longleftrightarrow> unat x < 2 ^ k" by (simp add: div_eq_0_iff)
  finally show ?thesis unfolding e by linarith
qed

definition log_inv :: "64 word \<Rightarrow> nat \<Rightarrow> int \<times> 64 word \<Rightarrow> bool" where
  "log_inv x k yx \<longleftrightarrow> 0 \<le> fst yx \<and> 0 < unat (snd yx) \<and> unat (snd yx) < 2 ^ k \<and> unat (snd yx) = unat x div 2 ^ nat (fst yx)"

lemma log_step_inv:
  assumes i: "log_inv x (2 * k) yx" and m: "m = push_bit k (mask k)"
  shows "log_inv x k (log_step k m yx)"
proof -
  obtain y z where yz: "yx = (y, z)" by (cases yx)
  have z: "0 \<le> y" "0 < unat z" "unat z < 2 ^ (2 * k)" "unat z = unat x div 2 ^ nat y" using i by (simp_all add: log_inv_def yz)
  show ?thesis
  proof (cases "2 ^ k \<le> unat z")
    case True
    then have "0 < unat z div 2 ^ k" by (simp add: div_greater_zero_iff)
    moreover have "unat z div 2 ^ k < 2 ^ k" using z(3) by (simp add: less_mult_imp_div_less mult_2 power_add)
    moreover have "unat z div 2 ^ k = unat x div 2 ^ nat (y + int k)"
      using z(1,4) by (simp add: nat_add_distrib power_add div_mult2_eq)
    ultimately show ?thesis using high_half [OF z(3)] True z(1) by (simp add: log_step_def log_inv_def yz m unat_drop)
  next
    case False
    then show ?thesis using high_half [OF z(3)] z by (simp add: log_step_def log_inv_def yz m)
  qed
qed

lemma log_masks:
  "(0xffffffff00000000 :: 64 word) = push_bit 32 (mask 32)" "(0xffff0000 :: 64 word) = push_bit 16 (mask 16)"
  "(0xff00 :: 64 word) = push_bit 8 (mask 8)" "(0xf0 :: 64 word) = push_bit 4 (mask 4)"
  "(0xc :: 64 word) = push_bit 2 (mask 2)" "(2 :: 64 word) = push_bit 1 (mask 1)"
  by (simp_all add: mask_eq_exp_minus_1 push_bit_eq_mult)

lemma floorLog2_ok:
  assumes "x \<noteq> 0"
  shows "\<exists>y. floorLog2 x = Some y \<and> 0 \<le> y \<and> y < 64 \<and> 2 ^ nat y \<le> unat x \<and> unat x < 2 ^ nat (y + 1)"
proof -
  have x: "unat x < 2 ^ LENGTH(64)" by (rule unsigned_less)
  have "unat x \<noteq> 0" using assms by (metis unat_0_iff)
  then have "log_inv x (2 * 32) (0, x)" using x by (simp add: log_inv_def)
  note i5 = log_step_inv [OF this log_masks(1)]
  then have "log_inv x (2 * 16) (log_step 32 0xffffffff00000000 (0, x))" by simp
  note i4 = log_step_inv [OF this log_masks(2)]
  then have "log_inv x (2 * 8) (log_step 16 0xffff0000 (log_step 32 0xffffffff00000000 (0, x)))" by simp
  note i3 = log_step_inv [OF this log_masks(3)]
  then have "log_inv x (2 * 4) (log_step 8 0xff00 (log_step 16 0xffff0000 (log_step 32 0xffffffff00000000 (0, x))))" by simp
  note i2 = log_step_inv [OF this log_masks(4)]
  define p where "p = log_step 2 0xc (log_step 4 0xf0 (log_step 8 0xff00 (log_step 16 0xffff0000 (log_step 32 0xffffffff00000000 (0, x)))))"
  have "log_inv x (2 * 2) (log_step 4 0xf0 (log_step 8 0xff00 (log_step 16 0xffff0000 (log_step 32 0xffffffff00000000 (0, x)))))"
    using i2 by simp
  then have "log_inv x 2 p" unfolding p_def by (rule log_step_inv [OF _ log_masks(5)])
  then obtain y z where p: "p = (y, z)" "0 \<le> y" "0 < unat z" "unat z < 2 ^ (2 * 1)" "unat z = unat x div 2 ^ nat y"
    by (cases p) (simp add: log_inv_def)
  have run: "floorLog2 x = Some (if z AND 2 \<noteq> 0 then y + 1 else y)"
    using assms p(1) by (simp add: floorLog2_def word_neq_0_conv p_def split_beta)
  have two: "z AND 2 \<noteq> 0 \<longleftrightarrow> 2 \<le> unat z" using high_half [OF p(4)] log_masks(6) by (metis power_one_right)
  define r where "r = (if z AND 2 \<noteq> 0 then y + 1 else y)"
  have r: "2 ^ nat r \<le> unat x" "unat x < 2 ^ nat (r + 1)"
  proof -
    have dm: "unat x = 2 ^ nat y * unat z + unat x mod 2 ^ nat y" using p(5) by simp
    have lt: "unat x mod 2 ^ nat y < 2 ^ nat y" by simp
    have n: "nat (y + 1) = Suc (nat y)" "nat (y + 1 + 1) = Suc (Suc (nat y))" using p(2) by simp_all
    have "2 ^ nat y * (if 2 \<le> unat z then 2 else 1) \<le> 2 ^ nat y * unat z" using p(3) by (intro mult_le_mono2) auto
    also have "\<dots> \<le> unat x" using dm by linarith
    finally show "2 ^ nat r \<le> unat x" using two n(1) by (simp add: r_def split: if_splits)
    have "2 ^ nat y * (unat z + 1) = 2 ^ nat y * unat z + 2 ^ nat y" by simp
    then have "unat x < 2 ^ nat y * (unat z + 1)" using dm lt by linarith
    also have "\<dots> \<le> 2 ^ nat y * (if 2 \<le> unat z then 4 else 2)" using p(3,4) by (intro mult_le_mono2) auto
    finally show "unat x < 2 ^ nat (r + 1)" using two n by (simp add: r_def split: if_splits)
  qed
  have "(2 :: nat) ^ nat r < 2 ^ 64" using r(1) x by simp
  then have "nat r < 64" by (rule power_less_imp_less_exp [rotated]) simp
  then show ?thesis using run r p(2) by (auto simp: r_def)
qed

lemma ceilLog2_ok:
  assumes "n \<noteq> 0"
  shows "\<exists>y. ceilLog2 n = Some y \<and> 0 \<le> y \<and> y \<le> 64 \<and> unat n \<le> 2 ^ nat y \<and> (n \<noteq> 1 \<longrightarrow> 2 ^ nat (y - 1) < unat n)"
proof (cases "n = 1")
  case False
  then have "n - 1 \<noteq> 0" by simp
  moreover have u: "unat (n - 1) = unat n - 1" using assms by (simp add: unat_minus_one)
  moreover have "0 < unat n" using assms by (simp add: unat_gt_0)
  ultimately show ?thesis using floorLog2_ok [of "n - 1"] False by (auto simp: ceilLog2_def)
qed (simp add: ceilLog2_def)

section \<open>Powers and rounding\<close>

lemma power_loop_eq: "power_loop k n r = r * ucast n ^ k"
  by (induction k arbitrary: r) (simp_all add: algebra_simps)

lemma uint_power_eq: "uint_power n e = ucast n ^ unat e"
proof (cases "e = 0")
  case False
  then have "unat e = Suc (unat e - 1)" by (simp add: unat_gt_0)
  then show ?thesis using False power_Suc [of "ucast n :: 64 word" "unat e - 1"] by (simp add: uint_power_def power_loop_eq)
qed (simp add: uint_power_def)

lemma align_down:
  fixes v :: "64 word"
  shows "unat (v AND NOT (mask k)) = unat v div 2 ^ k * 2 ^ k"
proof -
  have "v AND NOT (mask k) = push_bit k (drop_bit k v)"
    by (rule bit_word_eqI) (auto simp: bit_simps)
  also have "unat \<dots> = take_bit 64 (push_bit k (unat (drop_bit k v)))" by (simp add: unsigned_push_bit_eq)
  also have "\<dots> = push_bit k (unat (drop_bit k v))"
  proof (rule take_bit_nat_eq_self)
    have "unat v div 2 ^ k * 2 ^ k \<le> unat v" by simp
    also have "unat v < 2 ^ LENGTH(64)" by (rule unsigned_less)
    finally show "push_bit k (unat (drop_bit k v)) < 2 ^ 64" by (simp add: unat_drop push_bit_eq_mult)
  qed
  finally show ?thesis by (simp add: unat_drop push_bit_eq_mult)
qed

lemma round_mask: "word_of_int (2 ^ k) - 1 = (mask k :: 64 word)"
  by (simp add: mask_eq_exp_minus_1)

lemma roundDown_ok: "unat (roundDown v (2 ^ k)) = unat v div 2 ^ k * 2 ^ k"
  by (simp add: roundDown_def round_mask align_down Let_def del: of_int_power)

text \<open>\<open>roundUp\<close> gives the least multiple above, when the sum does not wrap around.\<close>

lemma roundUp_ok:
  assumes "unat v + 2 ^ k \<le> 2 ^ 64"
  shows "unat (roundUp v (2 ^ k)) = (unat v + 2 ^ k - 1) div 2 ^ k * 2 ^ k"
proof -
  have k: "k \<le> 64"
  proof (rule ccontr)
    assume "\<not> k \<le> 64"
    then have "(2 :: nat) ^ 65 \<le> 2 ^ k" by (intro power_increasing) simp_all
    then show False using assms by simp
  qed
  have "(2 :: nat) ^ k \<le> 2 ^ 64" using k by (intro power_increasing) simp_all
  then have "take_bit 64 (2 ^ k - 1) = (2 :: nat) ^ k - 1" by (intro take_bit_nat_eq_self) simp
  then have "unat (of_nat (2 ^ k - 1) :: 64 word) = 2 ^ k - 1" unfolding unsigned_of_nat by simp
  moreover have "(mask k :: 64 word) = of_nat (2 ^ k - 1)" by (simp add: mask_eq_exp_minus_1)
  ultimately have m: "unat (mask k :: 64 word) = 2 ^ k - 1" by (metis)
  have "unat v + (2 ^ k - 1) < 2 ^ LENGTH(64)" using assms by simp
  then have "unat (v + mask k) = unat v + (2 ^ k - 1)" using iffD1 [OF unat_add_lem, of v "mask k"] m by simp
  then show ?thesis by (simp add: roundUp_def round_mask align_down Let_def del: of_int_power)
qed

lemma isPowerOf2_iff: "isPowerOf2 n \<longleftrightarrow> (\<exists>k < 64. n = 2 ^ k)"
proof
  assume p: "isPowerOf2 n"
  then have n: "n \<noteq> 0" "n AND NOT (n - 1) = n" by (simp_all add: isPowerOf2_def leastSigBit_def)
  obtain y where y: "0 \<le> y" "y < 64" "2 ^ nat y \<le> unat n" "unat n < 2 ^ nat (y + 1)" using floorLog2_ok [OF n(1)] by blast
  have high: "bit x (nat y)" if "2 ^ nat y \<le> unat x" "unat x < 2 ^ nat (y + 1)" for x :: "64 word"
  proof -
    have "unat x div 2 ^ nat y = 1" using that y(1) by (intro div_nat_eqI) (simp_all add: nat_add_distrib mult.commute)
    then have "bit (unat x) (nat y)" by (simp add: bit_iff_odd)
    then show ?thesis by (simp add: bit_unsigned_iff)
  qed
  have "unat n = 2 ^ nat y"
  proof (rule ccontr)
    assume "unat n \<noteq> 2 ^ nat y"
    then have "2 ^ nat y \<le> unat (n - 1)" "unat (n - 1) < 2 ^ nat (y + 1)" using y(3,4) n(1) by (simp_all add: unat_minus_one)
    then have "bit (n - 1) (nat y)" by (rule high)
    then have "\<not> bit (n AND NOT (n - 1)) (nat y)" by (simp add: bit_simps)
    then show False using high [OF y(3,4)] n(2) by simp
  qed
  then have "of_nat (unat n) = (2 ^ nat y :: 64 word)" by simp
  then have "n = 2 ^ nat y" by simp
  then show "\<exists>k < 64. n = 2 ^ k" using y(1,2) by (intro exI [of _ "nat y"]) simp
next
  assume "\<exists>k < 64. n = 2 ^ k"
  then obtain k where k: "k < 64" "n = 2 ^ k" by blast
  have "n AND NOT (n - 1) = n"
    unfolding k(2) mask_eq_exp_minus_1 [symmetric] by (rule bit_word_eqI) (auto simp: bit_simps)
  moreover have "n \<noteq> 0" using k by simp
  ultimately show "isPowerOf2 n" by (simp add: isPowerOf2_def leastSigBit_def)
qed

section \<open>Primes\<close>

lemma mod6_step:
  fixes i j :: int
  assumes "i \<le> j" "j mod 6 = i mod 6" "j \<noteq> i"
  shows "i + 6 \<le> j"
proof -
  have "6 dvd j - i" using assms(2) by (simp add: mod_eq_dvd_iff)
  then obtain k where "j - i = 6 * k" by (rule dvdE)
  then show ?thesis using assms(1,3) by presburger
qed

lemma isPrime_loop_iff:
  assumes "0 < i"
  shows "isPrime_loop n i \<longleftrightarrow> (\<forall>j \<ge> i. j mod 6 = i mod 6 \<and> j * j \<le> n \<longrightarrow> \<not> j dvd n \<and> \<not> j + 2 dvd n)"
  using assms
proof (induction n i rule: isPrime_loop.induct)
  case (1 n i)
  show ?case
  proof (cases "i * i \<le> n")
    case False
    have "\<not> j * j \<le> n" if "i \<le> j" for j using False mult_mono [OF that that] that \<open>0 < i\<close> by linarith
    then show ?thesis using False by (subst isPrime_loop.simps) auto
  next
    case True
    have "i \<le> j \<and> j mod 6 = i mod 6 \<longleftrightarrow> j = i \<or> i + 6 \<le> j \<and> j mod 6 = (i + 6) mod 6" for j :: int
      using mod6_step [of i j] by auto
    then have split: "(\<forall>j. i \<le> j \<and> j mod 6 = i mod 6 \<longrightarrow> R j) \<longleftrightarrow> R i \<and> (\<forall>j. i + 6 \<le> j \<and> j mod 6 = (i + 6) mod 6 \<longrightarrow> R j)" for R :: "int \<Rightarrow> bool"
      by metis
    show ?thesis
    proof (cases "i dvd n \<or> i + 2 dvd n")
      case div: True
      then have "\<not> isPrime_loop n i" using True \<open>0 < i\<close> by (subst isPrime_loop.simps) (simp add: dvd_eq_mod_eq_0)
      then show ?thesis using div True by blast
    next
      case nodiv: False
      then have "isPrime_loop n i = isPrime_loop n (i + 6)"
        using True \<open>0 < i\<close> by (subst isPrime_loop.simps) (simp add: dvd_eq_mod_eq_0)
      also have "\<dots> \<longleftrightarrow> (\<forall>j \<ge> i + 6. j mod 6 = (i + 6) mod 6 \<and> j * j \<le> n \<longrightarrow> \<not> j dvd n \<and> \<not> j + 2 dvd n)"
        using True nodiv \<open>0 < i\<close> by (intro "1.IH") (simp_all add: dvd_eq_mod_eq_0)
      also have "\<dots> \<longleftrightarrow> (\<forall>j \<ge> i. j mod 6 = i mod 6 \<and> j * j \<le> n \<longrightarrow> \<not> j dvd n \<and> \<not> j + 2 dvd n)"
        using split [of "\<lambda>j. j * j \<le> n \<longrightarrow> \<not> j dvd n \<and> \<not> j + 2 dvd n"] nodiv by (simp add: imp_conjL)
      finally show ?thesis .
    qed
  qed
qed

text \<open>The test is right for the numbers \<open>prevPrime\<close> means to ask it about: neither even nor multiples of three.\<close>

lemma isPrime_iff:
  assumes n: "3 < n" "\<not> 2 dvd n" "\<not> 3 dvd n"
  shows "isPrime n \<longleftrightarrow> (\<forall>d. 1 < d \<and> d < n \<longrightarrow> \<not> d dvd n)"
proof -
  have "isPrime n \<longleftrightarrow> (\<forall>j \<ge> 5. j mod 6 = 5 \<and> j * j \<le> n \<longrightarrow> \<not> j dvd n \<and> \<not> j + 2 dvd n)"
    using n by (auto simp: isPrime_def isPrime_loop_iff)
  also have "\<dots> \<longleftrightarrow> (\<forall>d. 1 < d \<and> d < n \<longrightarrow> \<not> d dvd n)"
  proof (intro iffI allI impI)
    fix d assume L: "\<forall>j \<ge> 5. j mod 6 = 5 \<and> j * j \<le> n \<longrightarrow> \<not> j dvd n \<and> \<not> j + 2 dvd n" and d: "1 < d \<and> d < n"
    show "\<not> d dvd n"
    proof
      assume "d dvd n"
      then obtain k where k: "n = d * k" by (auto elim: dvdE)
      have "1 < k" using d n(1) k by (smt (verit) mult_less_cancel_left1 mult_cancel_left1 zero_less_mult_iff)
      define e where "e = min d k"
      have e: "1 < e" "e dvd n" using d \<open>1 < k\<close> k by (auto simp: e_def min_def)
      have "e * e \<le> n" using d \<open>1 < k\<close> k by (auto simp: e_def min_def intro: mult_left_mono mult_right_mono)
      have m: "\<not> 2 dvd e" "\<not> 3 dvd e" using e(2) n(2,3) dvd_trans by blast+
      then have "e mod 6 = 5 \<or> e mod 6 = 1" "5 \<le> e" using e(1) by presburger+
      moreover have "(e - 2) * (e - 2) \<le> e * e" using \<open>5 \<le> e\<close> by (intro mult_mono) simp_all
      moreover have "e mod 6 = 1 \<Longrightarrow> 7 \<le> e \<and> (e - 2) mod 6 = 5" using \<open>5 \<le> e\<close> by presburger
      ultimately show False using L [rule_format, of e] L [rule_format, of "e - 2"] e(2) \<open>e * e \<le> n\<close> by auto
    qed
  next
    fix j assume P: "\<forall>d. 1 < d \<and> d < n \<longrightarrow> \<not> d dvd n" and j: "5 \<le> j" "j mod 6 = 5 \<and> j * j \<le> n"
    have "j * 5 \<le> j * j" using j(1) by (intro mult_left_mono) simp_all
    then have "j < n" "j + 2 < n" using j by linarith+
    then show "\<not> j dvd n \<and> \<not> j + 2 dvd n" using P j(1) by simp
  qed
  finally show ?thesis .
qed

text \<open>
  \<open>prevPrime\<close> starts at a number that is neither even nor a multiple of three but steps the wrong way round, so from
  \<open>5 mod 6\<close> it goes to a multiple of three, which the test cannot tell from a prime.
\<close>

lemma prevPrime_not_prime: "prevPrime 35 = 33" "(3 :: int) dvd 33"
  by (simp_all add: prevPrime_def prevPrime_loop.simps isPrime_def isPrime_loop.simps)

end
