(* ===== verification/Simple_Memory.thy ===== *)
theory Simple_Memory
  imports Memory_Access Int_Math
begin

text \<open>
  \<open>SimpleMemory\<close> (\<open>src/gem5-stable/src/mem/simple_mem.cc\<close> and \<open>simple_mem.hh\<close>): the timing of the memory. Requests are accepted,
  refused or kept waiting; epochs end with a migration, after which \<open>freeze\<close> starts a checkpoint that \<open>unfreeze\<close> drains bank
  by bank; responses leave through a queue. The time \<open>now\<close> is an argument. An event is the time it is scheduled for, if it
  is. What the port's peer does is an argument too: whether it takes a response, and which requests it sends meanwhile.
  \<open>sendRetry\<close>, always the last statement of a function, is part of the result. Doubles are rationals.
\<close>

section \<open>Events\<close>

type_synonym Event = "Tick option"

definition ev_schedule :: "Tick \<Rightarrow> Tick \<Rightarrow> Event \<Rightarrow> Event option" where
  "ev_schedule now t ev = do {
     cassert (now \<le> t);
     cassert (ev = None);
     Some (Some t) }"

definition ev_reschedule :: "Tick \<Rightarrow> Tick \<Rightarrow> bool \<Rightarrow> Event \<Rightarrow> Event option" where
  "ev_reschedule now t always ev = do {
     cassert (now \<le> t);
     cassert (always \<or> ev \<noteq> None);
     Some (Some t) }"

text \<open>A double becomes a \<open>Tick\<close>; out of range the conversion is undefined.\<close>

definition Tick_of_double :: "rat \<Rightarrow> Tick option" where
  "Tick_of_double r = (if 0 \<le> r \<and> r < 2 ^ 64 then Some (word_of_int \<lfloor>r\<rfloor>) else None)"

section \<open>State\<close>

record TimingParams =
  tp_store :: SimpleMemoryParams
  tp_latency_var :: Tick
  tp_bandwidth :: rat
  tp_lat_att_operate :: Tick
  tp_isz :: nat

record DeferredPacket =
  df_tick :: Tick
  df_pkt :: Packet

record SimpleMemory =
  sm_mem :: AbstractMemory
  sm_isBusy :: bool
  sm_retryReq :: bool
  sm_retryResp :: bool
  sm_packetQueue :: "DeferredPacket list"
  sm_waitStart :: Tick
  sm_ckptStart :: Tick
  sm_ckptBlocks :: "Addr list"
  sm_releaseEvent :: Event
  sm_freezeEvent :: Event
  sm_unfreezeEvent :: Event
  sm_dequeueEvent :: Event
  sm_pendingDelete :: "Packet list"
  sm_drainManager :: bool
  sm_extraRespLatency :: int
  sm_totalCkptTime :: int
  sm_totalWaitTime :: int
  sm_numDirtyNVMBlocks :: int
  sm_numDirtyNVMPages :: int
  sm_numDirtyDRAMPages :: int
  sm_numPagesToDRAM :: int
  sm_numPagesToNVM :: int

definition wbBandwidth :: "TimingParams \<Rightarrow> rat" where
  "wbBandwidth tp = rat_of_int (uint (par_latency (tp_store tp))) / 64"

abbreviation sm_ctrl :: "SimpleMemory \<Rightarrow> HostStore ATC" where
  "sm_ctrl s \<equiv> am_ctrl (sm_mem s)"

definition sm_banks :: "SimpleMemory \<Rightarrow> DRAMBanks" where
  "sm_banks s = hs_banks (atc_mem (sm_ctrl s))"

definition set_ctrl :: "HostStore ATC \<Rightarrow> SimpleMemory \<Rightarrow> SimpleMemory" where
  "set_ctrl c s = s\<lparr>sm_mem := (sm_mem s)\<lparr>am_ctrl := c\<rparr>\<rparr>"

definition set_banks :: "DRAMBanks \<Rightarrow> SimpleMemory \<Rightarrow> SimpleMemory" where
  "set_banks db s = set_ctrl ((sm_ctrl s)\<lparr>atc_mem := (atc_mem (sm_ctrl s))\<lparr>hs_banks := db\<rparr>\<rparr>) s"

definition SimpleMemory_init ::
  "TimingParams \<Rightarrow> 64 word \<Rightarrow> AddrRange \<Rightarrow> 64 word \<Rightarrow> int \<Rightarrow> nat \<Rightarrow> nat \<Rightarrow> (nat \<Rightarrow> ATTEntry) \<Rightarrow> HostStore \<Rightarrow> SimpleMemory option" where
  "SimpleMemory_init tp page_bytes rng dram_size att_len block_bits page_bits raw st = do {
     m \<leftarrow> AbstractMemory_init page_bytes rng dram_size att_len block_bits page_bits raw st;
     k \<leftarrow> ceilLog2 (hostSize (am_ctrl m));
     let s = \<lparr>sm_mem = m\<lparr>am_profBase := pf_set_op_latency (tp_lat_att_operate tp) (am_profBase m)\<rparr>,
       sm_isBusy = False, sm_retryReq = False, sm_retryResp = False, sm_packetQueue = [], sm_waitStart = 0, sm_ckptStart = 0,
       sm_ckptBlocks = [], sm_releaseEvent = None, sm_freezeEvent = None, sm_unfreezeEvent = None, sm_dequeueEvent = None,
       sm_pendingDelete = [], sm_drainManager = False, sm_extraRespLatency = 0, sm_totalCkptTime = 0, sm_totalWaitTime = 0,
       sm_numDirtyNVMBlocks = 0, sm_numDirtyNVMPages = 0, sm_numDirtyDRAMPages = 0, sm_numPagesToDRAM = 0, sm_numPagesToNVM = 0\<rparr>;
     Some (set_banks (DDR3Banks (push_bit (nat k) 1)) s) }"

section \<open>Waiting and checkpoint times\<close>

definition isWait :: "SimpleMemory \<Rightarrow> bool" where
  "isWait s \<longleftrightarrow> sm_waitStart s \<noteq> 0"

definition setWait :: "Tick \<Rightarrow> SimpleMemory \<Rightarrow> SimpleMemory" where
  "setWait now s = (if sm_waitStart s = 0 then s\<lparr>sm_waitStart := now\<rparr> else s)"

definition clearWait :: "Tick \<Rightarrow> SimpleMemory \<Rightarrow> SimpleMemory option" where
  "clearWait now s = do {
     cassert (isWait s);
     Some (s\<lparr>sm_totalWaitTime := sm_totalWaitTime s + uint (now - sm_waitStart s), sm_waitStart := 0\<rparr>) }"

definition setCkptStart :: "Tick \<Rightarrow> SimpleMemory \<Rightarrow> SimpleMemory option" where
  "setCkptStart t s = do {
     cassert (sm_ckptStart s = 0);
     Some (s\<lparr>sm_ckptStart := t\<rparr>) }"

definition getCkptTime :: "Tick \<Rightarrow> SimpleMemory \<Rightarrow> (Tick \<times> SimpleMemory) option" where
  "getCkptTime now s = do {
     cassert (sm_ckptStart s > 0);
     Some (now - sm_ckptStart s, s\<lparr>sm_ckptStart := 0\<rparr>) }"

text \<open>\<open>rnd\<close> is what the generator returns.\<close>

definition getLatency :: "TimingParams \<Rightarrow> Tick \<Rightarrow> Tick" where
  "getLatency tp rnd = par_latency (tp_store tp) + (if tp_latency_var tp \<noteq> 0 then rnd else 0)"

section \<open>Requests\<close>

definition sm_recvAtomic :: "TimingParams \<Rightarrow> Tick \<Rightarrow> Packet \<Rightarrow> SimpleMemory \<Rightarrow> (Tick \<times> Packet \<times> SimpleMemory) option" where
  "sm_recvAtomic tp rnd pkt s = do {
     (pkt, null, m) \<leftarrow> am_access (tp_isz tp) (tp_store tp) pkt (Profiler_init 0 0) (sm_mem s);
     Some (if memInhibitAsserted pkt then 0 else getLatency tp rnd, pkt, s\<lparr>sm_mem := m\<rparr>) }"

text \<open>The functional packet is checked against every queued packet in turn.\<close>

primrec check_queue :: "(nat \<Rightarrow> byte) \<Rightarrow> DeferredPacket list \<Rightarrow> Packet \<Rightarrow> (DeferredPacket list \<times> Packet) option" where
  "check_queue raw [] pkt = Some ([], pkt)"
| "check_queue raw (d # ds) pkt = do {
     (found, other, pkt) \<leftarrow> checkFunctional_packet raw (df_pkt d) pkt;
     (ds, pkt) \<leftarrow> check_queue raw ds pkt;
     Some (d\<lparr>df_pkt := other\<rparr> # ds, pkt) }"

definition sm_recvFunctional ::
  "(nat \<Rightarrow> byte) \<Rightarrow> (nat \<Rightarrow> bool) \<Rightarrow> TimingParams \<Rightarrow> Packet \<Rightarrow> SimpleMemory \<Rightarrow> (Packet \<times> SimpleMemory) option" where
  "sm_recvFunctional raw isPrintReqState tp pkt s = do {
     (pkt, m) \<leftarrow> functionalAccess isPrintReqState (tp_store tp) pkt (sm_mem s);
     (q, pkt) \<leftarrow> check_queue raw (sm_packetQueue s) pkt;
     Some (pkt, s\<lparr>sm_mem := m, sm_packetQueue := q\<rparr>) }"

text \<open>The end of an epoch: pages migrate and the memory is busy until the tables are written back.\<close>

definition add_bus :: "Profiler \<Rightarrow> SimpleMemory \<Rightarrow> SimpleMemory" where
  "add_bus pf s = s\<lparr>sm_mem := (sm_mem s)\<lparr>
     am_bytesChannel := am_bytesChannel (sm_mem s) + uint (pf_SumBusUtil False pf),
     am_bytesInterChannel := am_bytesInterChannel (sm_mem s) + uint (pf_SumBusUtil True pf)\<rparr>\<rparr>"

definition add_ck :: "64 word \<Rightarrow> SimpleMemory \<Rightarrow> SimpleMemory" where
  "add_ck n s = s\<lparr>sm_mem := (sm_mem s)\<lparr>am_ckBusUtil := am_ckBusUtil (sm_mem s) + n\<rparr>\<rparr>"

definition table_area :: "HostStore ATC \<Rightarrow> 64 word" where
  "table_area c = word_of_int (int32 (att_length (atc_att c) * 8)) + word_of_int (int32 (mc_ptt_length (atc_mc c) * 8))"

definition sm_new_epoch :: "TimingParams \<Rightarrow> Tick \<Rightarrow> SimpleMemory \<Rightarrow> SimpleMemory option" where
  "sm_new_epoch tp now s = do {
     cassert (sm_ckptBlocks s = []);
     let pf = Profiler_copy (am_profBase (sm_mem s));
     (bl, pf, c) \<leftarrow> atc_MigratePages (SimpleMemory_store (tp_store tp) (sm_ctrl s)) 0.33 0.67 (sm_ckptBlocks s) pf (sm_ctrl s);
     let s = add_bus pf (set_ctrl c (s\<lparr>sm_ckptBlocks := bl\<rparr>));
     duration \<leftarrow> Tick_of_double (rat_of_int (uint (table_area c)) * wbBandwidth tp);
     lat \<leftarrow> pf_SumLatency pf;
     let duration = duration + lat;
     let s = s\<lparr>sm_totalWaitTime := sm_totalWaitTime s + uint duration\<rparr>;
     s \<leftarrow> setCkptStart now s;
     ev \<leftarrow> ev_schedule now (now + duration) (sm_freezeEvent s);
     Some (s\<lparr>sm_freezeEvent := ev, sm_isBusy := True, sm_retryReq := True\<rparr>) }"

text \<open>The memory takes the request: how long it is busy, the access, and the response.\<close>

definition sm_hold :: "TimingParams \<Rightarrow> Tick \<Rightarrow> Packet \<Rightarrow> SimpleMemory \<Rightarrow> SimpleMemory option" where
  "sm_hold tp now pkt s =
     (if cmd_isRead (pk_cmd pkt) \<or> cmd_isWrite (pk_cmd pkt) then do {
        sz \<leftarrow> getSize pkt;
        duration \<leftarrow> Tick_of_double (rat_of_int (uint sz) * tp_bandwidth tp);
        if duration \<noteq> 0 then do {
          ev \<leftarrow> ev_schedule now (now + duration) (sm_releaseEvent s);
          Some (s\<lparr>sm_releaseEvent := ev, sm_isBusy := True\<rparr>) }
        else Some s }
      else Some s)"

definition sm_respond :: "TimingParams \<Rightarrow> Tick \<Rightarrow> Tick \<Rightarrow> Packet \<Rightarrow> Profiler \<Rightarrow> SimpleMemory \<Rightarrow> SimpleMemory option" where
  "sm_respond tp rnd now pkt pf s = do {
     cassert (cmd_isResponse (pk_cmd pkt));
     lat \<leftarrow> pf_SumLatency pf;
     let s = s\<lparr>sm_extraRespLatency := sm_extraRespLatency s + (uint lat - uint (getLatency tp rnd)),
               sm_packetQueue := sm_packetQueue s @ [\<lparr>df_tick = now + lat, df_pkt = pkt\<rparr>]\<rparr>;
     if \<not> sm_retryResp s \<and> sm_dequeueEvent s = None then do {
       ev \<leftarrow> ev_schedule now (df_tick (last (sm_packetQueue s))) (sm_dequeueEvent s);
       Some (s\<lparr>sm_dequeueEvent := ev\<rparr>) }
     else Some s }"

definition sm_serve :: "TimingParams \<Rightarrow> Tick \<Rightarrow> Tick \<Rightarrow> Packet \<Rightarrow> SimpleMemory \<Rightarrow> SimpleMemory option" where
  "sm_serve tp rnd now pkt s = do {
     let pkt = pkt\<lparr>busFirstWordDelay := 0, busLastWordDelay := 0\<rparr>;
     s \<leftarrow> sm_hold tp now pkt s;
     let needsResponse = cmd_needsResponse (pk_cmd pkt);
     (pkt, pf, m) \<leftarrow> am_access (tp_isz tp) (tp_store tp) pkt (Profiler_copy (am_profBase (sm_mem s))) (sm_mem s);
     let s = add_ck (pf_SumBusUtil False pf) (add_bus pf (s\<lparr>sm_mem := m\<rparr>));
     if needsResponse then sm_respond tp rnd now pkt pf s
     else Some (s\<lparr>sm_pendingDelete := sm_pendingDelete s @ [pkt]\<rparr>) }"

definition sm_recvTimingReq :: "TimingParams \<Rightarrow> Tick \<Rightarrow> Tick \<Rightarrow> Packet \<Rightarrow> SimpleMemory \<Rightarrow> (bool \<times> SimpleMemory) option" where
  "sm_recvTimingReq tp rnd now pkt s = do {
     let s = s\<lparr>sm_pendingDelete := []\<rparr>;
     if memInhibitAsserted pkt then Some (True, s\<lparr>sm_pendingDelete := [pkt]\<rparr>)
     else if sm_retryReq s then Some (False, s)
     else if sm_isBusy s then Some (False, s\<lparr>sm_retryReq := True\<rparr>)
     else do {
       ctrl \<leftarrow> (if pk_cmd pkt \<noteq> SwapReq \<and> cmd_isWrite (pk_cmd pkt) then do {
                  a \<leftarrow> getAddr pkt;
                  atc_Probe a (sm_ctrl s) }
                else Some REG_WRITE);
       (case ctrl of
          NEW_EPOCH \<Rightarrow> do { s \<leftarrow> sm_new_epoch tp now s; Some (False, s) }
        | WAIT_CKPT \<Rightarrow> Some (False, setWait now s)
        | REG_WRITE \<Rightarrow> do { s \<leftarrow> sm_serve tp rnd now pkt s; Some (True, s) }) } }"

section \<open>Events of the memory\<close>

text \<open>The retry that is due, if any, as the last statement of an event.\<close>

definition sm_send_retry :: "SimpleMemory \<Rightarrow> bool \<times> SimpleMemory" where
  "sm_send_retry s = (if sm_retryReq s then (True, s\<lparr>sm_retryReq := False\<rparr>) else (False, s))"

definition sm_release :: "SimpleMemory \<Rightarrow> (bool \<times> SimpleMemory) option" where
  "sm_release s = do {
     cassert (sm_isBusy s);
     Some (sm_send_retry (s\<lparr>sm_isBusy := False\<rparr>)) }"

text \<open>The blocks of the checkpoint go to their banks, the last one first.\<close>

primrec push_writes :: "Addr list \<Rightarrow> DRAMBanks \<Rightarrow> DRAMBanks option" where
  "push_writes [] db = Some db"
| "push_writes (a # as) db = do { db \<leftarrow> db_PushWrite a db; push_writes as db }"

text \<open>A round of writes: the banks that are free start one, and the event is scheduled for the next bank that gets free.\<close>

definition sm_round :: "TimingParams \<Rightarrow> Tick \<Rightarrow> SimpleMemory \<Rightarrow> (Tick \<times> SimpleMemory) option" where
  "sm_round tp now s = do {
     (b, flushed, db) \<leftarrow> db_Access_time now (sm_banks s);
     let s = add_ck (word_of_int (int32 (att_block_size (atc_att (sm_ctrl s)) * flushed))) s;
     db \<leftarrow> db_mark_busy (now + par_latency (tp_store tp)) b db;
     let s = set_banks db s;
     let nxt = db_NextTime now db;
     cassert (nxt = 0 \<or> nxt - now = par_latency (tp_store tp));
     Some (nxt, s) }"

definition sm_finish :: "TimingParams \<Rightarrow> SimpleMemory \<Rightarrow> SimpleMemory option" where
  "sm_finish tp s = do {
     c \<leftarrow> atc_FinishCheckpointing (SimpleMemory_store (tp_store tp) (sm_ctrl s)) (Profiler_init 0 0) (sm_ctrl s);
     Some (set_ctrl c s) }"

definition sm_counts :: "HostStore ATC \<Rightarrow> bool" where
  "sm_counts c \<longleftrightarrow>
     numNVMWrites (atc_mem c) = uint (mc_total_nvm_writes (atc_mc c)) \<and>
     numDRAMWrites (atc_mem c) = uint (mc_total_dram_writes (atc_mc c)) \<and>
     numNVMWrites (atc_mem c) + numDRAMWrites (atc_mem c) =
       numATTWriteHits (atc_mem c) + numATTWriteMisses (atc_mem c) + ckDRAMWriteHits (atc_mem c)"

definition sm_freeze :: "TimingParams \<Rightarrow> Tick \<Rightarrow> SimpleMemory \<Rightarrow> (bool \<times> SimpleMemory) option" where
  "sm_freeze tp now s = do {
     cassert (sm_isBusy s);
     let s = s\<lparr>sm_isBusy := False\<rparr>;
     cassert (sm_counts (sm_ctrl s));
     let mc = atc_mc (sm_ctrl s);
     let s = s\<lparr>sm_numDirtyNVMBlocks := uint (mc_dirty_nvm_blocks mc), sm_numDirtyNVMPages := uint (mc_dirty_nvm_pages mc),
               sm_numDirtyDRAMPages := uint (mc_dirty_dram_pages mc), sm_numPagesToDRAM := uint (atc_pages_to_dram (sm_ctrl s)),
               sm_numPagesToNVM := uint (atc_pages_to_nvm (sm_ctrl s))\<rparr>;
     let pf = Profiler_copy (am_profBase (sm_mem s));
     (bl, pf, c) \<leftarrow> atc_BeginCheckpointing (SimpleMemory_store (tp_store tp) (sm_ctrl s)) (sm_ckptBlocks s) pf (sm_ctrl s);
     let s = add_bus pf (set_ctrl c s);
     db \<leftarrow> push_writes (rev bl) (sm_banks s);
     let s = set_banks db (s\<lparr>sm_ckptBlocks := []\<rparr>);
     (nxt, s) \<leftarrow> sm_round tp now s;
     s \<leftarrow> (if nxt \<noteq> 0 then do {
             ev \<leftarrow> ev_schedule now nxt (sm_unfreezeEvent s);
             Some (s\<lparr>sm_unfreezeEvent := ev\<rparr>) }
           else sm_finish tp s);
     Some (sm_send_retry s) }"

definition sm_unfreeze :: "TimingParams \<Rightarrow> Tick \<Rightarrow> SimpleMemory \<Rightarrow> (bool \<times> SimpleMemory) option" where
  "sm_unfreeze tp now s = do {
     (nxt, s) \<leftarrow> sm_round tp now s;
     if nxt \<noteq> 0 then do {
       ev \<leftarrow> ev_schedule now nxt (sm_unfreezeEvent s);
       Some (False, s\<lparr>sm_unfreezeEvent := ev\<rparr>) }
     else do {
       s \<leftarrow> sm_finish tp s;
       cassert (uint (am_ckBusUtil (sm_mem s)) = am_bytesChannel (sm_mem s));
       (t, s) \<leftarrow> getCkptTime now s;
       let s = s\<lparr>sm_totalCkptTime := sm_totalCkptTime s + uint t\<rparr>;
       if isWait s then do { s \<leftarrow> clearWait now s; Some (True, s) }
       else Some (False, s) } }"

text \<open>
  A response is offered to the peer, which may send requests before it answers (\<open>reqs\<close>, each with the random latency of
  its response) and takes the response or not.
\<close>

primrec recv_all :: "TimingParams \<Rightarrow> Tick \<Rightarrow> (Tick \<times> Packet) list \<Rightarrow> SimpleMemory \<Rightarrow> SimpleMemory option" where
  "recv_all tp now [] s = Some s"
| "recv_all tp now (r # rs) s = do {
     (accepted, s) \<leftarrow> sm_recvTimingReq tp (fst r) now (snd r) s;
     recv_all tp now rs s }"

definition sm_dequeue :: "TimingParams \<Rightarrow> Tick \<Rightarrow> (Tick \<times> Packet) list \<Rightarrow> bool \<Rightarrow> SimpleMemory \<Rightarrow> (Packet \<times> SimpleMemory) option" where
  "sm_dequeue tp now reqs takes s = do {
     cassert (sm_packetQueue s \<noteq> []);
     let pkt = df_pkt (hd (sm_packetQueue s));
     s \<leftarrow> recv_all tp now reqs s;
     let s = s\<lparr>sm_retryResp := \<not> takes\<rparr>;
     s \<leftarrow> (if takes then do {
             let s = s\<lparr>sm_packetQueue := tl (sm_packetQueue s)\<rparr>;
             if sm_packetQueue s \<noteq> [] then do {
               ev \<leftarrow> ev_reschedule now (max (df_tick (hd (sm_packetQueue s))) now) True (sm_dequeueEvent s);
               Some (s\<lparr>sm_dequeueEvent := ev\<rparr>) }
             else Some (s\<lparr>sm_drainManager := False\<rparr>) }
           else Some s);
     Some (pkt, s) }"

definition sm_recvRetry :: "TimingParams \<Rightarrow> Tick \<Rightarrow> (Tick \<times> Packet) list \<Rightarrow> bool \<Rightarrow> SimpleMemory \<Rightarrow> (Packet \<times> SimpleMemory) option" where
  "sm_recvRetry tp now reqs takes s = do {
     cassert (sm_retryResp s);
     sm_dequeue tp now reqs takes s }"

definition sm_drain :: "SimpleMemory \<Rightarrow> nat \<times> SimpleMemory" where
  "sm_drain s = (if sm_packetQueue s \<noteq> [] then (1, s\<lparr>sm_drainManager := True\<rparr>) else (0, s))"

end
