(* ===== verification/Sample.thy ===== *)
theory Sample
  imports Memory_Run
begin

text \<open>
  A small memory on which the theorems of the development are applied: four pages of 4096 bytes, two of which fit into
  DRAM, blocks of 64 bytes, a translation table of four entries.
\<close>

definition sample_params :: SimpleMemoryParams where
  "sample_params = \<lparr>par_latency = 40000, par_latency_miss = 80000, par_lat_nvm_read = 128000, par_lat_nvm_write = 368000\<rparr>"

definition sample_host :: HostStore where
  "sample_host = \<lparr>host = (\<lambda>_. 0), hs_banks = DDR3Banks 0x40000, numEpochs = 0, numATTWriteHits = 0, numATTWriteMisses = 0,
     numNVMWrites = 0, numDRAMWrites = 0, ckDRAMWriteHits = 0, regCaches = 0, readRowHits = 0, writeRowHits = 0,
     readRowMisses = 0, writeRowMisses = 0\<rparr>"

definition sample_raw :: "nat \<Rightarrow> ATTEntry" where
  "sample_raw k = \<lparr>phy_tag = 0, mach_base = 0, queue_node = IndexNode_init, att_state = CLEAN, epoch_reads = 0, epoch_writes = 0\<rparr>"

definition sample_state :: "HostStore ATC" where
  "sample_state = the (AddrTransController_init 0x4000 0x2000 4 6 12 sample_raw sample_host)"

lemma sample_config: "atc_config 0x4000 0x2000 4 6 12" "raw_idle 4 sample_raw"
  by (simp_all add: atc_config_def aligned_uint raw_idle_def sample_raw_def att_active_def drop_bit_eq_div uint_div_distrib)

lemma sample_facts:
  "AddrTransController_init 0x4000 0x2000 4 6 12 sample_raw sample_host = Some sample_state"
  "atc_inv sample_state" "atc_stats sample_state" "\<not> atc_ckpt sample_state" "atc_map sample_state = (\<lambda>_. None)"
  "atc_mem sample_state = sample_host" "atc_phy_range sample_state = 0x4000" "atc_bits sample_state = 6"
  "att_length (atc_att sample_state) = 4" "mc_page_bits (atc_mc sample_state) = 12" "mc_ptt_capacity (atc_mc sample_state) = 2"
  "atc_Size sample_state = 0x4300"
proof -
  obtain s where s: "AddrTransController_init 0x4000 0x2000 4 6 12 sample_raw sample_host = Some s"
    "atc_inv s" "atc_stats s" "\<not> atc_ckpt s" "atc_map s = (\<lambda>_. None)" "atc_mem s = sample_host" "atc_phy_range s = 0x4000" "atc_bits s = 6"
    "att_length (atc_att s) = 4" "mc_page_bits (atc_mc s) = 12" "mc_ptt_capacity (atc_mc s) = uint (drop_bit 12 (0x2000 :: 64 word)) + uint (drop_bit 12 (0x2000 :: 64 word)) div 16"
    "uint (atc_Size s) = uint (0x4000 :: 64 word) + 3 * 4 * 2 ^ 6"
    using AddrTransController_init_ok [OF sample_config, of sample_host] by blast
  have e: "sample_state = s" by (simp add: sample_state_def s(1))
  show "AddrTransController_init 0x4000 0x2000 4 6 12 sample_raw sample_host = Some sample_state"
    "atc_inv sample_state" "atc_stats sample_state" "\<not> atc_ckpt sample_state" "atc_map sample_state = (\<lambda>_. None)"
    "atc_mem sample_state = sample_host" "atc_phy_range sample_state = 0x4000" "atc_bits sample_state = 6"
    "att_length (atc_att sample_state) = 4" "mc_page_bits (atc_mc sample_state) = 12"
    unfolding e by (fact s)+
  show "mc_ptt_capacity (atc_mc sample_state) = 2" unfolding e s(11) by (simp add: drop_bit_eq_div uint_div_distrib)
  have "uint (atc_Size s) = uint (0x4300 :: 64 word)" using s(12) by simp
  then show "atc_Size sample_state = 0x4300" unfolding e by (simp only: word_uint_eq_iff)
qed

lemma sample_inv: "mem_inv sample_params sample_state" "run_inv sample_params (RUN, sample_state)"
proof -
  note b = DDR3Banks_ok(1-3) [of "0x40000"]
  have db: "db_ok (hs_banks sample_host)" "db_row_buffer_size (hs_banks sample_host) = 8192" using b(1,3) by (simp_all add: sample_host_def)
  have base: "GetVirtRegionBase sample_state (hs_banks sample_host) = 0x6000"
    by (simp add: GetVirtRegionBase_def db(2) sample_facts)
  have "mc_geometry (atc_mc sample_state)" by (rule atc_geoD(5) [OF atc_invD(1) [OF sample_facts(2)]])
  then have "virt_ok sample_state (hs_banks sample_host)"
    unfolding virt_ok_def base by (simp add: sample_facts aligned_uint)
  moreover have "0 < int32 (sint (par_latency sample_params))" "0 < int32 (sint (par_latency_miss sample_params))"
    "0 < int32 (sint (par_lat_nvm_read sample_params))" "0 < int32 (sint (par_lat_nvm_write sample_params))"
    by (simp_all add: sample_params_def int32_def)
  ultimately show "mem_inv sample_params sample_state"
    using db(1) sample_facts by (simp add: mem_inv_def sim_ok_def)
  then show "run_inv sample_params (RUN, sample_state)" using sample_facts by (simp add: run_inv_def)
qed

lemma sample_block: "in_block sample_state 64 n \<longleftrightarrow> 0 < n \<and> n \<le> 64"
  by (simp add: in_block_def sample_facts mask_eq_exp_minus_1)

lemma sample_room: "store_room t sample_state" "\<not> loan_in_ckpt t sample_state"
  by (simp_all add: store_room_def loan_in_ckpt_def sample_facts)

text \<open>A run through a whole epoch: bytes are stored, pages migrate, a checkpoint is taken and finished, the bytes are loaded.\<close>

lemma sample_run:
  "\<exists>bs s. mem_run sample_params (RUN, sample_state) [Write 64 [1, 2, 3], Internal, Internal, Internal, Read 64 bs] (RUN, s) \<and> length bs = 3"
proof -
  obtain s1 where w: "mem_run sample_params (RUN, sample_state) [Write 64 [1, 2, 3]] (RUN, s1)"
    using store_run [OF sample_inv(2) _ _ sample_room, of 64 "[1, 2, 3]"] by (auto simp: sample_block)
  obtain s2 where e: "mem_run sample_params (RUN, s1) [Internal, Internal, Internal] (RUN, s2)"
    using epoch_run [OF run_inv_run [OF w sample_inv(2)]] by blast
  have we: "mem_run sample_params (RUN, sample_state) ([Write 64 [1, 2, 3]] @ [Internal, Internal, Internal]) (RUN, s2)"
    by (rule mem_run_append [OF e w])
  have ag: "agrees (logical sample_state) (snd (RUN, sample_state))" by (simp add: agrees_def)
  have r: "run_inv sample_params (RUN, s2)" "geometry_of s2 = geometry_of sample_state" using run_refines [OF we sample_inv(2) ag] by simp_all
  have "in_block s2 64 3" using sample_block [of 3] geometry_fields [OF r(2)] by (simp add: in_block_def)
  then obtain bs s3 where l: "mem_run sample_params (RUN, s2) [Read 64 bs] (RUN, s3)" "length bs = 3" using load_run [OF r(1)] by blast
  show ?thesis using mem_run_append [OF l(1) we] l(2) by auto
qed

end
