(* ===== verification/Sample_Memory.thy ===== *)
theory Sample_Memory
  imports Simple_Memory Sample
begin

text \<open>
  Requests, packets and a memory built on the small controller of \<open>Sample\<close>, on which the theorems about accesses and
  about the timing of the memory are applied.
\<close>

definition sample_request :: Request where
  "sample_request = \<lparr>rq_paddr = 64, rq_size = 64, rq_masterId = 0, rq_flags = 0,
     rq_private = VALID_PADDR OR RQ_VALID_SIZE OR VALID_CONTEXT_ID OR VALID_THREAD_ID, rq_time = 0, rq_asid = 0, rq_vaddr = 0,
     rq_extraData = 0, rq_contextId = 1, rq_threadId = 0, rq_pc = 0\<rparr>"

definition sample_packet :: "MemCmd \<Rightarrow> Packet" where
  "sample_packet c = \<lparr>pk_flags = VALID_ADDR OR VALID_SIZE OR STATIC_DATA, pk_cmd = c, pk_req = sample_request,
     pk_data = Some (replicate 64 7), pk_addr = 64, pk_size = 64, pk_src = 0, pk_dest = 0, pk_origCmd = InvalidCmd,
     bytesValidStart = 0, bytesValidEnd = 0, busFirstWordDelay = 0, busLastWordDelay = 0, senderState = []\<rparr>"

definition sample_memory :: AbstractMemory where
  "sample_memory = \<lparr>am_range = AddrRange_of 0 0x3fff, am_profBase = Profiler_init 6 12, am_ctrl = sample_state, am_pmem = True,
     am_locked = [], am_bytesRead = (\<lambda>_. 0), am_bytesInstRead = (\<lambda>_. 0), am_bytesWritten = (\<lambda>_. 0), am_numReads = (\<lambda>_. 0),
     am_numWrites = (\<lambda>_. 0), am_numOther = (\<lambda>_. 0), am_bytesChannel = 0, am_bytesInterChannel = 0, am_ckBusUtil = 0\<rparr>"

lemma sample_packet_fields:
  "getAddr (sample_packet c) = Some 64" "getSize (sample_packet c) = Some 64" "getPtr (sample_packet c) = Some (replicate 64 7)"
  "pk_cmd (sample_packet c) = c" "\<not> memInhibitAsserted (sample_packet c)" "pk_req (sample_packet c) = sample_request"
  "bytesValidStart (sample_packet c) = 0" "bytesValidEnd (sample_packet c) = 0" "readable (sample_packet c) 64"
  by (simp_all add: sample_packet_def getAddr_def getSize_def getPtr_def memInhibitAsserted_def readable_def packet_flags isSet_numeral)

lemma sample_request_fields:
  "getPaddr sample_request = Some 64" "contextId sample_request = Some 1" "\<not> isInstFetch sample_request"
  by (simp_all add: sample_request_def getPaddr_def contextId_def isInstFetch_def request_flags isSet_numeral)

lemma sample_packet_in: "packet_in sample_memory 64 64 (sample_packet c)"
  by (simp add: packet_in_def sample_packet_fields sample_memory_def sample_block)

lemma sample_memory_ok: "am_ok sample_memory" "am_ctrl sample_memory = sample_state" "am_locked sample_memory = []"
  by (simp_all add: am_ok_def sample_memory_def sample_facts one_each_def)

lemma sample_block_size: "int 64 = att_block_size (atc_att sample_state)"
  using sample_facts(8) by (simp add: att_block_size_def int32_id)

lemma sample_access: "am_access 8 sample_params (sample_packet WriteReq) (Profiler_init 6 12) sample_memory \<noteq> None"
proof -
  have r: "run_inv sample_params (RUN, am_ctrl sample_memory)" using sample_inv(2) by (simp add: sample_memory_ok)
  have pf: "\<not> ignore_latency (Profiler_init 6 12)" by (simp add: Profiler_init_def)
  have sz: "int 64 = att_block_size (atc_att (am_ctrl sample_memory))" using sample_block_size by (simp add: sample_memory_ok)
  have c: "cmd_isWrite (pk_cmd (sample_packet WriteReq))" "\<not> cmd_isRead (pk_cmd (sample_packet WriteReq))"
    by (simp_all add: sample_packet_fields cmd_defs)
  from access_write_aborts_iff [OF r _ sample_memory_ok(1) sample_packet_in pf sz c, of 64 1 8] show ?thesis
    using sample_room by (simp add: sample_packet_fields sample_request_fields sample_memory_ok)
qed

end
