(* ===== verification/Checkpoint_Drain.thy ===== *)
theory Checkpoint_Drain
  imports Dram_Banks
begin

text \<open>
  How the banks drain a checkpoint. A round starts one write in every bank that has one queued; the next round happens when
  these writes are done. The number of rounds is the length of the longest queue, and every write is counted once, when it
  is done.
\<close>

section \<open>A round when all banks are free\<close>

definition all_free :: "64 word \<Rightarrow> DRAMBanks \<Rightarrow> bool" where
  "all_free t db \<longleftrightarrow> (\<forall>ij \<in> set (db_indices db). busy_time (bank_of db ij) \<le> t)"

text \<open>The banks that finish a write at the given time.\<close>

definition finishing :: "64 word \<Rightarrow> DRAMBanks \<Rightarrow> nat" where
  "finishing t db = length (filter (\<lambda>ij. busy_time (bank_of db ij) = t) (db_indices db))"

definition longest_queue :: "DRAMBanks \<Rightarrow> nat" where
  "longest_queue db = fold max (map (\<lambda>ij. length (write_queue (bank_of db ij))) (db_indices db)) 0"

lemma fold_max_le: "fold max xs (a :: nat) \<le> n \<longleftrightarrow> a \<le> n \<and> (\<forall>x \<in> set xs. x \<le> n)"
  by (induction xs arbitrary: a) auto

lemma fold_max_in: "fold max xs (a :: nat) \<in> insert a (set xs)"
  by (induction xs arbitrary: a) (auto simp: max_def)

lemma longest_queue_le: "longest_queue db \<le> n \<longleftrightarrow> (\<forall>ij \<in> set (db_indices db). length (write_queue (bank_of db ij)) \<le> n)"
  by (simp add: longest_queue_def fold_max_le)

lemma longest_queue_0: "longest_queue db = 0 \<longleftrightarrow> db_pending db = 0"
  using longest_queue_le [of db 0] by (auto simp: db_pending_def)

lemma bank_of_round:
  assumes "db_indices db' = db_indices db" "\<And>i j. db_get i j db' = map_option (bank_round t t') (db_get i j db)"
    "ij \<in> set (db_indices db)"
  shows "bank_of db' ij = bank_round t t' (bank_of db ij)"
proof -
  have "db_get (fst ij) (snd ij) db' = Some (bank_round t t' (bank_of db ij))"
    by (simp only: assms(2) bank_of_get [OF assms(3)] option.map)
  then show ?thesis by (simp add: bank_of_def [of db'])
qed

lemma longest_round:
  assumes f: "all_free t db" and d: "db_indices db' = db_indices db" and g: "\<And>i j. db_get i j db' = map_option (bank_round t t') (db_get i j db)"
  shows "longest_queue db' = longest_queue db - 1"
proof -
  have l: "length (write_queue (bank_of db' ij)) = length (write_queue (bank_of db ij)) - 1" if "ij \<in> set (db_indices db)" for ij
    using f that unfolding bank_of_round [OF d g that] by (auto simp: all_free_def bank_round_def bank_step_def bank_due_def)
  have "longest_queue db' \<le> n \<longleftrightarrow> longest_queue db - 1 \<le> n" for n
  proof -
    have "longest_queue db' \<le> n \<longleftrightarrow> (\<forall>ij \<in> set (db_indices db). length (write_queue (bank_of db ij)) \<le> n + 1)"
      using l by (auto simp: longest_queue_le d)
    also have "\<dots> \<longleftrightarrow> longest_queue db \<le> n + 1" by (simp add: longest_queue_le)
    finally show ?thesis by arith
  qed
  then show ?thesis by (metis order_antisym order_refl)
qed

lemma round_due:
  assumes f: "all_free t db" and d: "db_indices db' = db_indices db" and g: "\<And>i j. db_get i j db' = map_option (bank_round t t') (db_get i j db)"
    and t: "t < t'"
  shows "db_pending db = db_pending db' + finishing t' db'"
    and "all_free t' db'" and "finishing t' db' = 0 \<Longrightarrow> all_free t db'" and "0 < finishing t' db' \<longleftrightarrow> db_pending db \<noteq> 0"
proof -
  have b: "busy_time (bank_of db' ij) = t' \<longleftrightarrow> bank_due t (bank_of db ij)" "busy_time (bank_of db' ij) \<noteq> t' \<Longrightarrow> busy_time (bank_of db' ij) \<le> t"
    "bank_due t (bank_of db ij) \<longleftrightarrow> write_queue (bank_of db ij) \<noteq> []"
    if "ij \<in> set (db_indices db)" for ij
    using f t that unfolding bank_of_round [OF d g that] by (auto simp: all_free_def bank_round_def bank_due_def)
  have e: "finishing t' db' = length (filter (\<lambda>ij. bank_due t (bank_of db ij)) (db_indices db))"
    unfolding finishing_def d using b(1) by (metis (mono_tags, lifting) filter_cong)
  then show "db_pending db = db_pending db' + finishing t' db'" using pending_round [OF d g] by simp
  show "all_free t' db'" unfolding all_free_def d using b(2) t by (metis order_less_imp_le order_trans order_refl)
  show "all_free t db'" if "finishing t' db' = 0"
    using that b(2) by (auto simp: all_free_def finishing_def d filter_empty_conv)
  show "0 < finishing t' db' \<longleftrightarrow> db_pending db \<noteq> 0"
    unfolding e db_pending_def using b(3) by (auto simp: filter_empty_conv)
qed

text \<open>The geometry of the banks never changes.\<close>

lemma mark_config: "db_mark_busy t ret db = Some db' \<Longrightarrow> db_row_buffer_size db' = db_row_buffer_size db"
  by (induction ret arbitrary: db) (auto simp: db_set_busy_time_def db_set_def split: Option.bind_splits)

lemma flush_config: "db_flush_loop t ijs st = Some st' \<Longrightarrow> db_row_buffer_size (snd (snd st')) = db_row_buffer_size (snd (snd st))"
  by (induction ijs arbitrary: st)
    (auto simp: db_flush_bank_def db_Access_at_def db_set_def Let_def split: Option.bind_splits if_splits prod.splits)

lemma access_config: "db_Access_time t db = Some (ret, n, db') \<Longrightarrow> db_row_buffer_size db' = db_row_buffer_size db"
  using flush_config [of t _ "([], 0, db)"] by (fastforce simp: db_Access_time_def)

text \<open>The round as a whole, with the time the next one is due.\<close>

lemma drain_round:
  assumes ok: "db_ok db" and f: "all_free now db" and lat: "lat \<noteq> 0" "unat now + unat lat < 2 ^ 64 - 1"
  shows "\<exists>ret db1 db'. db_Access_time now db = Some (ret, int (finishing now db), db1) \<and> db_mark_busy (now + lat) ret db1 = Some db' \<and>
    db_ok db' \<and> db_indices db' = db_indices db \<and> db_row_buffer_size db' = db_row_buffer_size db \<and> all_free (now + lat) db' \<and> longest_queue db' = longest_queue db - 1 \<and>
    db_pending db = db_pending db' + finishing (now + lat) db' \<and>
    db_NextTime now db' = (if db_pending db = 0 then 0 else now + lat) \<and> (db_pending db = 0 \<longrightarrow> all_free now db')"
proof -
  obtain ret db1 db' where r: "db_Access_time now db = Some (ret, int (finishing now db), db1)" "db_mark_busy (now + lat) ret db1 = Some db'"
    "db_ok db'" "db_indices db' = db_indices db" "\<And>i j. db_get i j db' = map_option (bank_round now (now + lat)) (db_get i j db)"
    using round_ok [OF ok, of now "now + lat"] unfolding finishing_def by auto
  have s: "unat (now + lat) = unat now + unat lat" using lat(2) by (simp add: unat_add_lem [THEN iffD1])
  have l: "now < now + lat" using lat s by (simp add: word_less_nat_alt unat_gt_0)
  note d = round_due [OF f r(4,5) l]
  have m: "now + lat \<noteq> - 1"
  proof
    assume "now + lat = - 1"
    then have "unat now + unat lat = 2 ^ 64 - 1" using s by (simp add: unsigned_minus_1_eq_mask mask_eq_exp_minus_1)
    then show False using lat(2) by simp
  qed
  have mem: "db_get i j db' = Some b \<longleftrightarrow> (i, j) \<in> set (db_indices db') \<and> bank_of db' (i, j) = b" for i j b
    using set_db_indices [of i j db'] by (auto simp: bank_of_def db_get_def)
  have bt: "busy_time b \<le> now + lat" if "db_get i j db' = Some b" for i j b
    using that d(2) by (auto simp: mem all_free_def)
  have "now + lat < - 1" using m by (simp add: order_less_le)
  then have "busy_time b \<noteq> - 1" if "db_get i j db' = Some b" for i j b using bt [OF that] by auto
  then have n: "db_NextTime now db' = 0 \<and> (\<forall>i j b. db_get i j db' = Some b \<longrightarrow> busy_time b \<le> now) \<or>
    (\<exists>i j b. db_get i j db' = Some b \<and> busy_time b = db_NextTime now db' \<and> now < busy_time b \<and>
       (\<forall>i j b. db_get i j db' = Some b \<and> now < busy_time b \<longrightarrow> db_NextTime now db' \<le> busy_time b))"
    using NextTime_ok [of db' now] by blast
  have due: "busy_time b = now + lat \<or> busy_time b \<le> now" if dg: "db_get i j db' = Some b" for i j b
  proof -
    obtain b0 where "db_get i j db = Some b0" "b = bank_round now (now + lat) b0" using dg r(5) [of i j] by auto
    moreover have "busy_time b0 \<le> now" if "db_get i j db = Some b0" for b0
      using f that set_db_indices [of i j db] by (auto simp: all_free_def bank_of_def db_get_def split: if_splits)
    ultimately show ?thesis by (auto simp: bank_round_def)
  qed
  have ex: "(\<exists>i j b. db_get i j db' = Some b \<and> busy_time b = now + lat) \<longleftrightarrow> db_pending db \<noteq> 0"
    using d(4) by (auto simp: finishing_def mem filter_empty_conv)
  have next_eq: "db_NextTime now db' = (if db_pending db = 0 then 0 else now + lat)"
    using n ex due l by (metis not_less)
  have rb: "db_row_buffer_size db' = db_row_buffer_size db" using mark_config [OF r(2)] access_config [OF r(1)] by simp
  show ?thesis
    using r(1-4) rb d(1,2) longest_round [OF f r(4,5)] next_eq d(3,4) by (intro exI [of _ ret] exI [of _ db1] exI [of _ db']) auto
qed

section \<open>What accesses leave alone\<close>

text \<open>The banks without their open rows: what an access that is no checkpoint write leaves alone.\<close>

definition rows_closed :: "DRAMBanks \<Rightarrow> DRAMBanks" where
  "rows_closed db = db\<lparr>db_banks := map (map (\<lambda>b. b\<lparr>open_row := 0\<rparr>)) (db_banks db)\<rparr>"

lemma closed_indices [simp]: "db_indices (rows_closed db) = db_indices db"
  unfolding db_indices_def by (intro arg_cong [where f = concat] map_cong) (simp_all add: rows_closed_def)

lemma closed_in [simp]: "db_in i j (rows_closed db) = db_in i j db"
  using set_db_indices [of i j "rows_closed db"] set_db_indices [of i j db] by simp

lemma closed_bank: "ij \<in> set (db_indices db) \<Longrightarrow> bank_of (rows_closed db) ij = (bank_of db ij)\<lparr>open_row := 0\<rparr>"
  using set_db_indices [of "fst ij" "snd ij" db]
  by (cases ij) (simp add: bank_of_def db_get_def, simp add: rows_closed_def db_in_def)

lemma closed_views:
  "db_pending (rows_closed db) = db_pending db" "all_free t (rows_closed db) = all_free t db" "finishing t (rows_closed db) = finishing t db"
  "longest_queue (rows_closed db) = longest_queue db" "db_row_buffer_size (rows_closed db) = db_row_buffer_size db"
proof -
  have q: "map (\<lambda>ij. length (write_queue (bank_of (rows_closed db) ij))) (db_indices db) = map (\<lambda>ij. length (write_queue (bank_of db ij))) (db_indices db)"
    by (intro map_cong refl) (simp add: closed_bank)
  have f: "filter (\<lambda>ij. busy_time (bank_of (rows_closed db) ij) = t) (db_indices db) = filter (\<lambda>ij. busy_time (bank_of db ij) = t) (db_indices db)"
    by (intro filter_cong refl) (simp add: closed_bank)
  show "db_pending (rows_closed db) = db_pending db" "longest_queue (rows_closed db) = longest_queue db"
    using q by (simp_all only: db_pending_def longest_queue_def closed_indices)
  show "finishing t (rows_closed db) = finishing t db" using f by (simp only: finishing_def closed_indices)
  show "all_free t (rows_closed db) = all_free t db" by (simp add: all_free_def closed_bank)
  show "db_row_buffer_size (rows_closed db) = db_row_buffer_size db" by (simp add: rows_closed_def)
qed

lemma closed_cong:
  assumes "rows_closed db' = rows_closed db"
  shows "db_pending db' = db_pending db" "all_free t db' = all_free t db" "finishing t db' = finishing t db"
    "longest_queue db' = longest_queue db" "db_row_buffer_size db' = db_row_buffer_size db" "db_indices db' = db_indices db"
  using closed_views [where db = db'] closed_views [where db = db] closed_indices [of db] closed_indices [of db'] by (metis assms)+

lemma update_map_same: "j < length ys \<Longrightarrow> (map g ys)[j := g (ys ! j)] = map g ys"
  by (metis list_update_id nth_map)

lemma Access_closed:
  assumes "db_Access a db = Some (ij, h, db')"
  shows "rows_closed db' = rows_closed db"
proof -
  obtain x :: BankAddress and b where b: "db_get (rank_ID x) (bank_ID x) db = Some b" "db' = db_set (rank_ID x) (bank_ID x) (snd (Bank_Access (row_ID x) b)) db"
    using assms unfolding db_Access_def db_Access_at_def Option.bind_eq_Some_conv split_beta Let_def option.inject prod.inject by metis
  have "(snd (Bank_Access (row_ID x) b))\<lparr>open_row := 0\<rparr> = b\<lparr>open_row := 0\<rparr>" by (simp add: Bank_Access_def)
  moreover have "db_in (rank_ID x) (bank_ID x) db" "b = db_banks db ! nat (rank_ID x) ! nat (bank_ID x)" using b(1) by (simp_all add: db_get_def split: if_splits)
  ultimately show ?thesis unfolding b(2) by (simp add: rows_closed_def db_set_def db_in_def map_update update_map_same)
qed

end
