(* ===== verification/Controller_Frames.thy ===== *)
theory Controller_Frames
  imports Host_Memory Checkpoint_Drain
begin

text \<open>
  What the operations of the controller leave alone, whatever state they start from: the write counts of the table entries,
  the page table, the counters of the store. These frames carry the accounting of writes and of bus traffic. A lemma
  here is about a call that returns; that the calls return is shown elsewhere.
\<close>


section \<open>The table\<close>

definition att_frame :: "AddrTransTable \<Rightarrow> AddrTransTable \<Rightarrow> bool" where
  "att_frame att att' \<longleftrightarrow> att_block_bits att' = att_block_bits att \<and> att_length att' = att_length att \<and>
     map epoch_writes (att_entries att') = map epoch_writes (att_entries att)"

lemma att_frame_refl [simp]: "att_frame att att"
  by (simp add: att_frame_def)

lemma att_frame_trans [trans]: "att_frame a b \<Longrightarrow> att_frame b c \<Longrightarrow> att_frame a c"
  by (simp add: att_frame_def)

lemma map_list_update_same: "(i < length xs \<Longrightarrow> f y = f (xs ! i)) \<Longrightarrow> map f (xs[i := y]) = map f xs"
  by (cases "i < length xs") (auto intro!: nth_equalityI simp: nth_list_update)

lemma arr_set_writes [simp]: "map epoch_writes (arr_set att_array es i n) = map epoch_writes es"
  unfolding att_array_def by (simp add: map_list_update_same del: map_update)

lemma iq_writes:
  "iq_Remove att_array i es q = Some (es', q') \<Longrightarrow> map epoch_writes es' = map epoch_writes es"
  "iq_PushBack att_array i es q = Some (es', q') \<Longrightarrow> map epoch_writes es' = map epoch_writes es"
  "iq_PopFront att_array es q = Some (j, es', q') \<Longrightarrow> map epoch_writes es' = map epoch_writes es"
proof -
  show r: "map epoch_writes es' = map epoch_writes es" if "iq_Remove att_array i es q = Some (es', q')" for i es q es' q'
    using that by (auto simp: iq_Remove_def Let_def split: Option.bind_splits if_splits)
  show "map epoch_writes es' = map epoch_writes es" if "iq_PushBack att_array i es q = Some (es', q')"
    using that by (auto simp: iq_PushBack_def Let_def split: Option.bind_splits if_splits)
  show "map epoch_writes es' = map epoch_writes es" if "iq_PopFront att_array es q = Some (j, es', q')"
    using that r by (auto simp: iq_PopFront_def Let_def split: Option.bind_splits if_splits)
qed

lemma PutQueue_frame: "map epoch_writes es = map epoch_writes (att_entries att) \<Longrightarrow> att_frame att (att_PutQueue st es q att)"
  by (simp add: att_frame_def att_PutQueue_def)

lemma att_update_frame:
  "att_update i f att = Some att' \<Longrightarrow> (\<And>e. epoch_writes (f e) = epoch_writes e) \<Longrightarrow> att_frame att att'"
  by (auto simp: att_update_def att_frame_def att_entry_def map_list_update_same simp del: map_update split: Option.bind_splits if_splits)

lemma att_queue_frame:
  "att_Remove st i att = Some att' \<Longrightarrow> att_frame att att'"
  "att_PushBack st i att = Some att' \<Longrightarrow> att_frame att att'"
  by (auto simp: att_Remove_def att_PushBack_def intro!: PutQueue_frame dest: iq_writes split: Option.bind_splits)

lemma att_Lookup_frame:
  assumes "att_Lookup t pf att = Some (i, pf', att')"
  shows "att_frame att att' \<and> pf' = pf_AddTableOp pf"
proof (cases "att_tag_index att t")
  case (Some j)
  then obtain e :: ATTEntry and a where "att_Remove (att_state e) j att = Some a" "att_PushBack (att_state e) j a = Some att'" "pf' = pf_AddTableOp pf"
    using assms by (auto simp: att_Lookup_def split: Option.bind_splits)
  then show ?thesis using att_queue_frame att_frame_trans by metis
qed (use assms in \<open>simp add: att_Lookup_def\<close>)

lemma att_ShiftState_frame:
  assumes "att_ShiftState i st pf att = Some (pf', att')"
  shows "att_frame att att' \<and> pf' = pf_AddTableOp pf"
proof -
  define a0 where "a0 e = (if st = FREE then att\<lparr>att_tag_index := (att_tag_index att)(phy_tag e := None)\<rparr> else att)" for e :: ATTEntry
  have "att_frame att (a0 e)" for e by (simp add: a0_def att_frame_def)
  moreover obtain e :: ATTEntry and a1 a2 where "att_Remove (att_state e) i (a0 e) = Some a1" "att_PushBack st i a1 = Some a2"
      "att_update i (\<lambda>e. e\<lparr>att_state := st\<rparr>) a2 = Some att'" "pf' = pf_AddTableOp pf"
    using assms by (auto simp: att_ShiftState_def a0_def Let_def split: Option.bind_splits)
  ultimately show ?thesis using att_queue_frame att_frame_trans att_update_frame [of i _ a2 att'] by (metis (no_types, lifting) ATTEntry.select_convs(6) ATTEntry.surjective ATTEntry.update_convs(4))
qed

lemma att_Reset_frame:
  assumes "att_Reset i a st pf att = Some (pf', att')"
  shows "att_frame att att' \<and> pf' = pf_AddTableOp pf"
proof -
  obtain a1 where a: "att_update i (\<lambda>e. e\<lparr>mach_base := a\<rparr>) att = Some a1" "att_ShiftState i st pf a1 = Some (pf', att')"
    using assms by (auto simp: att_Reset_def split: Option.bind_splits)
  have "att_frame att a1" using att_update_frame [OF a(1)] by simp
  then show ?thesis using att_ShiftState_frame [OF a(2)] att_frame_trans by blast
qed

lemma att_Setup_frame:
  assumes "att_Setup t a st pf att = Some (i, pf', att')"
  shows "att_frame att att' \<and> pf' = pf_AddTableOp pf"
proof -
  obtain es q a1 a2 where s: "iq_PopFront att_array (att_entries att) (att_GetQueue FREE att) = Some (i, es, q)"
      "att_PushBack st i (att_PutQueue FREE es q att) = Some a1"
      "att_update i (\<lambda>e. e\<lparr>att_state := st, phy_tag := t, mach_base := a\<rparr>) a1 = Some a2"
      "att' = a2\<lparr>att_tag_index := (att_tag_index a2)(t \<mapsto> i)\<rparr>" "pf' = pf_AddTableOp pf"
    using assms by (auto simp: att_Setup_def Let_def split: Option.bind_splits)
  have "att_frame att (att_PutQueue FREE es q att)" using iq_writes(3) [OF s(1)] by (rule PutQueue_frame)
  then have "att_frame att a1" using att_queue_frame(2) [OF s(2)] att_frame_trans by blast
  then have "att_frame att a2" using att_update_frame [OF s(3)] att_frame_trans by fastforce
  then show ?thesis using s(4,5) by (simp add: att_frame_def)
qed

lemma att_AddBlockRead_frame: "att_AddBlockRead i att = Some att' \<Longrightarrow> att_frame att att'"
  unfolding att_AddBlockRead_def by (erule att_update_frame) simp

lemma sum_list_update_add: "i < length xs \<Longrightarrow> sum_list (xs[i := xs ! i + c]) = sum_list xs + (c :: int)"
  by (induction xs arbitrary: i) (auto split: nat.splits)

lemma att_AddBlockWrite_sum:
  assumes "att_AddBlockWrite i att = Some att'"
  shows "sum_list (map epoch_writes (att_entries att')) = sum_list (map epoch_writes (att_entries att)) + 1"
    "att_block_bits att' = att_block_bits att"
proof -
  have i: "nat i < length (att_entries att)" and e: "att' = att\<lparr>att_entries := (att_entries att)[nat i := (att_entries att ! nat i)\<lparr>epoch_writes := epoch_writes (att_entries att ! nat i) + 1\<rparr>]\<rparr>"
    using assms by (auto simp: att_AddBlockWrite_def att_update_def att_entry_def split: Option.bind_splits if_splits)
  show "sum_list (map epoch_writes (att_entries att')) = sum_list (map epoch_writes (att_entries att)) + 1"
    using i sum_list_update_add [of "nat i" "map epoch_writes (att_entries att)" 1] by (simp add: e map_update)
  show "att_block_bits att' = att_block_bits att" by (simp add: e)
qed

lemma vb_frames:
  "vb_SlotAlloc pf vb = Some (a, pf', vb') \<Longrightarrow> pf' = pf_AddBufferOp pf"
  "vb_FreeSlot a st pf vb = Some (pf', vb') \<Longrightarrow> pf' = pf_AddBufferOp pf"
  "vb_SlotBackup a st pf vb = Some (pf', vb') \<Longrightarrow> pf' = pf_AddBufferOp pf"
  by (auto simp: vb_SlotAlloc_def vb_FreeSlot_def vb_SlotBackup_def Let_def split: Option.bind_splits)

section \<open>The controller over its store\<close>

definition counters :: "HostStore \<Rightarrow> int \<times> int \<times> int" where
  "counters m = (numNVMWrites m, numDRAMWrites m, numATTWriteHits m + numATTWriteMisses m + ckDRAMWriteHits m)"

definition quiet :: "HostStore ATC \<Rightarrow> HostStore ATC \<Rightarrow> bool" where
  "quiet s s' \<longleftrightarrow> att_frame (atc_att s) (atc_att s') \<and> atc_mc s' = atc_mc s \<and> atc_ckpt s' = atc_ckpt s \<and>
     counters (atc_mem s') = counters (atc_mem s) \<and> rows_closed (hs_banks (atc_mem s')) = rows_closed (hs_banks (atc_mem s))"

lemma quiet_refl [simp]: "quiet s s"
  by (simp add: quiet_def)

lemma quiet_trans [trans]: "quiet a b \<Longrightarrow> quiet b c \<Longrightarrow> quiet a c"
  by (auto simp: quiet_def intro: att_frame_trans)

lemma quiet_buffers [simp]: "quiet s (s\<lparr>atc_nvm := v\<rparr>)" "quiet s (s\<lparr>atc_dram := v\<rparr>)"
  "quiet s (s'\<lparr>atc_nvm := v\<rparr>) = quiet s s'" "quiet s (s'\<lparr>atc_dram := v\<rparr>) = quiet s s'"
  "quiet (s\<lparr>atc_nvm := v\<rparr>) s' = quiet s s'" "quiet (s\<lparr>atc_dram := v\<rparr>) s' = quiet s s'"
  by (simp_all add: quiet_def)

lemma quiet_att: "quiet s s' \<Longrightarrow> att_frame (atc_att s') att \<Longrightarrow> quiet s (s'\<lparr>atc_att := att\<rparr>)"
  by (auto simp: quiet_def intro: att_frame_trans)

lemma counters_upd [simp]:
  "counters (m\<lparr>host := h\<rparr>) = counters m" "counters (m\<lparr>hs_banks := b\<rparr>) = counters m" "counters (m\<lparr>readRowHits := n\<rparr>) = counters m"
  "counters (m\<lparr>writeRowHits := n\<rparr>) = counters m" "counters (m\<lparr>readRowMisses := n\<rparr>) = counters m" "counters (m\<lparr>writeRowMisses := n\<rparr>) = counters m"
  "counters (m\<lparr>numEpochs := n\<rparr>) = counters m"
  by (simp_all add: counters_def)

lemma copy_quiet:
  "atc_CopyBlockIntra (SimpleMemory_store p c) d a bl pf s = Some (bl', pf', s') \<Longrightarrow>
     quiet s s' \<and> pf' = pf_AddBlockMoveIntra 1 pf \<and> bl' = push_ckpt d bl"
  "atc_CopyBlockInter (SimpleMemory_store p c) d a bl pf s = Some (bl', pf', s') \<Longrightarrow>
     quiet s s' \<and> pf' = pf_AddBlockMoveInter 1 pf \<and> bl' = push_ckpt d bl"
  by (auto simp: atc_CopyBlockIntra_def atc_CopyBlockInter_def SimpleMemory_store_def am_MemCopy_def quiet_def split: Option.bind_splits)

lemma swap_quiet: "atc_SwapBlock (SimpleMemory_store p c) d a bl pf s = Some (bl', pf', s') \<Longrightarrow> quiet s s'"
  by (auto simp: atc_SwapBlock_def SimpleMemory_store_def am_MemSwap_def quiet_def Let_def split: Option.bind_splits)

lemma latency_quiet:
  "atc_ReadLatency (SimpleMemory_store p c) a dram page pf s = Some (pf', s') \<Longrightarrow> quiet s s'"
  "atc_WriteLatency (SimpleMemory_store p c) a dram page pf s = Some (pf', s') \<Longrightarrow> quiet s s'"
  by (auto simp: atc_ReadLatency_def atc_WriteLatency_def SimpleMemory_store_def sm_GetReadLatency_def sm_GetWriteLatency_def quiet_def Let_def
      split: Option.bind_splits if_splits; drule Access_closed; simp)+

section \<open>Entry transitions\<close>

lemmas call_frames = copy_quiet swap_quiet att_Setup_frame att_Reset_frame att_ShiftState_frame vb_frames

lemma Setup_quiet: "atc_Setup (SimpleMemory_store p c) a base st mv pf s = Some (i, pf', s') \<Longrightarrow> quiet s s'"
  by (cases mv) (auto simp: atc_Setup_def Let_def intro!: quiet_att dest!: call_frames split: Option.bind_splits)

lemma HideClean_quiet: "atc_HideClean (SimpleMemory_store p c) i mv pf s = Some (pf', s') \<Longrightarrow> quiet s s'"
  by (cases mv) (auto simp: atc_HideClean_def Let_def intro!: quiet_att dest!: call_frames split: Option.bind_splits)

lemma ResetClean_quiet: "atc_ResetClean (SimpleMemory_store p c) i mv pf s = Some (base, pf', s') \<Longrightarrow> quiet s s'"
  by (cases mv) (auto simp: atc_ResetClean_def Let_def intro!: quiet_att dest!: call_frames split: Option.bind_splits)

lemma FreeClean_quiet: "atc_FreeClean (SimpleMemory_store p c) i pf s = Some (pf', s') \<Longrightarrow> quiet s s'"
  by (cases "atc_ckpt s") (auto simp: atc_FreeClean_def Let_def intro!: quiet_att dest!: call_frames split: Option.bind_splits)

text \<open>The transitions that move a block for the checkpoint count one move and list one block.\<close>

lemma DirtyStained_quiet:
  assumes "atc_DirtyStained (SimpleMemory_store p c) i mv bl pf s = Some (base, bl', pf', s')"
  shows "quiet s s'"
    "mv \<Longrightarrow> bl' = push_ckpt base bl \<and> pf' = pf_AddBufferOp (pf_AddBlockMoveInter 1 (pf_AddBufferOp pf))"
  using assms
  by (cases mv; auto simp: atc_DirtyStained_def Let_def intro!: quiet_att dest!: call_frames split: Option.bind_splits)+

lemma FreeLoan_quiet:
  assumes "atc_FreeLoan (SimpleMemory_store p c) i mv bl pf s = Some (bl', pf', s')"
  shows "quiet s s'" "mv \<Longrightarrow> \<exists>a. bl' = push_ckpt a bl \<and> pf' = pf_AddBufferOp (pf_AddBlockMoveIntra 1 pf)"
  using assms
  by (cases mv; auto simp: atc_FreeLoan_def Let_def intro!: quiet_att dest!: call_frames split: Option.bind_splits)+

lemma HideTemp_quiet:
  assumes "atc_HideTemp (SimpleMemory_store p c) i mv bl pf s = Some (bl', pf', s')"
  shows "quiet s s'" "mv \<Longrightarrow> \<exists>a. bl' = push_ckpt a bl \<and> pf' = pf_AddBufferOp (pf_AddBlockMoveInter 1 pf)"
  using assms
  by (cases mv; auto simp: atc_HideTemp_def Let_def intro!: quiet_att dest!: call_frames split: Option.bind_splits)+

lemma Discard_quiet:
  assumes "atc_Discard i nvm pf s = Some (pf', s')"
  shows "quiet s s'" "pf' = pf_AddTableOp pf"
proof -
  obtain vb att where r: "att_ShiftState i FREE pf (atc_att s) = Some (pf', att)"
      "s' = (if nvm then s\<lparr>atc_nvm := vb\<rparr> else s\<lparr>atc_dram := vb\<rparr>)\<lparr>atc_att := att\<rparr>"
    using assms by (cases nvm) (auto simp: atc_Discard_def Let_def split: Option.bind_splits)
  show "quiet s s'" unfolding r(2) using att_ShiftState_frame [OF r(1)] by (intro quiet_att) simp_all
  show "pf' = pf_AddTableOp pf" using att_ShiftState_frame [OF r(1)] by simp
qed

section \<open>Visits\<close>

lemma Accept_from_keeps:
  assumes "iq_Accept_from rd visit num i s = Some (n, s')" "Q s" "\<And>i s s'. visit i s = Some s' \<Longrightarrow> Q s \<Longrightarrow> Q s'"
  shows "Q s'"
proof -
  have "\<forall>Q. Q s \<longrightarrow> (\<forall>i s s'. visit i s = Some s' \<longrightarrow> Q s \<longrightarrow> Q s') \<longrightarrow> Q s'"
    by (rule iq_Accept_from.raw_induct [OF _ assms(1), where P = "\<lambda>rd visit num i s r. \<forall>Q. Q s \<longrightarrow> (\<forall>i s s'. visit i s = Some s' \<longrightarrow> Q s \<longrightarrow> Q s') \<longrightarrow> Q (snd r)", simplified])
      (auto split: if_splits Option.bind_splits, metis)
  then show ?thesis using assms(2,3) by blast
qed

lemma VisitQueue_keeps:
  assumes "att_VisitQueue table st visit s = Some (n, s')" "Q s" "\<And>i s s'. visit i s = Some s' \<Longrightarrow> Q s \<Longrightarrow> Q s'"
  shows "Q s'"
proof -
  obtain rd where "iq_Accept_from rd visit 0 (iq_Front (att_GetQueue st (table s))) s = Some (n, s')"
    using assms(1) by (auto simp: att_VisitQueue_def iq_Accept_def split: Option.bind_splits)
  from Accept_from_keeps [where Q = Q, OF this assms(2,3)] show ?thesis by simp
qed

end
