(* ===== verification/Bus_Accounting.thy ===== *)
theory Bus_Accounting
  imports Controller_Frames
begin

text \<open>
  The bus traffic of a checkpoint. The controller counts in the profiler every block it moves when it migrates pages and
  begins a checkpoint, and lists the blocks the banks have to write; the two agree: the bytes counted are the blocks
  listed. This is what \<open>SimpleMemory::unfreeze\<close> asserts when the last block is written.
\<close>

section \<open>The account\<close>

definition page_geo :: "nat \<Rightarrow> nat \<Rightarrow> bool" where
  "page_geo b p \<longleftrightarrow> 0 < b \<and> b \<le> p \<and> p \<le> 30"

text \<open>The profiler has counted \<open>n\<close> blocks.\<close>

definition acct :: "nat \<Rightarrow> nat \<Rightarrow> int \<Rightarrow> Profiler \<Rightarrow> bool" where
  "acct b p n pf \<longleftrightarrow> pf_block_bits pf = b \<and> pf_page_bits pf = p \<and> pf_SumBusUtil False pf = word_of_int (n * 2 ^ b)"

lemma acct_ops [simp]:
  "acct b p n (pf_AddTableOp pf) = acct b p n pf" "acct b p n (pf_AddBufferOp pf) = acct b p n pf"
  "acct b p n (pf\<lparr>ignore_latency := i\<rparr>) = acct b p n pf" "acct b p n (pf\<lparr>latency := l\<rparr>) = acct b p n pf"
  by (simp_all add: acct_def pf_AddTableOp_def pf_AddBufferOp_def pf_SumBusUtil_def)

lemma acct_ignore:
  "pf_set_ignore_latency pf = Some pf' \<Longrightarrow> acct b p n pf' = acct b p n pf"
  "pf_clear_ignore_latency pf = Some pf' \<Longrightarrow> acct b p n pf' = acct b p n pf"
  by (auto simp: pf_set_ignore_latency_def pf_clear_ignore_latency_def split: Option.bind_splits)

lemma acct_block:
  assumes "page_geo b p" "acct b p n pf"
  shows "acct b p (n + 1) (pf_AddBlockMoveIntra 1 pf)" "acct b p (n + 1) (pf_AddBlockMoveInter 1 pf)"
proof -
  have "int32 (2 ^ b) = 2 ^ b" using assms(1) by (intro int32_pow2) (simp add: page_geo_def)
  then show "acct b p (n + 1) (pf_AddBlockMoveIntra 1 pf)" "acct b p (n + 1) (pf_AddBlockMoveInter 1 pf)"
    using assms(2) by (auto simp: acct_def pf_AddBlockMoveIntra_def pf_AddBlockMoveInter_def pf_SumBusUtil_def algebra_simps)
qed

abbreviation blocks_per_page :: "nat \<Rightarrow> nat \<Rightarrow> int" where
  "blocks_per_page b p \<equiv> 2 ^ (p - b)"

lemma SumBusUtil_pages:
  "pf_SumBusUtil False (pf_AddPageMoveIntra k pf) = pf_SumBusUtil False pf + word_of_int (int32 (k * 2 ^ pf_page_bits pf))"
  "pf_SumBusUtil False (pf_AddPageMoveInter k pf) = pf_SumBusUtil False pf + word_of_int (int32 (k * 2 ^ pf_page_bits pf))"
  by (simp_all add: pf_AddPageMoveIntra_def pf_AddPageMoveInter_def pf_SumBusUtil_def)

lemma acct_pages:
  assumes "page_geo b p" "acct b p n pf" "0 \<le> k" "k * 2 ^ p < 2 ^ 31"
  shows "acct b p (n + k * blocks_per_page b p) (pf_AddPageMoveIntra k pf)" "acct b p (n + k * blocks_per_page b p) (pf_AddPageMoveInter k pf)"
proof -
  have "0 \<le> k * 2 ^ p" using assms(3) by simp
  then have i: "int32 (k * 2 ^ p) = k * 2 ^ p" using assms(4) by (intro int32_id) simp_all
  have e: "(n + k * blocks_per_page b p) * 2 ^ b = n * 2 ^ b + k * 2 ^ p"
    using assms(1) by (simp add: page_geo_def algebra_simps flip: power_add)
  have f: "pf_block_bits pf = b" "pf_page_bits pf = p" "pf_SumBusUtil False pf = word_of_int (n * 2 ^ b)"
    using assms(2) by (simp_all add: acct_def)
  have "pf_block_bits (pf_AddPageMoveIntra k pf) = b" "pf_page_bits (pf_AddPageMoveIntra k pf) = p"
    "pf_block_bits (pf_AddPageMoveInter k pf) = b" "pf_page_bits (pf_AddPageMoveInter k pf) = p"
    using f by (simp_all add: pf_AddPageMoveIntra_def pf_AddPageMoveInter_def)
  then show "acct b p (n + k * blocks_per_page b p) (pf_AddPageMoveIntra k pf)" "acct b p (n + k * blocks_per_page b p) (pf_AddPageMoveInter k pf)"
    unfolding acct_def SumBusUtil_pages f(2,3) i e by (simp_all only: of_int_add)
qed

lemma acct_page:
  assumes "page_geo b p" "acct b p n pf"
  shows "acct b p (n + blocks_per_page b p) (pf_AddPageMoveIntra 1 pf)" "acct b p (n + blocks_per_page b p) (pf_AddPageMoveInter 1 pf)"
proof -
  have "(2 :: int) ^ p \<le> 2 ^ 30" using assms(1) by (intro power_increasing) (simp_all add: page_geo_def)
  then show "acct b p (n + blocks_per_page b p) (pf_AddPageMoveIntra 1 pf)" "acct b p (n + blocks_per_page b p) (pf_AddPageMoveInter 1 pf)"
    using acct_pages [OF assms, of 1] by simp_all
qed

section \<open>Lists of blocks\<close>

text \<open>The page table lists pages that fit into the address space.\<close>

definition pages_ok :: "nat \<Rightarrow> nat \<Rightarrow> MigrationController \<Rightarrow> bool" where
  "pages_ok b p mc \<longleftrightarrow> mc_block_bits mc = b \<and> mc_page_bits mc = p \<and>
     (\<forall>k e. mc_find k mc = Some e \<longrightarrow> pt_mach_base e = k \<and> unat k + 2 ^ p < 2 ^ 64)"

lemma AddToBlockList_aligned:
  assumes "mc_geometry mc" "mc_AddToBlockList k bl mc = Some bl'"
  shows "aligned (mc_page_bits mc) k"
  using assms by (simp add: mc_AddToBlockList_def mc_page_mask_eq aligned_def cassert_def split: if_splits)

lemma AddToBlockList_length:
  assumes "page_geo b p" "mc_block_bits mc = b" "mc_page_bits mc = p" "mc_AddToBlockList k bl mc = Some bl'" "unat k + 2 ^ p < 2 ^ 64"
  shows "int (length bl') = int (length bl) + blocks_per_page b p"
proof -
  have g: "mc_geometry mc" using assms(1-3) by (simp add: mc_geometry_def page_geo_def)
  have "mc_AddToBlockList k bl mc = Some (bl @ page_block_list mc k)"
    using mc_AddToBlockList_eq [OF g AddToBlockList_aligned [OF g assms(4)]] assms(3,5) by simp
  then show ?thesis using assms(2-4) by (simp add: page_block_list_def)
qed

text \<open>The assertion of \<open>MigrateNVM\<close> on the tags of a page implies that the page does not wrap around.\<close>

lemma page_no_wrap:
  assumes g: "page_geo b p" and d: "drop_bit b (k + 2 ^ p) - drop_bit b k = (2 :: Addr) ^ (p - b)"
  shows "unat k + 2 ^ p < 2 ^ 64"
proof (rule ccontr)
  assume w: "\<not> unat k + 2 ^ p < 2 ^ 64"
  have p: "0 < b" "b \<le> p" "p \<le> 30" using g by (simp_all add: page_geo_def)
  let ?t = "drop_bit b k" and ?n = "drop_bit b (k + 2 ^ p)"
  have ud: "unat (drop_bit b x) = unat x div 2 ^ b" for x :: Addr unfolding unat_drop_bit_eq by (simp add: drop_bit_eq_div)
  have "unat k < 2 ^ LENGTH(64)" by (rule unsigned_less)
  then have k: "unat k < 2 ^ 64" by simp
  have "(2 :: nat) ^ 1 \<le> 2 ^ b" using p(1) by (intro power_increasing) simp_all
  then have "unat k div 2 ^ b \<le> unat k div 2" by (intro div_le_mono2) simp_all
  then have t: "unat ?t < 2 ^ 63" using k unfolding ud by simp
  have "(2 :: nat) ^ (p - b) \<le> 2 ^ 30" using p by (intro power_increasing) simp_all
  then have s: "unat ?t + 2 ^ (p - b) < 2 ^ 64" using t by simp
  have n: "?n = ?t + of_nat (2 ^ (p - b))" using d by (simp add: algebra_simps)
  have "unat ?n = unat ?t + 2 ^ (p - b)" unfolding n by (rule unat_plus_of_nat [OF s])
  then have lt: "unat ?t < unat ?n" by simp
  have "(2 :: nat) ^ p \<le> 2 ^ 30" using p by (intro power_increasing) simp_all
  then have "unat (2 ^ p :: Addr) = 2 ^ p" using p by (intro unat_pow2) simp
  then have "unat (k + 2 ^ p) = (unat k + 2 ^ p) mod 2 ^ 64" by (simp add: unat_word_ariths)
  also have "\<dots> = unat k + 2 ^ p - 2 ^ 64" using w k \<open>(2 :: nat) ^ p \<le> 2 ^ 30\<close> by (simp add: mod_if)
  finally have "unat (k + 2 ^ p) \<le> unat k" using \<open>(2 :: nat) ^ p \<le> 2 ^ 30\<close> by simp
  then have "unat ?n \<le> unat ?t" unfolding ud by (rule div_le_mono)
  then show False using lt by simp
qed

section \<open>Visits\<close>

lemma checkpoint_moves:
  "atc_DirtyStained (SimpleMemory_store q c) i True bl pf s = Some (base, bl', pf', s') \<Longrightarrow>
     quiet s s' \<and> bl' = push_ckpt base bl \<and> pf' = pf_AddBufferOp (pf_AddBlockMoveInter 1 (pf_AddBufferOp pf))"
  "atc_HideTemp (SimpleMemory_store q c) i True bl pf s = Some (bl', pf', s') \<Longrightarrow>
     quiet s s' \<and> (\<exists>a. bl' = push_ckpt a bl \<and> pf' = pf_AddBufferOp (pf_AddBlockMoveInter 1 pf))"
  "atc_FreeLoan (SimpleMemory_store q c) i True bl pf s = Some (bl', pf', s') \<Longrightarrow>
     quiet s s' \<and> (\<exists>a. bl' = push_ckpt a bl \<and> pf' = pf_AddBufferOp (pf_AddBlockMoveIntra 1 pf))"
  using DirtyStained_quiet [of q c i True bl pf s base bl' pf' s'] HideTemp_quiet [of q c i True bl pf s bl' pf' s']
    FreeLoan_quiet [of q c i True bl pf s bl' pf' s'] by simp_all

lemma Discard_both: "atc_Discard i nvm pf s = Some (pf', s') \<Longrightarrow> quiet s s' \<and> pf' = pf_AddTableOp pf"
  using Discard_quiet by blast

definition visited :: "nat \<Rightarrow> nat \<Rightarrow> int \<Rightarrow> HostStore ATC \<Rightarrow> HostStore visit \<Rightarrow> bool" where
  "visited b p k s0 v \<longleftrightarrow> (\<exists>l. fst v = Some l \<and> acct b p (int (length l) - k) (fst (snd v))) \<and> quiet s0 (snd (snd v))"

lemma revoke_acct:
  assumes g: "page_geo b p" and r: "atc_LoanRevoker_Visit (SimpleMemory_store q c) i v = Some v'" and v: "visited b p k s0 v"
  shows "visited b p k s0 v'"
proof -
  obtain l pf s where e: "v = (Some l, pf, s)" using v by (cases v) (auto simp: visited_def)
  obtain bl' pf' s' where e': "v' = (bl', pf', s')" by (cases v')
  have "atc_FreeLoan (SimpleMemory_store q c) i True (Some l) pf s = Some (bl', pf', s')"
    using r by (auto simp: atc_LoanRevoker_Visit_def e e' split: Option.bind_splits)
  then obtain a where "quiet s s'" "bl' = push_ckpt a (Some l)" "pf' = pf_AddBufferOp (pf_AddBlockMoveIntra 1 pf)"
    using checkpoint_moves(3) by blast
  then show ?thesis using v acct_block(1) [OF g, of "int (length l) - k" pf] quiet_trans [of s0 s s']
    by (auto simp: visited_def e e' push_ckpt_def algebra_simps)
qed

lemma clean_acct:
  assumes g: "page_geo b p" and r: "atc_DirtyCleaner_Visit (SimpleMemory_store q c) i v = Some v'" and v: "visited b p k s0 v"
  shows "visited b p k s0 v'"
proof -
  obtain l pf s where e: "v = (Some l, pf, s)" using v by (cases v) (auto simp: visited_def)
  have v0: "acct b p (int (length l) - k) pf" "quiet s0 s" using v by (auto simp: visited_def e)
  obtain en :: ATTEntry and bl1 pf1 s1 where m: "(if att_state en = STAINED then do {
         (base, bl, pf, s) \<leftarrow> atc_DirtyStained (SimpleMemory_store q c) i True (Some l) pf s; Some (bl, pf, s) }
       else if att_state en = TEMP then atc_HideTemp (SimpleMemory_store q c) i True (Some l) pf s
       else Some (Some l, pf, s)) = Some (bl1, pf1, s1)"
      and w: "\<exists>e :: ATTEntry. (if att_state e = DIRTY then do { (overlap, att) \<leftarrow> att_ShiftState i CLEAN pf1 (atc_att s1); Some (bl1, pf1, s1\<lparr>atc_att := att\<rparr>) }
     else if att_state e = HIDDEN then do { (overlap, att) \<leftarrow> att_ShiftState i FREE pf1 (atc_att s1); Some (bl1, pf1, s1\<lparr>atc_att := att\<rparr>) }
     else Some (bl1, pf1, s1)) = Some v'"
    using r by (auto simp: atc_DirtyCleaner_Visit_def e Let_def Option.bind_eq_Some_conv) blast
  have "\<exists>l1. bl1 = Some l1 \<and> acct b p (int (length l1) - k) pf1 \<and> quiet s s1"
    using m acct_block(2) [OF g v0(1)] acct_block(2) [OF g, of "int (length l) - k" "pf_AddBufferOp pf"] v0(1)
    by (auto simp: push_ckpt_def algebra_simps split: if_splits Option.bind_splits dest!: checkpoint_moves)
  then have "visited b p k s0 (bl1, pf1, s1)" using v0(2) quiet_trans by (auto simp: visited_def)
  then show ?thesis using w
    by (auto simp: visited_def intro!: quiet_att split: if_splits Option.bind_splits dest!: att_ShiftState_frame)
qed

section \<open>Moving pages\<close>

text \<open>The write totals of the page table, the counters of the store and its banks.\<close>

type_synonym tally = "64 word \<times> 64 word \<times> (int \<times> int \<times> int) \<times> DRAMBanks"

definition totals :: "MigrationController \<Rightarrow> 64 word \<times> 64 word" where
  "totals mc = (mc_total_nvm_writes mc, mc_total_dram_writes mc)"

definition tallies :: "HostStore ATC \<Rightarrow> tally" where
  "tallies s = (mc_total_nvm_writes (atc_mc s), mc_total_dram_writes (atc_mc s), counters (atc_mem s), rows_closed (hs_banks (atc_mem s)))"

definition acct_state :: "nat \<Rightarrow> nat \<Rightarrow> tally \<Rightarrow> HostStore ATC \<Rightarrow> bool" where
  "acct_state b p T s \<longleftrightarrow> att_block_bits (atc_att s) = b \<and> pages_ok b p (atc_mc s) \<and> tallies s = T"

lemma tallies_upd [simp]: "tallies (s\<lparr>atc_att := a\<rparr>) = tallies s" "tallies (s\<lparr>atc_pages_to_dram := n\<rparr>) = tallies s"
  "tallies (s\<lparr>atc_pages_to_nvm := n\<rparr>) = tallies s"
  by (simp_all add: tallies_def)

lemma tallies_mc: "totals mc = totals (atc_mc s) \<Longrightarrow> tallies (s\<lparr>atc_mc := mc\<rparr>) = tallies s"
  by (auto simp: tallies_def totals_def)

lemma quiet_state: "quiet s s' \<Longrightarrow> acct_state b p T s \<Longrightarrow> acct_state b p T s'"
  by (simp add: acct_state_def quiet_def att_frame_def tallies_def)

lemma Free_pages:
  assumes r: "mc_Free k pf mc = Some (pf', mc')" and ok: "pages_ok b p mc"
  shows "pf' = pf_AddTableOp pf" "pages_ok b p mc'" "unat k + 2 ^ p < 2 ^ 64" "totals mc' = totals mc"
proof -
  let ?e = "fst (mc_LookupPage k pf mc)"
  have f: "mc_PageAlign k mc = k" "0 \<le> pt_index ?e" "pf' = pf_AddTableOp pf" "mc_block_bits mc' = mc_block_bits mc" "mc_page_bits mc' = mc_page_bits mc"
      "mc_entries mc' = AList.delete (pt_mach_base ?e) (mc_entries mc)" "totals mc' = totals mc"
    using r by (auto simp: totals_def mc_Free_def Let_def Option.bind_eq_Some_conv cassert_def split: if_splits)
  obtain e where e: "mc_find k mc = Some e"
    using f(1,2) by (cases "mc_find k mc") (auto simp: mc_LookupPage_def PTTEntry_init_def EINVAL_def)
  then show "unat k + 2 ^ p < 2 ^ 64" using ok by (simp add: pages_ok_def)
  show "pf' = pf_AddTableOp pf" by (rule f(3))
  show "totals mc' = totals mc" by (rule f(7))
  have "mc_find x mc' = (if x = pt_mach_base ?e then None else mc_find x mc)" for x
    by (simp add: mc_find_def f(6) AList.delete_conv')
  then have "mc_find x mc' = Some y \<Longrightarrow> mc_find x mc = Some y" for x y by (metis option.distinct(1))
  then show "pages_ok b p mc'" using ok f(4,5) by (simp add: pages_ok_def)
qed

lemma MigrateDRAM_acct:
  assumes g: "page_geo b p" and r: "atc_MigrateDRAM d bl pf s = Some (bl', pf', s')" and s: "acct_state b p T s" and a: "acct b p (int (length bl)) pf"
  shows "acct b p (int (length bl')) pf'" "acct_state b p T s'"
proof -
  let ?k = "dp_phy_addr d"
  obtain pf1 mc' where l: "(if dp_state d = CLEAN_STATIC then do { bl \<leftarrow> mc_AddToBlockList ?k bl (atc_mc s); Some (bl, pf_AddPageMoveIntra 1 pf) }
       else if dp_state d = DIRTY_DIRECT then do { bl \<leftarrow> mc_AddToBlockList ?k bl (atc_mc s); Some (bl, pf_AddPageMoveInter 1 pf) }
       else if dp_state d = DIRTY_STATIC then do { bl \<leftarrow> mc_AddToBlockList ?k bl (atc_mc s); bl \<leftarrow> mc_AddToBlockList ?k bl (atc_mc s);
         Some (bl, pf_AddPageMoveInter 1 (pf_AddPageMoveIntra 1 pf)) }
       else Some (bl, pf)) = Some (bl', pf1)" and f: "mc_Free ?k pf1 (atc_mc s) = Some (pf', mc')" "s' = s\<lparr>atc_mc := mc'\<rparr>"
    using r unfolding atc_MigrateDRAM_def by (auto simp: Option.bind_eq_Some_conv)
  have m: "pages_ok b p (atc_mc s)" using s by (simp add: acct_state_def)
  note fr = Free_pages [OF f(1) m]
  have len: "int (length l') = int (length l) + blocks_per_page b p" if "mc_AddToBlockList ?k l (atc_mc s) = Some l'" for l l'
    using AddToBlockList_length [OF g _ _ that fr(3)] m by (simp add: pages_ok_def)
  have "acct b p (int (length bl')) pf1"
    using l a acct_page [OF g a] acct_page(2) [OF g acct_page(1) [OF g a]] by (auto simp: len add_ac split: if_splits Option.bind_splits)
  then show "acct b p (int (length bl')) pf'" using fr(1) by simp
  show "acct_state b p T s'" using s fr(2,4) f(2) by (simp add: acct_state_def tallies_mc)
qed

lemma migrate_block_acct:
  assumes g: "page_geo b p" and r: "atc_migrate_block (SimpleMemory_store q c) t bl pf s = Some (bl', pf', s')" and a: "acct b p (int (length bl) + n) pf"
  shows "quiet s s'" "acct b p (int (length bl') + n + 1) pf'"
proof -
  obtain i pf1 att where l: "att_Lookup t pf (atc_att s) = Some (i, pf1, att)" using r by (auto simp: atc_migrate_block_def split: Option.bind_splits)
  have q1: "quiet s (s\<lparr>atc_att := att\<rparr>)" and a1: "acct b p (int (length bl) + n) pf1"
    using att_Lookup_frame [OF l] a by (auto intro: quiet_att)
  have "quiet s s' \<and> acct b p (int (length bl') + n + 1) pf'"
  proof (cases "i = - EINVAL")
    case True
    then show ?thesis using r l q1 acct_block(2) [OF g a1] by (auto simp: atc_migrate_block_def)
  next
    case False
    define s1 where "s1 = s\<lparr>atc_att := att\<rparr>"
    obtain e :: ATTEntry and pf2 home pf3 where x: "pf_set_ignore_latency pf1 = Some pf2"
      "(if att_state e = CLEAN \<or> att_state e = DIRTY then do {
           (none, pf, s) \<leftarrow> atc_CopyBlockIntra (SimpleMemory_store q c) home (mach_base e) None (pf_AddBlockMoveInter 1 pf2) s1;
           (pf, s) \<leftarrow> atc_Discard i True pf s;
           Some (bl @ [home], pf, s) }
         else if att_state e = STAINED \<or> att_state e = TEMP then do {
           (none, pf, s) \<leftarrow> atc_CopyBlockInter (SimpleMemory_store q c) home (mach_base e) None (pf_AddBlockMoveIntra 1 pf2) s1;
           (pf, s) \<leftarrow> atc_Discard i False pf s;
           Some (bl @ [home], pf, s) }
         else do {
           cassert (att_state e \<noteq> LOAN);
           cassert (att_state e \<noteq> FREE);
           (pf, att) \<leftarrow> att_ShiftState i FREE (pf_AddBlockMoveInter 1 pf2) (atc_att s1);
           Some (bl, pf, s1\<lparr>atc_att := att\<rparr>) }) = Some (bl', pf3, s')" "pf_clear_ignore_latency pf3 = Some pf'"
      using r l False unfolding s1_def by (auto simp: atc_migrate_block_def Let_def Option.bind_eq_Some_conv)
    have a2: "acct b p (int (length bl) + n) pf2" using acct_ignore(1) [OF x(1)] a1 by simp
    note m1 = acct_block [OF g a2]
    have "quiet s1 s' \<and> acct b p (int (length bl') + n + 1) pf3"
      using x(2) m1 acct_block(1) [OF g m1(2)] acct_block(2) [OF g m1(1)]
      by (auto simp: add_ac intro!: quiet_att intro: quiet_trans split: if_splits Option.bind_splits dest!: copy_quiet Discard_both att_ShiftState_frame)
    then show ?thesis using acct_ignore(2) [OF x(3)] quiet_trans [OF q1] by (simp add: s1_def)
  qed
  then show "quiet s s'" "acct b p (int (length bl') + n + 1) pf'" by simp_all
qed

lemma migrate_blocks_acct:
  assumes g: "page_geo b p" and r: "atc_migrate_blocks (SimpleMemory_store q c) nxt t bl pf s = Some (bl', pf', s')"
    and t: "t \<le> nxt" "acct b p (int (length bl) + n) pf"
  shows "quiet s s'" "acct b p (int (length bl') + n + uint (nxt - t)) pf'"
proof -
  define P where "P ms nxt t bl pf s v \<longleftrightarrow> (\<forall>n. ms = SimpleMemory_store q c \<longrightarrow> t \<le> nxt \<longrightarrow> acct b p (int (length bl) + n) pf \<longrightarrow>
    quiet s (snd (snd v)) \<and> acct b p (int (length (fst v)) + n + uint (nxt - t)) (fst (snd v)))"
    for ms and nxt t :: Tag and bl :: "Addr list" and pf s and v :: "Addr list \<times> Profiler \<times> HostStore ATC"
  have "P (SimpleMemory_store q c) nxt t bl pf s (bl', pf', s')"
  proof (rule atc_migrate_blocks.raw_induct [of P, OF _ r])
    fix rec ms nxt t bl pf s v
    assume ih: "\<And>ms nxt t bl pf s v. rec ms nxt t bl pf s = Some v \<Longrightarrow> P ms nxt t bl pf s v"
      and e: "(if t < nxt then do { r \<leftarrow> atc_migrate_block ms t bl pf s; rec ms nxt (t + 1) (fst r) (fst (snd r)) (snd (snd r)) }
        else Some (bl, pf, s)) = Some v"
    show "P ms nxt t bl pf s v"
      unfolding P_def
    proof (intro allI impI)
      fix n assume ms: "ms = SimpleMemory_store q c" and le: "t \<le> nxt" and a: "acct b p (int (length bl) + n) pf"
      show "quiet s (snd (snd v)) \<and> acct b p (int (length (fst v)) + n + uint (nxt - t)) (fst (snd v))"
      proof (cases "t < nxt")
        case False
        then show ?thesis using e le a by auto
      next
        case True
        obtain bl1 pf1 s1 where m: "atc_migrate_block ms t bl pf s = Some (bl1, pf1, s1)" "rec ms nxt (t + 1) bl1 pf1 s1 = Some v"
          using e True by (auto simp: Option.bind_eq_Some_conv)
        note b1 = migrate_block_acct [OF g m(1) [unfolded ms] a]
        have le1: "t + 1 \<le> nxt" using True by (simp add: inc_le)
        have "unat nxt < 2 ^ LENGTH(64)" by (rule unsigned_less)
        moreover have tn: "unat t < unat nxt" using True by (simp only: word_less_nat_alt)
        ultimately have "unat t + 1 < 2 ^ 64" by simp
        then have "unat (t + 1) = unat t + 1" using unat_plus_of_nat [of t 1] by simp
        then have "int (unat (nxt - t)) = int (unat (nxt - (t + 1))) + 1"
          using unat_sub [OF le] unat_sub [OF le1] tn by linarith
        then have "uint (nxt - t) = uint (nxt - (t + 1)) + 1" by simp
        then show ?thesis
          using ih [OF m(2), unfolded P_def, rule_format, OF ms le1, of "n + 1"] b1 quiet_trans [OF b1(1)] by (simp add: add_ac)
      qed
    qed
  qed
  then show "quiet s s'" "acct b p (int (length bl') + n + uint (nxt - t)) pf'" using t by (simp_all add: P_def)
qed

lemma Setup_pages:
  assumes "mc_Setup k st pf mc = Some (pf', mc')" "pages_ok b p mc" "unat k + 2 ^ p < 2 ^ 64"
  shows "pf' = pf_AddTableOp pf" "pages_ok b p mc'" "totals mc' = totals mc"
proof -
  have f: "pf' = pf_AddTableOp pf" "mc_block_bits mc' = mc_block_bits mc" "mc_page_bits mc' = mc_page_bits mc"
    "mc_entries mc' = AList.update k (PTTEntry_init\<lparr>pt_index := last (mc_free_slots mc), pt_state := st, pt_mach_base := k\<rparr>) (mc_entries mc)" "totals mc' = totals mc"
    using assms(1) by (auto simp: totals_def mc_Setup_def Let_def Option.bind_eq_Some_conv split: if_splits)
  show "pf' = pf_AddTableOp pf" by (rule f(1))
  show "totals mc' = totals mc" by (rule f(5))
  have "mc_find x mc' = (if x = k then Some (PTTEntry_init\<lparr>pt_index := last (mc_free_slots mc), pt_state := st, pt_mach_base := k\<rparr>) else mc_find x mc)" for x
    by (simp add: mc_find_def f(4) update_conv')
  then have "pt_mach_base e = x \<and> unat x + 2 ^ p < 2 ^ 64" if "mc_find x mc' = Some e" for x e
    using that assms(2,3) unfolding pages_ok_def by (cases "x = k") auto
  then show "pages_ok b p mc'" using assms(2) f(2,3) unfolding pages_ok_def by blast
qed

lemma MigrateNVM_acct:
  assumes g: "page_geo b p" and r: "atc_MigrateNVM (SimpleMemory_store q c) n bl pf s = Some (bl', pf', s')"
    and s: "acct_state b p T s" and a: "acct b p (int (length bl)) pf"
  shows "acct b p (int (length bl')) pf'" "acct_state b p T s'"
proof -
  let ?k = "np_phy_addr n"
  have m: "pages_ok b p (atc_mc s)" "att_block_bits (atc_att s) = b" using s by (simp_all add: acct_state_def)
  have mb: "mc_block_bits (atc_mc s) = b" "mc_page_bits (atc_mc s) = p" using m(1) by (simp_all add: pages_ok_def)
  have ge: "mc_geometry (atc_mc s)" using g mb by (simp add: page_geo_def mc_geometry_def)
  let ?t = "drop_bit b ?k" and ?n = "drop_bit b (?k + 2 ^ p)"
  have sz: "word_of_int (mc_page_size (atc_mc s)) = (2 :: Addr) ^ p" using mc_page_size_eq [OF ge] mb by simp
  have bl: "word_of_int (mc_page_blocks (atc_mc s)) = (2 :: Addr) ^ (p - b)" using mc_page_blocks_eq [OF ge] mb by simp
  obtain bl1 pf1 s1 mc2 st where x: "?n - ?t = 2 ^ (p - b)" "atc_migrate_blocks (SimpleMemory_store q c) ?n ?t bl pf s = Some (bl1, pf1, s1)"
      "mc_Setup ?k st pf1 (atc_mc s1) = Some (pf', mc2)" "mc_AddToBlockList ?k bl1 mc2 = Some bl'"
      "s' = s1\<lparr>atc_mc := mc2, atc_pages_to_dram := atc_pages_to_dram s1 + 1\<rparr>"
    using r by (auto simp: atc_MigrateNVM_def Let_def Option.bind_eq_Some_conv att_ToTag_def m(2) sz bl)
  note fits = page_no_wrap [OF g x(1)]
  have p: "b \<le> p" "p \<le> 30" using g by (simp_all add: page_geo_def)
  have pw: "unat ((2 :: Addr) ^ (p - b)) = 2 ^ (p - b)" using p by (intro unat_pow2) simp
  have pp: "unat ((2 :: Addr) ^ p) = 2 ^ p" using p by (intro unat_pow2) simp
  have le: "?t \<le> ?n"
  proof -
    have "unat (?k + 2 ^ p) = unat ?k + 2 ^ p" using fits pp by (simp add: unat_word_ariths)
    then have "unat ?t \<le> unat ?n" unfolding unat_drop_bit_eq by (simp add: drop_bit_eq_div div_le_mono)
    then show ?thesis by (simp add: word_le_nat_alt)
  qed
  have "uint (?n - ?t) = blocks_per_page b p" unfolding x(1) using pw by (simp add: uint_nat)
  then have b1: "quiet s s1" "acct b p (int (length bl1) + blocks_per_page b p) pf1"
    using migrate_blocks_acct [OF g x(2) le, of 0] a by simp_all
  have m1: "pages_ok b p (atc_mc s1)" "att_block_bits (atc_att s1) = b" "tallies s1 = T" using quiet_state [OF b1(1) s] by (simp_all add: acct_state_def)
  note st = Setup_pages [OF x(3) m1(1) fits]
  have "int (length bl') = int (length bl1) + blocks_per_page b p"
    using AddToBlockList_length [OF g _ _ x(4) fits] st(2) by (simp add: pages_ok_def)
  then show "acct b p (int (length bl')) pf'" using b1(2) st(1) by simp
  show "acct_state b p T s'" using st(2) m1(2,3) tallies_mc [OF st(3)] by (simp add: x(5) acct_state_def)
qed

section \<open>The loops\<close>

lemma Extract_acct:
  "mc_ExtractNVMPage pf mc = Some (n, pf', mc') \<Longrightarrow> (acct b p k pf' = acct b p k pf) \<and> (pages_ok b p mc' = pages_ok b p mc) \<and> totals mc' = totals mc"
  "mc_ExtractDRAMPage pf mc = Some (d, pf', mc') \<Longrightarrow> (acct b p k pf' = acct b p k pf) \<and> (pages_ok b p mc' = pages_ok b p mc) \<and> totals mc' = totals mc"
  by (auto simp: mc_ExtractNVMPage_def mc_ExtractDRAMPage_def pages_ok_def mc_find_def totals_def Option.bind_eq_Some_conv split: option.splits prod.splits)

definition balanced :: "nat \<Rightarrow> nat \<Rightarrow> tally \<Rightarrow> Addr list \<Rightarrow> Profiler \<Rightarrow> HostStore ATC \<Rightarrow> bool" where
  "balanced b p T bl pf s \<longleftrightarrow> acct b p (int (length bl)) pf \<and> acct_state b p T s"

lemma balanced_ignore:
  "pf_set_ignore_latency pf = Some pf' \<Longrightarrow> balanced b p T bl pf' s = balanced b p T bl pf s"
  "pf_clear_ignore_latency pf = Some pf' \<Longrightarrow> balanced b p T bl pf' s = balanced b p T bl pf s"
  by (simp_all add: balanced_def acct_ignore)

lemma balanced_extract:
  "mc_ExtractNVMPage pf (atc_mc s) = Some (n, pf', mc') \<Longrightarrow> balanced b p T bl pf s \<Longrightarrow> balanced b p T bl pf' (s\<lparr>atc_mc := mc'\<rparr>) \<and> balanced b p T bl pf (s\<lparr>atc_mc := mc'\<rparr>)"
  "mc_ExtractDRAMPage pf (atc_mc s) = Some (d, pf', mc') \<Longrightarrow> balanced b p T bl pf s \<Longrightarrow> balanced b p T bl pf' (s\<lparr>atc_mc := mc'\<rparr>) \<and> balanced b p T bl pf (s\<lparr>atc_mc := mc'\<rparr>)"
  by (auto simp: balanced_def acct_state_def tallies_mc dest: Extract_acct)

lemma balanced_moves:
  assumes "page_geo b p"
  shows "atc_MigrateDRAM d bl pf s = Some (bl', pf', s') \<Longrightarrow> balanced b p T bl pf s \<Longrightarrow> balanced b p T bl' pf' s'"
    "atc_MigrateNVM (SimpleMemory_store q c) n bl pf s = Some (bl', pf', s') \<Longrightarrow> balanced b p T bl pf s \<Longrightarrow> balanced b p T bl' pf' s'"
  using MigrateDRAM_acct [OF assms, of d bl pf s bl' pf' s' T] MigrateNVM_acct [OF assms, of q c n bl pf s bl' pf' s' T]
  by (simp_all add: balanced_def)

lemma migrate_in_step_acct:
  assumes g: "page_geo b p" and r: "atc_migrate_in_step (SimpleMemory_store q c) dr bl pf s = Some (v, bl', pf', s')" and s: "balanced b p T bl pf s"
  shows "balanced b p T bl' pf' s'"
proof -
  obtain n pf1 mc1 where x: "mc_ExtractNVMPage pf (atc_mc s) = Some (n, pf1, mc1)"
    using r by (auto simp: atc_migrate_in_step_def Option.bind_eq_Some_conv)
  define s1 where "s1 = s\<lparr>atc_mc := mc1\<rparr>"
  have b1: "balanced b p T bl pf1 s1" using balanced_extract(1) [OF x s] by (simp add: s1_def)
  show ?thesis
  proof (cases n)
    case None
    then show ?thesis using r x b1 by (simp add: atc_migrate_in_step_def s1_def)
  next
    case (Some np)
    note run = r [unfolded atc_migrate_in_step_def x Some Option.bind.simps prod.case Let_def option.case, folded s1_def]
    consider (low) "np_dirty_ratio np < dr" | (room) "\<not> np_dirty_ratio np < dr" "mc_num_entries (atc_mc s1) \<noteq> mc_ptt_capacity (atc_mc s1)"
      | (full) "\<not> np_dirty_ratio np < dr" "mc_num_entries (atc_mc s1) = mc_ptt_capacity (atc_mc s1)" by blast
    then show ?thesis
    proof cases
      case low
      then show ?thesis using run b1 by simp
    next
      case room
      then have "atc_MigrateNVM (SimpleMemory_store q c) np bl pf1 s1 = Some (bl', pf', s')"
        using run by (auto simp: Option.bind_eq_Some_conv)
      from balanced_moves(2) [OF g this b1] show ?thesis .
    next
      case full
      then obtain d ov mc2 where d: "mc_ExtractDRAMPage pf1 (atc_mc s1) = Some (d, ov, mc2)"
        using run by (auto simp: Option.bind_eq_Some_conv)
      have b2: "balanced b p T bl pf1 (s1\<lparr>atc_mc := mc2\<rparr>)" using balanced_extract(2) [OF d b1] by simp
      show ?thesis
      proof (cases d)
        case None
        then show ?thesis using run full d b2 by simp
      next
        case (Some dp)
        show ?thesis
        proof (cases "dp_write_ratio dp > 0")
          case True
          then show ?thesis using run full d b2 Some by simp
        next
          case False
          then obtain pf3 bl4 pf4 s4 pf5 where m: "pf_set_ignore_latency pf1 = Some pf3" "atc_MigrateDRAM dp bl pf3 (s1\<lparr>atc_mc := mc2\<rparr>) = Some (bl4, pf4, s4)"
              "pf_clear_ignore_latency pf4 = Some pf5" "atc_MigrateNVM (SimpleMemory_store q c) np bl4 pf5 s4 = Some (bl', pf', s')"
            using run full d Some by (auto simp: Option.bind_eq_Some_conv)
          have "balanced b p T bl pf3 (s1\<lparr>atc_mc := mc2\<rparr>)" using b2 balanced_ignore(1) [OF m(1)] by simp
          from balanced_moves(1) [OF g m(2) this] have "balanced b p T bl4 pf5 s4" using balanced_ignore(2) [OF m(3)] by simp
          from balanced_moves(2) [OF g m(4) this] show ?thesis .
        qed
      qed
    qed
  qed
qed

lemma migrate_in_acct:
  assumes g: "page_geo b p" and r: "atc_migrate_in (SimpleMemory_store q c) dr bl pf s = Some (v, bl', pf', s')" and s: "balanced b p T bl pf s"
  shows "balanced b p T bl' pf' s'"
proof -
  define P where "P ms dr bl pf s v \<longleftrightarrow> (ms = SimpleMemory_store q c \<longrightarrow> balanced b p T bl pf s \<longrightarrow> balanced b p T (fst (snd v)) (fst (snd (snd v))) (snd (snd (snd v))))"
    for ms and dr :: rat and bl pf s and v :: "(bool \<times> DRAMPageStats option) \<times> Addr list \<times> Profiler \<times> HostStore ATC"
  have "P (SimpleMemory_store q c) dr bl pf s (v, bl', pf', s')"
  proof (rule atc_migrate_in.raw_induct [of P, OF _ r])
    fix rec ms dr bl pf s v
    assume ih: "\<And>ms dr bl pf s v. rec ms dr bl pf s = Some v \<Longrightarrow> P ms dr bl pf s v"
      and e: "do { r \<leftarrow> atc_migrate_in_step ms dr bl pf s;
        if fst r = None then rec ms dr (fst (snd r)) (fst (snd (snd r))) (snd (snd (snd r))) else Some (the (fst r), snd r) } = Some v"
    obtain w bl1 pf1 s1 where m: "atc_migrate_in_step ms dr bl pf s = Some (w, bl1, pf1, s1)" using e by (auto simp: Option.bind_eq_Some_conv)
    show "P ms dr bl pf s v"
      unfolding P_def
    proof (intro impI)
      assume ms: "ms = SimpleMemory_store q c" and b: "balanced b p T bl pf s"
      have b1: "balanced b p T bl1 pf1 s1" using migrate_in_step_acct [OF g m [unfolded ms] b] .
      show "balanced b p T (fst (snd v)) (fst (snd (snd v))) (snd (snd (snd v)))"
      proof (cases w)
        case None
        then have "rec ms dr bl1 pf1 s1 = Some v" using e m by simp
        from ih [OF this] show ?thesis using ms b1 by (simp add: P_def)
      next
        case (Some u)
        then show ?thesis using e m b1 by auto
      qed
    qed
  qed
  then show ?thesis using s by (simp add: P_def)
qed

lemma migrate_out_step_acct:
  assumes g: "page_geo b p" and r: "atc_migrate_out_step wr lm d bl pf s = Some (v, lm', bl', pf', s')" and s: "balanced b p T bl pf s"
  shows "balanced b p T bl' pf' s'"
proof -
  obtain more pf1 s1 where m: "atc_migrate_out_body wr lm d bl pf s = Some (more, lm', bl', pf1, s1)"
      "(if more then atc_migrate_out_cond lm' d pf1 s1 else Some (None, pf1, s1)) = Some (v, pf', s')"
    using r by (auto simp: atc_migrate_out_step_def Option.bind_eq_Some_conv)
  have b1: "balanced b p T bl' pf1 s1"
  proof (cases "dp_write_ratio d = 0 \<or> dp_write_ratio d > wr")
    case True
    then show ?thesis using m(1) s by (auto simp: atc_migrate_out_body_def split: if_splits)
  next
    case False
    then obtain pf2 pf3 s2 where x: "pf_set_ignore_latency pf = Some pf2" "atc_MigrateDRAM d bl pf2 s = Some (bl', pf3, s2)"
        "pf_clear_ignore_latency pf3 = Some pf1" "s1 = s2\<lparr>atc_pages_to_nvm := atc_pages_to_nvm s2 + 1\<rparr>"
      using m(1) by (auto simp: atc_migrate_out_body_def Option.bind_eq_Some_conv)
    have "balanced b p T bl pf2 s" using s balanced_ignore(1) [OF x(1)] by simp
    from balanced_moves(1) [OF g x(2) this] show ?thesis
      using balanced_ignore(2) [OF x(3), of b p T bl' s2] x(4) by (simp add: balanced_def acct_state_def)
  qed
  show ?thesis
  proof (cases "more \<and> lm' \<noteq> 0")
    case True
    then obtain pf2 mc where "mc_ExtractDRAMPage pf1 (atc_mc s1) = Some (v, pf2, mc)" "pf' = (if dp_write_ratio d = 0 then pf1 else pf2)" "s' = s1\<lparr>atc_mc := mc\<rparr>"
      using m(2) by (auto simp: atc_migrate_out_cond_def Option.bind_eq_Some_conv)
    then show ?thesis using balanced_extract(2) [OF _ b1] by auto
  next
    case False
    then show ?thesis using m(2) b1 by (auto simp: atc_migrate_out_cond_def split: if_splits)
  qed
qed

lemma migrate_out_acct:
  assumes g: "page_geo b p" and r: "atc_migrate_out wr lm d bl pf s = Some (bl', pf', s')" and s: "balanced b p T bl pf s"
  shows "balanced b p T bl' pf' s'"
proof -
  define P where "P wr lm d bl pf s v \<longleftrightarrow> (balanced b p T bl pf s \<longrightarrow> balanced b p T (fst v) (fst (snd v)) (snd (snd v)))"
    for wr :: rat and lm :: int and d :: DRAMPageStats and bl pf s and v :: "Addr list \<times> Profiler \<times> HostStore ATC"
  have "P wr lm d bl pf s (bl', pf', s')"
  proof (rule atc_migrate_out.raw_induct [of P, OF _ r])
    fix rec wr lm d bl pf s v
    assume ih: "\<And>wr lm d bl pf s v. rec wr lm d bl pf s = Some v \<Longrightarrow> P wr lm d bl pf s v"
      and e: "do { r \<leftarrow> atc_migrate_out_step wr lm d bl pf s;
        if fst r = None then Some (snd (snd r))
        else rec wr (fst (snd r)) (the (fst r)) (fst (snd (snd r))) (fst (snd (snd (snd r)))) (snd (snd (snd (snd r)))) } = Some v"
    obtain w l1 bl1 pf1 s1 where m: "atc_migrate_out_step wr lm d bl pf s = Some (w, l1, bl1, pf1, s1)" using e by (auto simp: Option.bind_eq_Some_conv)
    show "P wr lm d bl pf s v"
      unfolding P_def
    proof (intro impI)
      assume b: "balanced b p T bl pf s"
      note b1 = migrate_out_step_acct [OF g m b]
      show "balanced b p T (fst v) (fst (snd v)) (snd (snd v))"
      proof (cases w)
        case None
        then show ?thesis using e m b1 by auto
      next
        case (Some u)
        then have "rec wr l1 u bl1 pf1 s1 = Some v" using e m by simp
        from ih [OF this] show ?thesis using b1 by (simp add: P_def)
      qed
    qed
  qed
  then show ?thesis using s by (simp add: P_def)
qed

lemma InputBlocks_pages:
  assumes "mc_InputBlocks es mc = Some mc'"
  shows "mc_entries mc' = mc_entries mc" "mc_block_bits mc' = mc_block_bits mc" "mc_page_bits mc' = mc_page_bits mc"
proof -
  have i: "mc_entries m' = mc_entries m \<and> mc_block_bits m' = mc_block_bits m \<and> mc_page_bits m' = mc_page_bits m"
    if "mc_input_blocks es m = Some m'" for es m m'
    using that by (induction es arbitrary: m) (fastforce simp: mc_input_block_def Let_def Option.bind_eq_Some_conv split: if_splits)+
  have n: "mc_entries (mc_fill_nvm ps m) = mc_entries m \<and> mc_block_bits (mc_fill_nvm ps m) = mc_block_bits m \<and> mc_page_bits (mc_fill_nvm ps m) = mc_page_bits m" for ps m
    by (induction ps arbitrary: m) (simp_all add: Let_def)
  have d: "mc_entries (snd (mc_fill_dram ps k m)) = mc_entries m \<and> mc_block_bits (snd (mc_fill_dram ps k m)) = mc_block_bits m \<and> mc_page_bits (snd (mc_fill_dram ps k m)) = mc_page_bits m" for ps k m
    by (induction ps arbitrary: k m) (simp_all add: Let_def)
  show "mc_entries mc' = mc_entries mc" "mc_block_bits mc' = mc_block_bits mc" "mc_page_bits mc' = mc_page_bits mc"
    using assms n d by (auto simp: mc_InputBlocks_def mc_FillDRAMPageHeap_def mc_FillNVMPageHeap_def Let_def Option.bind_eq_Some_conv split_beta dest!: i)
qed

text \<open>\<open>InputBlocks\<close> adds the writes of the entries and of the pages to the totals.\<close>

definition page_writes :: "(Addr \<times> NVMPage) list \<Rightarrow> int" where
  "page_writes ps = sum_list (map (\<lambda>kp. page_epoch_writes (snd kp)) ps)"

lemma page_writes_update:
  "distinct (map fst ps) \<Longrightarrow>
     page_writes (AList.update k p ps) = page_writes ps + page_epoch_writes p - (case map_of ps k of None \<Rightarrow> 0 | Some q \<Rightarrow> page_epoch_writes q)"
  by (induction ps) (auto simp: page_writes_def map_of_eq_None_iff split: option.splits)

lemma input_blocks_writes:
  "mc_input_blocks es mc = Some mc' \<Longrightarrow> distinct (map fst (mc_nvm_pages mc)) \<Longrightarrow>
     page_writes (mc_nvm_pages mc') = page_writes (mc_nvm_pages mc) + sum_list (map epoch_writes es) \<and> totals mc' = totals mc \<and> mc_entries mc' = mc_entries mc"
proof (induction es arbitrary: mc)
  case (Cons e es)
  obtain mc1 where m: "mc_input_block e mc = Some mc1" "mc_input_blocks es mc1 = Some mc'"
    using Cons.prems(1) by (auto simp: Option.bind_eq_Some_conv)
  have "page_writes (mc_nvm_pages mc1) = page_writes (mc_nvm_pages mc) + epoch_writes e \<and> totals mc1 = totals mc \<and> mc_entries mc1 = mc_entries mc \<and>
      distinct (map fst (mc_nvm_pages mc1))"
    using m(1) Cons.prems(2)
    by (auto simp: mc_input_block_def Let_def Option.bind_eq_Some_conv page_writes_update totals_def distinct_update NVMPage_init_def split: if_splits option.splits)
  then show ?case using Cons.IH [OF m(2)] by simp
qed simp

lemma fill_writes:
  "totals (mc_fill_nvm ps mc) = (mc_total_nvm_writes mc + word_of_int (page_writes ps), mc_total_dram_writes mc) \<and> mc_entries (mc_fill_nvm ps mc) = mc_entries mc"
  "totals (snd (mc_fill_dram es n mc)) = (mc_total_nvm_writes mc, mc_total_dram_writes mc + word_of_int (sum_list (map (\<lambda>ke. pt_epoch_writes (snd ke)) es)))"
proof -
  show "totals (mc_fill_nvm ps mc) = (mc_total_nvm_writes mc + word_of_int (page_writes ps), mc_total_dram_writes mc) \<and> mc_entries (mc_fill_nvm ps mc) = mc_entries mc"
    by (induction ps arbitrary: mc) (simp_all add: totals_def page_writes_def Let_def add.assoc)
  show "totals (snd (mc_fill_dram es n mc)) = (mc_total_nvm_writes mc, mc_total_dram_writes mc + word_of_int (sum_list (map (\<lambda>ke. pt_epoch_writes (snd ke)) es)))"
    by (induction es arbitrary: n mc) (simp_all add: totals_def Let_def add.assoc)
qed

definition dram_writes :: "MigrationController \<Rightarrow> int" where
  "dram_writes mc = sum_list (map (\<lambda>ke. pt_epoch_writes (snd ke)) (mc_entries mc))"

definition nvm_writes :: "AddrTransTable \<Rightarrow> int" where
  "nvm_writes att = sum_list (map epoch_writes (att_entries att))"

lemma InputBlocks_totals:
  assumes "mc_InputBlocks es mc = Some mc'"
  shows "totals mc' = (mc_total_nvm_writes mc + word_of_int (sum_list (map epoch_writes es)), mc_total_dram_writes mc + word_of_int (dram_writes mc))"
proof -
  obtain mc1 where m: "mc_nvm_pages mc = []" "mc_input_blocks es mc = Some mc1"
      "mc_FillDRAMPageHeap (mc_FillNVMPageHeap (mc1\<lparr>mc_dirty_nvm_pages := mc_dirty_nvm_pages mc1 + of_nat (length (mc_nvm_pages mc1))\<rparr>)) = Some mc'"
    using assms by (auto simp: mc_InputBlocks_def Let_def Option.bind_eq_Some_conv)
  have w: "page_writes (mc_nvm_pages mc1) = sum_list (map epoch_writes es)" "totals mc1 = totals mc" "mc_entries mc1 = mc_entries mc"
    using input_blocks_writes [OF m(2)] m(1) by (simp_all add: page_writes_def)
  define m0 where "m0 = mc1\<lparr>mc_dirty_nvm_pages := mc_dirty_nvm_pages mc1 + of_nat (length (mc_nvm_pages mc1))\<rparr>"
  define m2 where "m2 = mc_FillNVMPageHeap m0"
  have m2: "totals m2 = (mc_total_nvm_writes mc + word_of_int (sum_list (map epoch_writes es)), mc_total_dram_writes mc)" "mc_entries m2 = mc_entries mc"
    using w fill_writes(1) [of "mc_nvm_pages m0" m0] by (simp_all add: m2_def mc_FillNVMPageHeap_def m0_def Let_def totals_def)
  show ?thesis using m(3) m2 fill_writes(2) [of "mc_entries m2" 0 m2]
    by (auto simp: m0_def [symmetric] m2_def [symmetric] mc_FillDRAMPageHeap_def Let_def Option.bind_eq_Some_conv totals_def dram_writes_def split_beta)
qed

theorem MigratePages_acct:
  assumes g: "page_geo b p" and r: "atc_MigratePages (SimpleMemory_store q c) dr wr bl pf s = Some (bl', pf', s')" and s: "balanced b p T bl pf s"
  shows "balanced b p (mc_total_nvm_writes (atc_mc s) + word_of_int (nvm_writes (atc_att s)),
    mc_total_dram_writes (atc_mc s) + word_of_int (dram_writes (atc_mc s)), counters (atc_mem s), rows_closed (hs_banks (atc_mem s))) bl' pf' s'" (is "balanced b p ?T bl' pf' s'")
proof -
  obtain n bl1 pf1 s1 mc pr d bl2 pf2 s2 where m: "att_VisitQueue (\<lambda>v. atc_att (snd (snd v))) LOAN (atc_LoanRevoker_Visit (SimpleMemory_store q c)) (Some bl, pf, s) = Some (n, Some bl1, pf1, s1)"
      "mc_InputBlocks (att_entries (atc_att s1)) (atc_mc s1) = Some mc"
      "atc_migrate_in (SimpleMemory_store q c) dr bl1 pf1 (s1\<lparr>atc_mc := mc\<rparr>) = Some ((pr, d), bl2, pf2, s2)"
      "(if \<not> pr then Some (bl2, pf2, s2)
     else do {
       (d, pf, s) \<leftarrow> (case d of Some d \<Rightarrow> Some (Some d, pf2, s2)
        | None \<Rightarrow> do { (d, pf, mc) \<leftarrow> mc_ExtractDRAMPage pf2 (atc_mc s2); Some (d, pf, s2\<lparr>atc_mc := mc\<rparr>) });
       (case d of None \<Rightarrow> Some (bl2, pf, s)
        | Some d \<Rightarrow> atc_migrate_out wr (mc_ptt_capacity (atc_mc s) - mc_ptt_length (atc_mc s)) d bl2 pf s) }) = Some (bl', pf', s')"
    using r by (auto simp: atc_MigratePages_def Let_def Option.bind_eq_Some_conv)
  have "visited b p 0 s (Some bl, pf, s)" using s by (simp add: visited_def balanced_def)
  from VisitQueue_keeps [where Q = "visited b p 0 s", OF m(1) this revoke_acct [OF g]] have v: "visited b p 0 s (Some bl1, pf1, s1)" .
  then have q: "quiet s s1" "acct b p (int (length bl1)) pf1" by (auto simp: visited_def)
  have a1: "acct_state b p T s1" using quiet_state [OF q(1)] s by (simp add: balanced_def)
  have "mc_find k mc = mc_find k (atc_mc s1)" for k unfolding mc_find_def InputBlocks_pages(1) [OF m(2)] ..
  then have "pages_ok b p mc" using a1 InputBlocks_pages(2,3) [OF m(2)] unfolding acct_state_def pages_ok_def by simp
  moreover have "tallies (s1\<lparr>atc_mc := mc\<rparr>) = ?T"
    using InputBlocks_totals [OF m(2)] q(1) by (simp add: tallies_def totals_def quiet_def att_frame_def nvm_writes_def)
  ultimately have "balanced b p ?T bl1 pf1 (s1\<lparr>atc_mc := mc\<rparr>)" using q(2) a1 by (simp add: balanced_def acct_state_def)
  from migrate_in_acct [OF g m(3) this] have b2: "balanced b p ?T bl2 pf2 s2" .
  show ?thesis
  proof (cases pr)
    case False
    then show ?thesis using m(4) b2 by simp
  next
    case True
    obtain d3 pf3 s3 where x: "(case d of Some d \<Rightarrow> Some (Some d, pf2, s2)
        | None \<Rightarrow> do { (d, pf, mc) \<leftarrow> mc_ExtractDRAMPage pf2 (atc_mc s2); Some (d, pf, s2\<lparr>atc_mc := mc\<rparr>) }) = Some (d3, pf3, s3)"
        "(case d3 of None \<Rightarrow> Some (bl2, pf3, s3)
        | Some d \<Rightarrow> atc_migrate_out wr (mc_ptt_capacity (atc_mc s3) - mc_ptt_length (atc_mc s3)) d bl2 pf3 s3) = Some (bl', pf', s')"
      using m(4) True by (auto simp: Option.bind_eq_Some_conv)
    have "balanced b p ?T bl2 pf3 s3"
      using x(1) b2 balanced_extract(2) [OF _ b2] by (auto simp: Option.bind_eq_Some_conv split: option.splits)
    then show ?thesis using x(2) migrate_out_acct [OF g] by (cases d3) auto
  qed
qed

section \<open>The write-back of the pages\<close>

lemma map_entry_pages:
  assumes "pages_ok b p mc" "\<And>e. pt_mach_base (f e) = pt_mach_base e"
  shows "pages_ok b p (mc_map_entry k f mc)"
  using assms unfolding pages_ok_def mc_find_map_entry by (auto simp: mc_map_entry_def split: if_splits)

lemma pages_dirty [simp]: "pages_ok b p (mc\<lparr>mc_dirty_entries := n\<rparr>) = pages_ok b p mc"
  by (simp add: pages_ok_def mc_find_def)

lemma clear_entry_acct:
  assumes g: "page_geo b p" and r: "mc_clear_entry k pf bl mc = Some (pf', bl', mc')" and ok: "pages_ok b p mc"
    and a: "acct b p (int (length bl) + mc_dirty_entries mc * blocks_per_page b p - n0) pf"
  shows "pages_ok b p mc'" "acct b p (int (length bl') + mc_dirty_entries mc' * blocks_per_page b p - n0) pf'"
proof -
  obtain e where e: "mc_find k mc = Some e" using r by (auto simp: mc_clear_entry_def Option.bind_eq_Some_conv)
  define m1 where "m1 = mc_map_entry k (\<lambda>e. e\<lparr>pt_epoch_reads := 0, pt_epoch_writes := 0\<rparr>) mc"
  have k: "pt_mach_base e = k" "unat k + 2 ^ p < 2 ^ 64" using ok e by (simp_all add: pages_ok_def)
  have ok1: "pages_ok b p m1" "mc_dirty_entries m1 = mc_dirty_entries mc" using map_entry_pages [OF ok] by (simp_all add: m1_def mc_map_entry_def)
  have dm: "mc_dirty_entries (mc_map_entry k f m1) = mc_dirty_entries mc" for f using ok1(2) by (simp add: mc_map_entry_def)
  define m2 where "m2 st = (mc_map_entry k (\<lambda>e. e\<lparr>pt_state := st\<rparr>) m1)\<lparr>mc_dirty_entries := mc_dirty_entries mc - 1\<rparr>" for st
  have ok2: "pages_ok b p (m2 st)" for st using map_entry_pages [OF ok1(1)] by (simp add: m2_def)
  have len: "int (length l') = int (length bl) + blocks_per_page b p" if "mc_AddToBlockList k bl (m2 st) = Some l'" for l' st
    using AddToBlockList_length [OF g _ _ that k(2)] ok2 by (simp add: pages_ok_def)
  have shift: "mc_ShiftState_at k st pf m1 = (pf_AddTableOp pf, mc_map_entry k (\<lambda>e. e\<lparr>pt_state := st\<rparr>) m1)" if "\<not> ptt_dirty st" for st
    using that by (simp add: mc_ShiftState_at_def)
  have c: "(case pt_state e of
        DIRTY_DIRECT \<Rightarrow> do { bl \<leftarrow> mc_AddToBlockList k bl (m2 CLEAN_DIRECT); Some (pf_AddTableOp pf, bl, m2 CLEAN_DIRECT) }
      | DIRTY_STATIC \<Rightarrow> do { bl \<leftarrow> mc_AddToBlockList k bl (m2 CLEAN_STATIC); Some (pf_AddTableOp pf, bl, m2 CLEAN_STATIC) }
      | _ \<Rightarrow> Some (pf, bl, m1)) = Some (pf', bl', mc')"
    using r unfolding mc_clear_entry_def e Option.bind.simps Let_def m1_def [symmetric]
    by (simp add: shift dm k(1) m2_def ok1(2) ptt_dirty_def cong: PTTState.case_cong)
  consider (clean) "pf' = pf" "bl' = bl" "mc' = m1"
    | (dirty) st where "pf' = pf_AddTableOp pf" "mc_AddToBlockList k bl (m2 st) = Some bl'" "mc' = m2 st"
    using c by (cases "pt_state e") (auto simp: Option.bind_eq_Some_conv)
  then have "pages_ok b p mc' \<and> acct b p (int (length bl') + mc_dirty_entries mc' * blocks_per_page b p - n0) pf'"
  proof cases
    case clean
    then show ?thesis using ok1 a by simp
  next
    case dirty
    then show ?thesis using ok2 len [OF dirty(2)] a by (simp add: m2_def algebra_simps)
  qed
  then show "pages_ok b p mc'" "acct b p (int (length bl') + mc_dirty_entries mc' * blocks_per_page b p - n0) pf'" by simp_all
qed

lemma clear_entries_acct:
  assumes g: "page_geo b p"
  shows "mc_clear_entries ks pf bl mc = Some (pf', bl', mc') \<Longrightarrow> pages_ok b p mc \<Longrightarrow>
    acct b p (int (length bl) + mc_dirty_entries mc * blocks_per_page b p - n0) pf \<Longrightarrow>
    pages_ok b p mc' \<and> acct b p (int (length bl') + mc_dirty_entries mc' * blocks_per_page b p - n0) pf'"
proof (induction ks arbitrary: pf bl mc)
  case (Cons k ks)
  obtain pf1 bl1 mc1 where x: "mc_clear_entry k pf bl mc = Some (pf1, bl1, mc1)" "mc_clear_entries ks pf1 bl1 mc1 = Some (pf', bl', mc')"
    using Cons.prems(1) by (auto simp: Option.bind_eq_Some_conv)
  from Cons.IH [OF x(2) clear_entry_acct [OF g x(1) Cons.prems(2,3)]] show ?case .
qed simp

lemma ClearStats_acct:
  assumes "att_ClearStats pf t = (pf', t')"
  shows "acct b p n pf' = acct b p n pf"
  using assms by (auto simp: att_ClearStats_def Let_def)

theorem BeginCheckpointing_acct:
  assumes g: "page_geo b p" and r: "atc_BeginCheckpointing (SimpleMemory_store q c) bl pf s = Some (bl', pf', s')"
    and s: "acct b p 0 pf" "acct_state b p T s" "0 \<le> mc_dirty_entries (atc_mc s)" "mc_dirty_entries (atc_mc s) * 2 ^ p < 2 ^ 31"
  shows "acct b p (int (length bl') - int (length bl)) pf'"
proof -
  obtain n bl1 pf1 s1 pf2 t pf3 mc where m: "att_VisitQueue (\<lambda>v. atc_att (snd (snd v))) DIRTY (atc_DirtyCleaner_Visit (SimpleMemory_store q c)) (Some bl, pf, s) = Some (n, Some bl1, pf1, s1)"
      "att_ClearStats (pf_AddTableOp pf1) (atc_att s1) = (pf2, t)" "mc_Clear pf2 bl1 (atc_mc s1) = Some (pf', bl', mc)"
    using r by (auto simp: atc_BeginCheckpointing_def att_ClearStats_def Let_def Option.bind_eq_Some_conv)
  have "visited b p (int (length bl)) s (Some bl, pf, s)" using s(1) by (simp add: visited_def)
  from VisitQueue_keeps [where Q = "visited b p (int (length bl)) s", OF m(1) this clean_acct [OF g]]
  have "visited b p (int (length bl)) s (Some bl1, pf1, s1)" .
  then have v: "acct b p (int (length bl1) - int (length bl)) pf1" "quiet s s1" by (auto simp: visited_def)
  have mc: "atc_mc s1 = atc_mc s" using v(2) by (simp add: quiet_def)
  have a2: "acct b p (int (length bl1) - int (length bl)) pf2" using v(1) ClearStats_acct [OF m(2), of b p] by simp
  obtain mc1 where x: "mc_clear_entries (map fst (mc_entries (atc_mc s))) (pf_AddPageMoveInter (mc_dirty_entries (atc_mc s)) pf2) bl1 (atc_mc s) = Some (pf', bl', mc1)"
      "mc_dirty_entries mc1 = 0"
    using m(3) by (auto simp: mc_Clear_def mc cassert_def Let_def Option.bind_eq_Some_conv split: if_splits)
  have "pages_ok b p (atc_mc s)" using s(2) by (simp add: acct_state_def)
  from clear_entries_acct [OF g x(1) this, of "int (length bl)"] acct_pages(2) [OF g a2 s(3,4)]
  show ?thesis using x(2) by (simp add: algebra_simps)
qed

end
