(* ===== verification/Write_Counts.thy ===== *)
theory Write_Counts
  imports Bus_Accounting Memory_Run
begin

text \<open>
  The books of the writes. The store counts every write twice, by the kind of memory and by the way the table served it;
  the table and the page table count the writes of the epoch, which migration adds to the totals. The three agree at every
  moment, which \<open>SimpleMemory::freeze\<close> asserts between migration and checkpoint.
\<close>

section \<open>Hits\<close>

text \<open>Like \<open>quiet\<close>, but exactly one hit, miss or direct DRAM write is counted.\<close>

definition hit :: "HostStore ATC \<Rightarrow> HostStore ATC \<Rightarrow> bool" where
  "hit s s' \<longleftrightarrow> att_frame (atc_att s) (atc_att s') \<and> atc_mc s' = atc_mc s \<and> atc_ckpt s' = atc_ckpt s \<and>
     counters (atc_mem s') = (case counters (atc_mem s) of (n, d, h) \<Rightarrow> (n, d, h + 1)) \<and>
     rows_closed (hs_banks (atc_mem s')) = rows_closed (hs_banks (atc_mem s))"

lemma hit_quiet: "hit a b \<Longrightarrow> quiet b c \<Longrightarrow> hit a c" "quiet a b \<Longrightarrow> hit b c \<Longrightarrow> hit a c"
  by (auto simp: hit_def quiet_def intro: att_frame_trans)

lemma hit_buffers [simp]: "hit s (s'\<lparr>atc_nvm := v\<rparr>) = hit s s'" "hit s (s'\<lparr>atc_dram := v\<rparr>) = hit s s'"
  by (simp_all add: hit_def)

lemma hook_hit:
  "atc_hook (OnATTWriteHit (SimpleMemory_store p c) st) s = Some s' \<Longrightarrow> hit s s'"
  "atc_hook (OnATTWriteMiss (SimpleMemory_store p c) st) s = Some s' \<Longrightarrow> hit s s'"
  "atc_hook (ckDRAMWriteHit (SimpleMemory_store p c)) s = Some s' \<Longrightarrow> hit s s'"
  by (auto simp: atc_hook_def SimpleMemory_store_def am_OnATTWriteHit_def am_OnATTWriteMiss_def am_ckDRAMWriteHit_def hit_def counters_def)

lemma free_entry_hit:
  "atc_free_entry_ckpt (SimpleMemory_store p c) st pf s = Some (pf', s') \<Longrightarrow> hit s s'"
  "atc_free_entry_run (SimpleMemory_store p c) pf s = Some (pf', s') \<Longrightarrow> hit s s'"
proof -
  show "hit s s'" if "atc_free_entry_ckpt (SimpleMemory_store p c) st pf s = Some (pf', s')"
    using that by (auto simp: atc_free_entry_ckpt_def Option.bind_eq_Some_conv split: if_splits intro: hook_hit hit_quiet dest: FreeClean_quiet)
  show "hit s s'" if "atc_free_entry_run (SimpleMemory_store p c) pf s = Some (pf', s')"
    using that by (auto simp: atc_free_entry_run_def Option.bind_eq_Some_conv split: if_splits intro: hook_hit hit_quiet
      dest: FreeClean_quiet FreeLoan_quiet(1))
qed

lemma nvm_hit:
  "atc_nvm_hit_run (SimpleMemory_store p c) a sz i pf s = Some (x, pf', s') \<Longrightarrow> hit s s'"
  "atc_nvm_hit_ckpt (SimpleMemory_store p c) a sz i pf s = Some (x, pf', s') \<Longrightarrow> hit s s'"
proof -
  show "hit s s'" if "atc_nvm_hit_run (SimpleMemory_store p c) a sz i pf s = Some (x, pf', s')"
    using that by (auto simp: atc_nvm_hit_run_def Let_def Option.bind_eq_Some_conv split: if_splits intro: hook_hit hit_quiet(1)
      dest!: HideTemp_quiet(1) DirtyStained_quiet(1) HideClean_quiet)
  show "hit s s'" if "atc_nvm_hit_ckpt (SimpleMemory_store p c) a sz i pf s = Some (x, pf', s')"
    using that by (auto simp: atc_nvm_hit_ckpt_def Option.bind_eq_Some_conv split: if_splits intro: hook_hit hit_quiet(1) dest!: ResetClean_quiet)
qed

section \<open>Stores\<close>

definition counted :: "HostStore ATC \<Rightarrow> bool" where
  "counted s \<longleftrightarrow> 0 \<le> nvm_writes (atc_att s) \<and> 0 \<le> dram_writes (atc_mc s) \<and>
     numNVMWrites (atc_mem s) = uint (mc_total_nvm_writes (atc_mc s)) + nvm_writes (atc_att s) \<and>
     numDRAMWrites (atc_mem s) = uint (mc_total_dram_writes (atc_mc s)) + dram_writes (atc_mc s) \<and>
     numNVMWrites (atc_mem s) + numDRAMWrites (atc_mem s) =
       numATTWriteHits (atc_mem s) + numATTWriteMisses (atc_mem s) + ckDRAMWriteHits (atc_mem s)"

lemma counted_counters:
  "counted s \<longleftrightarrow> (case counters (atc_mem s) of (n, d, h) \<Rightarrow> 0 \<le> nvm_writes (atc_att s) \<and> 0 \<le> dram_writes (atc_mc s) \<and>
     n = uint (mc_total_nvm_writes (atc_mc s)) + nvm_writes (atc_att s) \<and>
     d = uint (mc_total_dram_writes (atc_mc s)) + dram_writes (atc_mc s) \<and> n + d = h)"
  by (simp add: counted_def counters_def)

lemma att_frame_writes: "att_frame a a' \<Longrightarrow> nvm_writes a' = nvm_writes a"
  by (simp add: att_frame_def nvm_writes_def)

lemma quiet_counted: "quiet s s' \<Longrightarrow> counted s' = counted s"
  by (auto simp: quiet_def counted_counters att_frame_writes)

text \<open>A store that finds its entry: one hit, then one block write.\<close>

lemma NVMStore_hit:
  assumes r: "atc_NVMStore (SimpleMemory_store p c) a sz pf s = Some (x, pf', s')"
  shows "\<exists>s1 i att. hit s s1 \<and> att_AddBlockWrite i (atc_att s1) = Some att \<and> s' = s1\<lparr>atc_att := att\<rparr>"
proof -
  obtain i pf1 att where l: "att_Lookup (att_ToTag a (atc_att s)) pf (atc_att s) = Some (i, pf1, att)"
    using r by (auto simp: atc_NVMStore_def Option.bind_eq_Some_conv)
  define s0 where "s0 = s\<lparr>atc_att := att\<rparr>"
  have q: "quiet s s0" using att_Lookup_frame [OF l] by (auto simp: s0_def intro: quiet_att)
  note run = r [unfolded atc_NVMStore_def l Option.bind.simps prod.case Let_def, folded s0_def]
  show ?thesis
  proof (cases "atc_ckpt s0")
    case True
    then obtain j x' pf2 s2 pf3 s3 att3 where m: "(if i \<noteq> - EINVAL then do {
           (mach_addr, pf, s) \<leftarrow> atc_nvm_hit_ckpt (SimpleMemory_store p c) a sz i pf1 s0;
           Some (i, mach_addr, pf, s) }
         else do {
           (pf, s) \<leftarrow> atc_free_entry_ckpt (SimpleMemory_store p c) STAINED pf1 s0;
           (base, overlap, dram) \<leftarrow> vb_SlotAlloc pf (atc_dram s);
           (index, pf, s) \<leftarrow> atc_Setup (SimpleMemory_store p c) a base STAINED (\<not> atc_FullBlock a sz (s\<lparr>atc_dram := dram\<rparr>)) pf (s\<lparr>atc_dram := dram\<rparr>);
           mach_addr \<leftarrow> att_Translate a base (atc_att s);
           Some (index, mach_addr, pf, s) }) = Some (j, x', pf2, s2)"
        "atc_WriteLatency (SimpleMemory_store p c) x' True None pf2 s2 = Some (pf3, s3)" "att_AddBlockWrite j (atc_att s3) = Some att3" "s' = s3\<lparr>atc_att := att3\<rparr>"
      using run by (auto simp: Option.bind_eq_Some_conv)
    have "hit s0 s2" using m(1)
      by (cases "i = - EINVAL") (auto simp: Option.bind_eq_Some_conv dest!: free_entry_hit(1) nvm_hit(2) Setup_quiet intro: hit_quiet(1))
    then show ?thesis using m(2-4) hit_quiet latency_quiet(2) q by blast
  next
    case False
    then obtain j x' pf2 s2 pf3 s3 att3 where m: "(if i \<noteq> - EINVAL then do {
           (mach_addr, pf, s) \<leftarrow> atc_nvm_hit_run (SimpleMemory_store p c) a sz i pf1 s0;
           Some (i, mach_addr, pf, s) }
         else do {
           (pf, s) \<leftarrow> atc_free_entry_run (SimpleMemory_store p c) pf1 s0;
           (base, overlap, nvm) \<leftarrow> vb_SlotAlloc pf (atc_nvm s);
           (index, pf, s) \<leftarrow> atc_Setup (SimpleMemory_store p c) a base DIRTY (\<not> atc_FullBlock a sz (s\<lparr>atc_nvm := nvm\<rparr>)) pf (s\<lparr>atc_nvm := nvm\<rparr>);
           mach_addr \<leftarrow> att_Translate a base (atc_att s);
           Some (index, mach_addr, pf, s) }) = Some (j, x', pf2, s2)"
        "atc_WriteLatency (SimpleMemory_store p c) x' False None pf2 s2 = Some (pf3, s3)" "att_AddBlockWrite j (atc_att s3) = Some att3" "s' = s3\<lparr>atc_att := att3\<rparr>"
      using run by (auto simp: Option.bind_eq_Some_conv)
    have "hit s0 s2" using m(1)
      by (cases "i = - EINVAL") (auto simp: Option.bind_eq_Some_conv dest!: free_entry_hit(2) nvm_hit(1) Setup_quiet intro: hit_quiet(1))
    then show ?thesis using m(2-4) hit_quiet latency_quiet(2) q by blast
  qed
qed

lemma DRAMStore_hit:
  assumes r: "atc_DRAMStore (SimpleMemory_store p c) a sz page pf s = Some (x, pf', s')"
  shows "hit s s'"
proof -
  obtain i pf1 att where l: "att_Lookup (att_ToTag a (atc_att s)) pf (atc_att s) = Some (i, pf1, att)"
    using r by (auto simp: atc_DRAMStore_def Option.bind_eq_Some_conv)
  define s0 where "s0 = s\<lparr>atc_att := att\<rparr>"
  have q: "quiet s s0" using att_Lookup_frame [OF l] by (auto simp: s0_def intro: quiet_att)
  note run = r [unfolded atc_DRAMStore_def l Option.bind.simps prod.case Let_def, folded s0_def]
  have "hit s0 s'"
  proof (cases "i = - EINVAL")
    case False
    then show ?thesis using run
      by (auto simp: Option.bind_eq_Some_conv split: if_splits dest!: hook_hit(1) FreeLoan_quiet(1) latency_quiet(2) intro: hit_quiet(1))
  next
    case True
    then show ?thesis using run
      by (auto simp: Option.bind_eq_Some_conv split: if_splits dest!: hook_hit(3) free_entry_hit(1) Setup_quiet latency_quiet(2)
        intro: hit_quiet(1) hit_quiet(1) [OF hit_quiet(1)])
  qed
  then show ?thesis using hit_quiet(2) [OF q] by blast
qed

section \<open>The page table\<close>

lemma sum_map_entry:
  "sum_list (map (\<lambda>ke. g (snd ke)) (AList.map_entry k f xs)) =
     sum_list (map (\<lambda>ke. g (snd ke)) xs) + (case map_of xs k of None \<Rightarrow> 0 | Some v \<Rightarrow> g (f v) - (g v :: int))"
  by (induction xs) auto

lemma dram_writes_map_entry:
  "dram_writes (mc_map_entry k f mc) = dram_writes mc + (case mc_find k mc of None \<Rightarrow> 0 | Some e \<Rightarrow> pt_epoch_writes (f e) - pt_epoch_writes e)"
  by (simp add: dram_writes_def mc_map_entry_def mc_find_def sum_map_entry)

lemma totals_map_entry [simp]: "totals (mc_map_entry k f mc) = totals mc"
  by (simp add: totals_def mc_map_entry_def)

lemma counts_dirty [simp]: "totals (mc\<lparr>mc_dirty_entries := n\<rparr>) = totals mc" "dram_writes (mc\<lparr>mc_dirty_entries := n\<rparr>) = dram_writes mc"
  by (simp_all add: totals_def dram_writes_def)

lemma page_counts:
  "mc_AddDRAMPageRead k mc = Some mc' \<Longrightarrow> totals mc' = totals mc \<and> dram_writes mc' = dram_writes mc"
  "mc_AddDRAMPageWrite k mc = Some mc' \<Longrightarrow> totals mc' = totals mc \<and> dram_writes mc' = dram_writes mc + 1"
  "mc_ShiftState k st pf mc = Some (pf', mc') \<Longrightarrow> totals mc' = totals mc \<and> dram_writes mc' = dram_writes mc"
  by (auto simp: mc_AddDRAMPageRead_def mc_AddDRAMPageWrite_def mc_ShiftState_def mc_ShiftState_at_def Let_def Option.bind_eq_Some_conv
      dram_writes_map_entry split: option.splits if_splits)

section \<open>Accesses\<close>

text \<open>All that the books and the banks of the store depend on.\<close>

definition ledger :: "HostStore ATC \<Rightarrow> tally \<times> int \<times> int" where
  "ledger s = (tallies s, nvm_writes (atc_att s), dram_writes (atc_mc s))"

lemma ledger_att: "nvm_writes att = nvm_writes (atc_att s) \<Longrightarrow> ledger (s\<lparr>atc_att := att\<rparr>) = ledger s"
  by (simp add: ledger_def)

lemma ledger_mc: "totals mc = totals (atc_mc s) \<and> dram_writes mc = dram_writes (atc_mc s) \<Longrightarrow> ledger (s\<lparr>atc_mc := mc\<rparr>) = ledger s"
  by (simp add: ledger_def tallies_mc)

lemma ledger_quiet: "quiet s s' \<Longrightarrow> ledger s' = ledger s"
  by (simp add: ledger_def tallies_def quiet_def att_frame_writes)

lemma ledger_counted: "ledger s' = ledger s \<Longrightarrow> counted s' = counted s"
  by (auto simp: ledger_def tallies_def counted_counters)

lemma LoadAddr_ledger:
  assumes r: "atc_LoadAddr (SimpleMemory_store p c) a pf s = Some (x, pf', s')"
  shows "ledger s' = ledger s"
  using r unfolding atc_LoadAddr_def
  by (auto simp: Let_def Option.bind_eq_Some_conv ledger_att ledger_mc ledger_quiet split: if_splits prod.splits
    dest!: att_Lookup_frame [THEN conjunct1, THEN att_frame_writes] att_AddBlockRead_frame [THEN att_frame_writes] latency_quiet(1) page_counts(1))

lemma NVM_counted:
  assumes h: "hit s s1" and w: "att_AddBlockWrite i (atc_att s1) = Some att"
    and n: "counters (atc_mem s) = (n + 1, d, k)" "n = uint (mc_total_nvm_writes (atc_mc s)) + nvm_writes (atc_att s)"
      "d = uint (mc_total_dram_writes (atc_mc s)) + dram_writes (atc_mc s)" "n + d = k"
      "0 \<le> nvm_writes (atc_att s)" "0 \<le> dram_writes (atc_mc s)"
  shows "counted (s1\<lparr>atc_att := att\<rparr>)"
  using h n att_AddBlockWrite_sum(1) [OF w] by (simp add: counted_counters hit_def att_frame_def nvm_writes_def)

lemma StoreAddr_counted:
  assumes r: "atc_StoreAddr (SimpleMemory_store p c) a sz pf s = Some (x, pf', s')" and k: "counted s"
  shows "counted s' \<and> rows_closed (hs_banks (atc_mem s')) = rows_closed (hs_banks (atc_mem s))"
proof -
  obtain page pf0 where l: "mc_LookupPage a pf (atc_mc s) = (page, pf0)" by (cases "mc_LookupPage a pf (atc_mc s)")
  obtain n d h where c: "counters (atc_mem s) = (n, d, h)" by (cases "counters (atc_mem s)")
  have e: "n = uint (mc_total_nvm_writes (atc_mc s)) + nvm_writes (atc_att s)" "d = uint (mc_total_dram_writes (atc_mc s)) + dram_writes (atc_mc s)" "n + d = h"
    "0 \<le> nvm_writes (atc_att s)" "0 \<le> dram_writes (atc_mc s)"
    using k c by (simp_all add: counted_counters)
  show ?thesis
  proof (cases "pt_index page < 0")
    case True
    then obtain s1 where s1: "atc_hook (statsNVMWrites (SimpleMemory_store p c) 1) s = Some s1" "atc_NVMStore (SimpleMemory_store p c) a sz pf0 s1 = Some (x, pf', s')"
      using r l by (auto simp: atc_StoreAddr_def Option.bind_eq_Some_conv)
    have f: "atc_att s1 = atc_att s" "atc_mc s1 = atc_mc s" "counters (atc_mem s1) = (n + 1, d, h)" "hs_banks (atc_mem s1) = hs_banks (atc_mem s)"
      using s1(1) c by (auto simp: atc_hook_def SimpleMemory_store_def am_statsNVMWrites_def counters_def)
    obtain s2 i att where h: "hit s1 s2" "att_AddBlockWrite i (atc_att s2) = Some att" "s' = s2\<lparr>atc_att := att\<rparr>" using NVMStore_hit [OF s1(2)] by blast
    have "rows_closed (hs_banks (atc_mem s')) = rows_closed (hs_banks (atc_mem s))" using h(1,3) f(4) by (simp add: hit_def)
    then show ?thesis using NVM_counted [OF h(1,2)] h(3) f(1-3) e by metis
  next
    case False
    then obtain mc1 page2 pf2 mc2 s1 where m: "mc_AddDRAMPageWrite (pt_mach_base page) (atc_mc s) = Some mc1"
        "(if pt_state page = CLEAN_STATIC then do {
           (pf, mc) \<leftarrow> mc_ShiftState (pt_mach_base page) DIRTY_DIRECT pf0 mc1;
           Some (page\<lparr>pt_state := DIRTY_DIRECT\<rparr>, pf, mc) }
         else if pt_state page = CLEAN_DIRECT then do {
           (pf, mc) \<leftarrow> mc_ShiftState (pt_mach_base page) DIRTY_STATIC pf0 mc1;
           Some (page\<lparr>pt_state := DIRTY_STATIC\<rparr>, pf, mc) }
         else Some (page, pf0, mc1)) = Some (page2, pf2, mc2)"
        "atc_hook (statsDRAMWrites (SimpleMemory_store p c) 1) (s\<lparr>atc_mc := mc2\<rparr>) = Some s1"
        "atc_DRAMStore (SimpleMemory_store p c) a sz page2 pf2 s1 = Some (x, pf', s')"
      using r l by (auto simp: atc_StoreAddr_def Option.bind_eq_Some_conv)
    have t: "totals mc2 = totals (atc_mc s)" "dram_writes mc2 = dram_writes (atc_mc s) + 1"
      using m(2) page_counts(2) [OF m(1)] by (auto simp: Option.bind_eq_Some_conv split: if_splits dest!: page_counts(3))
    have s1: "atc_att s1 = atc_att s" "atc_mc s1 = mc2" "counters (atc_mem s1) = (n, d + 1, h)" "hs_banks (atc_mem s1) = hs_banks (atc_mem s)"
      using m(3) c by (auto simp: atc_hook_def SimpleMemory_store_def am_statsDRAMWrites_def counters_def)
    show ?thesis using DRAMStore_hit [OF m(4)] s1 t e by (auto simp: counted_counters hit_def att_frame_writes totals_def)
  qed
qed

section \<open>Epochs\<close>

text \<open>After the migration the totals are the counts, which \<open>freeze\<close> asserts.\<close>

definition settled :: "HostStore ATC \<Rightarrow> bool" where
  "settled s \<longleftrightarrow> (case tallies s of (tn, td, (n, d, h), v) \<Rightarrow> n = uint tn \<and> d = uint td \<and> n + d = h)"

lemma uint_add_bound: "0 \<le> k \<Longrightarrow> uint (x :: 64 word) + k < 2 ^ 64 \<Longrightarrow> uint (x + word_of_int k) = uint x + k"
proof -
  assume k: "0 \<le> k" "uint x + k < 2 ^ 64"
  have "0 \<le> uint x" by simp
  then show ?thesis using k by (simp add: uint_word_ariths uint_word_of_int mod_add_right_eq)
qed

lemma MigratePages_settled:
  assumes g: "page_geo b p" and r: "atc_MigratePages (SimpleMemory_store q c) dr wr bl pf s = Some (bl', pf', s')"
    and s: "acct b p (int (length bl)) pf" "att_block_bits (atc_att s) = b" "pages_ok b p (atc_mc s)"
    and k: "counted s" "numNVMWrites (atc_mem s) < 2 ^ 64" "numDRAMWrites (atc_mem s) < 2 ^ 64"
  shows "settled s'" "acct b p (int (length bl')) pf'" "rows_closed (hs_banks (atc_mem s')) = rows_closed (hs_banks (atc_mem s))"
proof -
  have "balanced b p (tallies s) bl pf s" using s by (simp add: balanced_def acct_state_def)
  from MigratePages_acct [OF g r this] have m: "acct b p (int (length bl')) pf'"
    and t: "tallies s' = (mc_total_nvm_writes (atc_mc s) + word_of_int (nvm_writes (atc_att s)),
      mc_total_dram_writes (atc_mc s) + word_of_int (dram_writes (atc_mc s)), counters (atc_mem s), rows_closed (hs_banks (atc_mem s)))"
    by (simp_all add: balanced_def acct_state_def)
  have "uint (mc_total_nvm_writes (atc_mc s) + word_of_int (nvm_writes (atc_att s))) = numNVMWrites (atc_mem s)"
    using k by (simp add: uint_add_bound counted_def)
  moreover have "uint (mc_total_dram_writes (atc_mc s) + word_of_int (dram_writes (atc_mc s))) = numDRAMWrites (atc_mem s)"
    using k by (simp add: uint_add_bound counted_def)
  ultimately show "settled s'" using k(1) by (simp add: settled_def t counters_def counted_def)
  show "acct b p (int (length bl')) pf'" by (fact m)
  show "rows_closed (hs_banks (atc_mem s')) = rows_closed (hs_banks (atc_mem s))" using t by (simp add: tallies_def)
qed

lemma clear_entry_writes:
  assumes r: "mc_clear_entry k pf bl mc = Some (pf', bl', mc')"
  shows "totals mc' = totals mc" "map fst (mc_entries mc') = map fst (mc_entries mc)"
    "mc_find x mc' = Some e' \<Longrightarrow> \<exists>e. mc_find x mc = Some e \<and> pt_epoch_writes e' = (if x = k then 0 else pt_epoch_writes e)"
proof -
  define m1 where "m1 = mc_map_entry k (\<lambda>e. e\<lparr>pt_epoch_reads := 0, pt_epoch_writes := 0\<rparr>) mc"
  obtain e where e: "mc_find k mc = Some e" using r by (auto simp: mc_clear_entry_def Option.bind_eq_Some_conv)
  have m: "mc' = m1 \<or> (\<exists>st n. mc' = (mc_map_entry k (\<lambda>e. e\<lparr>pt_state := st\<rparr>) m1)\<lparr>mc_dirty_entries := n\<rparr>)"
    using r unfolding mc_clear_entry_def e Option.bind.simps Let_def m1_def [symmetric] mc_ShiftState_at_def
    by (cases "pt_state e") (simp_all add: Option.bind_eq_Some_conv ptt_dirty_def, blast+)
  show "totals mc' = totals mc" "map fst (mc_entries mc') = map fst (mc_entries mc)"
    using m by (auto simp: m1_def)
  show "\<exists>e. mc_find x mc = Some e \<and> pt_epoch_writes e' = (if x = k then 0 else pt_epoch_writes e)" if "mc_find x mc' = Some e'"
    using m that by (auto simp: m1_def mc_find_map_entry split: if_splits)
qed

lemma clear_entries_writes:
  "mc_clear_entries ks pf bl mc = Some (pf', bl', mc') \<Longrightarrow> totals mc' = totals mc \<and> map fst (mc_entries mc') = map fst (mc_entries mc) \<and>
     (\<forall>x e'. mc_find x mc' = Some e' \<longrightarrow> (\<exists>e. mc_find x mc = Some e \<and> pt_epoch_writes e' = (if x \<in> set ks then 0 else pt_epoch_writes e)))"
proof (induction ks arbitrary: pf bl mc)
  case (Cons k ks)
  obtain pf1 bl1 mc1 where m: "mc_clear_entry k pf bl mc = Some (pf1, bl1, mc1)" "mc_clear_entries ks pf1 bl1 mc1 = Some (pf', bl', mc')"
    using Cons.prems by (auto simp: Option.bind_eq_Some_conv)
  note c = clear_entry_writes [OF m(1)]
  note i = Cons.IH [OF m(2)]
  have "\<exists>e. mc_find x mc = Some e \<and> pt_epoch_writes e' = (if x \<in> set (k # ks) then 0 else pt_epoch_writes e)" if f: "mc_find x mc' = Some e'" for x e'
  proof -
    obtain e1 where e1: "mc_find x mc1 = Some e1" "pt_epoch_writes e' = (if x \<in> set ks then 0 else pt_epoch_writes e1)" using i f by blast
    obtain e where "mc_find x mc = Some e" "pt_epoch_writes e1 = (if x = k then 0 else pt_epoch_writes e)" using c(3) [OF e1(1)] by blast
    then show ?thesis using e1(2) by auto
  qed
  then show ?case using i c(1,2) by simp
qed simp

lemma no_writes:
  assumes "distinct (map fst (mc_entries mc))" "\<And>x e. mc_find x mc = Some e \<Longrightarrow> pt_epoch_writes e = 0"
  shows "dram_writes mc = 0"
proof -
  have "pt_epoch_writes (snd ke) = 0" if "ke \<in> set (mc_entries mc)" for ke
    using assms(2) [of "fst ke" "snd ke"] map_of_is_SomeI [OF assms(1), of "fst ke" "snd ke"] that by (simp add: mc_find_def)
  then have "map (\<lambda>ke. pt_epoch_writes (snd ke)) (mc_entries mc) = map (\<lambda>_. 0) (mc_entries mc)" by simp
  then show ?thesis unfolding dram_writes_def by (simp only: sum_list_0)
qed

lemma Clear_writes:
  assumes "mc_Clear pf bl mc = Some (pf', bl', mc')" "distinct (map fst (mc_entries mc))"
  shows "totals mc' = totals mc" "dram_writes mc' = 0"
proof -
  obtain mc1 where m: "mc_clear_entries (map fst (mc_entries mc)) (pf_AddPageMoveInter (mc_dirty_entries mc) pf) bl mc = Some (pf', bl', mc1)"
      "mc' = mc1\<lparr>mc_nvm_pages := [], mc_dram_heap := [], mc_nvm_heap := [], mc_dram_heap_filled := False, mc_nvm_heap_filled := False\<rparr>"
    using assms(1) by (auto simp: mc_Clear_def Let_def Option.bind_eq_Some_conv)
  note c = clear_entries_writes [OF m(1)]
  have "pt_epoch_writes e' = 0" if f: "mc_find x mc1 = Some e'" for x e'
  proof -
    obtain e where e: "mc_find x mc = Some e" "pt_epoch_writes e' = (if x \<in> set (map fst (mc_entries mc)) then 0 else pt_epoch_writes e)" using c f by blast
    have "x \<in> set (map fst (mc_entries mc))" using e(1) dom_mc_find [of mc] by auto
    then show ?thesis using e(2) by simp
  qed
  then have "dram_writes mc1 = 0" using no_writes [of mc1] c assms(2) by simp
  then show "totals mc' = totals mc" "dram_writes mc' = 0" using c by (simp_all add: m(2) totals_def dram_writes_def)
qed

lemma BeginCheckpointing_counted:
  assumes g: "page_geo b p" and r: "atc_BeginCheckpointing (SimpleMemory_store q c) bl pf s = Some (bl', pf', s')"
    and s: "acct b p 0 pf" "distinct (map fst (mc_entries (atc_mc s)))" "settled s"
  shows "counted s'" "rows_closed (hs_banks (atc_mem s')) = rows_closed (hs_banks (atc_mem s))"
proof -
  obtain n bl1 pf1 s1 pf2 t mc where m: "att_VisitQueue (\<lambda>v. atc_att (snd (snd v))) DIRTY (atc_DirtyCleaner_Visit (SimpleMemory_store q c)) (Some bl, pf, s) = Some (n, Some bl1, pf1, s1)"
      "att_ClearStats (pf_AddTableOp pf1) (atc_att s1) = (pf2, t)" "mc_Clear pf2 bl1 (atc_mc s1) = Some (pf', bl', mc)"
      "s' = s1\<lparr>atc_ckpt := True, atc_att := t, atc_mc := mc\<rparr>"
    using r by (auto simp: atc_BeginCheckpointing_def att_ClearStats_def Let_def Option.bind_eq_Some_conv)
  have "visited b p (int (length bl)) s (Some bl, pf, s)" using s(1) by (simp add: visited_def)
  from VisitQueue_keeps [where Q = "visited b p (int (length bl)) s", OF m(1) this clean_acct [OF g]]
  have "visited b p (int (length bl)) s (Some bl1, pf1, s1)" .
  then have q: "quiet s s1" by (auto simp: visited_def)
  have mc: "atc_mc s1 = atc_mc s" and ct: "counters (atc_mem s1) = counters (atc_mem s)" using q by (simp_all add: quiet_def)
  note w = Clear_writes [OF m(3) [unfolded mc] s(2)]
  have "map epoch_writes (att_entries t) = map (\<lambda>_. 0) (att_entries (atc_att s1))" using m(2) by (auto simp: att_ClearStats_def)
  then have t: "nvm_writes t = 0" unfolding nvm_writes_def by (simp only: sum_list_0)
  show "rows_closed (hs_banks (atc_mem s')) = rows_closed (hs_banks (atc_mem s))" using q by (simp add: m(4) quiet_def)
  show "counted s'" using s(3) t w ct by (auto simp: m(4) counted_counters settled_def tallies_def totals_def)
qed

lemma FinishCheckpointing_ledger:
  assumes r: "atc_FinishCheckpointing (SimpleMemory_store q c) pf s = Some s'"
  shows "ledger s' = ledger s"
  using r by (auto simp: atc_FinishCheckpointing_def atc_hook_def SimpleMemory_store_def am_OnEpochEnd_def ledger_def tallies_def counters_def Option.bind_eq_Some_conv)

end
