(* ===== verification/Timing_Frames.thy ===== *)
theory Timing_Frames
  imports Simple_Memory Write_Counts
begin

text \<open>
  What the parts of the memory leave alone, as far as its timing depends on them: the queues of the banks, the books of the
  controller through an access, and the fields of the memory that an access does not touch.
\<close>

section \<open>Queues of the banks\<close>

lemma push_pending:
  assumes ok: "db_ok db"
  shows "\<exists>db'. db_PushWrite a db = Some db' \<and> db_ok db' \<and> db_row_buffer_size db' = db_row_buffer_size db \<and> db_indices db' = db_indices db \<and>
    (\<forall>ij \<in> set (db_indices db). busy_time (bank_of db' ij) = busy_time (bank_of db ij)) \<and> db_pending db' = Suc (db_pending db)"
proof -
  let ?x = "(rank_ID (parsed a db), bank_ID (parsed a db))"
  obtain db' where d: "db_PushWrite a db = Some db'" "db_ok db'" "db_indices db' = db_indices db"
      "\<And>i j. db_get i j db' = map_option (\<lambda>b. if i = rank_ID (parsed a db) \<and> j = bank_ID (parsed a db)
         then b\<lparr>write_queue := write_queue b @ [parsed a db]\<rparr> else b) (db_get i j db)"
    using db_PushWrite_ok [OF ok, of a] by blast
  have rb: "db_row_buffer_size db' = db_row_buffer_size db"
    using d(1) by (auto simp: db_PushWrite_def db_set_def Option.bind_eq_Some_conv)
  have b: "bank_of db' ij = (if ij = ?x then (bank_of db ij)\<lparr>write_queue := write_queue (bank_of db ij) @ [parsed a db]\<rparr> else bank_of db ij)"
    if ij: "ij \<in> set (db_indices db)" for ij
  proof -
    obtain b0 where b0: "db_get (fst ij) (snd ij) db = Some b0" "bank_of db ij = b0" using bank_of_get [OF ij] by simp
    show ?thesis using d(4) [of "fst ij" "snd ij"] b0 by (cases ij) (auto simp: bank_of_def [of db'])
  qed
  have x: "?x \<in> set (db_indices db)"
    using parsed_in [OF db_okD(1) [OF ok], of a] db_get_cfg [OF db_okD(1) [OF ok]] set_db_indices [of "fst ?x" "snd ?x" db]
    by (metis db_get_def fst_conv option.distinct(1) snd_conv)
  let ?f = "\<lambda>db ij. length (write_queue (bank_of db ij))"
  have p: "db_pending d' = (\<Sum>ij \<in> set (db_indices d'). ?f d' ij)" for d'
    unfolding db_pending_def by (rule sum_list_distinct_conv_sum_set [OF distinct_db_indices])
  have "(\<Sum>ij \<in> set (db_indices db) - {?x}. ?f db' ij) = (\<Sum>ij \<in> set (db_indices db) - {?x}. ?f db ij)"
    by (intro sum.cong refl) (simp add: b)
  then have "db_pending db' = Suc (db_pending db)"
    unfolding p d(3) using x b [OF x] by (simp add: sum.remove [of _ ?x])
  then show ?thesis using d(1-3) rb b by (intro exI [of _ db']) simp
qed

text \<open>The view of the banks that a push of writes keeps.\<close>

definition bank_times :: "DRAMBanks \<Rightarrow> (int \<times> int) list \<times> int \<times> (64 word) list" where
  "bank_times db = (db_indices db, db_row_buffer_size db, map (\<lambda>ij. busy_time (bank_of db ij)) (db_indices db))"

lemma bank_times_views:
  assumes "bank_times db' = bank_times db"
  shows "all_free t db' = all_free t db" "finishing t db' = finishing t db" "db_indices db' = db_indices db"
    "db_row_buffer_size db' = db_row_buffer_size db"
proof -
  have i: "db_indices db' = db_indices db" using assms by (simp add: bank_times_def)
  have b: "busy_time (bank_of db' ij) = busy_time (bank_of db ij)" if "ij \<in> set (db_indices db)" for ij
    using assms that i by (simp add: bank_times_def)
  show "all_free t db' = all_free t db" by (simp add: all_free_def i b)
  show "finishing t db' = finishing t db" unfolding finishing_def i by (intro arg_cong [where f = length] filter_cong refl) (simp add: b)
  show "db_indices db' = db_indices db" by (rule i)
  show "db_row_buffer_size db' = db_row_buffer_size db" using assms by (simp add: bank_times_def)
qed

lemma push_writes_ok:
  "db_ok db \<Longrightarrow> \<exists>db'. push_writes as db = Some db' \<and> db_ok db' \<and> bank_times db' = bank_times db \<and> db_pending db' = db_pending db + length as"
proof (induction as arbitrary: db)
  case (Cons a as)
  obtain db1 where d: "db_PushWrite a db = Some db1" "db_ok db1" "db_row_buffer_size db1 = db_row_buffer_size db" "db_indices db1 = db_indices db"
      "\<forall>ij \<in> set (db_indices db). busy_time (bank_of db1 ij) = busy_time (bank_of db ij)" "db_pending db1 = Suc (db_pending db)"
    using push_pending [OF Cons.prems, of a] by blast
  have t: "bank_times db1 = bank_times db" using d(3-5) by (simp add: bank_times_def)
  obtain db' where "push_writes as db1 = Some db'" "db_ok db'" "bank_times db' = bank_times db1" "db_pending db' = db_pending db1 + length as"
    using Cons.IH [OF d(2)] by blast
  then show ?case using d t by (intro exI [of _ db']) simp
qed simp

lemma closed_times: "rows_closed db' = rows_closed db \<Longrightarrow> bank_times db' = bank_times db"
proof -
  assume c: "rows_closed db' = rows_closed db"
  have i: "db_indices db' = db_indices db" using closed_indices [of db'] closed_indices [of db] c by simp
  have "busy_time (bank_of db' ij) = busy_time (bank_of db ij)" if "ij \<in> set (db_indices db)" for ij
    using closed_bank [OF that] closed_bank [of ij db'] that i c by (metis Bank.select_convs Bank.simps(4-6) Bank.surjective)
  then show ?thesis using closed_cong [OF c] i by (simp add: bank_times_def)
qed

section \<open>Books of the controller\<close>

text \<open>The configurations in which the counts of the timing fit into their integers.\<close>

definition fits :: "HostStore ATC \<Rightarrow> bool" where
  "fits s \<longleftrightarrow> 0 < atc_bits s \<and> 2 ^ atc_bits s * int (length (db_indices (hs_banks (atc_mem s)))) < 2 ^ 31"

lemma inv_pages:
  assumes "mem_inv p s" "0 < atc_bits s"
  shows "page_geo (atc_bits s) (mc_page_bits (atc_mc s))" "pages_ok (atc_bits s) (mc_page_bits (atc_mc s)) (atc_mc s)"
    "acct_state (atc_bits s) (mc_page_bits (atc_mc s)) (tallies s) s" "distinct (map fst (mc_entries (atc_mc s)))"
proof -
  have i: "atc_inv s" using assms(1) by (simp add: mem_inv_def)
  note g = atc_geoD [OF atc_invD(1) [OF i]]
  have m: "mc_inv (atc_mc s)" by (rule atc_invD(6) [OF i])
  have geo: "mc_block_bits (atc_mc s) = atc_bits s" "atc_bits s \<le> mc_page_bits (atc_mc s)" "mc_page_bits (atc_mc s) \<le> 30"
    using g(4,5) by (simp_all add: mc_geometry_def)
  show "page_geo (atc_bits s) (mc_page_bits (atc_mc s))" using assms(2) geo by (simp add: page_geo_def)
  have "mc_fits (atc_mc s)" using assms(1) by (intro sim.pages_fit [of s p s]) (simp add: mem_inv_sys)
  then show po: "pages_ok (atc_bits s) (mc_page_bits (atc_mc s)) (atc_mc s)"
    using m geo(1) by (auto simp: pages_ok_def mc_inv_def mc_fits_def)
  show "acct_state (atc_bits s) (mc_page_bits (atc_mc s)) (tallies s) s" using po by (simp add: acct_state_def)
  show "distinct (map fst (mc_entries (atc_mc s)))" using m by (simp add: mc_inv_def)
qed

lemma dirty_bound:
  assumes "mc_inv mc"
  shows "0 \<le> mc_dirty_entries mc" "mc_dirty_entries mc \<le> mc_ptt_capacity mc"
proof -
  have "card (mc_dirty_pages mc) \<le> card {k. mc_find k mc \<noteq> None}"
    by (rule card_mono [OF finite_mc_find]) (auto simp: mc_dirty_pages_def)
  then show "mc_dirty_entries mc \<le> mc_ptt_capacity mc" "0 \<le> mc_dirty_entries mc"
    using assms card_mc_entries [OF assms] mc_inv_balanced [OF assms] by (simp_all add: mc_inv_def mc_slots_balanced_def)
qed

text \<open>The start of a checkpoint: what is counted on the bus is what is listed for the banks, and the books are open again.\<close>

lemma begin_books:
  assumes inv: "mem_inv p s" and fit: "fits s" and pf: "acct (atc_bits s) (mc_page_bits (atc_mc s)) 0 pf" and k: "settled s"
    and r: "atc_BeginCheckpointing (SimpleMemory_store p c) bl pf s = Some (bl', pf', s')"
  shows "acct (atc_bits s) (mc_page_bits (atc_mc s)) (int (length bl') - int (length bl)) pf'" "counted s'"
    "rows_closed (hs_banks (atc_mem s')) = rows_closed (hs_banks (atc_mem s))"
proof -
  have b: "0 < atc_bits s" using fit by (simp add: fits_def)
  note g = inv_pages [OF inv b]
  have m: "mc_inv (atc_mc s)" using inv by (simp add: mem_inv_def atc_inv_def)
  have "mc_dirty_entries (atc_mc s) * 2 ^ mc_page_bits (atc_mc s) \<le> mc_ptt_capacity (atc_mc s) * 2 ^ mc_page_bits (atc_mc s)"
    using dirty_bound(2) [OF m] by (intro mult_right_mono) simp_all
  moreover have "mc_ptt_capacity (atc_mc s) * 2 ^ mc_page_bits (atc_mc s) < 2 ^ 31" using inv by (simp add: mem_inv_def sim_ok_def virt_ok_def)
  ultimately have d: "mc_dirty_entries (atc_mc s) * 2 ^ mc_page_bits (atc_mc s) < 2 ^ 31" by (rule order.strict_trans1)
  show "acct (atc_bits s) (mc_page_bits (atc_mc s)) (int (length bl') - int (length bl)) pf'"
    by (rule BeginCheckpointing_acct [OF g(1) r pf g(3) dirty_bound(1) [OF m] d])
  show "counted s'" "rows_closed (hs_banks (atc_mem s')) = rows_closed (hs_banks (atc_mem s))"
    by (rule BeginCheckpointing_counted [OF g(1) r pf g(4) k])+
qed

lemma migrate_books:
  assumes inv: "mem_inv p s" and fit: "fits s" and pf: "acct (atc_bits s) (mc_page_bits (atc_mc s)) 0 pf"
    and k: "counted s" "numNVMWrites (atc_mem s) < 2 ^ 64" "numDRAMWrites (atc_mem s) < 2 ^ 64"
    and r: "atc_MigratePages (SimpleMemory_store p c) dr wr [] pf s = Some (bl', pf', s')"
  shows "settled s'" "acct (atc_bits s) (mc_page_bits (atc_mc s)) (int (length bl')) pf'"
    "rows_closed (hs_banks (atc_mem s')) = rows_closed (hs_banks (atc_mem s))"
proof -
  have b: "0 < atc_bits s" using fit by (simp add: fits_def)
  note g = inv_pages [OF inv b]
  have pf0: "acct (atc_bits s) (mc_page_bits (atc_mc s)) (int (length [])) pf" using pf by simp
  show "settled s'" "acct (atc_bits s) (mc_page_bits (atc_mc s)) (int (length bl')) pf'"
    "rows_closed (hs_banks (atc_mem s')) = rows_closed (hs_banks (atc_mem s))"
    by (rule MigratePages_settled [OF g(1) r pf0 refl g(2) k])+
qed

section \<open>Accesses\<close>

text \<open>Steps that are no phase of an epoch keep the phase, the queues and the books.\<close>

definition books :: "phase \<Rightarrow> HostStore ATC \<Rightarrow> bool" where
  "books ph s \<longleftrightarrow> (if ph = MIGRATED then settled s else counted s)"

lemma ledger_books: "ledger s' = ledger s \<Longrightarrow> books ph s' = books ph s"
  using ledger_counted [of s' s] by (simp add: books_def ledger_def settled_def)

lemma ledger_write_host [simp]: "ledger (write_host x bs s) = ledger s"
  by (simp add: ledger_def tallies_def counters_def write_host_def)

lemma ledger_banks: "ledger s' = ledger s \<Longrightarrow> rows_closed (hs_banks (atc_mem s')) = rows_closed (hs_banks (atc_mem s))"
  by (simp add: ledger_def tallies_def)

lemma step_books:
  assumes "mem_step p e c c'" "e \<noteq> Internal" "books (fst c) (snd c)"
  shows "fst c' = fst c \<and> books (fst c') (snd c') \<and> rows_closed (hs_banks (atc_mem (snd c'))) = rows_closed (hs_banks (atc_mem (snd c)))"
  using assms
proof (cases rule: mem_step.cases)
  case (load s a n pf x pf' s' ph)
  note l = LoadAddr_ledger [OF load(6)]
  show ?thesis using assms(3) ledger_books [OF l, of ph] ledger_banks [OF l] by (simp add: load(2,3))
next
  case (poke s a bs pf x pf' s' ph)
  have l: "ledger (write_host x bs s') = ledger s" using LoadAddr_ledger [OF poke(6)] by simp
  show ?thesis using assms(3) ledger_books [OF l, of ph] ledger_banks [OF l] by (simp add: poke(2,3))
next
  case (store ph s a bs pf x pf' s')
  then have k: "counted s" using assms(3) by (simp add: books_def)
  have c: "counted s'" "rows_closed (hs_banks (atc_mem s')) = rows_closed (hs_banks (atc_mem s))"
    using StoreAddr_counted [OF store(7) k] by simp_all
  have w: "ledger (write_host x bs s') = ledger s'" by simp
  show ?thesis using store(2,3,4) c ledger_counted [OF w] ledger_banks [OF w] by (simp add: books_def)
qed simp_all

lemma run_books:
  "mem_run p c es c' \<Longrightarrow> Internal \<notin> set es \<Longrightarrow> books (fst c) (snd c) \<Longrightarrow>
     fst c' = fst c \<and> books (fst c') (snd c') \<and> rows_closed (hs_banks (atc_mem (snd c'))) = rows_closed (hs_banks (atc_mem (snd c)))"
proof (induction rule: mem_run.induct)
  case (one c es c' e c'')
  then show ?case using step_books [OF one(2)] by auto
qed simp

lemma access_no_phase: "Internal \<notin> set (access_events a pkt pkt')" "Internal \<notin> set (functional_events a pkt pkt')"
  by (simp_all add: access_events_def functional_events_def)

definition am_books :: "AbstractMemory \<Rightarrow> AddrRange \<times> Profiler \<times> bool \<times> int \<times> 64 word" where
  "am_books m = (am_range m, am_profBase m, am_pmem m, am_bytesChannel m, am_ckBusUtil m)"

lemma am_books_parts:
  "am_LoadAddr p a pf m = Some (x, pf', m') \<Longrightarrow> am_books m' = am_books m"
  "am_StoreAddr p a sz pf m = Some (x, pf', m') \<Longrightarrow> am_books m' = am_books m"
  "trackLoadLocked pkt m = Some m' \<Longrightarrow> am_books m' = am_books m"
  "writeOK pkt m = Some (ok, pkt', m') \<Longrightarrow> am_books m' = am_books m"
  by (auto simp: am_LoadAddr_def am_StoreAddr_def trackLoadLocked_def writeOK_def checkLockedAddrList_def am_books_def Let_def
    Option.bind_eq_Some_conv split: if_splits prod.splits option.splits)

lemma am_books_write [simp]: "am_books (am_write x bs m) = am_books m"
  by (simp add: am_write_def am_books_def)

lemma am_books_counts [simp]:
  "am_books (m\<lparr>am_numOther := f\<rparr>) = am_books m" "am_books (m\<lparr>am_numReads := f\<rparr>) = am_books m" "am_books (m\<lparr>am_bytesRead := f\<rparr>) = am_books m"
  "am_books (m\<lparr>am_bytesInstRead := f\<rparr>) = am_books m" "am_books (m\<lparr>am_numWrites := f\<rparr>) = am_books m" "am_books (m\<lparr>am_bytesWritten := f\<rparr>) = am_books m"
  by (simp_all add: am_books_def)

lemma access_parts_books:
  "access_swap isz p pkt pf m = Some (pkt', pf', m') \<Longrightarrow> am_books m' = am_books m"
  "access_read p pkt pf m = Some (pkt', pf', m') \<Longrightarrow> am_books m' = am_books m"
  "access_write p pkt pf m = Some (pkt', pf', m') \<Longrightarrow> am_books m' = am_books m"
  by (auto simp: access_swap_def access_read_def access_write_def Let_def Option.bind_eq_Some_conv split: if_splits dest!: am_books_parts)

lemma access_books: "am_access isz p pkt pf m = Some (pkt', pf', m') \<Longrightarrow> am_books m' = am_books m"
  by (auto simp: am_access_def Option.bind_eq_Some_conv split: if_splits dest!: access_parts_books)

lemma functional_books: "functionalAccess ps p pkt m = Some (pkt', m') \<Longrightarrow> am_books m' = am_books m"
  by (auto simp: functionalAccess_def Option.bind_eq_Some_conv split: if_splits dest!: am_books_parts(1))

end
