(* ===== verification/Timed_Run.thy ===== *)
theory Timed_Run
  imports Timing_Frames
begin

text \<open>
  The memory in time. The invariant ties the flags, the events, the banks and the books of \<open>SimpleMemory\<close> together; every
  handler keeps it, and the events of the memory never fail one of the assertions of the code.
\<close>

section \<open>The invariant\<close>

text \<open>The phase of the epoch, which the memory shows by the event it waits for.\<close>

definition phase_of :: "SimpleMemory \<Rightarrow> phase" where
  "phase_of s = (if sm_freezeEvent s \<noteq> None then MIGRATED else if atc_ckpt (sm_ctrl s) then CKPT else RUN)"

text \<open>The profiler that every request starts from has the geometry of the controller.\<close>

definition prof_ok :: "AbstractMemory \<Rightarrow> bool" where
  "prof_ok m \<longleftrightarrow> pf_block_bits (am_profBase m) = atc_bits (am_ctrl m) \<and> pf_page_bits (am_profBase m) = mc_page_bits (atc_mc (am_ctrl m))"

definition frame_inv :: "AbstractMemory \<Rightarrow> bool" where
  "frame_inv m \<longleftrightarrow> am_ok m \<and> fits (am_ctrl m) \<and> prof_ok m"

definition ctrl_inv :: "SimpleMemoryParams \<Rightarrow> phase \<Rightarrow> AbstractMemory \<Rightarrow> bool" where
  "ctrl_inv p ph m \<longleftrightarrow> run_inv p (ph, am_ctrl m) \<and> books ph (am_ctrl m) \<and> frame_inv m"

text \<open>
  The memory is busy exactly while it will be released or frozen, a refused requester waits only while it is busy, and a
  writer waits for the checkpoint only while one is drained.
\<close>

definition flag_inv :: "SimpleMemory \<Rightarrow> bool" where
  "flag_inv s \<longleftrightarrow> (sm_isBusy s \<longleftrightarrow> sm_releaseEvent s \<noteq> None \<or> sm_freezeEvent s \<noteq> None) \<and>
     (sm_releaseEvent s = None \<or> sm_freezeEvent s = None) \<and> (sm_retryReq s \<longrightarrow> sm_isBusy s) \<and>
     (sm_freezeEvent s \<noteq> None \<longrightarrow> sm_retryReq s \<and> sm_ckptStart s \<noteq> 0) \<and>
     (sm_unfreezeEvent s \<noteq> None \<longleftrightarrow> atc_ckpt (sm_ctrl s)) \<and> (sm_unfreezeEvent s \<noteq> None \<longrightarrow> sm_ckptStart s \<noteq> 0) \<and>
     (isWait s \<longrightarrow> sm_unfreezeEvent s \<noteq> None) \<and> (sm_freezeEvent s = None \<longrightarrow> sm_ckptBlocks s = [])"

text \<open>All banks are free whenever a round of writes is due, and no write is queued but during a checkpoint.\<close>

definition bank_inv :: "Tick \<Rightarrow> Event \<Rightarrow> Event \<Rightarrow> DRAMBanks \<Rightarrow> bool" where
  "bank_inv now fz uf db \<longleftrightarrow>
     (case (fz, uf) of
        (Some t, _) \<Rightarrow> all_free t db \<and> finishing t db = 0 \<and> db_pending db = 0
      | (None, Some t) \<Rightarrow> all_free t db
      | (None, None) \<Rightarrow> all_free now db \<and> db_pending db = 0)"

text \<open>The blocks that are counted on the bus and not written yet.\<close>

definition outstanding :: "Event \<Rightarrow> Event \<Rightarrow> Addr list \<Rightarrow> DRAMBanks \<Rightarrow> nat" where
  "outstanding fz uf bl db =
     (case (fz, uf) of
        (Some t, _) \<Rightarrow> length bl
      | (None, Some t) \<Rightarrow> db_pending db + finishing t db
      | (None, None) \<Rightarrow> 0)"

definition bus_inv :: "nat \<Rightarrow> AbstractMemory \<Rightarrow> bool" where
  "bus_inv n m \<longleftrightarrow> 0 \<le> am_bytesChannel m \<and>
     word_of_int (am_bytesChannel m) = am_ckBusUtil m + word_of_int (int n * 2 ^ atc_bits (am_ctrl m))"

definition event_inv :: "Tick \<Rightarrow> SimpleMemory \<Rightarrow> bool" where
  "event_inv now s \<longleftrightarrow> (\<forall>ev \<in> {sm_releaseEvent s, sm_freezeEvent s, sm_unfreezeEvent s, sm_dequeueEvent s}. \<forall>t. ev = Some t \<longrightarrow> now \<le> t)"

definition core_inv :: "TimingParams \<Rightarrow> Tick \<Rightarrow> SimpleMemory \<Rightarrow> bool" where
  "core_inv tp now s \<longleftrightarrow> ctrl_inv (tp_store tp) (phase_of s) (sm_mem s) \<and> flag_inv s \<and>
     bank_inv now (sm_freezeEvent s) (sm_unfreezeEvent s) (sm_banks s) \<and>
     bus_inv (outstanding (sm_freezeEvent s) (sm_unfreezeEvent s) (sm_ckptBlocks s) (sm_banks s)) (sm_mem s) \<and> event_inv now s"

text \<open>A queued response will be sent: the peer has to ask for it, or the event is scheduled.\<close>

definition resp_inv :: "SimpleMemory \<Rightarrow> bool" where
  "resp_inv s \<longleftrightarrow> (sm_packetQueue s \<noteq> [] \<longleftrightarrow> sm_retryResp s \<or> sm_dequeueEvent s \<noteq> None) \<and>
     (sm_retryResp s \<and> sm_dequeueEvent s \<noteq> None \<longrightarrow> 2 \<le> length (sm_packetQueue s))"

definition sm_inv :: "TimingParams \<Rightarrow> Tick \<Rightarrow> SimpleMemory \<Rightarrow> bool" where
  "sm_inv tp now s \<longleftrightarrow> core_inv tp now s \<and> resp_inv s"

text \<open>What a handler does to the memory that programs see.\<close>

definition flows :: "event list \<Rightarrow> HostStore ATC \<Rightarrow> HostStore ATC \<Rightarrow> bool" where
  "flows es c c' \<longleftrightarrow> geometry_of c' = geometry_of c \<and> (\<forall>mem. agrees mem c \<longrightarrow> flat_trace es mem \<and> agrees (flat_result es mem) c')"

lemma flat_trace_append: "flat_trace (xs @ ys) mem \<longleftrightarrow> flat_trace xs mem \<and> flat_trace ys (flat_result xs mem)"
  by (induction xs arbitrary: mem) (simp_all add: flat_result_def)

lemma flows_refl [simp]: "flows [] c c"
  by (simp add: flows_def)

lemma flows_append: "flows es c c' \<Longrightarrow> flows es' c' c'' \<Longrightarrow> flows (es @ es') c c''"
  by (simp add: flows_def flat_trace_append) (simp add: flat_result_def)

lemma flows_step: "flat_step p c c' \<Longrightarrow> flows [] c c'"
  using agrees_same by (auto simp: flows_def flat_step_def)

lemma flows_run: "mem_run p (ph, c) es (ph', c') \<Longrightarrow> run_inv p (ph, c) \<Longrightarrow> flows es c c'"
  using run_refines [of p "(ph, c)" es "(ph', c')"] run_refines [of p "(ph, c)" es "(ph', c')" "logical c"] by (simp add: flows_def agrees_def [of "logical c"])

section \<open>Rounds of writes\<close>

lemma sm_banks_upd [simp]:
  "sm_banks (s\<lparr>sm_isBusy := b\<rparr>) = sm_banks s" "sm_banks (s\<lparr>sm_retryReq := b\<rparr>) = sm_banks s" "sm_banks (s\<lparr>sm_retryResp := b\<rparr>) = sm_banks s"
  "sm_banks (s\<lparr>sm_packetQueue := q\<rparr>) = sm_banks s" "sm_banks (s\<lparr>sm_waitStart := t\<rparr>) = sm_banks s" "sm_banks (s\<lparr>sm_ckptStart := t\<rparr>) = sm_banks s"
  "sm_banks (s\<lparr>sm_ckptBlocks := l\<rparr>) = sm_banks s" "sm_banks (s\<lparr>sm_releaseEvent := e\<rparr>) = sm_banks s" "sm_banks (s\<lparr>sm_freezeEvent := e\<rparr>) = sm_banks s"
  "sm_banks (s\<lparr>sm_unfreezeEvent := e\<rparr>) = sm_banks s" "sm_banks (s\<lparr>sm_dequeueEvent := e\<rparr>) = sm_banks s" "sm_banks (s\<lparr>sm_pendingDelete := d\<rparr>) = sm_banks s"
  "sm_banks (s\<lparr>sm_drainManager := b\<rparr>) = sm_banks s" "sm_banks (s\<lparr>sm_extraRespLatency := i\<rparr>) = sm_banks s" "sm_banks (s\<lparr>sm_totalCkptTime := i\<rparr>) = sm_banks s"
  "sm_banks (s\<lparr>sm_totalWaitTime := i\<rparr>) = sm_banks s" "sm_banks (s\<lparr>sm_numDirtyNVMBlocks := i\<rparr>) = sm_banks s" "sm_banks (s\<lparr>sm_numDirtyNVMPages := i\<rparr>) = sm_banks s"
  "sm_banks (s\<lparr>sm_numDirtyDRAMPages := i\<rparr>) = sm_banks s" "sm_banks (s\<lparr>sm_numPagesToDRAM := i\<rparr>) = sm_banks s" "sm_banks (s\<lparr>sm_numPagesToNVM := i\<rparr>) = sm_banks s"
  by (simp_all add: sm_banks_def)

lemma banks_ctrl:
  fixes c :: "HostStore ATC"
  assumes "db_ok db" "db_row_buffer_size db = db_row_buffer_size (hs_banks (atc_mem c))"
  defines "c' \<equiv> c\<lparr>atc_mem := (atc_mem c)\<lparr>hs_banks := db\<rparr>\<rparr>"
  shows "mem_inv p c \<Longrightarrow> mem_inv p c'" "run_inv p (ph, c) \<Longrightarrow> run_inv p (ph, c')" "counted c' = counted c" "flows [] c c'"
proof -
  have "virt_ok c' db = virt_ok c db" by (simp add: c'_def virt_ok_def GetVirtRegionBase_def atc_Size_def)
  then show m: "mem_inv p c \<Longrightarrow> mem_inv p c'"
    using assms(1) virt_ok_banks [OF assms(2), of c] by (simp add: mem_inv_def sim_ok_def) (simp add: c'_def)
  show "run_inv p (ph, c) \<Longrightarrow> run_inv p (ph, c')" using m by (cases ph) (simp_all add: run_inv_def c'_def)
  show "counted c' = counted c" by (simp add: counted_def c'_def)
  show "flows [] c c'" by (simp add: flows_def agrees_def logical_def c'_def geometry_of_def atc_Size_def)
qed

lemma finishing_le: "finishing t db \<le> length (db_indices db)"
  by (simp add: finishing_def)

lemma inv_facts:
  assumes "mem_inv p c"
  shows "db_ok (hs_banks (atc_mem c))" "att_block_size (atc_att c) = 2 ^ atc_bits c" "par_latency p \<noteq> 0"
proof -
  have s: "sim_ok p c (atc_mem c)" using assms by (simp add: mem_inv_def)
  show "db_ok (hs_banks (atc_mem c))" using s by (simp add: sim_ok_def)
  have "atc_bits c \<le> 30" using s by (simp add: sim_ok_def)
  then show "att_block_size (atc_att c) = 2 ^ atc_bits c" by (simp add: att_block_size_def int32_pow2)
  have "0 < int32 (sint (par_latency p))" using s by (simp add: sim_ok_def)
  then show "par_latency p \<noteq> 0" by (auto simp: int32_def)
qed

text \<open>A time that the clock can still count a latency from.\<close>

definition clock_ok :: "TimingParams \<Rightarrow> Tick \<Rightarrow> bool" where
  "clock_ok tp now \<longleftrightarrow> unat now + unat (par_latency (tp_store tp)) < 2 ^ 64 - 1"

lemma clock_later:
  assumes "clock_ok tp now" "par_latency (tp_store tp) \<noteq> 0"
  shows "now < now + par_latency (tp_store tp)" "now + par_latency (tp_store tp) \<noteq> 0"
proof -
  have "unat (now + par_latency (tp_store tp)) = unat now + unat (par_latency (tp_store tp))"
    using assms(1) by (simp add: clock_ok_def unat_add_lem [THEN iffD1])
  moreover have "0 < unat (par_latency (tp_store tp))" using assms(2) by (simp add: unat_gt_0)
  ultimately show "now < now + par_latency (tp_store tp)" by (simp add: word_less_nat_alt)
  then show "now + par_latency (tp_store tp) \<noteq> 0" by auto
qed

lemma round_done:
  assumes inv: "mem_inv (tp_store tp) (sm_ctrl s)" and fit: "fits (sm_ctrl s)" and f: "all_free now (sm_banks s)" and ck: "clock_ok tp now"
  shows "\<exists>db. sm_round tp now s = Some (if db_pending (sm_banks s) = 0 then 0 else now + par_latency (tp_store tp),
      set_banks db (add_ck (word_of_int (int (finishing now (sm_banks s)) * 2 ^ atc_bits (sm_ctrl s))) s)) \<and> db_ok db \<and>
    db_row_buffer_size db = db_row_buffer_size (sm_banks s) \<and> db_indices db = db_indices (sm_banks s) \<and>
    all_free (now + par_latency (tp_store tp)) db \<and> longest_queue db = longest_queue (sm_banks s) - 1 \<and>
    db_pending (sm_banks s) = db_pending db + finishing (now + par_latency (tp_store tp)) db \<and>
    (db_pending (sm_banks s) = 0 \<longrightarrow> all_free now db)"
proof -
  note i = inv_facts [OF inv]
  let ?l = "par_latency (tp_store tp)" and ?n = "int (finishing now (sm_banks s))" and ?b = "atc_bits (sm_ctrl s)"
  obtain ret db1 db where r: "db_Access_time now (sm_banks s) = Some (ret, ?n, db1)" "db_mark_busy (now + ?l) ret db1 = Some db"
      "db_ok db" "db_indices db = db_indices (sm_banks s)" "db_row_buffer_size db = db_row_buffer_size (sm_banks s)" "all_free (now + ?l) db"
      "longest_queue db = longest_queue (sm_banks s) - 1"
      "db_pending (sm_banks s) = db_pending db + finishing (now + ?l) db" "db_NextTime now db = (if db_pending (sm_banks s) = 0 then 0 else now + ?l)"
      "db_pending (sm_banks s) = 0 \<longrightarrow> all_free now db"
    using drain_round [OF i(1) [folded sm_banks_def] f i(3) ck [unfolded clock_ok_def]] by (elim exE conjE)
  have "2 ^ ?b * ?n \<le> 2 ^ ?b * int (length (db_indices (sm_banks s)))" using finishing_le by (intro mult_left_mono) simp_all
  moreover have "2 ^ ?b * int (length (db_indices (sm_banks s))) < 2 ^ 31" using fit by (simp add: fits_def sm_banks_def)
  ultimately have "2 ^ ?b * ?n < 2 ^ 31" by (rule order.strict_trans1)
  moreover have "0 \<le> 2 ^ ?b * ?n" by (intro mult_nonneg_nonneg) simp_all
  ultimately have "int32 (2 ^ ?b * ?n) = 2 ^ ?b * ?n" by (intro int32_id) linarith+
  then have "sm_round tp now s = Some (if db_pending (sm_banks s) = 0 then 0 else now + ?l, set_banks db (add_ck (word_of_int (?n * 2 ^ ?b)) s))"
    using r(1,2,9) by (simp add: sm_round_def i(2) mult.commute)
  then show ?thesis using r by (intro exI [of _ db]) simp
qed

section \<open>Events\<close>

lemmas inv_defs = ctrl_inv_def flag_inv_def event_inv_def core_inv_def

lemma core_invD:
  assumes "core_inv tp now s"
  shows "ctrl_inv (tp_store tp) (phase_of s) (sm_mem s)" "flag_inv s" "bank_inv now (sm_freezeEvent s) (sm_unfreezeEvent s) (sm_banks s)"
    "bus_inv (outstanding (sm_freezeEvent s) (sm_unfreezeEvent s) (sm_ckptBlocks s) (sm_banks s)) (sm_mem s)" "event_inv now s"
  using assms by (simp_all add: core_inv_def)

lemma ctrl_invD:
  assumes "ctrl_inv p ph m"
  shows "run_inv p (ph, am_ctrl m)" "books ph (am_ctrl m)" "frame_inv m" "mem_inv p (am_ctrl m)"
  using assms run_inv_mem [of p "(ph, am_ctrl m)"] by (simp_all add: ctrl_inv_def)

lemma frame_next:
  assumes "frame_inv m" "geometry_of (am_ctrl m') = geometry_of (am_ctrl m)"
    "db_indices (hs_banks (atc_mem (am_ctrl m'))) = db_indices (hs_banks (atc_mem (am_ctrl m)))"
    "am_range m' = am_range m" "am_pmem m' = am_pmem m" "am_profBase m' = am_profBase m" "one_each (am_locked m')"
  shows "frame_inv m'"
  using assms am_ok_cong [of m m'] geometry_fields [OF assms(2)] by (simp add: frame_inv_def fits_def prof_ok_def)

lemma frame_one_each: "frame_inv m \<Longrightarrow> one_each (am_locked m)"
  by (simp add: frame_inv_def am_ok_def)

text \<open>The two ends of a checkpoint in the controller.\<close>

lemma base_acct:
  assumes "prof_ok m"
  shows "acct (atc_bits (am_ctrl m)) (mc_page_bits (atc_mc (am_ctrl m))) 0 (Profiler_copy (am_profBase m))"
    "\<not> ignore_latency (Profiler_copy (am_profBase m))"
  using assms by (simp_all add: prof_ok_def acct_def Profiler_copy_def Profiler_init_def pf_SumBusUtil_def)

lemma begin_ctrl:
  assumes run: "run_inv p (MIGRATED, c)" and k: "settled c" and fit: "fits c" and pf: "acct (atc_bits c) (mc_page_bits (atc_mc c)) 0 pf"
  shows "\<exists>bl' pf' c'. atc_BeginCheckpointing (SimpleMemory_store p c) bl pf c = Some (bl', pf', c') \<and> run_inv p (CKPT, c') \<and> counted c' \<and>
    rows_closed (hs_banks (atc_mem c')) = rows_closed (hs_banks (atc_mem c)) \<and> flows [] c c' \<and>
    acct (atc_bits c) (mc_page_bits (atc_mc c)) (int (length bl') - int (length bl)) pf'"
proof -
  have i: "mem_inv p c" "\<not> atc_ckpt c" "tags (\<lambda>x. x = LOAN) (atc_map c) = {}" using run by (simp_all add: run_inv_def)
  obtain bl' pf' c' where b: "atc_BeginCheckpointing (SimpleMemory_store p c) bl pf c = Some (bl', pf', c')" "flat_step p c c'" "atc_ckpt c'" "atc_stats c'"
    using begin_flat [OF i] by blast
  have "run_inv p (CKPT, c')" using b(2-4) by (simp add: run_inv_def flat_step_def)
  then show ?thesis using begin_books [OF i(1) fit pf k b(1)] b(1) flows_step [OF b(2)] by (intro exI conjI)
qed

lemma finish_ctrl:
  assumes run: "run_inv p (CKPT, c)" and k: "counted c"
  shows "\<exists>c'. atc_FinishCheckpointing (SimpleMemory_store p c) pf c = Some c' \<and> run_inv p (RUN, c') \<and> counted c' \<and>
    rows_closed (hs_banks (atc_mem c')) = rows_closed (hs_banks (atc_mem c)) \<and> flows [] c c'"
proof -
  have i: "mem_inv p c" "atc_ckpt c" "atc_stats c" using run by (simp_all add: run_inv_def)
  obtain c' where f: "atc_FinishCheckpointing (SimpleMemory_store p c) pf c = Some c'" "flat_step p c c'" "\<not> atc_ckpt c'" "atc_stats c'"
    using finish_flat [OF i] by blast
  have "run_inv p (RUN, c')" using f(2-4) by (simp add: run_inv_def flat_step_def)
  moreover note l = FinishCheckpointing_ledger [OF f(1)]
  ultimately show ?thesis using f(1) flows_step [OF f(2)] ledger_banks [OF l] ledger_counted [OF l] k by (intro exI [of _ c']) simp
qed

lemma drain_step:
  assumes c: "ctrl_inv (tp_store tp) CKPT (sm_mem s)" and f: "all_free now (sm_banks s)" and ck: "clock_ok tp now"
    and bus: "bus_inv (db_pending (sm_banks s) + finishing now (sm_banks s)) (sm_mem s)"
  shows "\<exists>m. sm_round tp now s = Some (if db_pending (sm_banks s) = 0 then 0 else now + par_latency (tp_store tp), s\<lparr>sm_mem := m\<rparr>) \<and>
    ctrl_inv (tp_store tp) CKPT m \<and> flows [] (sm_ctrl s) (am_ctrl m) \<and> bus_inv (db_pending (sm_banks s)) m \<and>
    am_bytesChannel m = am_bytesChannel (sm_mem s) \<and> am_range m = am_range (sm_mem s) \<and> (let db = hs_banks (atc_mem (am_ctrl m)) in
      all_free (now + par_latency (tp_store tp)) db \<and> longest_queue db = longest_queue (sm_banks s) - 1 \<and>
      db_pending (sm_banks s) = db_pending db + finishing (now + par_latency (tp_store tp)) db \<and>
      (db_pending (sm_banks s) = 0 \<longrightarrow> all_free now db))"
proof -
  note c' = ctrl_invD [OF c]
  have fit: "fits (sm_ctrl s)" using c'(3) by (simp add: frame_inv_def)
  let ?k = "word_of_int (int (finishing now (sm_banks s)) * 2 ^ atc_bits (sm_ctrl s)) :: 64 word"
  obtain db where r: "sm_round tp now s = Some (if db_pending (sm_banks s) = 0 then 0 else now + par_latency (tp_store tp), set_banks db (add_ck ?k s))"
      "db_ok db" "db_row_buffer_size db = db_row_buffer_size (sm_banks s)" "db_indices db = db_indices (sm_banks s)"
      "all_free (now + par_latency (tp_store tp)) db" "longest_queue db = longest_queue (sm_banks s) - 1"
      "db_pending (sm_banks s) = db_pending db + finishing (now + par_latency (tp_store tp)) db" "db_pending (sm_banks s) = 0 \<longrightarrow> all_free now db"
    using round_done [OF c'(4) fit f ck] by (elim exE conjE)
  define m where "m = (sm_mem s)\<lparr>am_ckBusUtil := am_ckBusUtil (sm_mem s) + ?k, am_ctrl := (sm_ctrl s)\<lparr>atc_mem := (atc_mem (sm_ctrl s))\<lparr>hs_banks := db\<rparr>\<rparr>\<rparr>"
  have e: "set_banks db (add_ck ?k s) = s\<lparr>sm_mem := m\<rparr>" by (simp add: set_banks_def set_ctrl_def add_ck_def m_def)
  note b = banks_ctrl [OF r(2), of "sm_ctrl s", folded sm_banks_def, OF r(3)]
  have fl: "flows [] (sm_ctrl s) (am_ctrl m)" using b(4) by (simp add: m_def)
  have "frame_inv m" by (rule frame_next [OF c'(3)]) (use fl r(4) frame_one_each [OF c'(3)] in \<open>simp_all add: m_def flows_def sm_banks_def\<close>)
  then have "ctrl_inv (tp_store tp) CKPT m" using b(2) [OF c'(1)] b(3) c'(2) by (simp add: ctrl_inv_def m_def books_def)
  moreover have "bus_inv (db_pending (sm_banks s)) m" using bus by (simp add: bus_inv_def m_def algebra_simps)
  ultimately show ?thesis using r e fl by (intro exI [of _ m]) (simp add: m_def Let_def)
qed

lemma release_ok:
  assumes inv: "core_inv tp now s" and e: "sm_releaseEvent s = Some t"
  shows "sm_release (s\<lparr>sm_releaseEvent := None\<rparr>) = Some (sm_retryReq s, s\<lparr>sm_releaseEvent := None, sm_isBusy := False, sm_retryReq := False\<rparr>)"
    "core_inv tp now (s\<lparr>sm_releaseEvent := None, sm_isBusy := False, sm_retryReq := False\<rparr>)"
proof -
  have f: "sm_isBusy s" "sm_freezeEvent s = None" using inv e by (auto simp: core_inv_def flag_inv_def)
  show "sm_release (s\<lparr>sm_releaseEvent := None\<rparr>) = Some (sm_retryReq s, s\<lparr>sm_releaseEvent := None, sm_isBusy := False, sm_retryReq := False\<rparr>)"
    using f by (simp add: sm_release_def sm_send_retry_def)
  show "core_inv tp now (s\<lparr>sm_releaseEvent := None, sm_isBusy := False, sm_retryReq := False\<rparr>)"
    using inv f by (auto simp: inv_defs phase_of_def isWait_def)
qed

end
