(* ===== verification/Timed_Events.thy ===== *)
theory Timed_Events
  imports Timed_Run
begin

text \<open>
  The events of a checkpoint. When \<open>freeze\<close> and \<open>unfreeze\<close> fire, none of their assertions fails and the invariant holds
  afterwards; every round shortens the longest queue of the banks, and the last one ends the checkpoint.
\<close>

section \<open>The start of a checkpoint\<close>

lemma flows_nil: "flows [] a b \<Longrightarrow> flows [] b c \<Longrightarrow> flows [] a c"
  using flows_append [of "[]" a b "[]" c] by simp

lemma freeze_phase:
  assumes "core_inv tp now s" "sm_freezeEvent s = Some now"
  shows "run_inv (tp_store tp) (MIGRATED, sm_ctrl s)" "settled (sm_ctrl s)" "frame_inv (sm_mem s)" "sm_isBusy s" "sm_retryReq s" "sm_ckptStart s \<noteq> 0"
    "sm_releaseEvent s = None" "sm_unfreezeEvent s = None" "\<not> isWait s"
    "all_free now (sm_banks s)" "finishing now (sm_banks s) = 0" "db_pending (sm_banks s) = 0"
    "bus_inv (length (sm_ckptBlocks s)) (sm_mem s)" "event_inv now s" "sm_counts (sm_ctrl s)"
proof -
  note i = core_invD [OF assms(1)]
  have ph: "phase_of s = MIGRATED" using assms(2) by (simp add: phase_of_def)
  note c = ctrl_invD [OF i(1) [unfolded ph]]
  show "run_inv (tp_store tp) (MIGRATED, sm_ctrl s)" "frame_inv (sm_mem s)" by (fact c)+
  show k: "settled (sm_ctrl s)" using c(2) by (simp add: books_def)
  then show "sm_counts (sm_ctrl s)" by (simp add: sm_counts_def settled_def tallies_def counters_def)
  have nk: "\<not> atc_ckpt (sm_ctrl s)" using c(1) by (simp add: run_inv_def)
  show "sm_isBusy s" "sm_retryReq s" "sm_ckptStart s \<noteq> 0" "sm_releaseEvent s = None" "sm_unfreezeEvent s = None" "\<not> isWait s"
    using i(2) assms(2) nk by (auto simp: flag_inv_def)
  show "all_free now (sm_banks s)" "finishing now (sm_banks s) = 0" "db_pending (sm_banks s) = 0"
    using i(3) assms(2) by (simp_all add: bank_inv_def)
  show "bus_inv (length (sm_ckptBlocks s)) (sm_mem s)" using i(4) assms(2) by (simp add: outstanding_def)
  show "event_inv now s" by (fact i)
qed

text \<open>The blocks are counted on the bus and handed to the banks.\<close>

lemma freeze_banks:
  assumes c: "run_inv p (MIGRATED, am_ctrl m)" "settled (am_ctrl m)" "frame_inv m" and bus: "bus_inv (length bl) m"
    and z: "db_pending (hs_banks (atc_mem (am_ctrl m))) = 0"
  shows "\<exists>bl' pf' c1 db m'. atc_BeginCheckpointing (SimpleMemory_store p (am_ctrl m)) bl (Profiler_copy (am_profBase m)) (am_ctrl m) = Some (bl', pf', c1) \<and>
    push_writes (rev bl') (hs_banks (atc_mem c1)) = Some db \<and>
    m' = m\<lparr>am_ctrl := c1\<lparr>atc_mem := (atc_mem c1)\<lparr>hs_banks := db\<rparr>\<rparr>, am_bytesChannel := am_bytesChannel m + uint (pf_SumBusUtil False pf'),
      am_bytesInterChannel := am_bytesInterChannel m + uint (pf_SumBusUtil True pf')\<rparr> \<and>
    ctrl_inv p CKPT m' \<and> flows [] (am_ctrl m) (am_ctrl m') \<and> bus_inv (length bl') m' \<and> db_pending db = length bl' \<and>
    bank_times db = bank_times (hs_banks (atc_mem (am_ctrl m)))"
proof -
  have f: "fits (am_ctrl m)" "prof_ok m" using c(3) by (simp_all add: frame_inv_def)
  obtain bl' pf' c1 where b: "atc_BeginCheckpointing (SimpleMemory_store p (am_ctrl m)) bl (Profiler_copy (am_profBase m)) (am_ctrl m) = Some (bl', pf', c1)"
      "run_inv p (CKPT, c1)" "counted c1" "rows_closed (hs_banks (atc_mem c1)) = rows_closed (hs_banks (atc_mem (am_ctrl m)))" "flows [] (am_ctrl m) c1"
      "acct (atc_bits (am_ctrl m)) (mc_page_bits (atc_mc (am_ctrl m))) (int (length bl') - int (length bl)) pf'"
    using begin_ctrl [OF c(1,2) f(1) base_acct(1) [OF f(2)], of bl] by (elim exE conjE)
  have ok: "db_ok (hs_banks (atc_mem c1))" using inv_facts(1) [OF run_inv_mem [OF b(2)]] by simp
  obtain db where d: "push_writes (rev bl') (hs_banks (atc_mem c1)) = Some db" "db_ok db" "bank_times db = bank_times (hs_banks (atc_mem c1))"
      "db_pending db = db_pending (hs_banks (atc_mem c1)) + length (rev bl')"
    using push_writes_ok [OF ok] by blast
  note t = bank_times_views [OF d(3)]
  note g = banks_ctrl [OF d(2), of c1, OF t(4)]
  note ct = closed_times [OF b(4)]
  define m' where "m' = m\<lparr>am_ctrl := c1\<lparr>atc_mem := (atc_mem c1)\<lparr>hs_banks := db\<rparr>\<rparr>, am_bytesChannel := am_bytesChannel m + uint (pf_SumBusUtil False pf'),
      am_bytesInterChannel := am_bytesInterChannel m + uint (pf_SumBusUtil True pf')\<rparr>"
  have fl: "flows [] (am_ctrl m) (am_ctrl m')" using flows_nil [OF b(5) g(4)] by (simp add: m'_def)
  have bits: "atc_bits (am_ctrl m') = atc_bits (am_ctrl m)" using fl geometry_fields [of "am_ctrl m'" "am_ctrl m"] by (simp add: flows_def)
  have "frame_inv m'"
    by (rule frame_next [OF c(3)]) (use fl t(3) bank_times_views(3) [OF ct] frame_one_each [OF c(3)] in \<open>simp_all add: m'_def flows_def\<close>)
  then have "ctrl_inv p CKPT m'" using g(2) [OF b(2)] g(3) b(3) by (simp add: ctrl_inv_def m'_def books_def)
  moreover have "bus_inv (length bl') m'"
    using bus b(6) bits by (simp add: bus_inv_def m'_def acct_def algebra_simps)
  moreover have "db_pending db = length bl'" using d(4) closed_cong(1) [OF b(4)] z by simp
  ultimately show ?thesis using b(1) d(1,3) ct fl
    by (intro exI [of _ bl'] exI [of _ pf'] exI [of _ c1] exI [of _ db] exI [of _ m'] conjI) (simp_all add: m'_def)
qed

text \<open>The side of the memory that answers requests, which a checkpoint does not touch.\<close>

definition responses :: "SimpleMemory \<Rightarrow> DeferredPacket list \<times> bool \<times> Event \<times> AddrRange" where
  "responses s = (sm_packetQueue s, sm_retryResp s, sm_dequeueEvent s, am_range (sm_mem s))"

lemma ckpt_flag: "ctrl_inv p CKPT m \<Longrightarrow> atc_ckpt (am_ctrl m)" "ctrl_inv p RUN m \<Longrightarrow> \<not> atc_ckpt (am_ctrl m)"
  by (simp_all add: ctrl_inv_def run_inv_def)

lemma finish_mem:
  assumes c: "ctrl_inv p CKPT m" and bus: "bus_inv n m"
  shows "\<exists>c'. atc_FinishCheckpointing (SimpleMemory_store p (am_ctrl m)) pf (am_ctrl m) = Some c' \<and> ctrl_inv p RUN (m\<lparr>am_ctrl := c'\<rparr>) \<and>
    flows [] (am_ctrl m) c' \<and> rows_closed (hs_banks (atc_mem c')) = rows_closed (hs_banks (atc_mem (am_ctrl m))) \<and> bus_inv n (m\<lparr>am_ctrl := c'\<rparr>)"
proof -
  note i = ctrl_invD [OF c]
  have k: "counted (am_ctrl m)" using i(2) by (simp add: books_def)
  obtain c' where f: "atc_FinishCheckpointing (SimpleMemory_store p (am_ctrl m)) pf (am_ctrl m) = Some c'" "run_inv p (RUN, c')" "counted c'"
      "rows_closed (hs_banks (atc_mem c')) = rows_closed (hs_banks (atc_mem (am_ctrl m)))" "flows [] (am_ctrl m) c'"
    using finish_ctrl [OF i(1) k, of pf] by blast
  have g: "geometry_of c' = geometry_of (am_ctrl m)" using f(5) by (simp add: flows_def)
  have "frame_inv (m\<lparr>am_ctrl := c'\<rparr>)"
    by (rule frame_next [OF i(3)]) (use g bank_times_views(3) [OF closed_times [OF f(4)]] frame_one_each [OF i(3)] in simp_all)
  then have "ctrl_inv p RUN (m\<lparr>am_ctrl := c'\<rparr>)" using f(2,3) by (simp add: ctrl_inv_def books_def)
  moreover have "bus_inv n (m\<lparr>am_ctrl := c'\<rparr>)" using bus geometry_fields [OF g] by (simp add: bus_inv_def)
  ultimately show ?thesis using f(1,4,5) by (intro exI [of _ c']) simp
qed

lemma core_ckpt:
  assumes "ctrl_inv (tp_store tp) CKPT m" "all_free t (hs_banks (atc_mem (am_ctrl m)))"
    "bus_inv (db_pending (hs_banks (atc_mem (am_ctrl m))) + finishing t (hs_banks (atc_mem (am_ctrl m)))) m"
    "sm_mem s = m" "sm_freezeEvent s = None" "sm_unfreezeEvent s = Some t" "flag_inv s" "event_inv now s"
  shows "core_inv tp now s"
proof -
  have b: "sm_banks s = hs_banks (atc_mem (am_ctrl m))" using assms(4) by (simp add: sm_banks_def)
  have "phase_of s = CKPT" using ckpt_flag(1) [OF assms(1)] assms(4,5) by (simp add: phase_of_def)
  then show ?thesis using assms by (simp add: core_inv_def b bank_inv_def outstanding_def)
qed

lemma core_run:
  assumes "ctrl_inv (tp_store tp) RUN m" "all_free now (hs_banks (atc_mem (am_ctrl m)))" "db_pending (hs_banks (atc_mem (am_ctrl m))) = 0" "bus_inv 0 m"
    "sm_mem s = m" "sm_freezeEvent s = None" "sm_unfreezeEvent s = None" "flag_inv s" "event_inv now s"
  shows "core_inv tp now s"
proof -
  have b: "sm_banks s = hs_banks (atc_mem (am_ctrl m))" using assms(5) by (simp add: sm_banks_def)
  have "phase_of s = RUN" using ckpt_flag(2) [OF assms(1)] assms(5,6) by (simp add: phase_of_def)
  then show ?thesis using assms by (simp add: core_inv_def b bank_inv_def outstanding_def)
qed

lemma freeze_ok:
  assumes inv: "core_inv tp now s" and e: "sm_freezeEvent s = Some now" and ck: "clock_ok tp now"
  shows "\<exists>s'. sm_freeze tp now (s\<lparr>sm_freezeEvent := None\<rparr>) = Some (True, s') \<and> core_inv tp now s' \<and> flows [] (sm_ctrl s) (sm_ctrl s') \<and>
    responses s' = responses s \<and> \<not> sm_isBusy s' \<and> sm_ckptStart s' = sm_ckptStart s \<and>
    sm_unfreezeEvent s' \<in> {None, Some (now + par_latency (tp_store tp))}"
proof -
  let ?l = "par_latency (tp_store tp)"
  note z = freeze_phase [OF inv e]
  obtain bl pf c1 db m1 where b: "atc_BeginCheckpointing (SimpleMemory_store (tp_store tp) (sm_ctrl s)) (sm_ckptBlocks s) (Profiler_copy (am_profBase (sm_mem s))) (sm_ctrl s) = Some (bl, pf, c1)"
      "push_writes (rev bl) (hs_banks (atc_mem c1)) = Some db"
      "m1 = (sm_mem s)\<lparr>am_ctrl := c1\<lparr>atc_mem := (atc_mem c1)\<lparr>hs_banks := db\<rparr>\<rparr>, am_bytesChannel := am_bytesChannel (sm_mem s) + uint (pf_SumBusUtil False pf),
        am_bytesInterChannel := am_bytesInterChannel (sm_mem s) + uint (pf_SumBusUtil True pf)\<rparr>"
      "ctrl_inv (tp_store tp) CKPT m1" "flows [] (sm_ctrl s) (am_ctrl m1)" "bus_inv (length bl) m1" "db_pending db = length bl"
      "bank_times db = bank_times (hs_banks (atc_mem (sm_ctrl s)))"
    using freeze_banks [OF z(1,2,3,13) z(12) [unfolded sm_banks_def]] by (elim exE conjE)
  define mc where "mc = atc_mc (sm_ctrl s)"
  define s1 where "s1 = s\<lparr>sm_freezeEvent := None, sm_isBusy := False, sm_numDirtyNVMBlocks := uint (mc_dirty_nvm_blocks mc),
    sm_numDirtyNVMPages := uint (mc_dirty_nvm_pages mc), sm_numDirtyDRAMPages := uint (mc_dirty_dram_pages mc),
    sm_numPagesToDRAM := uint (atc_pages_to_dram (sm_ctrl s)), sm_numPagesToNVM := uint (atc_pages_to_nvm (sm_ctrl s)), sm_ckptBlocks := [], sm_mem := m1\<rparr>"
  have d: "sm_banks s1 = db" "sm_mem s1 = m1" by (simp_all add: s1_def sm_banks_def b(3))
  note v = bank_times_views [OF b(8), folded sm_banks_def]
  have f: "finishing now db = 0" "all_free now db" using v z(10,11) by simp_all
  have bus1: "bus_inv (db_pending db + finishing now db) m1" using b(6,7) f(1) by simp
  obtain m2 where r: "sm_round tp now s1 = Some (if length bl = 0 then 0 else now + ?l, s1\<lparr>sm_mem := m2\<rparr>)" "ctrl_inv (tp_store tp) CKPT m2"
      "flows [] (am_ctrl m1) (am_ctrl m2)" "bus_inv (length bl) m2" "am_bytesChannel m2 = am_bytesChannel m1" "am_range m2 = am_range m1"
      "all_free (now + ?l) (hs_banks (atc_mem (am_ctrl m2)))" "longest_queue (hs_banks (atc_mem (am_ctrl m2))) = longest_queue db - 1" "length bl = db_pending (hs_banks (atc_mem (am_ctrl m2))) + finishing (now + ?l) (hs_banks (atc_mem (am_ctrl m2)))"
      "length bl = 0 \<longrightarrow> all_free now (hs_banks (atc_mem (am_ctrl m2)))"
    using drain_step [of tp s1 now, unfolded d Let_def, OF b(4) f(2) ck bus1, unfolded b(7)] by (elim exE conjE)
  have L: "?l \<noteq> 0" by (rule inv_facts(3) [OF ctrl_invD(4) [OF b(4)]])
  note cl = clock_later [OF ck L]
  have run: "sm_freeze tp now (s\<lparr>sm_freezeEvent := None\<rparr>) = do {
      s \<leftarrow> (if length bl \<noteq> 0 then Some (s1\<lparr>sm_mem := m2, sm_unfreezeEvent := Some (now + ?l)\<rparr>) else sm_finish tp (s1\<lparr>sm_mem := m2\<rparr>));
      Some (sm_send_retry s) }"
  proof -
    have x: "set_banks db ((add_bus pf (set_ctrl c1 (s\<lparr>sm_freezeEvent := None, sm_isBusy := False, sm_numDirtyNVMBlocks := uint (mc_dirty_nvm_blocks mc),
      sm_numDirtyNVMPages := uint (mc_dirty_nvm_pages mc), sm_numDirtyDRAMPages := uint (mc_dirty_dram_pages mc),
      sm_numPagesToDRAM := uint (atc_pages_to_dram (sm_ctrl s)), sm_numPagesToNVM := uint (atc_pages_to_nvm (sm_ctrl s))\<rparr>)))\<lparr>sm_ckptBlocks := []\<rparr>) = s1"
      by (simp add: s1_def b(3) set_banks_def set_ctrl_def add_bus_def)
    have y: "sm_banks (add_bus pf (set_ctrl c1 s)) = hs_banks (atc_mem c1)" for s by (simp add: sm_banks_def add_bus_def set_ctrl_def)
    have u: "sm_unfreezeEvent s1 = None" using z(8) by (simp add: s1_def)
    show ?thesis
      using z(4,15) b(1,2) r(1) cl(2) order_less_imp_le [OF cl(1)] u by (simp add: sm_freeze_def Let_def mc_def [symmetric] x y ev_schedule_def)
  qed
  show ?thesis
  proof (cases "length bl = 0")
    case False
    define s' where "s' = s1\<lparr>sm_mem := m2, sm_unfreezeEvent := Some (now + ?l), sm_retryReq := False\<rparr>"
    have "sm_freeze tp now (s\<lparr>sm_freezeEvent := None\<rparr>) = Some (True, s')"
      using run False z(5) by (simp add: sm_send_retry_def s'_def s1_def)
    moreover have "core_inv tp now s'"
    proof (rule core_ckpt [OF r(2,7)])
      show "bus_inv (db_pending (hs_banks (atc_mem (am_ctrl m2))) + finishing (now + ?l) (hs_banks (atc_mem (am_ctrl m2)))) m2" using r(4,9) by simp
      show "flag_inv s'" using z(6,7,9) ckpt_flag(1) [OF r(2)] by (simp add: flag_inv_def s'_def s1_def isWait_def)
      show "event_inv now s'" using z(14) cl by (auto simp: event_inv_def s'_def s1_def)
    qed (simp_all add: s'_def s1_def)
    moreover have "responses s' = responses s" using r(6) by (simp add: responses_def s'_def s1_def b(3))
    moreover have "flows [] (sm_ctrl s) (sm_ctrl s')" using flows_nil [OF b(5) r(3)] by (simp add: s'_def)
    ultimately show ?thesis by (intro exI [of _ s']) (simp add: s'_def s1_def)
  next
    case True
    obtain c' where fin: "atc_FinishCheckpointing (SimpleMemory_store (tp_store tp) (am_ctrl m2)) (Profiler_init 0 0) (am_ctrl m2) = Some c'"
        "ctrl_inv (tp_store tp) RUN (m2\<lparr>am_ctrl := c'\<rparr>)" "flows [] (am_ctrl m2) c'"
        "rows_closed (hs_banks (atc_mem c')) = rows_closed (hs_banks (atc_mem (am_ctrl m2)))" "bus_inv (length bl) (m2\<lparr>am_ctrl := c'\<rparr>)"
      using finish_mem [OF r(2,4)] by blast
    note w = closed_cong [OF fin(4)]
    define s' where "s' = s1\<lparr>sm_mem := m2\<lparr>am_ctrl := c'\<rparr>, sm_retryReq := False\<rparr>"
    have "sm_freeze tp now (s\<lparr>sm_freezeEvent := None\<rparr>) = Some (True, s')"
      using run True z(5) fin(1) by (simp add: sm_send_retry_def s'_def s1_def sm_finish_def set_ctrl_def)
    moreover have "core_inv tp now s'"
    proof (rule core_run [OF fin(2)])
      show "all_free now (hs_banks (atc_mem (am_ctrl (m2\<lparr>am_ctrl := c'\<rparr>))))" "db_pending (hs_banks (atc_mem (am_ctrl (m2\<lparr>am_ctrl := c'\<rparr>)))) = 0"
        using w r(9,10) True by simp_all
      show "bus_inv 0 (m2\<lparr>am_ctrl := c'\<rparr>)" using fin(5) True by simp
      show "flag_inv s'" using z(7,8,9) ckpt_flag(2) [OF fin(2)] by (simp add: flag_inv_def s'_def s1_def isWait_def)
      show "event_inv now s'" using z(14) by (auto simp: event_inv_def s'_def s1_def)
    qed (simp_all add: s'_def s1_def z(8))
    moreover have "responses s' = responses s" using r(6) by (simp add: responses_def s'_def s1_def b(3))
    moreover have "flows [] (sm_ctrl s) (sm_ctrl s')" using flows_nil [OF flows_nil [OF b(5) r(3)] fin(3)] by (simp add: s'_def)
    ultimately show ?thesis using z(8) by (intro exI [of _ s']) (simp add: s'_def s1_def)
  qed
qed

section \<open>Rounds and the end of a checkpoint\<close>

lemma unfreeze_phase:
  assumes "core_inv tp now s" "sm_unfreezeEvent s = Some now"
  shows "ctrl_inv (tp_store tp) CKPT (sm_mem s)" "sm_freezeEvent s = None" "sm_ckptStart s \<noteq> 0" "sm_ckptBlocks s = []"
    "all_free now (sm_banks s)" "bus_inv (db_pending (sm_banks s) + finishing now (sm_banks s)) (sm_mem s)" "event_inv now s" "flag_inv s"
proof -
  note i = core_invD [OF assms(1)]
  have f: "atc_ckpt (sm_ctrl s)" "sm_ckptStart s \<noteq> 0" using i(2) assms(2) by (auto simp: flag_inv_def)
  have fz: "sm_freezeEvent s = None"
  proof (rule ccontr)
    assume "sm_freezeEvent s \<noteq> None"
    then have "phase_of s = MIGRATED" by (simp add: phase_of_def)
    then show False using ctrl_invD(1) [OF i(1)] f(1) by (simp add: run_inv_def)
  qed
  then have "phase_of s = CKPT" using f(1) by (simp add: phase_of_def)
  then show "ctrl_inv (tp_store tp) CKPT (sm_mem s)" using i(1) by simp
  show "sm_freezeEvent s = None" "sm_ckptStart s \<noteq> 0" by (fact fz f)+
  show "sm_ckptBlocks s = []" using i(2) fz by (simp add: flag_inv_def)
  show "all_free now (sm_banks s)" using i(3) fz assms(2) by (simp add: bank_inv_def)
  show "bus_inv (db_pending (sm_banks s) + finishing now (sm_banks s)) (sm_mem s)" using i(4) fz assms(2) by (simp add: outstanding_def)
  show "event_inv now s" "flag_inv s" by (fact i)+
qed

text \<open>A round that leaves writes to be done: the event is scheduled again.\<close>

lemma unfreeze_round:
  assumes inv: "core_inv tp now s" and e: "sm_unfreezeEvent s = Some now" and ck: "clock_ok tp now" and p: "db_pending (sm_banks s) \<noteq> 0"
  shows "\<exists>s'. sm_unfreeze tp now (s\<lparr>sm_unfreezeEvent := None\<rparr>) = Some (False, s') \<and> core_inv tp now s' \<and> flows [] (sm_ctrl s) (sm_ctrl s') \<and>
    responses s' = responses s \<and> sm_unfreezeEvent s' = Some (now + par_latency (tp_store tp)) \<and>
    longest_queue (sm_banks s') = longest_queue (sm_banks s) - 1 \<and> am_bytesChannel (sm_mem s') = am_bytesChannel (sm_mem s) \<and>
    sm_ckptStart s' = sm_ckptStart s \<and> sm_waitStart s' = sm_waitStart s"
proof -
  let ?l = "par_latency (tp_store tp)"
  note z = unfreeze_phase [OF inv e]
  define s1 where "s1 = s\<lparr>sm_unfreezeEvent := None\<rparr>"
  have d: "sm_banks s1 = sm_banks s" "sm_mem s1 = sm_mem s" by (simp_all add: s1_def)
  obtain m2 where r: "sm_round tp now s1 = Some (if db_pending (sm_banks s) = 0 then 0 else now + ?l, s1\<lparr>sm_mem := m2\<rparr>)" "ctrl_inv (tp_store tp) CKPT m2"
      "flows [] (sm_ctrl s) (am_ctrl m2)" "bus_inv (db_pending (sm_banks s)) m2" "am_bytesChannel m2 = am_bytesChannel (sm_mem s)" "am_range m2 = am_range (sm_mem s)"
      "all_free (now + ?l) (hs_banks (atc_mem (am_ctrl m2)))" "longest_queue (hs_banks (atc_mem (am_ctrl m2))) = longest_queue (sm_banks s) - 1"
      "db_pending (sm_banks s) = db_pending (hs_banks (atc_mem (am_ctrl m2))) + finishing (now + ?l) (hs_banks (atc_mem (am_ctrl m2)))"
    using drain_step [of tp s1 now, unfolded d Let_def, OF z(1,5) ck z(6)] by (elim exE conjE)
  have L: "?l \<noteq> 0" by (rule inv_facts(3) [OF ctrl_invD(4) [OF z(1)]])
  note cl = clock_later [OF ck L]
  define s' where "s' = s1\<lparr>sm_mem := m2, sm_unfreezeEvent := Some (now + ?l)\<rparr>"
  have "sm_unfreeze tp now (s\<lparr>sm_unfreezeEvent := None\<rparr>) = Some (False, s')"
    using r(1) p cl(2) order_less_imp_le [OF cl(1)] unfolding s1_def [symmetric] by (simp add: sm_unfreeze_def ev_schedule_def s'_def) (simp add: s1_def)
  moreover have "core_inv tp now s'"
  proof (rule core_ckpt [OF r(2,7)])
    show "bus_inv (db_pending (hs_banks (atc_mem (am_ctrl m2))) + finishing (now + ?l) (hs_banks (atc_mem (am_ctrl m2)))) m2" using r(4,9) by simp
    show "flag_inv s'" using z(8) ckpt_flag(1) [OF r(2)] e by (auto simp: flag_inv_def s'_def s1_def isWait_def)
    show "event_inv now s'" using z(7) cl by (auto simp: event_inv_def s'_def s1_def)
  qed (simp_all add: s'_def s1_def z(2))
  ultimately show ?thesis using r(3,5,6,8) by (intro exI [of _ s']) (simp add: s'_def s1_def responses_def sm_banks_def)
qed

text \<open>The last round: the controller finishes the checkpoint, and who waited for it is told to retry.\<close>

lemma unfreeze_last:
  assumes inv: "core_inv tp now s" and e: "sm_unfreezeEvent s = Some now" and ck: "clock_ok tp now" and p: "db_pending (sm_banks s) = 0"
    and bytes: "am_bytesChannel (sm_mem s) < 2 ^ 64"
  shows "\<exists>s'. sm_unfreeze tp now (s\<lparr>sm_unfreezeEvent := None\<rparr>) = Some (isWait s, s') \<and> core_inv tp now s' \<and> flows [] (sm_ctrl s) (sm_ctrl s') \<and>
    responses s' = responses s \<and> \<not> atc_ckpt (sm_ctrl s') \<and> \<not> isWait s' \<and> sm_ckptStart s' = 0 \<and>
    sm_totalCkptTime s' = sm_totalCkptTime s + uint (now - sm_ckptStart s)"
proof -
  let ?l = "par_latency (tp_store tp)"
  note z = unfreeze_phase [OF inv e]
  define s1 where "s1 = s\<lparr>sm_unfreezeEvent := None\<rparr>"
  have d: "sm_banks s1 = sm_banks s" "sm_mem s1 = sm_mem s" by (simp_all add: s1_def)
  obtain m2 where r: "sm_round tp now s1 = Some (if db_pending (sm_banks s) = 0 then 0 else now + ?l, s1\<lparr>sm_mem := m2\<rparr>)" "ctrl_inv (tp_store tp) CKPT m2"
      "flows [] (sm_ctrl s) (am_ctrl m2)" "bus_inv (db_pending (sm_banks s)) m2" "am_bytesChannel m2 = am_bytesChannel (sm_mem s)" "am_range m2 = am_range (sm_mem s)"
      "db_pending (sm_banks s) = db_pending (hs_banks (atc_mem (am_ctrl m2))) + finishing (now + ?l) (hs_banks (atc_mem (am_ctrl m2)))"
      "db_pending (sm_banks s) = 0 \<longrightarrow> all_free now (hs_banks (atc_mem (am_ctrl m2)))"
    using drain_step [of tp s1 now, unfolded d Let_def, OF z(1,5) ck z(6)] by (elim exE conjE)
  obtain c' where fin: "atc_FinishCheckpointing (SimpleMemory_store (tp_store tp) (am_ctrl m2)) (Profiler_init 0 0) (am_ctrl m2) = Some c'"
      "ctrl_inv (tp_store tp) RUN (m2\<lparr>am_ctrl := c'\<rparr>)" "flows [] (am_ctrl m2) c'"
      "rows_closed (hs_banks (atc_mem c')) = rows_closed (hs_banks (atc_mem (am_ctrl m2)))" "bus_inv (db_pending (sm_banks s)) (m2\<lparr>am_ctrl := c'\<rparr>)"
    using finish_mem [OF r(2,4)] by blast
  note w = closed_cong [OF fin(4)]
  have b: "word_of_int (am_bytesChannel m2) = am_ckBusUtil m2" "0 \<le> am_bytesChannel m2" using fin(5) p by (simp_all add: bus_inv_def)
  have bus: "uint (am_ckBusUtil m2) = am_bytesChannel m2"
    using b(2) r(5) bytes unfolding b(1) [symmetric] by (simp add: uint_word_of_int take_bit_int_eq_self)
  define s' where "s' = s1\<lparr>sm_mem := m2\<lparr>am_ctrl := c'\<rparr>, sm_ckptStart := 0, sm_totalCkptTime := sm_totalCkptTime s + uint (now - sm_ckptStart s),
    sm_totalWaitTime := (if isWait s then sm_totalWaitTime s + uint (now - sm_waitStart s) else sm_totalWaitTime s), sm_waitStart := 0\<rparr>"
  have "sm_unfreeze tp now (s\<lparr>sm_unfreezeEvent := None\<rparr>) = Some (isWait s, s')"
  proof -
    have k: "0 < sm_ckptStart s" using z(3) by (simp add: word_neq_0_conv)
    show ?thesis using r(1) p fin(1) bus z(3) k unfolding s1_def [symmetric]
      by (simp add: sm_unfreeze_def sm_finish_def set_ctrl_def getCkptTime_def clearWait_def isWait_def Let_def s'_def) (simp add: s1_def isWait_def)
  qed
  moreover have "core_inv tp now s'"
  proof (rule core_run [OF fin(2)])
    show "all_free now (hs_banks (atc_mem (am_ctrl (m2\<lparr>am_ctrl := c'\<rparr>))))" "db_pending (hs_banks (atc_mem (am_ctrl (m2\<lparr>am_ctrl := c'\<rparr>)))) = 0"
      using w r(7,8) p by simp_all
    show "bus_inv 0 (m2\<lparr>am_ctrl := c'\<rparr>)" using fin(5) p by simp
    show "flag_inv s'" using z(2,4,8) ckpt_flag(2) [OF fin(2)] by (auto simp: flag_inv_def s'_def s1_def isWait_def)
    show "event_inv now s'" using z(7) by (auto simp: event_inv_def s'_def s1_def)
  qed (simp_all add: s'_def s1_def z(2))
  moreover have "responses s' = responses s" using r(6) by (simp add: responses_def s'_def s1_def)
  moreover have "flows [] (sm_ctrl s) (sm_ctrl s')" using flows_nil [OF r(3) fin(3)] by (simp add: s'_def)
  ultimately show ?thesis using ckpt_flag(2) [OF fin(2)] by (intro exI [of _ s']) (simp add: s'_def s1_def isWait_def)
qed

end
