(* ===== verification/Timed_Requests.thy ===== *)
theory Timed_Requests
  imports Timed_Events
begin

text \<open>
  Requests in time. A request is refused and its sender told to wait for a retry, ends the epoch, waits for the checkpoint,
  or is served: then its access acts on the memory as programs see it, and its response is queued.
\<close>

section \<open>The end of an epoch\<close>

lemma all_free_later:
  assumes "all_free now db" "now < t"
  shows "all_free t db" "finishing t db = 0"
  using assms by (auto simp: all_free_def finishing_def filter_empty_conv)

lemma idle_phase:
  assumes "core_inv tp now s" "sm_freezeEvent s = None" "\<not> atc_ckpt (sm_ctrl s)"
  shows "ctrl_inv (tp_store tp) RUN (sm_mem s)" "sm_unfreezeEvent s = None" "all_free now (sm_banks s)" "db_pending (sm_banks s) = 0"
    "bus_inv 0 (sm_mem s)" "sm_ckptBlocks s = []" "\<not> isWait s"
proof -
  note i = core_invD [OF assms(1)]
  show "ctrl_inv (tp_store tp) RUN (sm_mem s)" using i(1) assms by (simp add: phase_of_def)
  show u: "sm_unfreezeEvent s = None" using i(2) assms(3) by (auto simp: flag_inv_def)
  show "all_free now (sm_banks s)" "db_pending (sm_banks s) = 0" using i(3) assms(2) u by (simp_all add: bank_inv_def)
  show "bus_inv 0 (sm_mem s)" using i(4) assms(2) u by (simp add: outstanding_def)
  show "sm_ckptBlocks s = []" "\<not> isWait s" using i(2) assms(2) u by (auto simp: flag_inv_def)
qed

lemma core_migrated:
  assumes "ctrl_inv (tp_store tp) MIGRATED m" "all_free t (hs_banks (atc_mem (am_ctrl m)))" "finishing t (hs_banks (atc_mem (am_ctrl m))) = 0"
    "db_pending (hs_banks (atc_mem (am_ctrl m))) = 0" "bus_inv (length (sm_ckptBlocks s)) m"
    "sm_mem s = m" "sm_freezeEvent s = Some t" "flag_inv s" "event_inv now s"
  shows "core_inv tp now s"
  using assms by (simp add: core_inv_def sm_banks_def phase_of_def bank_inv_def outstanding_def)

text \<open>What no request changes: the end of the checkpoint, the queues of the banks, the range of the memory.\<close>

definition calm :: "SimpleMemory \<Rightarrow> SimpleMemory \<Rightarrow> bool" where
  "calm s s' \<longleftrightarrow> sm_unfreezeEvent s' = sm_unfreezeEvent s \<and> rows_closed (sm_banks s') = rows_closed (sm_banks s) \<and> am_range (sm_mem s') = am_range (sm_mem s)"

lemma calm_trans: "calm a b \<Longrightarrow> calm b c \<Longrightarrow> calm a c"
  by (simp add: calm_def)

lemma new_epoch_ok:
  assumes inv: "core_inv tp now s" and idle: "sm_freezeEvent s = None" "\<not> atc_ckpt (sm_ctrl s)" "\<not> sm_isBusy s" and now: "now \<noteq> 0"
    and k: "numNVMWrites (atc_mem (sm_ctrl s)) < 2 ^ 64" "numDRAMWrites (atc_mem (sm_ctrl s)) < 2 ^ 64"
    and r: "sm_new_epoch tp now s = Some s'" and fresh: "\<And>t. sm_freezeEvent s' = Some t \<Longrightarrow> now < t"
  shows "core_inv tp now s' \<and> flows [] (sm_ctrl s) (sm_ctrl s') \<and> responses s' = responses s \<and> sm_retryReq s' \<and> calm s s'"
proof -
  note z = idle_phase [OF inv idle(1,2)]
  note c = ctrl_invD [OF z(1)]
  have f: "fits (sm_ctrl s)" "prof_ok (sm_mem s)" using c(3) by (simp_all add: frame_inv_def)
  note pf = base_acct [OF f(2)]
  have i: "mem_inv (tp_store tp) (sm_ctrl s)" "\<not> atc_ckpt (sm_ctrl s)" "atc_stats (sm_ctrl s)" using c(1) by (simp_all add: run_inv_def)
  have cnt: "counted (sm_ctrl s)" using c(2) by (simp add: books_def)
  obtain bl pf' c1 where m: "atc_MigratePages (SimpleMemory_store (tp_store tp) (sm_ctrl s)) 0.33 0.67 [] (Profiler_copy (am_profBase (sm_mem s))) (sm_ctrl s) = Some (bl, pf', c1)"
      "flat_step (tp_store tp) (sm_ctrl s) c1" "\<not> atc_ckpt c1" "tags (\<lambda>x. x = LOAN) (atc_map c1) = {}"
    using migrate_flat [OF i pf(2), of "0.33" "0.67" "[]"] by blast
  note b = migrate_books [OF i(1) f(1) pf(1) cnt k m(1)]
  note ct = closed_times [OF b(3)]
  note v = bank_times_views [OF ct, folded sm_banks_def]
  define m1 where "m1 = (sm_mem s)\<lparr>am_ctrl := c1, am_bytesChannel := am_bytesChannel (sm_mem s) + uint (pf_SumBusUtil False pf'),
    am_bytesInterChannel := am_bytesInterChannel (sm_mem s) + uint (pf_SumBusUtil True pf')\<rparr>"
  have g: "geometry_of c1 = geometry_of (sm_ctrl s)" using m(2) by (simp add: flat_step_def)
  obtain w t where s': "s' = s\<lparr>sm_ckptBlocks := bl, sm_mem := m1, sm_totalWaitTime := w, sm_ckptStart := now, sm_freezeEvent := Some t, sm_isBusy := True, sm_retryReq := True\<rparr>"
    using r z(6) unfolding sm_new_epoch_def Let_def z(6) m(1)
    by (auto simp: Option.bind_eq_Some_conv add_bus_def set_ctrl_def setCkptStart_def ev_schedule_def m1_def)
  have t: "now < t" using fresh [of t] by (simp add: s')
  have "frame_inv m1" by (rule frame_next [OF c(3)]) (use g v(3) frame_one_each [OF c(3)] in \<open>simp_all add: m1_def sm_banks_def\<close>)
  then have ci: "ctrl_inv (tp_store tp) MIGRATED m1" using m(2-4) b(1) by (simp add: ctrl_inv_def run_inv_def books_def m1_def flat_step_def)
  have "core_inv tp now s'"
  proof (rule core_migrated [OF ci])
    show "all_free t (hs_banks (atc_mem (am_ctrl m1)))" "finishing t (hs_banks (atc_mem (am_ctrl m1))) = 0"
      using all_free_later [OF z(3) t] v by (simp_all add: m1_def)
    show "db_pending (hs_banks (atc_mem (am_ctrl m1))) = 0" using closed_cong(1) [OF b(3)] z(4) by (simp add: m1_def sm_banks_def)
    show "bus_inv (length (sm_ckptBlocks s')) m1" using z(5) b(2) geometry_fields [OF g] by (simp add: s' bus_inv_def m1_def acct_def)
    show "flag_inv s'" using core_invD(2) [OF inv] idle now z(2,7) ci by (auto simp: flag_inv_def s' isWait_def ctrl_inv_def run_inv_def)
    show "event_inv now s'" using core_invD(5) [OF inv] t by (auto simp: event_inv_def s')
  qed (simp_all add: s')
  moreover have "flows [] (sm_ctrl s) (sm_ctrl s')" using flows_step [OF m(2)] by (simp add: s' m1_def)
  moreover have "calm s s'" using b(3) by (simp add: calm_def s' m1_def sm_banks_def)
  ultimately show ?thesis by (simp add: s' responses_def m1_def)
qed

lemma Probe_phase:
  "atc_Probe a c = Some NEW_EPOCH \<Longrightarrow> \<not> atc_ckpt c" "atc_Probe a c = Some WAIT_CKPT \<Longrightarrow> atc_ckpt c"
  by (auto simp: atc_Probe_def Let_def Option.bind_eq_Some_conv split: if_splits)

section \<open>Serving a request\<close>

text \<open>The events and flags of a memory are those of the invariant whatever the queue of responses holds.\<close>

lemma core_mem:
  assumes inv: "core_inv tp now s" and c: "ctrl_inv (tp_store tp) (phase_of s) m"
    and b: "rows_closed (hs_banks (atc_mem (am_ctrl m))) = rows_closed (sm_banks s)"
    and bus: "\<And>n. bus_inv n (sm_mem s) \<Longrightarrow> bus_inv n m"
  shows "core_inv tp now (s\<lparr>sm_mem := m\<rparr>)" "phase_of (s\<lparr>sm_mem := m\<rparr>) = phase_of s"
proof -
  note i = core_invD [OF inv]
  have k: "atc_ckpt (am_ctrl m) = atc_ckpt (sm_ctrl s)"
    using c ctrl_invD(1) [OF i(1)] by (cases "phase_of s") (simp_all add: ctrl_inv_def run_inv_def)
  then show p: "phase_of (s\<lparr>sm_mem := m\<rparr>) = phase_of s" by (simp add: phase_of_def)
  have sb: "sm_banks (s\<lparr>sm_mem := m\<rparr>) = hs_banks (atc_mem (am_ctrl m))" by (simp add: sm_banks_def)
  note v = bank_times_views [OF closed_times [OF b]] closed_cong [OF b]
  have "bank_inv now (sm_freezeEvent s) (sm_unfreezeEvent s) (hs_banks (atc_mem (am_ctrl m)))"
    using i(3) v by (simp add: bank_inv_def split: option.splits)
  moreover have "outstanding (sm_freezeEvent s) (sm_unfreezeEvent s) (sm_ckptBlocks s) (hs_banks (atc_mem (am_ctrl m))) =
      outstanding (sm_freezeEvent s) (sm_unfreezeEvent s) (sm_ckptBlocks s) (sm_banks s)"
    using v by (simp add: outstanding_def split: option.splits)
  moreover have "flag_inv (s\<lparr>sm_mem := m\<rparr>)" using i(2) k by (auto simp: flag_inv_def isWait_def)
  moreover have "event_inv now (s\<lparr>sm_mem := m\<rparr>)" using i(5) by (simp add: event_inv_def)
  ultimately show "core_inv tp now (s\<lparr>sm_mem := m\<rparr>)" using c bus [OF i(4)] p sb by (simp add: core_inv_def)
qed

lemma core_irrelevant [simp]:
  "core_inv tp now (s\<lparr>sm_packetQueue := q\<rparr>) = core_inv tp now s" "core_inv tp now (s\<lparr>sm_pendingDelete := d\<rparr>) = core_inv tp now s"
  "core_inv tp now (s\<lparr>sm_extraRespLatency := x\<rparr>) = core_inv tp now s" "core_inv tp now (s\<lparr>sm_retryResp := b\<rparr>) = core_inv tp now s"
  "core_inv tp now (s\<lparr>sm_drainManager := b\<rparr>) = core_inv tp now s"
  by (simp_all add: inv_defs phase_of_def isWait_def)

lemma core_dequeue: "core_inv tp now s \<Longrightarrow> now \<le> t \<Longrightarrow> core_inv tp now (s\<lparr>sm_dequeueEvent := Some t\<rparr>)"
  "core_inv tp now s \<Longrightarrow> core_inv tp now (s\<lparr>sm_dequeueEvent := None\<rparr>)"
proof -
  have f: "flag_inv (s\<lparr>sm_dequeueEvent := e\<rparr>) = flag_inv s" "phase_of (s\<lparr>sm_dequeueEvent := e\<rparr>) = phase_of s" for e
    by (simp_all add: flag_inv_def isWait_def phase_of_def)
  have e: "event_inv now s \<Longrightarrow> now \<le> t \<Longrightarrow> event_inv now (s\<lparr>sm_dequeueEvent := Some t\<rparr>)" "event_inv now s \<Longrightarrow> event_inv now (s\<lparr>sm_dequeueEvent := None\<rparr>)"
    by (simp_all add: event_inv_def)
  show "core_inv tp now s \<Longrightarrow> now \<le> t \<Longrightarrow> core_inv tp now (s\<lparr>sm_dequeueEvent := Some t\<rparr>)"
    "core_inv tp now s \<Longrightarrow> core_inv tp now (s\<lparr>sm_dequeueEvent := None\<rparr>)"
    using e by (simp_all add: core_inv_def f)
qed

text \<open>Responses are only added, and the first of them is scheduled if nothing else will send it.\<close>

definition grows :: "SimpleMemory \<Rightarrow> SimpleMemory \<Rightarrow> bool" where
  "grows s s' \<longleftrightarrow> sm_retryResp s' = sm_retryResp s \<and> (\<exists>ds. sm_packetQueue s' = sm_packetQueue s @ ds \<and>
     sm_dequeueEvent s' = (if ds = [] \<or> sm_dequeueEvent s \<noteq> None \<or> sm_retryResp s then sm_dequeueEvent s else Some (df_tick (hd ds))))"

lemma grows_refl: "responses s' = responses s \<Longrightarrow> grows s s'"
  by (simp add: grows_def responses_def)

lemma grows_trans: "grows a b \<Longrightarrow> grows b c \<Longrightarrow> grows a c"
proof -
  assume "grows a b" "grows b c"
  then obtain d1 d2 where d: "sm_packetQueue b = sm_packetQueue a @ d1" "sm_packetQueue c = sm_packetQueue b @ d2" "sm_retryResp b = sm_retryResp a" "sm_retryResp c = sm_retryResp b"
      "sm_dequeueEvent b = (if d1 = [] \<or> sm_dequeueEvent a \<noteq> None \<or> sm_retryResp a then sm_dequeueEvent a else Some (df_tick (hd d1)))"
      "sm_dequeueEvent c = (if d2 = [] \<or> sm_dequeueEvent b \<noteq> None \<or> sm_retryResp b then sm_dequeueEvent b else Some (df_tick (hd d2)))"
    unfolding grows_def by blast
  show "grows a c" unfolding grows_def by (intro conjI exI [of _ "d1 @ d2"]) (use d in \<open>cases "d1 = []"; simp\<close>)+
qed

text \<open>The answer to a request that was taken, and the accesses it stands for.\<close>

definition sm_reply :: "Packet \<Rightarrow> SimpleMemory \<Rightarrow> Packet" where
  "sm_reply pkt s = (if cmd_needsResponse (pk_cmd pkt) then df_pkt (last (sm_packetQueue s)) else last (sm_pendingDelete s))"

lemma hold_ok:
  assumes inv: "core_inv tp now s" and idle: "sm_freezeEvent s = None" "\<not> sm_isBusy s" and r: "sm_hold tp now pkt s = Some s'"
  shows "core_inv tp now s'" "\<exists>e b. s' = s\<lparr>sm_releaseEvent := e, sm_isBusy := b\<rparr>"
proof -
  have rl: "sm_releaseEvent s = None" "\<not> sm_retryReq s" using core_invD(2) [OF inv] idle by (auto simp: flag_inv_def)
  have e: "s' = s \<or> (\<exists>t. now \<le> t \<and> s' = s\<lparr>sm_releaseEvent := Some t, sm_isBusy := True\<rparr>)"
    using r by (auto simp: sm_hold_def ev_schedule_def Let_def Option.bind_eq_Some_conv cassert_def split: if_splits)
  have "core_inv tp now (s\<lparr>sm_releaseEvent := Some t, sm_isBusy := True\<rparr>)" if "now \<le> t" for t
  proof -
    have "flag_inv (s\<lparr>sm_releaseEvent := Some t, sm_isBusy := True\<rparr>)" using core_invD(2) [OF inv] idle rl by (auto simp: flag_inv_def isWait_def)
    moreover have "event_inv now (s\<lparr>sm_releaseEvent := Some t, sm_isBusy := True\<rparr>)" using core_invD(5) [OF inv] that by (simp add: event_inv_def)
    moreover have "phase_of (s\<lparr>sm_releaseEvent := Some t, sm_isBusy := True\<rparr>) = phase_of s" by (simp add: phase_of_def)
    ultimately show ?thesis using inv by (simp add: core_inv_def)
  qed
  then show "core_inv tp now s'" using e inv by blast
  have "s = s\<lparr>sm_releaseEvent := sm_releaseEvent s, sm_isBusy := sm_isBusy s\<rparr>" by simp
  then show "\<exists>e b. s' = s\<lparr>sm_releaseEvent := e, sm_isBusy := b\<rparr>" using e by blast
qed

lemma respond_ok:
  assumes inv: "core_inv tp now s" and r: "sm_respond tp rnd now pkt pf s = Some s'"
  shows "core_inv tp now s'" "grows s s'" "sm_packetQueue s' \<noteq> []" "df_pkt (last (sm_packetQueue s')) = pkt" "sm_mem s' = sm_mem s" "sm_unfreezeEvent s' = sm_unfreezeEvent s"
proof -
  obtain lat where lat: "pf_SumLatency pf = Some lat" using r by (auto simp: sm_respond_def Option.bind_eq_Some_conv)
  define s1 where "s1 = s\<lparr>sm_extraRespLatency := sm_extraRespLatency s + (uint lat - uint (getLatency tp rnd)),
    sm_packetQueue := sm_packetQueue s @ [\<lparr>df_tick = now + lat, df_pkt = pkt\<rparr>]\<rparr>"
  have l: "s' = s1 \<and> (sm_retryResp s \<or> sm_dequeueEvent s \<noteq> None) \<or>
      s' = s1\<lparr>sm_dequeueEvent := Some (now + lat)\<rparr> \<and> now \<le> now + lat \<and> \<not> sm_retryResp s \<and> sm_dequeueEvent s = None"
  proof (cases "sm_retryResp s \<or> sm_dequeueEvent s \<noteq> None")
    case True
    then show ?thesis using r unfolding sm_respond_def lat Let_def by (auto simp: Option.bind_eq_Some_conv s1_def)
  next
    case False
    then show ?thesis using r unfolding sm_respond_def lat Let_def by (auto simp: Option.bind_eq_Some_conv s1_def ev_schedule_def cassert_def split: if_splits)
  qed
  have inv1: "core_inv tp now s1" using inv by (simp add: s1_def)
  show "core_inv tp now s'" using l inv1 core_dequeue(1) [OF inv1] by auto
  show "grows s s'" using l by (auto simp: grows_def s1_def)
  show "sm_packetQueue s' \<noteq> []" "df_pkt (last (sm_packetQueue s')) = pkt" "sm_mem s' = sm_mem s" "sm_unfreezeEvent s' = sm_unfreezeEvent s" using l by (auto simp: s1_def)
qed

definition in_memory :: "AbstractMemory \<Rightarrow> Packet \<Rightarrow> bool" where
  "in_memory m pkt \<longleftrightarrow> (\<exists>a n. packet_in m a n pkt)"

definition request_events :: "Packet \<Rightarrow> bool \<Rightarrow> SimpleMemory \<Rightarrow> event list" where
  "request_events pkt taken s' =
     (if taken \<and> \<not> memInhibitAsserted pkt then access_events (the (am_localAddr pkt (sm_mem s'))) pkt (sm_reply pkt s') else [])"

lemma delays_events:
  "access_events a (pkt\<lparr>busFirstWordDelay := x, busLastWordDelay := y\<rparr>) pkt' = access_events a pkt pkt'"
  "packet_in m a n (pkt\<lparr>busFirstWordDelay := x, busLastWordDelay := y\<rparr>) = packet_in m a n pkt"
proof -
  let ?q = "pkt\<lparr>busFirstWordDelay := x, busLastWordDelay := y\<rparr>"
  have "memInhibitAsserted ?q = memInhibitAsserted pkt" "packet_bytes ?q = packet_bytes pkt" "store_done ?q pkt' = store_done pkt pkt'"
    "swap_writes ?q bs = swap_writes pkt bs" "pk_cmd ?q = pk_cmd pkt" for bs
    by (simp_all add: memInhibitAsserted_def packet_bytes_def store_done_def swap_writes_def getSize_def getPtr_def)
  then show "access_events a ?q pkt' = access_events a pkt pkt'" unfolding access_events_def by (simp only:)
  show "packet_in m a n ?q = packet_in m a n pkt" by (simp add: packet_in_def getSize_def getPtr_def getAddr_def)
qed

text \<open>The access itself: the memory afterwards, with the bus counted on both sides.\<close>

lemma access_core:
  assumes inv: "core_inv tp now s" and ph: "phase_of s \<noteq> MIGRATED" and pk: "packet_in (sm_mem s) a n pkt"
    and r: "am_access isz (tp_store tp) pkt (Profiler_copy (am_profBase (sm_mem s))) (sm_mem s) = Some (pkt', pf, m)"
  shows "core_inv tp now (add_ck (pf_SumBusUtil False pf) (add_bus pf (s\<lparr>sm_mem := m\<rparr>)))"
    "flows (access_events a pkt pkt') (sm_ctrl s) (am_ctrl m)" "calm s (add_ck (pf_SumBusUtil False pf) (add_bus pf (s\<lparr>sm_mem := m\<rparr>)))"
proof -
  note i = core_invD [OF inv]
  note c = ctrl_invD [OF i(1)]
  have am: "am_ok (sm_mem s)" "prof_ok (sm_mem s)" using c(3) by (simp_all add: frame_inv_def)
  note pf = base_acct(2) [OF am(2)]
  have a: "mem_run (tp_store tp) (phase_of s, sm_ctrl s) (access_events a pkt pkt') (phase_of s, am_ctrl m)" "am_ok m"
    using access_run [OF c(1) am(1) pk pf _ r] ph by simp_all
  show fl: "flows (access_events a pkt pkt') (sm_ctrl s) (am_ctrl m)" by (rule flows_run [OF a(1) c(1)])
  have b: "books (phase_of s) (am_ctrl m)" "rows_closed (hs_banks (atc_mem (am_ctrl m))) = rows_closed (sm_banks s)"
    using run_books [OF a(1) access_no_phase(1)] c(2) by (simp_all add: sm_banks_def)
  have k: "am_range m = am_range (sm_mem s)" "am_pmem m = am_pmem (sm_mem s)" "am_profBase m = am_profBase (sm_mem s)"
    "am_bytesChannel m = am_bytesChannel (sm_mem s)" "am_ckBusUtil m = am_ckBusUtil (sm_mem s)"
    using access_books [OF r] by (simp_all add: am_books_def)
  show "calm s (add_ck (pf_SumBusUtil False pf) (add_bus pf (s\<lparr>sm_mem := m\<rparr>)))"
    using k(1) b(2) by (simp add: calm_def add_ck_def add_bus_def sm_banks_def)
  define m2 where "m2 = m\<lparr>am_bytesChannel := am_bytesChannel m + uint (pf_SumBusUtil False pf),
    am_bytesInterChannel := am_bytesInterChannel m + uint (pf_SumBusUtil True pf), am_ckBusUtil := am_ckBusUtil m + pf_SumBusUtil False pf\<rparr>"
  have g: "geometry_of (am_ctrl m) = geometry_of (sm_ctrl s)" using fl by (simp add: flows_def)
  have o: "one_each (am_locked m2)" using a(2) by (simp add: am_ok_def m2_def)
  have "frame_inv m2"
    by (rule frame_next [OF c(3)]) (use g k o bank_times_views(3) [OF closed_times [OF b(2)]] in \<open>simp_all add: m2_def sm_banks_def\<close>)
  then have ci: "ctrl_inv (tp_store tp) (phase_of s) m2"
    using run_inv_run [OF a(1) c(1)] b(1) by (simp add: ctrl_inv_def m2_def)
  have bus: "bus_inv j m2" if "bus_inv j (sm_mem s)" for j
    using that k geometry_fields [OF g] by (simp add: bus_inv_def m2_def algebra_simps)
  have "core_inv tp now (s\<lparr>sm_mem := m2\<rparr>)" using core_mem(1) [OF inv ci _ bus] b(2) by (simp add: m2_def)
  then show "core_inv tp now (add_ck (pf_SumBusUtil False pf) (add_bus pf (s\<lparr>sm_mem := m\<rparr>)))"
    by (simp add: add_ck_def add_bus_def m2_def)
qed

lemma serve_ok:
  assumes inv: "core_inv tp now s" and idle: "sm_freezeEvent s = None" "\<not> sm_isBusy s" and pk: "packet_in (sm_mem s) a n pkt"
    and r: "sm_serve tp rnd now pkt s = Some s'"
  shows "core_inv tp now s'" "flows (access_events a pkt (sm_reply pkt s')) (sm_ctrl s) (sm_ctrl s')" "grows s s'" "calm s s'"
proof -
  define q where "q = pkt\<lparr>busFirstWordDelay := 0, busLastWordDelay := 0\<rparr>"
  obtain s1 where h: "sm_hold tp now q s = Some s1" using r by (auto simp: sm_serve_def Let_def q_def Option.bind_eq_Some_conv)
  note h1 = hold_ok [OF inv idle h]
  obtain e b where s1: "s1 = s\<lparr>sm_releaseEvent := e, sm_isBusy := b\<rparr>" using h1(2) by blast
  have ph: "phase_of s1 \<noteq> MIGRATED" using idle(1) by (simp add: s1 phase_of_def)
  obtain pkt' pf m where a: "am_access (tp_isz tp) (tp_store tp) q (Profiler_copy (am_profBase (sm_mem s1))) (sm_mem s1) = Some (pkt', pf, m)"
    using r h by (auto simp: sm_serve_def Let_def q_def Option.bind_eq_Some_conv)
  have pq: "packet_in (sm_mem s1) a n q" using pk by (simp add: q_def delays_events s1)
  define s2 where "s2 = add_ck (pf_SumBusUtil False pf) (add_bus pf (s1\<lparr>sm_mem := m\<rparr>))"
  note x = access_core [OF h1(1) ph pq a, folded s2_def]
  have c2: "sm_ctrl s2 = am_ctrl m" by (simp add: s2_def add_ck_def add_bus_def)
  have "calm s s1" by (simp add: calm_def s1)
  from calm_trans [OF this x(3)] have k2: "calm s s2" .
  have g2: "grows s s2" by (simp add: grows_def s2_def add_ck_def add_bus_def s1)
  have ev: "access_events a q pkt' = access_events a pkt pkt'" by (simp add: q_def delays_events)
  have run: "(if cmd_needsResponse (pk_cmd pkt) then sm_respond tp rnd now pkt' pf s2 else Some (s2\<lparr>sm_pendingDelete := sm_pendingDelete s2 @ [pkt']\<rparr>)) = Some s'"
    using r unfolding sm_serve_def Let_def q_def [symmetric] h Option.bind.simps a s2_def by (simp add: q_def)
  have "core_inv tp now s' \<and> sm_reply pkt s' = pkt' \<and> grows s s' \<and> sm_mem s' = sm_mem s2 \<and> sm_unfreezeEvent s' = sm_unfreezeEvent s2"
  proof (cases "cmd_needsResponse (pk_cmd pkt)")
    case True
    then have "sm_respond tp rnd now pkt' pf s2 = Some s'" using run by simp
    from respond_ok [OF x(1) this] show ?thesis using True grows_trans [OF g2] by (simp add: sm_reply_def)
  next
    case False
    then have "s' = s2\<lparr>sm_pendingDelete := sm_pendingDelete s2 @ [pkt']\<rparr>" using run by simp
    moreover from this have "grows s2 s'" by (intro grows_refl) (simp add: responses_def)
    ultimately show ?thesis using False x(1) grows_trans [OF g2] by (simp add: sm_reply_def)
  qed
  then show "core_inv tp now s'" "flows (access_events a pkt (sm_reply pkt s')) (sm_ctrl s) (sm_ctrl s')" "grows s s'" "calm s s'"
    using x c2 ev k2 by (simp_all add: s1 calm_def sm_banks_def)
qed

section \<open>Requests\<close>

text \<open>
  A request that is not taken either waits for the release or the freeze of the memory (\<open>retryReq\<close>) or for the end of the
  checkpoint (\<open>isWait\<close>).
\<close>

lemma recv_ok:
  assumes inv: "core_inv tp now s" and now: "now \<noteq> 0" and pk: "in_memory (sm_mem s) pkt"
    and k: "numNVMWrites (atc_mem (sm_ctrl s)) < 2 ^ 64" "numDRAMWrites (atc_mem (sm_ctrl s)) < 2 ^ 64"
    and r: "sm_recvTimingReq tp rnd now pkt s = Some (taken, s')"
    and fresh: "\<And>t. sm_freezeEvent s' = Some t \<Longrightarrow> sm_freezeEvent s = None \<Longrightarrow> now < t"
  shows "core_inv tp now s' \<and> flows (request_events pkt taken s') (sm_ctrl s) (sm_ctrl s') \<and> grows s s' \<and> calm s s' \<and>
    (\<not> taken \<longrightarrow> sm_retryReq s' \<or> isWait s')"
proof -
  define s0 where "s0 = s\<lparr>sm_pendingDelete := []\<rparr>"
  have i0: "core_inv tp now s0" using inv by (simp add: s0_def)
  have g0: "grows s s0" by (rule grows_refl) (simp add: responses_def s0_def)
  note rr = r [unfolded sm_recvTimingReq_def Let_def s0_def [symmetric]]
  consider (inhibit) "memInhibitAsserted pkt" | (retry) "\<not> memInhibitAsserted pkt" "sm_retryReq s0" | (busy) "\<not> memInhibitAsserted pkt" "\<not> sm_retryReq s0" "sm_isBusy s0"
    | (idle) "\<not> memInhibitAsserted pkt" "\<not> sm_retryReq s0" "\<not> sm_isBusy s0" by blast
  then show ?thesis
  proof cases
    case inhibit
    then have s': "taken" "s' = s0\<lparr>sm_pendingDelete := [pkt]\<rparr>" using rr by simp_all
    have "grows s s'" by (rule grows_refl) (simp add: responses_def s' s0_def)
    then show ?thesis using i0 s' inhibit by (simp add: request_events_def) (simp add: s0_def calm_def)
  next
    case retry
    then have s': "\<not> taken" "s' = s0" using rr by simp_all
    then show ?thesis using i0 g0 retry by (simp add: request_events_def) (simp add: s0_def calm_def)
  next
    case busy
    then have s': "\<not> taken" "s' = s0\<lparr>sm_retryReq := True\<rparr>" using rr by simp_all
    have "core_inv tp now s'" using i0 busy by (auto simp: s' inv_defs phase_of_def isWait_def)
    moreover have "grows s s'" by (rule grows_refl) (simp add: responses_def s' s0_def)
    ultimately show ?thesis using s' by (simp add: request_events_def) (simp add: s0_def calm_def)
  next
    case idle
    have fz: "sm_freezeEvent s0 = None" using core_invD(2) [OF i0] idle by (auto simp: flag_inv_def)
    obtain ctrl where c: "(if pk_cmd pkt \<noteq> SwapReq \<and> cmd_isWrite (pk_cmd pkt) then do { a \<leftarrow> getAddr pkt; atc_Probe a (sm_ctrl s0) } else Some REG_WRITE) = Some ctrl"
        "(case ctrl of NEW_EPOCH \<Rightarrow> do { s \<leftarrow> sm_new_epoch tp now s0; Some (False, s) } | WAIT_CKPT \<Rightarrow> Some (False, setWait now s0)
          | REG_WRITE \<Rightarrow> do { s \<leftarrow> sm_serve tp rnd now pkt s0; Some (True, s) }) = Some (taken, s')"
      using rr idle by (auto simp: Option.bind_eq_Some_conv)
    show ?thesis
    proof (cases ctrl)
      case NEW_EPOCH
      then have n: "sm_new_epoch tp now s0 = Some s'" "\<not> taken" using c(2) by (auto simp: Option.bind_eq_Some_conv)
      have nk: "\<not> atc_ckpt (sm_ctrl s0)" using c(1) NEW_EPOCH Probe_phase(1) by (auto simp: Option.bind_eq_Some_conv split: if_splits)
      have k0: "numNVMWrites (atc_mem (sm_ctrl s0)) < 2 ^ 64" "numDRAMWrites (atc_mem (sm_ctrl s0)) < 2 ^ 64" using k by (simp_all add: s0_def)
      have f0: "now < t" if "sm_freezeEvent s' = Some t" for t using fresh [OF that] fz by (simp add: s0_def)
      have e: "core_inv tp now s'" "flows [] (sm_ctrl s0) (sm_ctrl s')" "responses s' = responses s0" "sm_retryReq s'" "calm s0 s'"
        using new_epoch_ok [OF i0 fz nk idle(3) now k0 n(1) f0] by simp_all
      have "grows s s'" using grows_trans [OF g0 grows_refl [OF e(3)]] .
      then show ?thesis using e n(2) by (simp add: request_events_def) (simp add: s0_def calm_def)
    next
      case WAIT_CKPT
      then have n: "s' = setWait now s0" "\<not> taken" using c(2) by simp_all
      have ck: "atc_ckpt (sm_ctrl s0)" using c(1) WAIT_CKPT Probe_phase(2) by (auto simp: Option.bind_eq_Some_conv split: if_splits)
      have "core_inv tp now s'" using i0 ck by (auto simp: n setWait_def inv_defs phase_of_def isWait_def)
      moreover have "grows s s'" by (rule grows_refl) (simp add: responses_def n setWait_def s0_def)
      moreover have "isWait s'" using now by (simp add: n setWait_def isWait_def)
      ultimately show ?thesis using n(2) by (simp add: request_events_def) (simp add: n setWait_def s0_def calm_def)
    next
      case REG_WRITE
      then have n: "sm_serve tp rnd now pkt s0 = Some s'" "taken" using c(2) by (auto simp: Option.bind_eq_Some_conv)
      obtain a l where p: "packet_in (sm_mem s0) a l pkt" using pk by (auto simp: in_memory_def s0_def)
      note v = serve_ok [OF i0 fz idle(3) p n(1)]
      obtain w d where "am_localAddr pkt (sm_mem s0) = Some a" using p by (rule packet_inD)
      then have "am_localAddr pkt (sm_mem s') = Some a" using v(4) by (simp add: am_localAddr_def calm_def)
      then show ?thesis using v grows_trans [OF g0 v(3)] n(2) idle(1) by (simp add: request_events_def) (simp add: s0_def calm_def)
    qed
  qed
qed

end
