(* ===== verification/Timed_Memory.thy ===== *)
theory Timed_Memory
  imports Timed_Requests
begin

text \<open>
  Runs of the memory in time: requests arrive, time passes up to the next event, events fire, responses are offered and
  taken or refused, and functional accesses happen in between. Every run keeps the invariant, and what programs see of it
  is a flat array of bytes.
\<close>

section \<open>Responses\<close>

text \<open>
  What the environment of a request keeps: time has started, the packet is for this memory, the counters of writes have not
  wrapped around, and writing back the tables takes some time.
\<close>

definition recv_env :: "TimingParams \<Rightarrow> Tick \<Rightarrow> Tick \<Rightarrow> Packet \<Rightarrow> SimpleMemory \<Rightarrow> bool" where
  "recv_env tp rnd now pkt s \<longleftrightarrow> now \<noteq> 0 \<and> in_memory (sm_mem s) pkt \<and>
     numNVMWrites (atc_mem (sm_ctrl s)) < 2 ^ 64 \<and> numDRAMWrites (atc_mem (sm_ctrl s)) < 2 ^ 64 \<and>
     (\<forall>taken s' t. sm_recvTimingReq tp rnd now pkt s = Some (taken, s') \<longrightarrow> sm_freezeEvent s' = Some t \<longrightarrow> sm_freezeEvent s = None \<longrightarrow> now < t)"

lemma recv_env_ok:
  assumes "core_inv tp now s" "recv_env tp rnd now pkt s" "sm_recvTimingReq tp rnd now pkt s = Some (taken, s')"
  shows "core_inv tp now s'" "flows (request_events pkt taken s') (sm_ctrl s) (sm_ctrl s')" "grows s s'" "calm s s'"
    "taken \<or> sm_retryReq s' \<or> isWait s'"
proof -
  have e: "now \<noteq> 0" "in_memory (sm_mem s) pkt" "numNVMWrites (atc_mem (sm_ctrl s)) < 2 ^ 64" "numDRAMWrites (atc_mem (sm_ctrl s)) < 2 ^ 64"
    "\<And>t. sm_freezeEvent s' = Some t \<Longrightarrow> sm_freezeEvent s = None \<Longrightarrow> now < t"
    using assms(2,3) unfolding recv_env_def by blast+
  show "core_inv tp now s'" "flows (request_events pkt taken s') (sm_ctrl s) (sm_ctrl s')" "grows s s'" "calm s s'"
    "taken \<or> sm_retryReq s' \<or> isWait s'"
    using recv_ok [OF assms(1) e(1-4) assms(3) e(5)] by blast+
qed

primrec all_env :: "TimingParams \<Rightarrow> Tick \<Rightarrow> (Tick \<times> Packet) list \<Rightarrow> SimpleMemory \<Rightarrow> bool" where
  "all_env tp now [] s = True"
| "all_env tp now (r # rs) s \<longleftrightarrow> recv_env tp (fst r) now (snd r) s \<and>
     (\<forall>taken s'. sm_recvTimingReq tp (fst r) now (snd r) s = Some (taken, s') \<longrightarrow> all_env tp now rs s')"

primrec all_events :: "TimingParams \<Rightarrow> Tick \<Rightarrow> (Tick \<times> Packet) list \<Rightarrow> SimpleMemory \<Rightarrow> event list" where
  "all_events tp now [] s = []"
| "all_events tp now (r # rs) s =
     (case sm_recvTimingReq tp (fst r) now (snd r) s of
        None \<Rightarrow> []
      | Some (taken, s') \<Rightarrow> request_events (snd r) taken s' @ all_events tp now rs s')"

lemma recv_all_ok:
  assumes "core_inv tp now s" "all_env tp now rs s" "recv_all tp now rs s = Some s'"
  shows "core_inv tp now s' \<and> flows (all_events tp now rs s) (sm_ctrl s) (sm_ctrl s') \<and> grows s s' \<and> calm s s'"
  using assms
proof (induction rs arbitrary: s)
  case Nil
  then show ?case by (simp add: grows_refl calm_def)
next
  case (Cons r rs)
  obtain taken s1 where r: "sm_recvTimingReq tp (fst r) now (snd r) s = Some (taken, s1)" "recv_all tp now rs s1 = Some s'"
    using Cons.prems(3) by (auto simp: Option.bind_eq_Some_conv)
  have e: "recv_env tp (fst r) now (snd r) s" "all_env tp now rs s1" using Cons.prems(2) r(1) by auto
  note o = recv_env_ok [OF Cons.prems(1) e(1) r(1)]
  note i = Cons.IH [OF o(1) e(2) r(2)]
  show ?case using i calm_trans [OF o(4)] flows_append [OF o(2)] grows_trans [OF o(3)] by (simp add: r(1))
qed

lemma grows_resp: "resp_inv s \<Longrightarrow> grows s s' \<Longrightarrow> resp_inv s'"
  unfolding grows_def resp_inv_def by (elim conjE exE) (auto split: if_splits)

text \<open>The response at the head of the queue is the one that is offered; requests that arrive meanwhile come behind it.\<close>

lemma dequeue_ok:
  assumes inv: "core_inv tp now s" and q: "sm_packetQueue s \<noteq> []" and both: "sm_dequeueEvent s \<noteq> None \<Longrightarrow> 2 \<le> length (sm_packetQueue s) \<and> sm_retryResp s"
    and env: "all_env tp now reqs s" and r: "sm_dequeue tp now reqs takes s = Some (pkt, s')"
  shows "core_inv tp now s'" "resp_inv s'" "flows (all_events tp now reqs s) (sm_ctrl s) (sm_ctrl s')" "calm s s'"
    "pkt = df_pkt (hd (sm_packetQueue s))" "\<exists>ds. sm_packetQueue s' = (if takes then tl (sm_packetQueue s) else sm_packetQueue s) @ ds"
proof -
  obtain s1 where a: "recv_all tp now reqs s = Some s1" "pkt = df_pkt (hd (sm_packetQueue s))"
    using r by (auto simp: sm_dequeue_def Let_def Option.bind_eq_Some_conv)
  have i: "core_inv tp now s1" "flows (all_events tp now reqs s) (sm_ctrl s) (sm_ctrl s1)" "calm s s1" "grows s s1"
    using recv_all_ok [OF inv env a(1)] by simp_all
  obtain ds where g: "sm_packetQueue s1 = sm_packetQueue s @ ds" "sm_retryResp s1 = sm_retryResp s"
      "sm_dequeueEvent s1 = (if ds = [] \<or> sm_dequeueEvent s \<noteq> None \<or> sm_retryResp s then sm_dequeueEvent s else Some (df_tick (hd ds)))"
    using i(4) by (auto simp: grows_def)
  have t: "tl (sm_packetQueue s @ ds) = tl (sm_packetQueue s) @ ds" using q by (cases "sm_packetQueue s") simp_all
  let ?s2 = "s1\<lparr>sm_retryResp := \<not> takes\<rparr>" and ?q = "tl (sm_packetQueue s) @ ds"
  have s': "s' = (if \<not> takes then ?s2 else if ?q \<noteq> []
      then ?s2\<lparr>sm_packetQueue := ?q, sm_dequeueEvent := Some (max (df_tick (hd ?q)) now)\<rparr> else ?s2\<lparr>sm_packetQueue := [], sm_drainManager := False\<rparr>)"
    using r a g(1) t q unfolding sm_dequeue_def Let_def a(1) Option.bind.simps
    by (auto simp: ev_reschedule_def cassert_def Option.bind_eq_Some_conv split: if_splits)
  show "core_inv tp now s'" using i(1) core_dequeue(1) [of tp now "?s2\<lparr>sm_packetQueue := ?q\<rparr>" "max (df_tick (hd ?q)) now"] by (cases takes) (simp_all add: s')
  have z: "sm_dequeueEvent s1 = None" if "?q = []"
  proof -
    have "ds = []" "length (sm_packetQueue s) < 2" using that by (auto simp: Nil_tl) (cases "sm_packetQueue s"; simp)
    then show ?thesis using g(3) both by (cases "sm_dequeueEvent s") auto
  qed
  have y: "2 \<le> length (sm_packetQueue s @ ds)" if "sm_dequeueEvent s1 \<noteq> None"
  proof (cases "sm_dequeueEvent s")
    case None
    then have "ds \<noteq> []" using that g(3) by (auto split: if_splits)
    then show ?thesis using q by (cases "sm_packetQueue s"; cases ds) simp_all
  next
    case (Some t)
    then show ?thesis using both by simp
  qed
  show "resp_inv s'" using z y g(1) q by (simp add: s' resp_inv_def)
  show "flows (all_events tp now reqs s) (sm_ctrl s) (sm_ctrl s')" "calm s s'" using i by (simp_all add: s' calm_def)
  show "pkt = df_pkt (hd (sm_packetQueue s))" by (rule a(2))
  show "\<exists>ds. sm_packetQueue s' = (if takes then tl (sm_packetQueue s) else sm_packetQueue s) @ ds" using g(1) by (simp add: s')
qed

section \<open>Functional accesses\<close>

lemma functional_core:
  assumes inv: "core_inv tp now s" and pk: "packet_in (sm_mem s) a n pkt" and c: "cmd_isRead (pk_cmd pkt) \<or> cmd_isWrite (pk_cmd pkt)"
    and r: "functionalAccess ps (tp_store tp) pkt (sm_mem s) = Some (pkt', m)"
  shows "core_inv tp now (s\<lparr>sm_mem := m\<rparr>)" "flows (functional_events a pkt pkt') (sm_ctrl s) (am_ctrl m)" "calm s (s\<lparr>sm_mem := m\<rparr>)"
proof -
  note i = core_invD [OF inv]
  note k = ctrl_invD [OF i(1)]
  have am: "am_ok (sm_mem s)" using k(3) by (simp add: frame_inv_def)
  have a: "mem_run (tp_store tp) (phase_of s, sm_ctrl s) (functional_events a pkt pkt') (phase_of s, am_ctrl m)" "am_ok m"
    using functional_run [OF k(1) am pk c r] by simp_all
  show fl: "flows (functional_events a pkt pkt') (sm_ctrl s) (am_ctrl m)" by (rule flows_run [OF a(1) k(1)])
  have b: "books (phase_of s) (am_ctrl m)" "rows_closed (hs_banks (atc_mem (am_ctrl m))) = rows_closed (sm_banks s)"
    using run_books [OF a(1) access_no_phase(2)] k(2) by (simp_all add: sm_banks_def)
  have e: "am_range m = am_range (sm_mem s)" "am_pmem m = am_pmem (sm_mem s)" "am_profBase m = am_profBase (sm_mem s)"
    "am_bytesChannel m = am_bytesChannel (sm_mem s)" "am_ckBusUtil m = am_ckBusUtil (sm_mem s)"
    using functional_books [OF r] by (simp_all add: am_books_def)
  show "calm s (s\<lparr>sm_mem := m\<rparr>)" using e(1) b(2) by (simp add: calm_def sm_banks_def)
  have g: "geometry_of (am_ctrl m) = geometry_of (sm_ctrl s)" using fl by (simp add: flows_def)
  have o: "one_each (am_locked m)" using a(2) by (simp add: am_ok_def)
  have "frame_inv m" by (rule frame_next [OF k(3)]) (use g e o bank_times_views(3) [OF closed_times [OF b(2)]] in \<open>simp_all add: sm_banks_def\<close>)
  then have ci: "ctrl_inv (tp_store tp) (phase_of s) m" using run_inv_run [OF a(1) k(1)] b(1) by (simp add: ctrl_inv_def)
  have bus: "bus_inv j m" if "bus_inv j (sm_mem s)" for j using that e geometry_fields [OF g] by (simp add: bus_inv_def)
  show "core_inv tp now (s\<lparr>sm_mem := m\<rparr>)" by (rule core_mem(1) [OF inv ci b(2) bus])
qed

lemma check_queue_length: "check_queue raw ds pkt = Some (ds', pkt') \<Longrightarrow> length ds' = length ds"
  by (induction ds arbitrary: pkt ds') (auto simp: Option.bind_eq_Some_conv)

lemma flows_read: "flows (Read a bs # es) c c' \<Longrightarrow> flows es c c'"
  by (simp add: flows_def flat_result_def)

text \<open>What a functional access does to the memory: a read leaves it alone, a write is seen by everybody.\<close>

definition functional_writes :: "AbstractMemory \<Rightarrow> Packet \<Rightarrow> event list" where
  "functional_writes m pkt = (if \<not> cmd_isRead (pk_cmd pkt) \<and> cmd_isWrite (pk_cmd pkt) then [Write (the (am_localAddr pkt m)) (the (packet_bytes pkt))] else [])"

lemma recvFunctional_ok:
  assumes inv: "sm_inv tp now s" and pk: "in_memory (sm_mem s) pkt" and c: "cmd_isRead (pk_cmd pkt) \<or> cmd_isWrite (pk_cmd pkt)"
    and r: "sm_recvFunctional raw ps tp pkt s = Some (pkt', s')"
  shows "sm_inv tp now s'" "flows (functional_writes (sm_mem s) pkt) (sm_ctrl s) (sm_ctrl s')" "calm s s'"
proof -
  obtain p1 m q where f: "functionalAccess ps (tp_store tp) pkt (sm_mem s) = Some (p1, m)" "check_queue raw (sm_packetQueue s) p1 = Some (q, pkt')"
      "s' = s\<lparr>sm_mem := m, sm_packetQueue := q\<rparr>"
    using r by (auto simp: sm_recvFunctional_def Option.bind_eq_Some_conv)
  obtain a n where p: "packet_in (sm_mem s) a n pkt" using pk by (auto simp: in_memory_def)
  have i: "core_inv tp now s" "resp_inv s" using inv by (simp_all add: sm_inv_def)
  note x = functional_core [OF i(1) p c f(1)]
  have l: "length q = length (sm_packetQueue s)" by (rule check_queue_length [OF f(2)])
  then have "q = [] \<longleftrightarrow> sm_packetQueue s = []" by (metis length_0_conv)
  then have "resp_inv s'" using i(2) l by (simp add: resp_inv_def f(3))
  then show "sm_inv tp now s'" using x(1) by (simp add: sm_inv_def f(3))
  obtain w d where "am_localAddr pkt (sm_mem s) = Some a" using p by (rule packet_inD)
  then show "flows (functional_writes (sm_mem s) pkt) (sm_ctrl s) (sm_ctrl s')"
    using x(2) c flows_read [of a "the (packet_bytes p1)" "[]" "sm_ctrl s" "am_ctrl m"]
    by (cases "cmd_isRead (pk_cmd pkt)") (simp_all add: functional_events_def functional_writes_def f(3))
  show "calm s s'" using x(3) by (simp add: f(3) calm_def)
qed

section \<open>Runs\<close>

type_synonym timed = "Tick \<times> SimpleMemory"

inductive timed_step :: "TimingParams \<Rightarrow> timed \<Rightarrow> event list \<Rightarrow> timed \<Rightarrow> bool" for tp where
  advance: "now \<le> t \<Longrightarrow> event_inv t s \<Longrightarrow> timed_step tp (now, s) [] (t, s)"
| request: "recv_env tp rnd now pkt s \<Longrightarrow> sm_recvTimingReq tp rnd now pkt s = Some (taken, s') \<Longrightarrow>
    timed_step tp (now, s) (request_events pkt taken s') (now, s')"
| release: "sm_releaseEvent s = Some now \<Longrightarrow> sm_release (s\<lparr>sm_releaseEvent := None\<rparr>) = Some (retry, s') \<Longrightarrow> timed_step tp (now, s) [] (now, s')"
| freeze: "sm_freezeEvent s = Some now \<Longrightarrow> clock_ok tp now \<Longrightarrow> sm_freeze tp now (s\<lparr>sm_freezeEvent := None\<rparr>) = Some (retry, s') \<Longrightarrow>
    timed_step tp (now, s) [] (now, s')"
| unfreeze: "sm_unfreezeEvent s = Some now \<Longrightarrow> clock_ok tp now \<Longrightarrow> am_bytesChannel (sm_mem s) < 2 ^ 64 \<Longrightarrow>
    sm_unfreeze tp now (s\<lparr>sm_unfreezeEvent := None\<rparr>) = Some (retry, s') \<Longrightarrow> timed_step tp (now, s) [] (now, s')"
| dequeue: "sm_dequeueEvent s = Some now \<Longrightarrow> all_env tp now reqs (s\<lparr>sm_dequeueEvent := None\<rparr>) \<Longrightarrow>
    sm_dequeue tp now reqs takes (s\<lparr>sm_dequeueEvent := None\<rparr>) = Some (pkt, s') \<Longrightarrow>
    timed_step tp (now, s) (all_events tp now reqs (s\<lparr>sm_dequeueEvent := None\<rparr>)) (now, s')"
| recvRetry: "all_env tp now reqs s \<Longrightarrow> sm_recvRetry tp now reqs takes s = Some (pkt, s') \<Longrightarrow>
    timed_step tp (now, s) (all_events tp now reqs s) (now, s')"
| functional: "in_memory (sm_mem s) pkt \<Longrightarrow> cmd_isRead (pk_cmd pkt) \<or> cmd_isWrite (pk_cmd pkt) \<Longrightarrow>
    sm_recvFunctional raw ps tp pkt s = Some (pkt', s') \<Longrightarrow> timed_step tp (now, s) (functional_writes (sm_mem s) pkt) (now, s')"

inductive timed_run :: "TimingParams \<Rightarrow> timed \<Rightarrow> event list \<Rightarrow> timed \<Rightarrow> bool" for tp where
  start: "timed_run tp c [] c"
| step: "timed_run tp c es c' \<Longrightarrow> timed_step tp c' es' c'' \<Longrightarrow> timed_run tp c (es @ es') c''"

lemma advance_inv: "core_inv tp now s \<Longrightarrow> now \<le> t \<Longrightarrow> event_inv t s \<Longrightarrow> core_inv tp t s"
  by (auto simp: core_inv_def bank_inv_def all_free_def split: option.splits)

lemma responses_resp: "responses s' = responses s \<Longrightarrow> resp_inv s' = resp_inv s"
  by (simp add: responses_def resp_inv_def)

lemma unfreeze_ok:
  assumes inv: "core_inv tp now s" and e: "sm_unfreezeEvent s = Some now" and ck: "clock_ok tp now" and b: "am_bytesChannel (sm_mem s) < 2 ^ 64"
  shows "\<exists>retry s'. sm_unfreeze tp now (s\<lparr>sm_unfreezeEvent := None\<rparr>) = Some (retry, s') \<and> core_inv tp now s' \<and> flows [] (sm_ctrl s) (sm_ctrl s') \<and>
    responses s' = responses s"
proof (cases "db_pending (sm_banks s) = 0")
  case True
  then show ?thesis using unfreeze_last [OF inv e ck True b] by blast
next
  case False
  then show ?thesis using unfreeze_round [OF inv e ck False] by blast
qed

theorem timed_step_ok:
  assumes "timed_step tp c es c'" "sm_inv tp (fst c) (snd c)"
  shows "sm_inv tp (fst c') (snd c') \<and> flows es (sm_ctrl (snd c)) (sm_ctrl (snd c')) \<and> fst c \<le> fst c'"
  using assms(1)
proof cases
  case (advance now t s)
  then show ?thesis using assms(2) advance_inv [of tp now s t] by (simp add: sm_inv_def)
next
  case (request rnd now pkt s taken s')
  have i: "core_inv tp now s" "resp_inv s" using assms(2) request(1) by (simp_all add: sm_inv_def)
  note o = recv_env_ok [OF i(1) request(4,5)]
  show ?thesis using o grows_resp [OF i(2) o(3)] by (simp add: request(1-3) sm_inv_def)
next
  case (release s now retry s')
  have i: "core_inv tp now s" "resp_inv s" using assms(2) release(1) by (simp_all add: sm_inv_def)
  note o = release_ok [OF i(1) release(4)]
  have "s' = s\<lparr>sm_releaseEvent := None, sm_isBusy := False, sm_retryReq := False\<rparr>" using release(5) o(1) by simp
  then show ?thesis using o(2) i(2) by (simp add: release(1-3) sm_inv_def resp_inv_def)
next
  case (freeze s now retry s')
  have i: "core_inv tp now s" "resp_inv s" using assms(2) freeze(1) by (simp_all add: sm_inv_def)
  have o: "core_inv tp now s'" "flows [] (sm_ctrl s) (sm_ctrl s')" "responses s' = responses s"
    using freeze_ok [OF i(1) freeze(4,5)] freeze(6) by auto
  show ?thesis using o responses_resp [OF o(3)] i(2) by (simp add: freeze(1-3) sm_inv_def)
next
  case (unfreeze s now retry s')
  have i: "core_inv tp now s" "resp_inv s" using assms(2) unfreeze(1) by (simp_all add: sm_inv_def)
  have o: "core_inv tp now s'" "flows [] (sm_ctrl s) (sm_ctrl s')" "responses s' = responses s"
    using unfreeze_ok [OF i(1) unfreeze(4,5,6)] unfreeze(7) by auto
  show ?thesis using o responses_resp [OF o(3)] i(2) by (simp add: unfreeze(1-3) sm_inv_def)
next
  case (dequeue s now reqs takes pkt s')
  have i: "core_inv tp now s" "resp_inv s" using assms(2) dequeue(1) by (simp_all add: sm_inv_def)
  have q: "sm_packetQueue (s\<lparr>sm_dequeueEvent := None\<rparr>) \<noteq> []" using i(2) dequeue(4) by (simp add: resp_inv_def)
  note o = dequeue_ok [OF core_dequeue(2) [OF i(1)] q _ dequeue(5,6)]
  show ?thesis using o(1-3) by (simp add: dequeue(1-3) sm_inv_def)
next
  case (recvRetry now reqs s takes pkt s')
  have i: "core_inv tp now s" "resp_inv s" using assms(2) recvRetry(1) by (simp_all add: sm_inv_def)
  have r: "sm_retryResp s" "sm_dequeue tp now reqs takes s = Some (pkt, s')"
    using recvRetry(5) by (auto simp: sm_recvRetry_def cassert_def Option.bind_eq_Some_conv split: if_splits)
  have q: "sm_packetQueue s \<noteq> []" using i(2) r(1) by (simp add: resp_inv_def)
  have b: "2 \<le> length (sm_packetQueue s) \<and> sm_retryResp s" if "sm_dequeueEvent s \<noteq> None" using i(2) r(1) that by (simp add: resp_inv_def)
  note o = dequeue_ok [OF i(1) q b recvRetry(4) r(2)]
  show ?thesis using o(1-3) by (simp add: recvRetry(1-3) sm_inv_def)
next
  case (functional s pkt raw ps pkt' s' now)
  have i: "sm_inv tp now s" using assms(2) functional(1) by simp
  note o = recvFunctional_ok [OF i functional(4-6)]
  show ?thesis using o by (simp add: functional(1-3))
qed

theorem timed_run_ok:
  assumes "timed_run tp c es c'" "sm_inv tp (fst c) (snd c)"
  shows "sm_inv tp (fst c') (snd c') \<and> flows es (sm_ctrl (snd c)) (sm_ctrl (snd c')) \<and> fst c \<le> fst c'"
  using assms
proof (induction rule: timed_run.induct)
  case (step c es c' es' c'')
  then have i: "sm_inv tp (fst c') (snd c')" "flows es (sm_ctrl (snd c)) (sm_ctrl (snd c'))" "fst c \<le> fst c'" by simp_all
  note o = timed_step_ok [OF step.hyps(2) i(1)]
  show ?case using o i(3) flows_append [OF i(2)] by (simp add: order_trans)
qed simp

end
