(* ===== verification/Timed_Liveness.thy ===== *)
theory Timed_Liveness
  imports Timed_Memory
begin

text \<open>
  Progress of the memory in time. A checkpoint ends by a time that is known when it starts: one latency for every write in
  the longest queue of a bank, whatever requests arrive in between.
\<close>

section \<open>Checkpoints end\<close>

definition deadline :: "TimingParams \<Rightarrow> SimpleMemory \<Rightarrow> nat" where
  "deadline tp s = (case sm_unfreezeEvent s of None \<Rightarrow> 0 | Some t \<Rightarrow> unat t + unat (par_latency (tp_store tp)) * longest_queue (sm_banks s))"

lemma calm_deadline: "calm s s' \<Longrightarrow> deadline tp s' = deadline tp s \<and> sm_unfreezeEvent s' = sm_unfreezeEvent s"
  using closed_cong [of "sm_banks s'" "sm_banks s"] by (simp add: calm_def deadline_def split: option.splits)

lemma clock_add: "clock_ok tp now \<Longrightarrow> unat (now + par_latency (tp_store tp)) = unat now + unat (par_latency (tp_store tp))"
  by (simp add: clock_ok_def unat_add_lem [THEN iffD1])

lemma unfreeze_deadline:
  assumes inv: "core_inv tp now s" and e: "sm_unfreezeEvent s = Some now" and ck: "clock_ok tp now" and b: "am_bytesChannel (sm_mem s) < 2 ^ 64"
    and r: "sm_unfreeze tp now (s\<lparr>sm_unfreezeEvent := None\<rparr>) = Some (retry, s')"
  shows "sm_unfreezeEvent s' = None \<and> unat now \<le> deadline tp s \<or> sm_unfreezeEvent s' \<noteq> None \<and> deadline tp s' = deadline tp s"
proof (cases "db_pending (sm_banks s) = 0")
  case True
  have "core_inv tp now s'" "\<not> atc_ckpt (sm_ctrl s')" using unfreeze_last [OF inv e ck True b] r by auto
  then have "sm_unfreezeEvent s' = None" using core_invD(2) [of tp now s'] by (auto simp: flag_inv_def)
  then show ?thesis using e by (simp add: deadline_def)
next
  case False
  then have n: "longest_queue (sm_banks s) \<noteq> 0" using longest_queue_0 by simp
  have o: "sm_unfreezeEvent s' = Some (now + par_latency (tp_store tp))" "longest_queue (sm_banks s') = longest_queue (sm_banks s) - 1"
    using unfreeze_round [OF inv e ck False] r by auto
  obtain k where "longest_queue (sm_banks s) = Suc k" using n by (cases "longest_queue (sm_banks s)") simp_all
  then show ?thesis using o e clock_add [OF ck] by (simp add: deadline_def)
qed

lemma step_deadline:
  assumes st: "timed_step tp c es c'" and inv: "sm_inv tp (fst c) (snd c)" and e: "sm_unfreezeEvent (snd c) \<noteq> None"
  shows "sm_unfreezeEvent (snd c') = None \<and> unat (fst c') \<le> deadline tp (snd c) \<or>
    sm_unfreezeEvent (snd c') \<noteq> None \<and> deadline tp (snd c') = deadline tp (snd c)"
proof -
  obtain u where u: "sm_unfreezeEvent (snd c) = Some u" using e by blast
  have core: "core_inv tp (fst c) (snd c)" "resp_inv (snd c)" using inv by (simp_all add: sm_inv_def)
  have still: ?thesis if "calm (snd c) (snd c')" using calm_deadline [OF that] e by simp
  show ?thesis using st
  proof cases
    case (advance now t s)
    then show ?thesis using e by simp
  next
    case (request rnd now pkt s taken s')
    have "calm s s'" using recv_env_ok(4) [OF _ request(4,5)] core(1) by (simp add: request(1))
    then show ?thesis using still by (simp add: request(1,3))
  next
    case (release s now retry s')
    have "s' = s\<lparr>sm_releaseEvent := None, sm_isBusy := False, sm_retryReq := False\<rparr>"
      using release_ok(1) [of tp now s now] core(1) release by simp
    then show ?thesis using still by (simp add: release(1,3) calm_def)
  next
    case (freeze s now retry s')
    then show ?thesis using freeze_phase(8) [of tp now s] core(1) e by simp
  next
    case (unfreeze s now retry s')
    have "core_inv tp now s" using core(1) unfreeze(1) by simp
    from unfreeze_deadline [OF this unfreeze(4-7)] show ?thesis by (simp add: unfreeze(1,3))
  next
    case (dequeue s now reqs takes pkt s')
    let ?s = "s\<lparr>sm_dequeueEvent := None\<rparr>"
    have q: "sm_packetQueue ?s \<noteq> []" using core(2) dequeue(1,4) by (simp add: resp_inv_def)
    have "core_inv tp now ?s" using core(1) dequeue(1) by (intro core_dequeue(2)) simp
    from dequeue_ok(4) [OF this q _ dequeue(5,6)] have "calm ?s s'" by simp
    then have "calm s s'" by (simp add: calm_def)
    then show ?thesis using still by (simp add: dequeue(1,3))
  next
    case (recvRetry now reqs s takes pkt s')
    have r: "sm_retryResp s" "sm_dequeue tp now reqs takes s = Some (pkt, s')"
      using recvRetry(5) by (auto simp: sm_recvRetry_def cassert_def Option.bind_eq_Some_conv split: if_splits)
    have i: "core_inv tp now s" "resp_inv s" using core recvRetry(1) by simp_all
    have q: "sm_packetQueue s \<noteq> []" using i(2) r(1) by (simp add: resp_inv_def)
    have b: "2 \<le> length (sm_packetQueue s) \<and> sm_retryResp s" if "sm_dequeueEvent s \<noteq> None" using i(2) r(1) that by (simp add: resp_inv_def)
    from dequeue_ok(4) [OF i(1) q b recvRetry(4) r(2)] show ?thesis using still by (simp add: recvRetry(1,3))
  next
    case (functional s pkt raw ps pkt' s' now)
    have "sm_inv tp now s" using inv functional(1) by simp
    from recvFunctional_ok(3) [OF this functional(4-6)] show ?thesis using still by (simp add: functional(1,3))
  qed
qed

lemma timed_run_trans: "timed_run tp c' es' c'' \<Longrightarrow> timed_run tp c es c' \<Longrightarrow> timed_run tp c (es @ es') c''"
  by (induction rule: timed_run.induct) (simp_all add: timed_run.step flip: append_assoc)

theorem run_deadline:
  assumes "timed_run tp c es c'" "sm_inv tp (fst c) (snd c)" "sm_unfreezeEvent (snd c) \<noteq> None"
  shows "sm_unfreezeEvent (snd c') \<noteq> None \<and> deadline tp (snd c') = deadline tp (snd c) \<or>
    (\<exists>c1 es1 es2. es = es1 @ es2 \<and> timed_run tp c es1 c1 \<and> timed_run tp c1 es2 c' \<and> sm_unfreezeEvent (snd c1) = None \<and>
       unat (fst c1) \<le> deadline tp (snd c))"
  using assms
proof (induction rule: timed_run.induct)
  case (step c es c' es' c'')
  have i: "sm_inv tp (fst c') (snd c')" using timed_run_ok [OF step.hyps(1) step.prems(1)] by simp
  consider (on) "sm_unfreezeEvent (snd c') \<noteq> None" "deadline tp (snd c') = deadline tp (snd c)"
    | (off) c1 es1 es2 where "es = es1 @ es2" "timed_run tp c es1 c1" "timed_run tp c1 es2 c'" "sm_unfreezeEvent (snd c1) = None" "unat (fst c1) \<le> deadline tp (snd c)"
    using step.IH [OF step.prems] by blast
  then show ?case
  proof cases
    case on
    have "timed_run tp c (es @ es') c''" using step.hyps by (rule timed_run.step)
    moreover have "timed_run tp c'' [] c''" by (rule timed_run.start)
    ultimately show ?thesis using step_deadline [OF step.hyps(2) i on(1)] on(2) by (metis append_Nil2)
  next
    case off
    have "timed_run tp c1 (es2 @ es') c''" using off(3) step.hyps(2) by (rule timed_run.step)
    then show ?thesis using off by (intro disjI2 exI [of _ c1] exI [of _ es1] exI [of _ "es2 @ es'"]) simp
  qed
qed simp

lemma ckpt_deadline_now: "sm_inv tp now s \<Longrightarrow> sm_unfreezeEvent s \<noteq> None \<Longrightarrow> unat now \<le> deadline tp s"
  by (auto simp: sm_inv_def core_inv_def event_inv_def deadline_def word_le_nat_alt intro: trans_le_add1)

end
