(* ===== verification/Timed_Init.thy ===== *)
theory Timed_Init
  imports Timed_Memory
begin

text \<open>
  The constructors of the memory establish the invariant of its runs. The host memory is attached after construction, as
  \<open>PhysicalMemory\<close> does it.
\<close>

definition powered :: "SimpleMemory \<Rightarrow> SimpleMemory" where
  "powered s = s\<lparr>sm_mem := setBackingStore (sm_mem s)\<rparr>"

lemma init_free_frame: "att_init_free is att = Some att' \<Longrightarrow> att_frame att att'"
  by (induction "is" arbitrary: att) (auto simp: Option.bind_eq_Some_conv dest!: att_queue_frame(2) intro: att_frame_trans)

lemma init_writes:
  assumes "AddrTransController_init phy dram len bb pb raw m = Some c"
  shows "nvm_writes (atc_att c) = 0" "dram_writes (atc_mc c) = 0" "totals (atc_mc c) = (0, 0)"
proof -
  obtain att mc where i: "AddrTransTable_init len bb raw = Some att" "MigrationController_init bb pb (int32 (uint (drop_bit pb dram))) = Some mc"
      "atc_att c = att" "atc_mc c = mc"
    using assms by (auto simp: AddrTransController_init_def Let_def Option.bind_eq_Some_conv)
  have "map epoch_writes (att_entries att) = map (\<lambda>_. 0) [0 ..< nat len]"
    using init_free_frame [OF i(1) [unfolded AddrTransTable_init_def]] by (simp add: att_frame_def ATTEntry_init_def)
  then show "nvm_writes (atc_att c) = 0" unfolding nvm_writes_def i(3) by (simp only: sum_list_0)
  have "dram_writes mc = 0" "totals mc = (0, 0)"
    using i(2) by (auto simp: MigrationController_init_def Let_def dram_writes_def totals_def Option.bind_eq_Some_conv)
  then show "dram_writes (atc_mc c) = 0" "totals (atc_mc c) = (0, 0)" by (simp_all only: i(4))
qed

lemma fresh_banks:
  assumes "2 ^ 17 \<le> cap" "cap < 2 ^ 47"
  shows "all_free t (DDR3Banks cap)" "length (db_indices (DDR3Banks cap)) = 16"
proof -
  have "busy_time (bank_of (DDR3Banks cap) ij) = 0" if "ij \<in> set (db_indices (DDR3Banks cap))" for ij
    using DDR3Banks_ok(4) [OF assms bank_of_get [OF that]] by (simp add: Bank_init_def)
  then show "all_free t (DDR3Banks cap)" by (simp add: all_free_def)
  show "length (db_indices (DDR3Banks cap)) = 16"
    by (simp add: db_indices_def DDR3Banks_def DRAMBanks_init_def upt_rec numeral_2_eq_2)
qed

lemma bank_capacity:
  assumes "ceilLog2 n = Some k" "2 ^ 16 < uint n" "uint n \<le> 2 ^ 46"
  shows "2 ^ 17 \<le> push_bit (nat k) (1 :: 64 word)" "push_bit (nat k) (1 :: 64 word) < 2 ^ 47"
proof -
  have n0: "n \<noteq> 0" "n \<noteq> 1" using assms(2) by auto
  have "int (2 ^ 16) < int (unat n)" "int (unat n) \<le> int (2 ^ 46)" using assms(2,3) by simp_all
  then have u: "2 ^ 16 < unat n" "unat n \<le> 2 ^ 46" by (simp_all only: of_nat_less_iff of_nat_le_iff)
  have k: "0 \<le> k" "unat n \<le> 2 ^ nat k" "2 ^ nat (k - 1) < unat n" using ceilLog2_ok [OF n0(1)] assms(1) n0(2) by auto
  have "(2 :: nat) ^ 16 < 2 ^ nat k" by (rule order.strict_trans2 [OF u(1) k(2)])
  then have "16 < nat k" by (rule power_less_imp_less_exp [rotated]) simp
  then have a: "17 \<le> nat k" by simp
  have "(2 :: nat) ^ nat (k - 1) < 2 ^ 46" by (rule order.strict_trans2 [OF k(3) u(2)])
  then have "nat (k - 1) < 46" by (rule power_less_imp_less_exp [rotated]) simp
  then have b: "nat k \<le> 46" using k(1) by linarith
  have p: "unat (push_bit (nat k) (1 :: 64 word)) = 2 ^ nat k"
    unfolding unsigned_push_bit_eq using b by (simp add: push_bit_eq_mult)
  have "(2 :: nat) ^ 17 \<le> 2 ^ nat k" using a by (intro power_increasing) simp_all
  then show "2 ^ 17 \<le> push_bit (nat k) (1 :: 64 word)" using p by (simp add: word_le_nat_alt)
  have "(2 :: nat) ^ nat k \<le> 2 ^ 46" using b by (intro power_increasing) simp_all
  then show "push_bit (nat k) (1 :: 64 word) < 2 ^ 47" using p by (simp add: word_less_nat_alt)
qed

text \<open>The memory that the constructors build, and what it needs of its configuration.\<close>

definition timed_config :: "AddrRange \<Rightarrow> 64 word \<Rightarrow> int \<Rightarrow> nat \<Rightarrow> nat \<Rightarrow> bool" where
  "timed_config rng dram len bb pb \<longleftrightarrow> atc_config (ar_size rng) dram len bb pb \<and> 0 < bb \<and> bb \<le> 26 \<and> \<not> ar_interleaved rng \<and>
     uint (ar_start rng) + uint (ar_size rng) \<le> 2 ^ 64 \<and>
     2 ^ 16 < uint (ar_size rng) + 3 * len * 2 ^ bb \<and> uint (ar_size rng) + 3 * len * 2 ^ bb \<le> 2 ^ 46"

lemma SimpleMemory_init_idle:
  assumes "SimpleMemory_init tp page_bytes rng dram len bb pb raw st = Some s"
  shows "\<not> sm_isBusy s" "\<not> sm_retryReq s" "\<not> sm_retryResp s" "sm_packetQueue s = []" "sm_waitStart s = 0" "sm_ckptBlocks s = []" "sm_releaseEvent s = None"
    "sm_freezeEvent s = None" "sm_unfreezeEvent s = None" "sm_dequeueEvent s = None" "am_range (sm_mem s) = rng" "am_locked (sm_mem s) = []"
    "am_bytesChannel (sm_mem s) = 0" "am_ckBusUtil (sm_mem s) = 0" "am_profBase (sm_mem s) = pf_set_op_latency (tp_lat_att_operate tp) (Profiler_init bb pb)"
  using assms by (auto simp: SimpleMemory_init_def AbstractMemory_init_def Let_def Option.bind_eq_Some_conv set_banks_def set_ctrl_def)

theorem powered_inv:
  assumes cfg: "timed_config rng dram len bb pb" and raw: "raw_idle len raw" and st: "counters st = (0, 0, 0)"
    and r: "SimpleMemory_init tp page_bytes rng dram len bb pb raw st = Some s"
    and sim: "sim_ok (tp_store tp) (sm_ctrl s) (atc_mem (sm_ctrl s))"
  shows "sm_inv tp now (powered s)" "agrees (host st) (sm_ctrl (powered s))" "am_range (sm_mem (powered s)) = rng" "atc_phy_range (sm_ctrl (powered s)) = ar_size rng"
    "settled (sm_ctrl (powered s))" "atc_map (sm_ctrl (powered s)) = (\<lambda>_. None)"
proof -
  note cf = cfg [unfolded timed_config_def]
  obtain c where c: "AddrTransController_init (ar_size rng) dram len bb pb raw st = Some c" "atc_inv c" "atc_stats c" "\<not> atc_ckpt c" "atc_map c = (\<lambda>_. None)"
      "atc_mem c = st" "atc_phy_range c = ar_size rng" "atc_bits c = bb" "mc_page_bits (atc_mc c) = pb"
      "uint (atc_Size c) = uint (ar_size rng) + 3 * len * 2 ^ bb"
    using AddrTransController_init_ok [of "ar_size rng" dram len bb pb raw st] cf raw by blast
  obtain k where k: "ceilLog2 (atc_Size c) = Some k" using r by (auto simp: SimpleMemory_init_def AbstractMemory_init_def c(1) hostSize_def Option.bind_eq_Some_conv)
  define db where "db = DDR3Banks (push_bit (nat k) 1)"
  define c' where "c' = c\<lparr>atc_mem := st\<lparr>hs_banks := db\<rparr>\<rparr>"
  have cap: "2 ^ 17 \<le> push_bit (nat k) (1 :: 64 word)" "push_bit (nat k) (1 :: 64 word) < 2 ^ 47" using bank_capacity [OF k] cf c(10) by simp_all
  note f = fresh_banks [OF cap, folded db_def] DDR3Banks_ok(2) [OF cap, folded db_def]
  note s = SimpleMemory_init_idle [OF r]
  have sc: "sm_ctrl s = c'"
    using r by (auto simp: SimpleMemory_init_def AbstractMemory_init_def c(1,6) k hostSize_def Let_def Option.bind_eq_Some_conv set_banks_def set_ctrl_def c'_def db_def)
  have inv: "atc_inv c'" "atc_stats c'" "\<not> atc_ckpt c'" using c(2-4) by (simp_all add: c'_def)
  have cm: "atc_phy_range c' = ar_size rng" "atc_bits c' = bb" "mc_page_bits (atc_mc c') = pb" "atc_mem c' = st\<lparr>hs_banks := db\<rparr>" "atc_map c' = (\<lambda>_. None)"
    using c by (simp_all add: c'_def)
  have run: "run_inv (tp_store tp) (RUN, c')" using inv sim by (simp add: run_inv_def mem_inv_def sc)
  have cnt: "counted c'" using init_writes [OF c(1)] st by (simp add: counted_counters c'_def totals_def)
  have am: "ar_end rng = ar_start rng + ar_size rng - 1" using cf by (simp add: ar_size_def ar_interleaved_def)
  have "(2 :: int) ^ bb \<le> 2 ^ 26" using cf by (intro power_increasing) simp_all
  then have fi: "fits c'" using cf f(2) by (simp add: fits_def cm)
  have p: "sm_ctrl (powered s) = c'" "am_range (sm_mem (powered s)) = rng" "sm_banks (powered s) = db"
    by (simp_all add: powered_def setBackingStore_def s sc sm_banks_def cm)
  have "frame_inv (sm_mem (powered s))"
    using cf am fi cm by (simp add: frame_inv_def am_ok_def prof_ok_def p) (simp add: powered_def setBackingStore_def s pf_set_op_latency_def Profiler_init_def one_each_def)
  moreover have "phase_of (powered s) = RUN" using inv(3) by (simp add: phase_of_def p) (simp add: powered_def s)
  ultimately have "ctrl_inv (tp_store tp) (phase_of (powered s)) (sm_mem (powered s))" using run cnt by (simp add: ctrl_inv_def p books_def)
  moreover have "flag_inv (powered s)" using inv(3) by (simp add: flag_inv_def p) (simp add: powered_def s isWait_def)
  moreover have "bus_inv 0 (sm_mem (powered s))" by (simp add: bus_inv_def powered_def setBackingStore_def s)
  moreover have "sm_freezeEvent (powered s) = None" "sm_unfreezeEvent (powered s) = None" by (simp_all add: powered_def s)
  moreover have "event_inv now (powered s)" "resp_inv (powered s)" by (simp_all add: event_inv_def resp_inv_def powered_def s)
  ultimately show "sm_inv tp now (powered s)" using f(1,3) by (simp add: sm_inv_def core_inv_def bank_inv_def outstanding_def p)
  show "agrees (host st) (sm_ctrl (powered s))" by (simp add: agrees_def logical_def p cm tr_def loc_def)
  show "am_range (sm_mem (powered s)) = rng" "atc_phy_range (sm_ctrl (powered s)) = ar_size rng" by (simp_all add: p cm)
  show "settled (sm_ctrl (powered s))" using init_writes [OF c(1)] st by (simp add: settled_def tallies_def totals_def p c'_def)
  show "atc_map (sm_ctrl (powered s)) = (\<lambda>_. None)" by (simp add: p cm)
qed

text \<open>With such a configuration and a range of whole pages the constructors return.\<close>

lemma SimpleMemory_init_returns:
  assumes cfg: "timed_config rng dram len bb pb" and raw: "raw_idle len raw" and pages: "ar_size rng mod page_bytes = 0"
  shows "\<exists>s. SimpleMemory_init tp page_bytes rng dram len bb pb raw st = Some s \<and> atc_inv (sm_ctrl s) \<and>
    db_ok (sm_banks s) \<and> db_row_buffer_size (sm_banks s) = 8192 \<and> atc_bits (sm_ctrl s) = bb \<and> mc_page_bits (atc_mc (sm_ctrl s)) = pb \<and>
    mc_ptt_capacity (atc_mc (sm_ctrl s)) = uint (drop_bit pb dram) + uint (drop_bit pb dram) div 16 \<and>
    uint (atc_Size (sm_ctrl s)) = uint (ar_size rng) + 3 * len * 2 ^ bb"
proof -
  note cf = cfg [unfolded timed_config_def]
  obtain c where c: "AddrTransController_init (ar_size rng) dram len bb pb raw st = Some c" "atc_inv c" "atc_mem c = st" "atc_bits c = bb" "mc_page_bits (atc_mc c) = pb"
      "mc_ptt_capacity (atc_mc c) = uint (drop_bit pb dram) + uint (drop_bit pb dram) div 16"
      "uint (atc_Size c) = uint (ar_size rng) + 3 * len * 2 ^ bb"
    using AddrTransController_init_ok [of "ar_size rng" dram len bb pb raw st] cf raw by blast
  have "atc_Size c \<noteq> 0" using c(7) cf by auto
  then obtain k where k: "ceilLog2 (atc_Size c) = Some k" using ceilLog2_ok by blast
  have cap: "2 ^ 17 \<le> push_bit (nat k) (1 :: 64 word)" "push_bit (nat k) (1 :: 64 word) < 2 ^ 47" using bank_capacity [OF k] cf c(7) by simp_all
  note d = DDR3Banks_ok(1,3) [OF cap]
  obtain s where s: "SimpleMemory_init tp page_bytes rng dram len bb pb raw st = Some s"
      "sm_ctrl s = c\<lparr>atc_mem := st\<lparr>hs_banks := DDR3Banks (push_bit (nat k) 1)\<rparr>\<rparr>"
    using pages k by (simp add: SimpleMemory_init_def AbstractMemory_init_def c(1,3) hostSize_def Let_def set_banks_def set_ctrl_def)
  then show ?thesis using c(2,4-7) d by (intro exI [of _ s]) (simp add: sm_banks_def atc_Size_def)
qed

end
