(* ===== verification/Spec2Isabelle.thy ===== *)
theory Spec2Isabelle
  imports Sample_Memory Timed_Liveness Timed_Init
begin

text \<open>
  A memory controller for hybrid memory with hardware checkpoints, and its host.

  \<^bold>\<open>The program.\<close> \<open>AddrTransController\<close> (\<open>src/addr_trans_controller.cc\<close>) stands between a processor and a memory that
  consists of a DRAM cache and non-volatile memory (NVM). Every block the program writes in an epoch is redirected, so that
  the state at the end of the previous epoch survives a crash. The redirections are entries of a translation table
  (\<open>src/addr_trans_table.cc\<close>) whose entries are threaded on intrusive queues by state (\<open>src/index_queue.cc\<close>); the redirected
  blocks live in slots of two version buffers (\<open>src/version_buffer.cc\<close>); pages that are written much are cached in DRAM
  (\<open>src/migration_controller.cc\<close>). At the end of an epoch pages migrate and a checkpoint writes the dirty blocks back. The
  controller runs in the simulator gem5: it moves data and asks for latencies through \<open>MemStore\<close> (\<open>src/mem_store.h\<close>), which
  \<open>AbstractMemory\<close> and \<open>SimpleMemory\<close> implement (\<open>src/gem5-stable/src/mem/abstract_mem.cc\<close>, \<open>simple_mem.cc\<close>) over an array of
  bytes and a model of DRAM banks (\<open>src/dram_banks.h\<close>); \<open>SimpleMemory\<close> also receives the packets (\<open>packet.cc\<close>,
  \<open>request.hh\<close>) and schedules the phases of the epoch.

  \<^bold>\<open>The model.\<close> A C++ object is a record, an enumeration a datatype, a method a function on the record that returns the
  new one. A method that can fail an \<open>assert\<close>, call \<open>panic\<close> or read outside of a vector returns an \<open>option\<close>; \<open>None\<close> is the
  abort. \<open>uint64_t\<close> is \<open>64 word\<close>; \<open>int\<close> is \<open>int\<close>, with \<open>int32\<close> written out where the source narrows or may overflow; a
  \<open>double\<close> is a rational. Members a constructor leaves uninitialised come from an argument \<open>raw\<close>. The arrays that objects
  share are passed along, so that a queue and the table whose entries carry its links are updated together.

  \<^item> \<open>Prelude\<close>, \<open>Block_Address\<close>: scalar types, aborts, block and offset of an address.
  \<^item> \<open>Profiling\<close> (\<open>src/profiler.h\<close>), \<open>Version_Buffer\<close>, \<open>Index_Queue\<close>, \<open>Addr_Trans_Table\<close>, \<open>Std_Heap\<close> and \<open>Migration\<close>: the
    parts of the controller with their invariants. \<open>Index_Queue\<close> has the locale \<open>index_array\<close> (links stored in an array),
    interpreted on the entries of the table; \<open>Std_Heap\<close> the locale \<open>weak_order\<close>, interpreted on the two orders of pages.
    \<open>Migration_Proofs\<close> proves what the page table and its heaps do; \<open>Block_Map\<close> and \<open>Slot_Owner\<close> view the table as a map and
    the slots as owned by its entries.
  \<^item> \<open>Mem_Store\<close>, \<open>Addr_Trans_Controller\<close>: the interface as the locale \<open>mem_store\<close> and the controller over any store. Inside of
    the locale \<open>Controller_Invariant\<close>, \<open>Controller_Blocks\<close>, \<open>Controller_Store\<close>, \<open>Controller_Epoch\<close>, \<open>Controller_Migrate\<close>,
    \<open>Controller_Init\<close> and \<open>Controller_Abort\<close> show that the invariant \<open>atc_inv\<close> is established and kept, that no operation but a
    store without room aborts, and that the translated memory is never disturbed.
  \<^item> \<open>Dram_Banks\<close>, \<open>Host_Memory\<close>: the banks, the array of bytes, latencies and virtual addresses of \<open>SimpleMemory\<close>; the
    interpretation \<open>sim\<close> of \<open>mem_store\<close> on them.
  \<^item> \<open>Flat_Memory\<close>, \<open>Memory_Run\<close>: the specification, a flat array of bytes, and the refinement: every interleaving of
    accesses with the phases of epochs (\<open>mem_step\<close>, \<open>mem_run\<close>) behaves as the array.
  \<^item> \<open>Int_Math\<close>, \<open>Addr_Ranges\<close>, \<open>Requests\<close>, \<open>Mem_Cmds\<close>, \<open>Packets\<close>, \<open>Packet_Functional\<close>: what the memory uses of gem5 under
    \<open>src/gem5-stable/src/base\<close> and \<open>src/gem5-stable/src/mem\<close>.
  \<^item> \<open>Abstract_Memory\<close>, \<open>Reservations\<close>, \<open>Memory_Access\<close>: accesses by packet, load-locked and store-conditional against an
    abstract monitor (locale \<open>exclusive_monitor\<close>), and the refinement of accesses to runs of \<open>Memory_Run\<close>.
  \<^item> \<open>Simple_Memory\<close>: the handlers of \<open>SimpleMemory\<close>: requests, the events \<open>release\<close>, \<open>freeze\<close>, \<open>unfreeze\<close> and \<open>dequeue\<close>, retries.
  \<^item> \<open>Checkpoint_Drain\<close>, \<open>Controller_Frames\<close>, \<open>Bus_Accounting\<close>, \<open>Write_Counts\<close>, \<open>Timing_Frames\<close>, \<open>Timed_Run\<close>: how banks drain a
    checkpoint, what the controller leaves alone, that the bytes counted on the bus are the blocks listed for the banks, that
    the three counts of writes agree, and the invariant of the memory in time.
  \<^item> \<open>Sample\<close>, \<open>Sample_Memory\<close>: a small memory on which the theorems are applied.

  \<^bold>\<open>What is shown.\<close> The memory refines a flat array (C1, C26); constructors establish the invariant (C2); loads are total and
  injective (C3); stores and writes abort exactly in two situations (C4, C27); epochs end (C5). The parts do what their
  callers rely on: buffers (C6, C7), queues (C8), table (C9), candidates for migration (C10), banks (C11, C12). The gem5 parts:
  ranges (C13, C14), integers (C15 to C17), commands and requests (C18 to C21), functional packets (C22 to C24),
  store-conditional (C25).

  \<^bold>\<open>Bounds.\<close> Loops over lists are structural recursion; the sift of the heaps and the loops over candidate divisors are recursive
  with a measure; walks along queues, the listing of the blocks of a page and the loops of migration are partial functions
  that are proved to return. The
  configurations considered (\<open>atc_config\<close>, \<open>sim_ok\<close>, \<open>fits\<close>) have at most \<open>2^30\<close> bytes in a block or a page, an address space
  that does not wrap around, and tables whose sizes in bytes fit into an \<open>int\<close>; beyond them the C++ code overflows.
  \<open>raw_idle\<close> says that the uninitialised states of unused table entries are not taken for dirty ones, which the code relies on.

  \<^bold>\<open>Not modelled.\<close> Debugging output, the \<open>MEMCK\<close> build, and registration and printing of statistics, because they do not
  influence the memory. The sinks \<open>Profiler::Null\<close> and \<open>Profiler::Overlap\<close> are profilers whose values nobody reads. The other
  parts of gem5 (processors, caches, buses, devices, the loop of the event queue, Python configuration) are only callers of
  the code above; benchmarks and scripts are not part of the system. What a peer of the port does and random latencies are
  arguments of the handlers.
\<close>

section \<open>The memory as a whole\<close>

text \<open>
  C1. The memory is a flat array of bytes. From the state the constructors build, along every sequence of loads,
  stores, functional writes, page migrations, checkpoint starts and checkpoint ends, every load returns the bytes that a plain
  array would return after the same writes, and the array is what the translation shows at the end.
\<close>

theorem memory_is_flat:
  assumes "atc_config phy dram len bb pb" "raw_idle len raw" "AddrTransController_init phy dram len bb pb raw m = Some s0"
    and "sim_ok p s0 m" "mem_run p (RUN, s0) es (ph, s)"
  shows "flat_trace es (host m) \<and> (\<forall>a < phy. logical s a = flat_result es (host m) a)"
proof -
  have i: "atc_inv s0" "atc_stats s0" "\<not> atc_ckpt s0" "atc_map s0 = (\<lambda>_. None)" "atc_mem s0 = m" "atc_phy_range s0 = phy"
    using AddrTransController_init_ok [OF assms(1,2), of m] assms(3) by auto
  have r: "run_inv p (RUN, s0)" using i assms(4) by (simp add: run_inv_def mem_inv_def)
  have ag: "agrees (host m) (snd (RUN, s0))" using i by (simp add: agrees_def logical_def tr_def loc_def)
  show ?thesis using run_refines [OF assms(5) r ag] i(6) geometry_fields [of s s0] by (simp add: agrees_def)
qed

theorem memory_is_flat_witness:
  "\<exists>bs s. mem_run sample_params (RUN, sample_state) [Write 64 [1, 2, 3], Internal, Internal, Internal, Read 64 bs] (RUN, s) \<and> bs = [1, 2, 3]"
proof -
  obtain bs s where r: "mem_run sample_params (RUN, sample_state) [Write 64 [1, 2, 3], Internal, Internal, Internal, Read 64 bs] (RUN, s)"
      "length bs = 3" using sample_run by blast
  have "sim_ok sample_params sample_state sample_host" using sample_inv(1) sample_facts by (simp add: mem_inv_def)
  then have "flat_trace [Write 64 [1, 2, 3], Internal, Internal, Internal, Read 64 bs] (host sample_host)"
    using memory_is_flat [OF sample_config sample_facts(1) _ r(1)] by blast
  then have "bs = [1, 2, 3]" using r(2) by (simp add: sample_host_def read_bytes_def write_bytes_def upt_rec)
  then show ?thesis using r(1) by blast
qed



text \<open>
  C3. Two physical addresses never share a place: loads of different addresses return, the places they read are different
  and lie inside the host memory, and loading changes neither the translation nor the memory.
\<close>

theorem loads_are_injective:
  assumes "mem_inv p s" "a < atc_phy_range s" "b < atc_phy_range s" "a \<noteq> b" "\<not> ignore_latency pf"
  shows "\<exists>x y pf1 pf2 s1 s2. atc_LoadAddr (SimpleMemory_store p s) a pf s = Some (x, pf1, s1) \<and>
    atc_LoadAddr (SimpleMemory_store p s1) b pf1 s1 = Some (y, pf2, s2) \<and> x \<noteq> y \<and> x < atc_Size s \<and> y < atc_Size s \<and>
    mem_inv p s2 \<and> atc_map s2 = atc_map s \<and> host (atc_mem s2) = host (atc_mem s)"
proof -
  obtain pf1 s1 where l: "atc_LoadAddr (SimpleMemory_store p s) a pf s = Some (tr (atc_bits s) (atc_map s) a, pf1, s1)"
      "flat_step p s s1" "\<not> ignore_latency pf1" "atc_map s1 = atc_map s" "host (atc_mem s1) = host (atc_mem s)"
    using load_flat [OF assms(1,2,5)] by blast
  have g: "atc_phy_range s1 = atc_phy_range s" "atc_bits s1 = atc_bits s" "mem_inv p s1"
    using l(2) geometry_fields [of s1 s] by (auto simp: flat_step_def)
  obtain pf2 s2 where m: "atc_LoadAddr (SimpleMemory_store p s1) b pf1 s1 = Some (tr (atc_bits s) (atc_map s) b, pf2, s2)"
      "flat_step p s1 s2" "atc_map s2 = atc_map s" "host (atc_mem s2) = host (atc_mem s)"
    using load_flat [OF g(3) _ l(3), of b] assms(3) g l(4,5) by auto
  have i: "atc_inv s" using assms(1) by (simp add: mem_inv_def)
  have "tr (atc_bits s) (atc_map s) a \<noteq> tr (atc_bits s) (atc_map s) b" using tr_inj [OF i assms(3,2)] assms(4) by metis
  then show ?thesis using l(1) m tr_below [OF i assms(2)] tr_below [OF i assms(3)] by (auto simp: flat_step_def)
qed

theorem loads_are_injective_witness:
  "\<exists>x y pf1 pf2 s1 s2. atc_LoadAddr (SimpleMemory_store sample_params sample_state) 0 (Profiler_init 6 12) sample_state = Some (x, pf1, s1) \<and>
    atc_LoadAddr (SimpleMemory_store sample_params s1) 65 pf1 s1 = Some (y, pf2, s2) \<and> x \<noteq> y"
proof -
  have "\<not> ignore_latency (Profiler_init 6 12)" by (simp add: Profiler_init_def)
  from loads_are_injective [OF sample_inv(1), of 0 65, OF _ _ _ this] show ?thesis by (auto simp: sample_facts)
qed

text \<open>
  C4. Exactly when a store aborts. A store inside one block aborts if and only if the translation table has no entry to give
  (every entry is taken and none can be recycled) or the block is a loan of a DRAM page while a checkpoint runs; the
  latter is the assertion of \<open>GetVirtMachAddr\<close> that \<open>StoreAddr\<close> always violates in that case.
\<close>

theorem store_abort_condition:
  assumes "mem_inv p s" "atc_stats s" "in_block s a n" "\<not> ignore_latency pf"
  shows "atc_StoreAddr (SimpleMemory_store p s) a (int n) pf s = None \<longleftrightarrow>
    \<not> store_room (drop_bit (atc_bits s) a) s \<or> loan_in_ckpt (drop_bit (atc_bits s) a) s"
  by (rule store_aborts_iff [OF assms])

theorem store_abort_condition_witness:
  "atc_StoreAddr (SimpleMemory_store sample_params sample_state) 64 3 (Profiler_init 6 12) sample_state \<noteq> None"
proof -
  have "\<not> ignore_latency (Profiler_init 6 12)" by (simp add: Profiler_init_def)
  from store_abort_condition [OF sample_inv(1) sample_facts(3) _ this, of 64 3] show ?thesis
    using sample_room by (simp add: sample_block)
qed

text \<open>
  C5. An epoch always ends. From any state of the running memory the migration of pages, the start and the end of the
  checkpoint return; no byte of the memory changes; every entry left in the translation table is clean; and as soon as the
  table has an entry at all, every store inside a block is accepted again.
\<close>

theorem epoch_ends:
  assumes "mem_inv p s" "\<not> atc_ckpt s" "atc_stats s" "\<not> ignore_latency pf"
  shows "\<exists>bl1 pf1 s1 bl2 pf2 s2 s3. atc_MigratePages (SimpleMemory_store p s) dr wr [] pf s = Some (bl1, pf1, s1) \<and>
    atc_BeginCheckpointing (SimpleMemory_store p s1) bl1 pf s1 = Some (bl2, pf2, s2) \<and>
    atc_FinishCheckpointing (SimpleMemory_store p s2) pf s2 = Some s3 \<and> mem_inv p s3 \<and> \<not> atc_ckpt s3 \<and>
    (\<forall>a < atc_phy_range s. logical s3 a = logical s a) \<and> (\<forall>t st m. atc_map s3 t = Some (st, m) \<longrightarrow> st = CLEAN) \<and>
    (0 < att_length (atc_att s) \<longrightarrow> (\<forall>a n. in_block s a n \<longrightarrow> atc_StoreAddr (SimpleMemory_store p s3) a (int n) pf s3 \<noteq> None))"
proof -
  obtain bl1 pf1 s1 where m: "atc_MigratePages (SimpleMemory_store p s) dr wr [] pf s = Some (bl1, pf1, s1)" "flat_step p s s1"
      "\<not> atc_ckpt s1" "tags (\<lambda>x. x = LOAN) (atc_map s1) = {}"
    using migrate_flat [OF assms] by blast
  have i1: "mem_inv p s1" using m(2) by (simp add: flat_step_def)
  obtain bl2 pf2 s2 where b: "atc_BeginCheckpointing (SimpleMemory_store p s1) bl1 pf s1 = Some (bl2, pf2, s2)" "flat_step p s1 s2"
      "atc_ckpt s2" "atc_stats s2" "\<forall>t st m. atc_map s2 t = Some (st, m) \<longrightarrow> st = CLEAN"
    using begin_flat [OF i1 m(3,4)] by blast
  have i2: "mem_inv p s2" using b(2) by (simp add: flat_step_def)
  obtain s3 where f: "atc_FinishCheckpointing (SimpleMemory_store p s2) pf s2 = Some s3" "flat_step p s2 s3" "\<not> atc_ckpt s3" "atc_stats s3"
      "atc_map s3 = atc_map s2"
    using finish_flat [OF i2 b(3,4)] by blast
  have fs: "flat_step p s s3" using flat_step_trans m(2) b(2) f(2) by blast
  have g: "geometry_of s3 = geometry_of s" "mem_inv p s3" using fs by (simp_all add: flat_step_def)
  have st: "atc_StoreAddr (SimpleMemory_store p s3) a (int n) pf s3 \<noteq> None" if "0 < att_length (atc_att s)" "in_block s a n" for a n
  proof -
    have "in_block s3 a n" using that(2) geometry_fields [OF g(1)] by (simp add: in_block_def)
    moreover have "store_room t s3" for t
      using that(1) geometry_entries [OF assms(1) g(2,1)] f(5) b(5) by (intro clean_room) auto
    moreover have "\<not> loan_in_ckpt t s3" for t using f(3) by (simp add: loan_in_ckpt_def)
    ultimately show ?thesis using store_aborts_iff [OF g(2) f(4) _ assms(4)] by blast
  qed
  have "\<forall>a < atc_phy_range s. logical s3 a = logical s a" using fs by (simp add: flat_step_def)
  moreover have "\<forall>t st m. atc_map s3 t = Some (st, m) \<longrightarrow> st = CLEAN" unfolding f(5) by (rule b(5))
  ultimately show ?thesis using m(1) b(1) f(1) g(2) f(3) st by blast
qed

theorem epoch_ends_witness:
  "\<exists>bl1 pf1 s1 bl2 pf2 s2 s3. atc_MigratePages (SimpleMemory_store sample_params sample_state) 0.33 0.67 [] (Profiler_init 6 12) sample_state = Some (bl1, pf1, s1) \<and>
    atc_BeginCheckpointing (SimpleMemory_store sample_params s1) bl1 (Profiler_init 6 12) s1 = Some (bl2, pf2, s2) \<and>
    atc_FinishCheckpointing (SimpleMemory_store sample_params s2) (Profiler_init 6 12) s2 = Some s3 \<and>
    atc_StoreAddr (SimpleMemory_store sample_params s3) 64 3 (Profiler_init 6 12) s3 \<noteq> None"
proof -
  have "\<not> ignore_latency (Profiler_init 6 12)" by (simp add: Profiler_init_def)
  from epoch_ends [OF sample_inv(1) sample_facts(4,3) this, of "0.33" "0.67"] obtain bl1 pf1 s1 bl2 pf2 s2 s3 where
    e: "atc_MigratePages (SimpleMemory_store sample_params sample_state) 0.33 0.67 [] (Profiler_init 6 12) sample_state = Some (bl1, pf1, s1)"
    "atc_BeginCheckpointing (SimpleMemory_store sample_params s1) bl1 (Profiler_init 6 12) s1 = Some (bl2, pf2, s2)"
    "atc_FinishCheckpointing (SimpleMemory_store sample_params s2) (Profiler_init 6 12) s2 = Some s3"
    and "0 < att_length (atc_att sample_state) \<longrightarrow> (\<forall>a n. in_block sample_state a n \<longrightarrow> atc_StoreAddr (SimpleMemory_store sample_params s3) a (int n) (Profiler_init 6 12) s3 \<noteq> None)"
    by blast
  moreover have "0 < att_length (atc_att sample_state)" "in_block sample_state 64 3" by (simp_all add: sample_facts sample_block)
  ultimately have "atc_StoreAddr (SimpleMemory_store sample_params s3) 64 (int 3) (Profiler_init 6 12) s3 \<noteq> None" by blast
  then have "atc_StoreAddr (SimpleMemory_store sample_params s3) 64 3 (Profiler_init 6 12) s3 \<noteq> None" unfolding of_nat_numeral .
  with e show ?thesis by blast
qed

section \<open>Tables and buffers\<close>

text \<open>
  C6. A version buffer never hands out a slot that is in use. While a slot is free, \<open>SlotAlloc\<close> returns the address of
  one, moves exactly that slot to the slots in use, and keeps every slot in exactly one state.
\<close>

theorem slot_alloc_fresh:
  assumes "vb_geometry vb" "vb_inv vb" "vb_sets vb VB_FREE \<noteq> {}"
  shows "\<exists>i vb'. vb_SlotAlloc pf vb = Some (vb_addr vb i, pf_AddBufferOp pf, vb') \<and> i \<in> vb_sets vb VB_FREE \<and> vb_inv vb' \<and>
    vb_sets vb' IN_USE = insert i (vb_sets vb IN_USE) \<and> vb_sets vb' VB_FREE = vb_sets vb VB_FREE - {i} \<and>
    (\<forall>j \<in> vb_sets vb IN_USE. vb_addr vb j \<noteq> vb_addr vb i)"
proof -
  note a = vb_SlotAlloc_eq(1) [OF assms, where pf = pf] vb_SlotAlloc_eq(2) [OF assms]
  let ?i = "Min (vb_sets vb VB_FREE)"
  let ?vb = "vb_move ?i VB_FREE IN_USE vb"
  have "vb_addr vb j \<noteq> vb_addr vb ?i" if j: "j \<in> vb_sets vb IN_USE" for j
  proof
    assume "vb_addr vb j = vb_addr vb ?i"
    then have "j = ?i" using vb_addr_inj [OF assms(1)] vb_inv_slot [OF assms(2) j] vb_inv_slot [OF assms(2) a(2)] by simp
    then show False using vb_inv_disjoint [OF assms(2) j] a(2) by blast
  qed
  moreover have "vb_inv ?vb" using vb_inv_move [OF assms(2) a(2), of IN_USE] by simp
  moreover have "vb_sets ?vb IN_USE = insert ?i (vb_sets vb IN_USE)" "vb_sets ?vb VB_FREE = vb_sets vb VB_FREE - {?i}"
    by (simp_all add: vb_sets_move)
  ultimately show ?thesis using a by (intro exI [of _ ?i] exI [of _ ?vb]) simp
qed

theorem slot_alloc_fresh_witness:
  "\<exists>i vb'. vb_SlotAlloc (Profiler_init 6 12) (vb_set_addr_base 0x4000 (VersionBuffer_init 4 6)) =
      Some (vb_addr (vb_set_addr_base 0x4000 (VersionBuffer_init 4 6)) i, pf_AddBufferOp (Profiler_init 6 12), vb') \<and>
    vb_inv vb' \<and> vb_sets vb' IN_USE = {i}"
proof -
  have "vb_geometry (vb_set_addr_base 0x4000 (VersionBuffer_init 4 6))" "vb_sets (vb_set_addr_base 0x4000 (VersionBuffer_init 4 6)) VB_FREE \<noteq> {}"
    by (simp_all add: vb_geometry_def vb_set_addr_base_def VersionBuffer_init_def aligned_uint)
  from slot_alloc_fresh [OF this(1) VersionBuffer_init_inv this(2), of "Profiler_init 6 12"] obtain i vb' where
    "vb_SlotAlloc (Profiler_init 6 12) (vb_set_addr_base 0x4000 (VersionBuffer_init 4 6)) =
      Some (vb_addr (vb_set_addr_base 0x4000 (VersionBuffer_init 4 6)) i, pf_AddBufferOp (Profiler_init 6 12), vb')" "vb_inv vb'"
    "vb_sets vb' IN_USE = insert i (vb_sets (vb_set_addr_base 0x4000 (VersionBuffer_init 4 6)) IN_USE)" by blast
  then show ?thesis by (auto simp: vb_set_addr_base_def VersionBuffer_init_def)
qed

text \<open>
  C7. A backup outlives exactly one checkpoint. \<open>ClearBackup\<close> returns, frees the slots that were backed up before the
  last checkpoint, ages the slots backed up since, and leaves the slots in use alone.
\<close>

theorem backup_ages:
  assumes "vb_inv vb" "0 \<le> vb_length vb"
  shows "\<exists>pf' vb'. vb_ClearBackup pf vb = Some (pf', vb') \<and> vb_inv vb' \<and> vb_sets vb' IN_USE = vb_sets vb IN_USE \<and>
    vb_sets vb' BACKUP0 = vb_sets vb BACKUP1 \<and> vb_sets vb' BACKUP1 = {} \<and> vb_sets vb' VB_FREE = vb_sets vb VB_FREE \<union> vb_sets vb BACKUP0"
  using vb_ClearBackup_eq [OF assms, of pf] vb_inv_aged [OF assms(1)] by (auto simp: Un_commute)

theorem backup_ages_witness:
  "\<exists>pf' vb'. vb_ClearBackup (Profiler_init 6 12) (VersionBuffer_init 4 6) = Some (pf', vb') \<and> vb_sets vb' VB_FREE = {0, 1, 2, 3}"
proof -
  have "vb_inv (VersionBuffer_init 4 6)" using VersionBuffer_init_inv [of INVAL_ADDR 4 6] by (simp add: vb_set_addr_base_def VersionBuffer_init_def)
  moreover have "0 \<le> vb_length (VersionBuffer_init 4 6)" by (simp add: VersionBuffer_init_def)
  ultimately obtain pf' vb' where "vb_ClearBackup (Profiler_init 6 12) (VersionBuffer_init 4 6) = Some (pf', vb')"
      "vb_sets vb' VB_FREE = vb_sets (VersionBuffer_init 4 6) VB_FREE \<union> vb_sets (VersionBuffer_init 4 6) BACKUP0"
    using backup_ages [of "VersionBuffer_init 4 6" "Profiler_init 6 12"] by blast
  moreover have "{0..3 :: int} = {0, 1, 2, 3}" by auto
  ultimately show ?thesis by (simp add: VersionBuffer_init_def)
qed



text \<open>
  C9. What is entered into the translation table is found again: after \<open>Setup\<close> of an unused tag, \<open>Lookup\<close> of the tag returns
  the entry, which holds the tag, the base and the state that were set up, and the tags that were in the table before still
  lead to their entries.
\<close>

theorem setup_then_lookup:
  assumes "att_rep att qs" "att_tag_index att t = None" "qs (StateIndex FREE) = i # rest" "st \<noteq> FREE"
  shows "\<exists>att1 att2 e. att_Setup t b st pf att = Some (i, pf_AddTableOp pf, att1) \<and>
    att_Lookup t pf att1 = Some (i, pf_AddTableOp pf, att2) \<and> att_At i att2 = Some e \<and>
    phy_tag e = t \<and> mach_base e = b \<and> att_state e = st \<and> (\<forall>u. u \<noteq> t \<longrightarrow> att_tag_index att2 u = att_tag_index att u)"
proof -
  obtain att1 where s: "att_Setup t b st pf att = Some (i, pf_AddTableOp pf, att1)"
      "att_effect att att1 i ((ent att i)\<lparr>att_state := st, phy_tag := t, mach_base := b\<rparr>)"
      "att_rep att1 (requeue (StateIndex FREE) (StateIndex st) i qs)" "att_tag_index att1 = (att_tag_index att)(t \<mapsto> i)"
    using att_Setup_rep [OF assms, of b pf] by (elim exE conjE)
  have h: "att_tag_index att1 t = Some i" by (simp add: s(4))
  obtain att2 qs2 where l: "att_Lookup t pf att1 = Some (i, pf_AddTableOp pf, att2)" "same_payload att1 att2" and q2: "att_rep att2 qs2"
    using att_Lookup_hit [OF s(3) h, of pf] by (elim exE conjE)
  have "att_live att1 (requeue (StateIndex FREE) (StateIndex st) i qs) i" using h att_index_iff [OF s(3)] by blast
  then have r1: "0 \<le> i" "i < int (length (att_entries att1))" using att_live_range [OF s(3)] by blast+
  have len: "length (att_entries att1) = length (att_entries att)" "length (att_entries att2) = length (att_entries att1)"
    using s(2) same_payload_length [OF l(2)] by (simp_all add: att_effect_def)
  note e1 = att_effect_this [OF s(2) r1(1)]
  note e2 = same_payload_ent [OF l(2) r1]
  have "att_At i att2 = Some (ent att2 i)" using att_At_rep [OF q2 r1(1)] r1(2) len att_rep_length [OF q2] by simp
  moreover have "phy_tag (ent att2 i) = t" "mach_base (ent att2 i) = b" "att_state (ent att2 i) = st"
    using e1 e2 r1(2) len by simp_all
  moreover have "att_tag_index att2 u = att_tag_index att u" if "u \<noteq> t" for u
    using l(2) s(4) that by (simp add: same_payload_def)
  ultimately show ?thesis using s(1) l(1) by (intro exI [of _ att1] exI [of _ att2] exI [of _ "ent att2 i"]) simp
qed

theorem setup_then_lookup_witness:
  "\<exists>att att1 att2 e. AddrTransTable_init 2 6 sample_raw = Some att \<and>
    att_Setup 5 0x4040 DIRTY (Profiler_init 6 12) att = Some (0, pf_AddTableOp (Profiler_init 6 12), att1) \<and>
    att_Lookup 5 (Profiler_init 6 12) att1 = Some (0, pf_AddTableOp (Profiler_init 6 12), att2) \<and> att_At 0 att2 = Some e \<and> mach_base e = 0x4040"
proof -
  obtain att where a: "AddrTransTable_init 2 6 sample_raw = Some att" "att_rep att ((\<lambda>_. [])(StateIndex FREE := [0 .. 2 - 1]))"
      "att_tag_index att = (\<lambda>_. None)"
    using AddrTransTable_init_rep [of 2 6 sample_raw] by auto
  have "((\<lambda>_. [])(StateIndex FREE := [0 .. 2 - 1])) (StateIndex FREE) = 0 # [1 :: int]" by (simp add: upto_rec1)
  from setup_then_lookup [OF a(2) _ this, of 5 DIRTY "0x4040" "Profiler_init 6 12"] a(3) obtain att1 att2 e where
    "att_Setup 5 0x4040 DIRTY (Profiler_init 6 12) att = Some (0, pf_AddTableOp (Profiler_init 6 12), att1)"
    "att_Lookup 5 (Profiler_init 6 12) att1 = Some (0, pf_AddTableOp (Profiler_init 6 12), att2)" "att_At 0 att2 = Some e" "mach_base e = 0x4040"
    by auto
  with a(1) show ?thesis by blast
qed

text \<open>
  C10. Migration takes the best candidates. After \<open>InputBlocks\<close> has gathered the statistics of the epoch, extraction of
  an NVM page returns one whose dirty ratio is maximal among all pages of the table's blocks, and extraction of a DRAM
  page one that no page of the page table precedes; nothing is returned only when there is none.
\<close>

theorem best_candidates:
  assumes "mc_geometry mc" "mc_inv mc" "mc_counted mc" "mc_nvm_pages mc = []" "mc_nvm_heap mc = []" "mc_dram_heap mc = []"
    "\<And>e. e \<in> set es \<Longrightarrow> \<not> att_active e \<Longrightarrow> epoch_writes e = 0"
  shows "\<exists>mc' ps n pf1 mc1 d pf2 mc2. mc_InputBlocks es mc = Some mc' \<and> nvm_pages_rep mc es ps \<and>
    mc_ExtractNVMPage pf mc' = Some (n, pf1, mc1) \<and> mc_ExtractDRAMPage pf mc' = Some (d, pf2, mc2) \<and>
    (case n of None \<Rightarrow> ps = [] | Some n \<Rightarrow> n \<in> nvm_stats mc ` set ps \<and> (\<forall>p \<in> set ps. np_dirty_ratio (nvm_stats mc p) \<le> np_dirty_ratio n)) \<and>
    (case d of None \<Rightarrow> mc_entries mc = []
     | Some d \<Rightarrow> d \<in> dram_stats mc ` set (mc_entries mc) \<and> (\<forall>p \<in> set (mc_entries mc). \<not> dram_less d (dram_stats mc p)))"
proof -
  obtain mc' ps where m: "mc_InputBlocks es mc = Some mc'" "mc_core mc' = mc_core mc" "mc_nvm_heap_filled mc'" "mc_dram_heap_filled mc'"
      "is_heap nvm_less (mc_nvm_heap mc')" "is_heap dram_less (mc_dram_heap mc')" "nvm_pages_rep mc es ps"
      "mset (mc_nvm_heap mc') = mset (map (nvm_stats mc) ps)" "mset (mc_dram_heap mc') = mset (map (dram_stats mc) (mc_entries mc))"
    by atomize_elim (rule mc_InputBlocks_ok [OF assms(1-6)], rule assms(7))
  have sn: "set (mc_nvm_heap mc') = nvm_stats mc ` set ps" using m(8) by (metis set_map set_mset_mset)
  have sd: "set (mc_dram_heap mc') = dram_stats mc ` set (mc_entries mc)" using m(9) by (metis set_map set_mset_mset)
  have n: "\<exists>n pf1 mc1. mc_ExtractNVMPage pf mc' = Some (n, pf1, mc1) \<and>
      (case n of None \<Rightarrow> ps = [] | Some n \<Rightarrow> n \<in> nvm_stats mc ` set ps \<and> (\<forall>p \<in> set ps. np_dirty_ratio (nvm_stats mc p) \<le> np_dirty_ratio n))"
    using mc_ExtractNVMPage_ok [OF m(3,5), of pf]
  proof (elim disjE exE conjE)
    assume a: "mc_nvm_heap mc' = []" "mc_ExtractNVMPage pf mc' = Some (None, pf, mc')"
    then show ?thesis using sn by simp
  next
    fix n heap
    assume a: "mc_ExtractNVMPage pf mc' = Some (Some n, pf_AddTableOp pf, mc'\<lparr>mc_nvm_heap := heap\<rparr>)"
      "mset (mc_nvm_heap mc') = add_mset n (mset heap)" "\<forall>y \<in> set heap. np_dirty_ratio y \<le> np_dirty_ratio n"
    have "nvm_stats mc ` set ps = insert n (set heap)" using a(2) sn by (metis set_mset_add_mset_insert set_mset_mset)
    then show ?thesis using a(1,3) by auto
  qed
  have d: "\<exists>d pf2 mc2. mc_ExtractDRAMPage pf mc' = Some (d, pf2, mc2) \<and> (case d of None \<Rightarrow> mc_entries mc = []
     | Some d \<Rightarrow> d \<in> dram_stats mc ` set (mc_entries mc) \<and> (\<forall>p \<in> set (mc_entries mc). \<not> dram_less d (dram_stats mc p)))"
    using mc_ExtractDRAMPage_ok [OF m(4,6), of pf]
  proof (elim disjE exE conjE)
    assume a: "mc_dram_heap mc' = []" "mc_ExtractDRAMPage pf mc' = Some (None, pf, mc')"
    then show ?thesis using sd by simp
  next
    fix d heap
    assume a: "mc_ExtractDRAMPage pf mc' = Some (Some d, pf_AddTableOp pf, mc'\<lparr>mc_dram_heap := heap\<rparr>)"
      "mset (mc_dram_heap mc') = add_mset d (mset heap)" "\<forall>y \<in> set heap. \<not> dram_less d y"
    have "dram_stats mc ` set (mc_entries mc) = insert d (set heap)" using a(2) sd by (metis set_mset_add_mset_insert set_mset_mset)
    moreover have "\<not> dram_less d d" by (simp add: dram_less_lex)
    ultimately show ?thesis using a(1,3) by auto
  qed
  from n d show ?thesis using m(1,7) by (elim exE conjE) (intro exI conjI, assumption+)
qed

theorem best_candidates_witness:
  "\<exists>mc mc' n pf1 mc1. MigrationController_init 6 12 2 = Some mc \<and> mc_InputBlocks [sample_raw 0] mc = Some mc' \<and>
    mc_ExtractNVMPage (Profiler_init 6 12) mc' = Some (n, pf1, mc1)"
proof -
  obtain mc where m: "MigrationController_init 6 12 2 = Some mc" "mc_inv mc" "mc_counted mc" "mc_block_bits mc = 6" "mc_page_bits mc = 12"
      "mc_nvm_pages mc = []" "mc_nvm_heap mc = []" "mc_dram_heap mc = []"
    using MigrationController_init_ok [of 2 6 12] by auto
  have "mc_geometry mc" using m(4,5) by (simp add: mc_geometry_def)
  from best_candidates [OF this m(2,3,6-8), of "[sample_raw 0]" "Profiler_init 6 12"] m(1)
  show ?thesis by (auto simp: sample_raw_def)
qed

section \<open>Banks\<close>

text \<open>
  C11. The place of an address in the banks determines its row: parsing never fails, gives a rank and a bank that exist,
  and from rank, bank and row the index of the row is computed back, as long as the address lies inside the banks.
\<close>

theorem bank_address_roundtrip:
  assumes "db_cfg db" "row_index a db < db_rows_per_bank db * db_ranks_per_channel db * db_banks_per_rank db"
  shows "\<exists>x. db_ParseAddr a db = Some x \<and> db_in (rank_ID x) (bank_ID x) db \<and>
    (row_ID x * db_ranks_per_channel db + rank_ID x) * db_banks_per_rank db + bank_ID x = row_index a db"
  using ParseAddr_eq [OF assms(1)] parsed_in [OF assms(1)] parsed_inverse [OF assms] by blast

theorem bank_address_roundtrip_witness:
  "\<exists>x. db_ParseAddr 0x12345 (DDR3Banks 0x40000) = Some x \<and> (row_ID x * 2 + rank_ID x) * 8 + bank_ID x = 9"
proof -
  have c: "db_cfg (DDR3Banks 0x40000)" using DDR3Banks_ok(1) [of "0x40000"] by (simp add: db_okD)
  have p: "db_ranks_per_channel (DDR3Banks 0x40000) = 2" "db_banks_per_rank (DDR3Banks 0x40000) = 8" "db_rows_per_bank (DDR3Banks 0x40000) = 2"
    "row_index 0x12345 (DDR3Banks 0x40000) = 9"
    by (simp_all add: DDR3Banks_def DRAMBanks_init_def row_index_def int32_id uint_div_distrib)
  show ?thesis using bank_address_roundtrip [OF c, of "0x12345"] by (auto simp: p)
qed

text \<open>
  C12. A checkpoint drains. When every bank is free, one round of writes starts a write in every bank that has one: it
  returns, the longest queue gets shorter by one, no write is lost between the queues and the banks that finish, and the
  next round is due exactly one latency later, or never if nothing is left.
\<close>

theorem checkpoint_round:
  assumes "db_ok db" "all_free now db" "lat \<noteq> 0" "unat now + unat lat < 2 ^ 64 - 1"
  shows "\<exists>ret db1 db'. db_Access_time now db = Some (ret, int (finishing now db), db1) \<and> db_mark_busy (now + lat) ret db1 = Some db' \<and>
    db_ok db' \<and> all_free (now + lat) db' \<and> longest_queue db' = longest_queue db - 1 \<and>
    db_pending db = db_pending db' + finishing (now + lat) db' \<and> db_NextTime now db' = (if db_pending db = 0 then 0 else now + lat)"
  using drain_round [OF assms] by (elim exE conjE) (intro exI conjI, assumption+)

theorem checkpoint_round_witness:
  "\<exists>db ret db1 db'. db_PushWrite 64 (DDR3Banks 0x40000) = Some db \<and> db_Access_time 0 db = Some (ret, int (finishing 0 db), db1) \<and>
    db_mark_busy (0 + 40000) ret db1 = Some db' \<and> longest_queue db' = longest_queue db - 1"
proof -
  have ok: "db_ok (DDR3Banks 0x40000)" using DDR3Banks_ok(1) [of "0x40000"] by simp
  obtain db where p: "db_PushWrite 64 (DDR3Banks 0x40000) = Some db" "db_ok db"
      "\<forall>i j. db_get i j db = map_option (\<lambda>b. if i = rank_ID (parsed 64 (DDR3Banks 0x40000)) \<and> j = bank_ID (parsed 64 (DDR3Banks 0x40000)) then b\<lparr>write_queue := write_queue b @ [parsed 64 (DDR3Banks 0x40000)]\<rparr> else b) (db_get i j (DDR3Banks 0x40000))"
    using db_PushWrite_ok [OF ok, of 64] by (elim exE conjE)
  have "busy_time b = 0" if i: "db_get i j db = Some b" for i j b
  proof -
    note g = p(3) [THEN spec, THEN spec, of i j]
    obtain b0 where b0: "db_get i j (DDR3Banks 0x40000) = Some b0" using i g by (cases "db_get i j (DDR3Banks 0x40000)") simp_all
    then have "b0 = Bank_init" using DDR3Banks_ok(4) [of "0x40000" i j b0] by simp
    then show ?thesis using i g b0 by (auto simp: Bank_init_def split: if_splits)
  qed
  then have "all_free 0 db" using bank_of_get by (fastforce simp: all_free_def)
  moreover have "(40000 :: 64 word) \<noteq> 0" "unat (0 :: 64 word) + unat (40000 :: 64 word) < 2 ^ 64 - 1" by simp_all
  ultimately have "\<exists>ret db1 db'. db_Access_time 0 db = Some (ret, int (finishing 0 db), db1) \<and>
    db_mark_busy (0 + 40000) ret db1 = Some db' \<and> longest_queue db' = longest_queue db - 1"
    using checkpoint_round [OF p(2), of 0 40000] by metis
  then show ?thesis using p(1) by metis
qed

section \<open>Address ranges and integer arithmetic\<close>

text \<open>
  C13. Merging interleaved ranges loses and doubles nothing: an address belongs to the merged range exactly if it
  belongs to exactly one of the ranges that were merged.
\<close>

theorem merged_range_partition:
  assumes "ar_merge rs = Some r" "rs \<noteq> []" "unat (intlvBits (hd rs)) \<le> 8"
  shows "ar_contains a r \<longleftrightarrow> (\<exists>!i. i < length rs \<and> ar_contains a (rs ! i))"
  by (rule merge_partition [OF assms])

theorem merged_range_partition_witness:
  "ar_merge [\<lparr>ar_start = 0, ar_end = 0xfff, intlvHighBit = 6, intlvBits = 1, intlvMatch = 0\<rparr>,
     \<lparr>ar_start = 0, ar_end = 0xfff, intlvHighBit = 6, intlvBits = 1, intlvMatch = 1\<rparr>] = Some (AddrRange_of 0 0xfff) \<and>
   (\<exists>!i. i < length [\<lparr>ar_start = 0, ar_end = 0xfff, intlvHighBit = 6, intlvBits = 1, intlvMatch = 0\<rparr>,
     \<lparr>ar_start = 0, ar_end = 0xfff, intlvHighBit = 6, intlvBits = 1, intlvMatch = 1\<rparr>] \<and>
     ar_contains 0x40 ([\<lparr>ar_start = 0, ar_end = 0xfff, intlvHighBit = 6, intlvBits = 1, intlvMatch = 0\<rparr>,
     \<lparr>ar_start = 0, ar_end = 0xfff, intlvHighBit = 6, intlvBits = 1, intlvMatch = 1\<rparr>] ! i))"
proof -
  let ?rs = "[\<lparr>ar_start = 0, ar_end = 0xfff, intlvHighBit = 6, intlvBits = 1, intlvMatch = 0\<rparr>,
     \<lparr>ar_start = 0, ar_end = 0xfff, intlvHighBit = 6, intlvBits = 1, intlvMatch = 1\<rparr>]"
  have m: "ar_merge ?rs = Some (AddrRange_of 0 0xfff)" by (simp add: ar_merge_def ar_mergesWith_def)
  have "ar_contains 0x40 (AddrRange_of 0 0xfff)" by (simp add: contains_plain)
  then show ?thesis using merged_range_partition [OF m, of "0x40"] m by simp
qed








section \<open>Commands, requests and packets\<close>

text \<open>
  C18. The table of commands is consistent: every command but the invalid one is either a request or a response; the
  response to a request that needs one is a response, needs none itself, is not an error, and reads and writes as its
  request does; the data travels with the request of a write and with the response of a read.
\<close>

theorem command_table:
  "(c \<noteq> InvalidCmd \<longrightarrow> cmd_isRequest c \<noteq> cmd_isResponse c) \<and>
   (cmd_needsResponse c \<longrightarrow> cmd_isRequest c \<and> cmd_isResponse (responseCommand c) \<and> \<not> cmd_needsResponse (responseCommand c) \<and>
     \<not> cmd_isError (responseCommand c) \<and> cmd_isRead (responseCommand c) = cmd_isRead c \<and> cmd_isWrite (responseCommand c) = cmd_isWrite c \<and>
     cmd_hasData c = cmd_isWrite c \<and> cmd_hasData (responseCommand c) = cmd_isRead c) \<and>
   (cmd_needsResponse c \<longleftrightarrow> responseCommand c \<noteq> InvalidCmd)"
  using request_or_response [of c] response_wf [of c] response_kind [of c] response_named [of c] by blast

theorem command_table_witness: "cmd_isResponse (responseCommand SwapReq) \<and> cmd_isRead (responseCommand SwapReq)"
  using command_table [of SwapReq] by (simp add: cmd_defs)


text \<open>
  C20. Reusing a request leaves nothing of its former life: after \<open>setPhys\<close> the request has the new physical address,
  size, time, requestor and flags (only the instruction-fetch flag is sticky), and asking for a virtual address,
  extra data or a program counter aborts.
\<close>

theorem request_reuse:
  assumes "0 \<le> sz"
  shows "\<exists>r'. setPhys a sz fl mid t r = Some r' \<and> getPaddr r' = Some a \<and> rq_getSize r' = Some sz \<and> rq_get_time r' = Some t \<and>
    rq_masterId r' = mid \<and> getVaddr r' = None \<and> getExtraData r' = None \<and> getPC r' = None \<and> contextId r' = contextId r \<and>
    threadId r' = threadId r \<and> getFlags r' = Some (fl OR (rq_flags r AND INST_FETCH))"
  by (rule setPhys_ok [OF assms])

theorem request_reuse_witness: "\<exists>r'. setPhys 0x1000 64 0 3 7 sample_request = Some r' \<and> getPaddr r' = Some 0x1000 \<and> getVaddr r' = None"
  using request_reuse [of 64 "0x1000" 0 3 7 sample_request] by auto

text \<open>
  C21. Splitting a request at an address inside it partitions its bytes: every byte of the request belongs to exactly one
  of the halves, no half is empty, and no byte is added.
\<close>

theorem request_split:
  assumes "getVaddr r = Some a" "getPaddr r = None" "0 \<le> rq_size r" "rq_size r < 2 ^ 31" "uint a + rq_size r < 2 ^ 64"
    "uint a < uint x" "uint x < uint a + rq_size r"
  shows "\<exists>r1 r2. splitOnVaddr x r = Some (r1, r2) \<and> (\<forall>y. vcovers r y \<longleftrightarrow> vcovers r1 y \<noteq> vcovers r2 y) \<and>
    0 < rq_size r1 \<and> 0 < rq_size r2 \<and> rq_size r1 + rq_size r2 = rq_size r"
  by (rule split_partition [OF assms])

theorem request_split_witness:
  "\<exists>r r1 r2. setVirt 0 0x1000 64 0 3 0 0 sample_request = Some r \<and> splitOnVaddr 0x1010 r = Some (r1, r2) \<and> rq_size r1 + rq_size r2 = rq_size r"
proof -
  obtain r where r: "setVirt 0 0x1000 64 0 3 0 0 sample_request = Some r" "getVaddr r = Some 0x1000" "rq_getSize r = Some 64" "getPaddr r = None"
    using setVirt_ok [of 64 0 "0x1000" 0 3 0 0 sample_request] by auto
  have "rq_size r = 64" using r(1) by (auto simp: setVirt_def)
  then show ?thesis using request_split [OF r(2,4), of "0x1010"] r(1) by auto
qed

text \<open>
  C22. A functional write patches a queued packet exactly where the two overlap: every byte of the queued data inside the
  write is replaced by the written byte, every other byte is kept, and the write goes on to the next packet.
\<close>

theorem functional_write_patches:
  assumes "packet_at p a n" "value_at v m d" "cmd_isWrite (pk_cmd p)" "\<not> cmd_isRead (pk_cmd p)" "getPtr p = Some src" "int (length src) = n"
  shows "\<exists>d'. checkFunctional raw v m (Some d) p = Some (False, Some d', p) \<and> length d' = length d \<and>
    (\<forall>k < length d. d' ! k = (if uint a \<le> uint v + int k \<and> uint v + int k < uint a + n then src ! nat (uint v + int k - uint a) else d ! k))"
  by (rule functional_write_ok [OF assms])

theorem functional_write_patches_witness:
  "\<exists>d'. checkFunctional (\<lambda>_. 0) 96 64 (Some (replicate 64 0)) (sample_packet WriteReq) = Some (False, Some d', sample_packet WriteReq) \<and> d' ! 0 = 7 \<and> d' ! 63 = 0"
proof -
  have "packet_at (sample_packet WriteReq) 64 64" "value_at 96 64 (replicate 64 0)" "cmd_isWrite (pk_cmd (sample_packet WriteReq))"
    "\<not> cmd_isRead (pk_cmd (sample_packet WriteReq))"
    by (simp_all add: packet_at_def value_at_def sample_packet_fields cmd_defs)
  from functional_write_patches [OF this sample_packet_fields(3), of "\<lambda>_. 0"] obtain d' where
    d: "checkFunctional (\<lambda>_. 0) 96 64 (Some (replicate 64 0)) (sample_packet WriteReq) = Some (False, Some d', sample_packet WriteReq)"
      "\<forall>k < 64. d' ! k = (if 64 \<le> 96 + int k \<and> 96 + int k < 64 + 64 then replicate 64 7 ! nat (96 + int k - 64) else replicate 64 0 ! k)"
    by auto
  have "d' ! 0 = 7" "d' ! 63 = 0" using d(2) [THEN spec, of 0] d(2) [THEN spec, of 63] by simp_all
  then show ?thesis using d(1) by blast
qed

text \<open>
  C23. A functional read that a queued packet covers is answered by it, with exactly the bytes at its address.
\<close>

theorem functional_read_covers:
  assumes "packet_at p a n" "value_at v m d" "cmd_isRead (pk_cmd p)" "readable p n" "uint v \<le> uint a" "uint a + n \<le> uint v + m"
  shows "\<exists>p'. checkFunctional raw v m (Some d) p = Some (True, Some d, p') \<and> pk_data p' = Some (take (nat n) (drop (nat (uint a - uint v)) d))"
  by (rule functional_read_ok [OF assms])

theorem functional_read_covers_witness:
  "\<exists>p'. checkFunctional (\<lambda>_. 0) 0 128 (Some (replicate 128 3)) (sample_packet ReadReq) = Some (True, Some (replicate 128 3), p') \<and>
    pk_data p' = Some (replicate 64 3)"
proof -
  have "packet_at (sample_packet ReadReq) 64 64" "value_at 0 128 (replicate 128 3)" "cmd_isRead (pk_cmd (sample_packet ReadReq))"
    by (simp_all add: packet_at_def value_at_def sample_packet_fields cmd_defs)
  from functional_read_covers [OF this sample_packet_fields(9), of "\<lambda>_. 0"] show ?thesis by auto
qed





section \<open>Accesses\<close>

text \<open>
  C26. Accesses refine the flat memory. Whatever packet the memory takes, a read, a write, a conditional or unconditional
  swap, a load-locked or a store-conditional, the access is a run of the memory of C1 whose reads are the bytes in the
  response and whose writes are the bytes of the request, written exactly if the access is not suppressed.
\<close>

theorem access_refines:
  assumes "run_inv p (ph, am_ctrl m)" "am_ok m" "packet_in m a n pkt" "\<not> ignore_latency pf"
    "cmd_isWrite (pk_cmd pkt) \<Longrightarrow> ph \<noteq> MIGRATED" "am_access isz p pkt pf m = Some (pkt', pf', m')"
  shows "mem_run p (ph, am_ctrl m) (access_events a pkt pkt') (ph, am_ctrl m') \<and> am_ok m'"
  using access_run [OF assms] by blast

theorem access_refines_witness:
  "\<exists>pkt' pf' m'. am_access 8 sample_params (sample_packet WriteReq) (Profiler_init 6 12) sample_memory = Some (pkt', pf', m') \<and>
    mem_run sample_params (RUN, sample_state) [Write 64 (replicate 64 7)] (RUN, am_ctrl m')"
proof -
  have r: "run_inv sample_params (RUN, am_ctrl sample_memory)" using sample_inv(2) by (simp add: sample_memory_ok)
  have pf: "\<not> ignore_latency (Profiler_init 6 12)" by (simp add: Profiler_init_def)
  obtain pkt' pf' m' where a: "am_access 8 sample_params (sample_packet WriteReq) (Profiler_init 6 12) sample_memory = Some (pkt', pf', m')"
    using sample_access by auto
  have "access_events 64 (sample_packet WriteReq) pkt' = [Write 64 (replicate 64 7)]"
    by (simp add: access_events_def store_done_def sample_packet_fields cmd_defs packet_bytes_def take_bit_eq_mod)
  then show ?thesis using access_refines [OF r sample_memory_ok(1) sample_packet_in pf _ a] a by (simp add: sample_memory_ok)
qed



end
